(* ===== verification/Sky_Prelude.thy ===== *)
theory Sky_Prelude
  imports Main "HOL-Library.AList" "HOL-Library.Word"
begin

text \<open>
  The prelude of the development: results of operations that may stop the process, folds over
  such operations, association lists as the model of the C++ hash containers, and the locale of
  invariants over runs that every stateful component uses.

  \<^item> A C++ operation that can call \<^verbatim>\<open>std::exit\<close>, fail an \<^verbatim>\<open>assert\<close>, throw or run into undefined behaviour
    returns \<open>abort + 'a\<close>: \<open>Inl\<close> says how the process stops, \<open>Inr\<close> carries the result.
  \<^item> A \<^verbatim>\<open>std::unordered_map\<close> is an association list with distinct keys. Its order is the iteration
    order of the container, which C++ leaves open: the theorems speak about \<open>map_of\<close>, about the
    keys, or about every list.
  \<^item> A \<^verbatim>\<open>std::unordered_set\<close> is a list without duplicates.
\<close>

section \<open>Operations that may stop the process\<close>

datatype abort = Exit_Process int | Assert_Failed | Undefined_Behaviour | Exception_Thrown | Runs_Forever

type_synonym 'a res = "abort + 'a"

definition rbind :: "'a res \<Rightarrow> ('a \<Rightarrow> 'b res) \<Rightarrow> 'b res" where
  "rbind m f = (case m of Inl e \<Rightarrow> Inl e | Inr x \<Rightarrow> f x)"

definition rassert :: "bool \<Rightarrow> 'a res \<Rightarrow> 'a res" where
  "rassert b m = (if b then m else Inl Assert_Failed)"

lemma rbind_simps [simp]:
  "rbind (Inl e) f = Inl e"
  "rbind (Inr x) f = f x"
  by (simp_all add: rbind_def)

lemma rbind_eq_Inr_iff: "rbind m f = Inr y \<longleftrightarrow> (\<exists>x. m = Inr x \<and> f x = Inr y)"
  by (cases m) simp_all

lemma rassert_simps [simp]:
  "rassert True m = m"
  "rassert False m = Inl Assert_Failed"
  by (simp_all add: rassert_def)

lemma rassert_eq_Inr_iff: "rassert b m = Inr y \<longleftrightarrow> b \<and> m = Inr y"
  by (simp add: rassert_def)

lemmas res_iffs = rbind_eq_Inr_iff rassert_eq_Inr_iff

text \<open>A loop over a container whose body may stop the process.\<close>

fun rfold :: "('e \<Rightarrow> 's \<Rightarrow> 's res) \<Rightarrow> 'e list \<Rightarrow> 's \<Rightarrow> 's res" where
  "rfold f [] s = Inr s"
| "rfold f (x # xs) s = rbind (f x s) (rfold f xs)"

lemma rfold_append: "rfold f (xs @ ys) s = rbind (rfold f xs s) (rfold f ys)"
  by (induction xs arbitrary: s) (auto simp: rbind_def split: sum.splits)

lemma rfold_inv:
  assumes "rfold f xs s = Inr t" and "P s"
    and "\<And>x u v. x \<in> set xs \<Longrightarrow> P u \<Longrightarrow> f x u = Inr v \<Longrightarrow> P v"
  shows "P t"
  using assms
proof (induction xs arbitrary: s)
  case Nil
  then show ?case by simp
next
  case (Cons x xs)
  from Cons.prems(1) obtain u where u: "f x s = Inr u" "rfold f xs u = Inr t"
    by (auto simp: rbind_eq_Inr_iff)
  then have "P u" using Cons.prems(2,3) by auto
  with u(2) show ?case using Cons.prems(3) by (intro Cons.IH) auto
qed

lemma rfold_total:
  assumes "P s" and "\<And>x u. x \<in> set xs \<Longrightarrow> P u \<Longrightarrow> \<exists>v. f x u = Inr v \<and> P v"
  shows "\<exists>t. rfold f xs s = Inr t \<and> P t"
  using assms
proof (induction xs arbitrary: s)
  case Nil
  then show ?case by simp
next
  case (Cons x xs)
  from Cons.prems obtain u where "f x s = Inr u" "P u" by fastforce
  moreover have "\<exists>t. rfold f xs u = Inr t \<and> P t"
    using \<open>P u\<close> Cons.prems(2) by (intro Cons.IH) auto
  ultimately show ?case by simp
qed

text \<open>The interface between a component and the facts about its runs: an operation per event, and
  an invariant that each operation keeps. Every stateful component interprets it.\<close>

locale invariant_run =
  fixes step :: "'e \<Rightarrow> 's \<Rightarrow> 's res" and inv :: "'s \<Rightarrow> bool"
  assumes step_inv: "inv s \<Longrightarrow> step e s = Inr t \<Longrightarrow> inv t"
begin

lemma run_inv: "inv s \<Longrightarrow> rfold step es s = Inr t \<Longrightarrow> inv t"
  by (rule rfold_inv [of step es s t inv]) (auto intro: step_inv)

lemma run_prefix_inv: "inv s \<Longrightarrow> rfold step (es @ es') s = Inr t \<Longrightarrow> \<exists>u. rfold step es s = Inr u \<and> inv u"
  by (auto simp: rfold_append rbind_eq_Inr_iff intro: run_inv)

end

section \<open>Association lists\<close>

definition keys :: "('k \<times> 'v) list \<Rightarrow> 'k list" where
  "keys m = map fst m"

definition has_key :: "'k \<Rightarrow> ('k \<times> 'v) list \<Rightarrow> bool" where
  "has_key k m \<longleftrightarrow> map_of m k \<noteq> None"

text \<open>\<^verbatim>\<open>try_emplace\<close>, \<^verbatim>\<open>emplace\<close>: the value goes in unless the key is there.\<close>

definition try_emplace :: "'k \<Rightarrow> 'v \<Rightarrow> ('k \<times> 'v) list \<Rightarrow> ('k \<times> 'v) list" where
  "try_emplace k v m = (if has_key k m then m else m @ [(k, v)])"

text \<open>\<^verbatim>\<open>unordered_set::insert\<close>.\<close>

definition set_insert :: "'a \<Rightarrow> 'a list \<Rightarrow> 'a list" where
  "set_insert x xs = (if x \<in> set xs then xs else xs @ [x])"

lemma has_key_iff: "has_key k m \<longleftrightarrow> k \<in> fst ` set m"
  by (simp add: has_key_def map_of_eq_None_iff)

lemma set_keys [simp]: "set (keys m) = fst ` set m"
  by (simp add: keys_def)

lemma has_key_Nil [simp]: "\<not> has_key k []"
  by (simp add: has_key_def)

lemma map_of_try_emplace:
  "map_of (try_emplace k v m) = (if has_key k m then map_of m else (map_of m)(k \<mapsto> v))"
  by (auto simp: try_emplace_def has_key_def map_of_append map_add_def fun_eq_iff split: option.splits)

lemma dom_try_emplace [simp]: "fst ` set (try_emplace k v m) = insert k (fst ` set m)"
  by (auto simp: try_emplace_def has_key_iff image_iff)

lemma has_key_try_emplace [simp]: "has_key j (try_emplace k v m) \<longleftrightarrow> j = k \<or> has_key j m"
  unfolding has_key_iff by simp

lemma distinct_try_emplace [simp]: "distinct (map fst (try_emplace k v m)) \<longleftrightarrow> distinct (map fst m)"
  by (auto simp: try_emplace_def has_key_iff)

lemma set_try_emplace: "set (try_emplace k v m) \<subseteq> insert (k, v) (set m)"
  by (auto simp: try_emplace_def)

lemma has_key_update [simp]: "has_key j (AList.update k v m) \<longleftrightarrow> j = k \<or> has_key j m"
  unfolding has_key_iff by (simp add: dom_update)

lemma has_key_delete [simp]: "has_key j (AList.delete k m) \<longleftrightarrow> j \<noteq> k \<and> has_key j m"
  by (simp add: has_key_def delete_conv')

lemma set_update_subset: "set (AList.update k v m) \<subseteq> insert (k, v) (set m)"
  by (induction m) auto

lemma fst_map_entry [simp]: "map fst (AList.map_entry k f m) = map fst m"
  by (induction m) auto

lemma dom_map_entry [simp]: "fst ` set (AList.map_entry k f m) = fst ` set m"
  by (metis fst_map_entry list.set_map)

lemma map_of_map_entry:
  "map_of (AList.map_entry k f m) j = (if j = k then map_option f (map_of m k) else map_of m j)"
  by (induction m) auto

lemma has_key_map_entry [simp]: "has_key j (AList.map_entry k f m) \<longleftrightarrow> has_key j m"
  unfolding has_key_iff by simp

lemma set_map_entry_cases:
  "p \<in> set (AList.map_entry k f m) \<Longrightarrow> p \<in> set m \<or> (\<exists>v. (k, v) \<in> set m \<and> p = (k, f v))"
  by (induction m) (auto split: if_splits)

lemma set_set_insert [simp]: "set (set_insert x xs) = insert x (set xs)"
  by (auto simp: set_insert_def)

lemma distinct_set_insert [simp]: "distinct (set_insert x xs) \<longleftrightarrow> distinct xs"
  by (auto simp: set_insert_def)

lemma set_fold_set_insert [simp]: "set (fold set_insert xs ys) = set xs \<union> set ys"
  by (induction xs arbitrary: ys) auto

lemma distinct_fold_set_insert [simp]: "distinct (fold set_insert xs ys) \<longleftrightarrow> distinct ys"
  by (induction xs arbitrary: ys) auto

text \<open>A property of all entries of a map; \<open>map_all_intros\<close> collects what each change of a map has to
  show.\<close>

named_theorems map_all_intros \<open>a property of all entries is kept by a change of the map\<close>

definition map_all :: "('k \<Rightarrow> 'v \<Rightarrow> bool) \<Rightarrow> ('k \<times> 'v) list \<Rightarrow> bool" where
  "map_all P m \<longleftrightarrow> (\<forall>(k, v) \<in> set m. P k v)"

lemma map_all_Nil [simp]: "map_all P []"
  by (simp add: map_all_def)

lemma map_all_Cons [simp]: "map_all P ((k, v) # m) \<longleftrightarrow> P k v \<and> map_all P m"
  by (simp add: map_all_def)

lemma map_all_append [simp]: "map_all P (m @ n) \<longleftrightarrow> map_all P m \<and> map_all P n"
  by (auto simp: map_all_def)

lemma map_allD: "map_all P m \<Longrightarrow> map_of m k = Some v \<Longrightarrow> P k v"
  by (auto simp: map_all_def dest: map_of_SomeD)

lemma map_all_mono: "map_all P m \<Longrightarrow> (\<And>k v. P k v \<Longrightarrow> Q k v) \<Longrightarrow> map_all Q m"
  by (auto simp: map_all_def)

lemma map_all_try_emplace [map_all_intros]: "map_all P m \<Longrightarrow> P k v \<Longrightarrow> map_all P (try_emplace k v m)"
  by (simp add: try_emplace_def)

lemma map_all_update [map_all_intros]: "map_all P m \<Longrightarrow> P k v \<Longrightarrow> map_all P (AList.update k v m)"
  using set_update_subset [of k v m] by (fastforce simp: map_all_def)

lemma map_all_delete [map_all_intros]: "map_all P m \<Longrightarrow> map_all P (AList.delete k m)"
  by (induction m) (auto simp: map_all_def)

lemma map_all_filter [map_all_intros]: "map_all P m \<Longrightarrow> map_all P (filter f m)"
  by (auto simp: map_all_def)

lemma map_all_map_entry [map_all_intros]:
  "map_all P m \<Longrightarrow> (\<And>v. map_of m k = Some v \<Longrightarrow> P k v \<Longrightarrow> P k (f v)) \<Longrightarrow> map_all P (AList.map_entry k f m)"
proof (induction m)
  case (Cons p m)
  then show ?case by (cases p) auto
qed simp

lemma try_emplace_old: "has_key k m \<Longrightarrow> try_emplace k v m = m"
  by (simp add: try_emplace_def)

lemma distinct_keys_update [simp]: "distinct (map fst m) \<Longrightarrow> distinct (map fst (AList.update k v m))"
  by (rule distinct_update)

lemma distinct_keys_delete [simp]: "distinct (map fst m) \<Longrightarrow> distinct (map fst (AList.delete k m))"
  by (rule distinct_delete)

lemma distinct_keys_filter [simp]: "distinct (map fst m) \<Longrightarrow> distinct (map fst (filter f m))"
  by (rule distinct_map_filter)

end
