(* ===== verification/Sky_Types.thy ===== *)
theory Sky_Types
  imports Sky_Prelude
begin

text \<open>
  \<^verbatim>\<open>skywing_core/types.hpp\<close> and \<^verbatim>\<open>skywing_core/internal/utility/type_list.hpp\<close>: identifiers, the
  variant of values that can be published, the type list that indexes it, the result of a reduce,
  the neighbours of a node in a reduce tree, and the check of tag names.

  A \<^verbatim>\<open>float\<close> or \<^verbatim>\<open>double\<close> that is only stored and sent is its bit pattern (\<open>32 word\<close>, \<open>64 word\<close>).
\<close>

type_synonym machine_id = string
type_synonym job_id = string
type_synonym tag_id = string
type_synonym version_id = "32 word"
type_synonym network_size = "32 word"
type_synonym disconnect_id = "64 word"
type_synonym addr_port = "string \<times> 16 word"
type_synonym byte = "8 word"

section \<open>Type lists\<close>

datatype cpp_type =
    T_float | T_vec_float | T_double | T_vec_double
  | T_int8 | T_vec_int8 | T_int16 | T_vec_int16 | T_int32 | T_vec_int32 | T_int64 | T_vec_int64
  | T_uint8 | T_vec_uint8 | T_uint16 | T_vec_uint16 | T_uint32 | T_vec_uint32
  | T_uint64 | T_vec_uint64
  | T_string | T_vec_string | T_vec_byte | T_bool | T_vec_bool
  | T_other string  \<comment> \<open>any type that is not in the list\<close>

text \<open>The index of a type in a list, the length of the list if it is not there.\<close>

fun index_of :: "'t \<Rightarrow> 't list \<Rightarrow> nat" where
  "index_of t [] = 0"
| "index_of t (u # us) = (if t = u then 0 else 1 + index_of t us)"

fun type_at :: "nat \<Rightarrow> 't list \<Rightarrow> 't option" where
  "type_at i [] = None"
| "type_at 0 (t # ts) = Some t"
| "type_at (Suc i) (t # ts) = type_at i ts"

lemma index_of_le: "index_of t us \<le> length us"
  by (induction us) auto

lemma index_of_less_iff: "index_of t us < length us \<longleftrightarrow> t \<in> set us"
  by (induction us) auto

lemma type_at_index_of: "t \<in> set us \<Longrightarrow> type_at (index_of t us) us = Some t"
  by (induction us) auto

definition publish_value_type_list :: "cpp_type list" where
  "publish_value_type_list =
    [T_float, T_vec_float, T_double, T_vec_double,
     T_int8, T_vec_int8, T_int16, T_vec_int16, T_int32, T_vec_int32, T_int64, T_vec_int64,
     T_uint8, T_vec_uint8, T_uint16, T_vec_uint16, T_uint32, T_vec_uint32,
     T_uint64, T_vec_uint64, T_string, T_vec_string, T_vec_byte, T_bool, T_vec_bool]"

section \<open>Published values\<close>

datatype publish_value =
    V_float "32 word" | V_vec_float "32 word list"
  | V_double "64 word" | V_vec_double "64 word list"
  | V_int8 "8 word" | V_vec_int8 "8 word list"
  | V_int16 "16 word" | V_vec_int16 "16 word list"
  | V_int32 "32 word" | V_vec_int32 "32 word list"
  | V_int64 "64 word" | V_vec_int64 "64 word list"
  | V_uint8 "8 word" | V_vec_uint8 "8 word list"
  | V_uint16 "16 word" | V_vec_uint16 "16 word list"
  | V_uint32 "32 word" | V_vec_uint32 "32 word list"
  | V_uint64 "64 word" | V_vec_uint64 "64 word list"
  | V_string string | V_vec_string "string list"
  | V_vec_byte "byte list"
  | V_bool bool | V_vec_bool "bool list"

text \<open>The alternative that a variant holds, and its \<^verbatim>\<open>index()\<close>.\<close>

fun value_type :: "publish_value \<Rightarrow> cpp_type" where
  "value_type (V_float _) = T_float" | "value_type (V_vec_float _) = T_vec_float"
| "value_type (V_double _) = T_double" | "value_type (V_vec_double _) = T_vec_double"
| "value_type (V_int8 _) = T_int8" | "value_type (V_vec_int8 _) = T_vec_int8"
| "value_type (V_int16 _) = T_int16" | "value_type (V_vec_int16 _) = T_vec_int16"
| "value_type (V_int32 _) = T_int32" | "value_type (V_vec_int32 _) = T_vec_int32"
| "value_type (V_int64 _) = T_int64" | "value_type (V_vec_int64 _) = T_vec_int64"
| "value_type (V_uint8 _) = T_uint8" | "value_type (V_vec_uint8 _) = T_vec_uint8"
| "value_type (V_uint16 _) = T_uint16" | "value_type (V_vec_uint16 _) = T_vec_uint16"
| "value_type (V_uint32 _) = T_uint32" | "value_type (V_vec_uint32 _) = T_vec_uint32"
| "value_type (V_uint64 _) = T_uint64" | "value_type (V_vec_uint64 _) = T_vec_uint64"
| "value_type (V_string _) = T_string" | "value_type (V_vec_string _) = T_vec_string"
| "value_type (V_vec_byte _) = T_vec_byte"
| "value_type (V_bool _) = T_bool" | "value_type (V_vec_bool _) = T_vec_bool"

definition variant_index :: "publish_value \<Rightarrow> nat" where
  "variant_index v = index_of (value_type v) publish_value_type_list"

definition expected_type_for :: "cpp_type list \<Rightarrow> 8 word list" where
  "expected_type_for ts = map (\<lambda>t. of_nat (index_of t publish_value_type_list)) ts"

text \<open>\<^verbatim>\<open>std::equal\<close> of the received variants' indices with the expected ones, both lengths checked:
  the test of \<^verbatim>\<open>Job::process_data\<close> and \<^verbatim>\<open>ReduceGroupBase::add_data\<close>.\<close>

definition types_match :: "8 word list \<Rightarrow> publish_value list \<Rightarrow> bool" where
  "types_match ts vs \<longleftrightarrow> list_all2 (\<lambda>t v. unat t = variant_index v) ts vs"

lemma value_type_in_list: "value_type v \<in> set publish_value_type_list"
  by (cases v) (simp_all add: publish_value_type_list_def)

lemma variant_index_less: "variant_index v < 25"
  using value_type_in_list [of v] index_of_less_iff [of "value_type v" publish_value_type_list]
  by (simp add: variant_index_def publish_value_type_list_def)

lemma unat_of_nat_index: "unat (of_nat (index_of t publish_value_type_list) :: 8 word)
    = index_of t publish_value_type_list"
  using index_of_le [of t publish_value_type_list]
  by (simp add: unat_of_nat publish_value_type_list_def)

lemma index_of_eq_iff: "t \<in> set us \<Longrightarrow> index_of t us = index_of u us \<longleftrightarrow> t = u"
  by (induction us) auto

text \<open>The run-time check of indices is the check of the static types.\<close>

lemma types_match_expected:
  "types_match (expected_type_for ts) vs \<longleftrightarrow> map value_type vs = ts"
proof -
  have "list_all2 (\<lambda>t v. index_of t publish_value_type_list = index_of (value_type v) publish_value_type_list) ts vs
    \<longleftrightarrow> map value_type vs = ts"
    using index_of_eq_iff [OF value_type_in_list]
    by (induction ts arbitrary: vs) (auto simp: list_all2_Cons1 eq_commute)
  then show ?thesis
    by (simp add: types_match_def expected_type_for_def list_all2_map1 unat_of_nat_index variant_index_def)
qed

section \<open>Results of a reduce, reduce trees, tag names\<close>

datatype 'v reduce_result = Reduce_No_Value | Reduce_Disconnection | Reduce_Value 'v

fun error_occurred :: "'v reduce_result \<Rightarrow> bool" where
  "error_occurred Reduce_Disconnection = True"
| "error_occurred _ = False"

fun has_value :: "'v reduce_result \<Rightarrow> bool" where
  "has_value (Reduce_Value _) = True"
| "has_value _ = False"

fun reduce_value :: "'v reduce_result \<Rightarrow> 'v res" where
  "reduce_value (Reduce_Value v) = Inr v"
| "reduce_value _ = Inl Assert_Failed"

lemma reduce_value_ok_iff: "(\<exists>v. reduce_value r = Inr v) \<longleftrightarrow> has_value r"
  by (cases r) simp_all

record reduce_neighbors =
  rn_parent :: tag_id
  rn_left :: tag_id
  rn_right :: tag_id

definition rn_tags :: "reduce_neighbors \<Rightarrow> tag_id list" where
  "rn_tags n = [rn_parent n, rn_left n, rn_right n]"

definition publish_tag_marker :: char where "publish_tag_marker = CHR ''p''"
definition reduce_value_marker :: char where "reduce_value_marker = CHR ''r''"
definition reduce_group_marker :: char where "reduce_group_marker = CHR ''g''"
definition private_tag_marker :: char where "private_tag_marker = CHR ''x''"

lemmas markers = publish_tag_marker_def reduce_value_marker_def reduce_group_marker_def
  private_tag_marker_def

definition tag_name_okay :: "tag_id \<Rightarrow> bool" where
  "tag_name_okay tag \<longleftrightarrow> tag \<noteq> [] \<and>
     (hd tag = publish_tag_marker \<or> hd tag = reduce_value_marker
      \<or> hd tag = reduce_group_marker \<or> hd tag = private_tag_marker)"

text \<open>Tags (\<^verbatim>\<open>TagBase\<close> in \<^verbatim>\<open>tag_buffer.hpp\<close>): the identifier carries its marker, and the expected
  types are the indices of the tag's template arguments.\<close>

record tag =
  tag_name :: tag_id
  tag_types :: "8 word list"

datatype tag_kind = Publish_Tag | Reduce_Value_Tag | Reduce_Group_Tag | Private_Tag

fun tag_marker :: "tag_kind \<Rightarrow> char" where
  "tag_marker Publish_Tag = publish_tag_marker"
| "tag_marker Reduce_Value_Tag = reduce_value_marker"
| "tag_marker Reduce_Group_Tag = reduce_group_marker"
| "tag_marker Private_Tag = private_tag_marker"

definition make_tag :: "tag_kind \<Rightarrow> tag_id \<Rightarrow> cpp_type list \<Rightarrow> tag res" where
  "make_tag k name ts = rassert (name \<noteq> [])
     (Inr \<lparr>tag_name = tag_marker k # name, tag_types = expected_type_for ts\<rparr>)"

lemma make_tag_name_okay: "make_tag k name ts = Inr t \<Longrightarrow> tag_name_okay (tag_name t)"
  by (cases k) (auto simp: make_tag_def rassert_eq_Inr_iff tag_name_okay_def)

lemma make_tag_inj:
  "make_tag k name ts = Inr t \<Longrightarrow> make_tag k' name' ts' = Inr t' \<Longrightarrow> tag_name t = tag_name t' \<Longrightarrow>
    k = k' \<and> name = name'"
  by (cases k; cases k') (auto simp: make_tag_def rassert_eq_Inr_iff markers)

end
