(* ===== verification/Sky_Tag_Buffer.thy ===== *)
theory Sky_Tag_Buffer
  imports Sky_Types
begin

text \<open>
  \<^verbatim>\<open>skywing_core/internal/tag_buffer.hpp\<close>: the buffer of a subscribed tag, which keeps the latest
  version only, and the buffer of a reduce group, which keeps all of them in order. The template
  arguments \<^verbatim>\<open>Ts...\<close> are the field of expected types, and a stored value is the list of its
  variants. The interface that the job relies on is the locale \<open>version_buffer\<close>.
\<close>

section \<open>Values\<close>

text \<open>\<^verbatim>\<open>span_is_valid\<close> and \<^verbatim>\<open>make_value\<close>.\<close>

definition span_is_valid :: "cpp_type list \<Rightarrow> publish_value list \<Rightarrow> bool" where
  "span_is_valid ts value \<longleftrightarrow>
     length value = length ts
     \<and> (\<forall>i < length ts. variant_index (value ! i) = index_of (ts ! i) publish_value_type_list)"

definition make_value :: "cpp_type list \<Rightarrow> publish_value list \<Rightarrow> publish_value list res" where
  "make_value ts value = rassert (span_is_valid ts value) (Inr value)"

lemma span_is_valid_iff: "span_is_valid ts vs \<longleftrightarrow> map value_type vs = ts"
proof -
  have "variant_index v = index_of t publish_value_type_list \<longleftrightarrow> value_type v = t" for v t
    using index_of_eq_iff [OF value_type_in_list] by (auto simp: variant_index_def)
  then show ?thesis by (auto simp: span_is_valid_def list_eq_iff_nth_eq)
qed

lemma span_is_valid_types_match: "span_is_valid ts vs \<longleftrightarrow> types_match (expected_type_for ts) vs"
  by (simp add: span_is_valid_iff types_match_expected)

lemma make_value_ok: "span_is_valid ts vs \<Longrightarrow> make_value ts vs = Inr vs"
  by (simp add: make_value_def rassert_def)

definition tag_no_data :: version_id where "tag_no_data = -1"

section \<open>The interface of a buffer of the latest version\<close>

text \<open>Seen from outside a buffer holds the newest value it was given, with its version, and the version
  last taken from it.\<close>

definition newer :: "version_id \<Rightarrow> (version_id \<times> 'v) option \<Rightarrow> bool" where
  "newer n cur \<longleftrightarrow> (case cur of None \<Rightarrow> True | Some (m, _) \<Rightarrow> m < n)"

definition unread :: "(version_id \<times> 'v) option \<Rightarrow> version_id option \<Rightarrow> bool" where
  "unread cur fetched \<longleftrightarrow>
     (case cur of None \<Rightarrow> False | Some (m, _) \<Rightarrow> (case fetched of None \<Rightarrow> True | Some f \<Rightarrow> f < m))"

datatype 'v buffer_op = Op_Add 'v version_id | Op_Get

text \<open>A sequence of additions, and of takings where there is something to take; the trace holds what was
  taken.\<close>

fun buffer_run ::
  "('v \<Rightarrow> version_id \<Rightarrow> 'b \<Rightarrow> 'b res) \<Rightarrow> ('b \<Rightarrow> bool) \<Rightarrow> ('b \<Rightarrow> ('v \<times> 'b) res) \<Rightarrow> ('b \<Rightarrow> version_id)
   \<Rightarrow> 'v buffer_op list \<Rightarrow> (version_id \<times> 'v) list \<Rightarrow> 'b \<Rightarrow> ((version_id \<times> 'v) list \<times> 'b) res" where
  "buffer_run add has_data get ver [] tr b = Inr (tr, b)"
| "buffer_run add has_data get ver (Op_Add v n # ops) tr b =
     rbind (add v n b) (\<lambda>b'. buffer_run add has_data get ver ops tr b')"
| "buffer_run add has_data get ver (Op_Get # ops) tr b =
     (if has_data b
      then rbind (get b) (\<lambda>(v, b'). buffer_run add has_data get ver ops (tr @ [(ver b', v)]) b')
      else buffer_run add has_data get ver ops tr b)"

definition op_ok :: "('v \<Rightarrow> bool) \<Rightarrow> 'v buffer_op \<Rightarrow> bool" where
  "op_ok valid op = (case op of Op_Add v n \<Rightarrow> valid v \<and> n \<noteq> tag_no_data | Op_Get \<Rightarrow> True)"

definition added :: "'v buffer_op list \<Rightarrow> (version_id \<times> 'v) list" where
  "added ops = concat (map (\<lambda>op. case op of Op_Add v n \<Rightarrow> [(n, v)] | Op_Get \<Rightarrow> []) ops)"

lemma added_simps [simp]:
  "added [] = []" "added (Op_Add v n # ops) = (n, v) # added ops" "added (Op_Get # ops) = added ops"
  by (simp_all add: added_def)

locale version_buffer =
  fixes add :: "'v \<Rightarrow> version_id \<Rightarrow> 'b \<Rightarrow> 'b res" and has_data :: "'b \<Rightarrow> bool"
    and get :: "'b \<Rightarrow> ('v \<times> 'b) res" and reset :: "'b \<Rightarrow> 'b" and ver :: "'b \<Rightarrow> version_id"
    and valid :: "'b \<Rightarrow> 'v \<Rightarrow> bool" and inv :: "'b \<Rightarrow> bool"
    and latest :: "'b \<Rightarrow> (version_id \<times> 'v) option" and fetched :: "'b \<Rightarrow> version_id option"
  assumes add_ok: "inv b \<Longrightarrow> valid b v \<Longrightarrow> n \<noteq> tag_no_data \<Longrightarrow>
      \<exists>b'. add v n b = Inr b' \<and> inv b' \<and> valid b' = valid b \<and> fetched b' = fetched b
         \<and> latest b' = (if newer n (latest b) then Some (n, v) else latest b)"
    and has_data_iff: "inv b \<Longrightarrow> has_data b \<longleftrightarrow> unread (latest b) (fetched b)"
    and get_ok: "inv b \<Longrightarrow> has_data b \<Longrightarrow>
      \<exists>n v b'. get b = Inr (v, b') \<and> latest b = Some (n, v) \<and> inv b' \<and> valid b' = valid b
         \<and> latest b' = latest b \<and> fetched b' = Some n \<and> ver b' = n"
    and reset_ok: "inv (reset b) \<and> latest (reset b) = None \<and> fetched (reset b) = None"
begin

lemma reset_empty: "\<not> has_data (reset b)"
  using reset_ok has_data_iff by (auto simp: unread_def)

text \<open>What was added and is newer is what is taken next.\<close>

lemma get_after_add:
  assumes "inv b" "valid b v" "n \<noteq> tag_no_data" "newer n (latest b)"
    and "\<And>f. fetched b = Some f \<Longrightarrow> f < n"
  shows "\<exists>b1 b2. add v n b = Inr b1 \<and> has_data b1 \<and> get b1 = Inr (v, b2) \<and> \<not> has_data b2"
proof -
  obtain b1 where b1: "add v n b = Inr b1" "inv b1" "fetched b1 = fetched b" "latest b1 = Some (n, v)"
    using add_ok [OF assms(1-3)] assms(4) by auto
  then have h: "has_data b1" using assms(5) by (auto simp: has_data_iff unread_def split: option.splits)
  then obtain b2 where "get b1 = Inr (v, b2)" "inv b2" "latest b2 = Some (n, v)" "fetched b2 = Some n"
    using get_ok [OF b1(2) h] b1(4) by auto
  with b1 h show ?thesis by (auto simp: has_data_iff unread_def)
qed

definition run_inv :: "(version_id \<times> 'v) list \<Rightarrow> (version_id \<times> 'v) list \<Rightarrow> 'b \<Rightarrow> bool" where
  "run_inv past tr b \<longleftrightarrow>
     inv b \<and> sorted_wrt (<) (map fst tr) \<and> set tr \<subseteq> set past
     \<and> fetched b = (if tr = [] then None else Some (fst (last tr)))
     \<and> (case latest b of None \<Rightarrow> past = [] \<and> tr = []
        | Some (n, v) \<Rightarrow> (n, v) \<in> set past \<and> (\<forall>(m, _) \<in> set past. m \<le> n))"

lemma run_inv_add:
  assumes "run_inv past tr b" "valid b v" "n \<noteq> tag_no_data"
  shows "\<exists>b'. add v n b = Inr b' \<and> valid b' = valid b \<and> run_inv (past @ [(n, v)]) tr b'"
proof -
  have "inv b" using assms(1) by (simp add: run_inv_def)
  from add_ok [OF this assms(2,3)] obtain b' where b': "add v n b = Inr b'" "inv b'"
    "valid b' = valid b" "fetched b' = fetched b"
    "latest b' = (if newer n (latest b) then Some (n, v) else latest b)" by blast
  have "run_inv (past @ [(n, v)]) tr b'"
    using assms(1) b' unfolding run_inv_def newer_def
    by (cases "latest b") (auto split: if_splits)
  with b' show ?thesis by blast
qed

lemma run_inv_get:
  assumes "run_inv past tr b" "has_data b"
  shows "\<exists>v b'. get b = Inr (v, b') \<and> valid b' = valid b \<and> run_inv past (tr @ [(ver b', v)]) b'"
proof -
  have inv: "inv b" using assms(1) by (simp add: run_inv_def)
  from get_ok [OF inv assms(2)] obtain n v b' where b': "get b = Inr (v, b')" "latest b = Some (n, v)"
    "inv b'" "valid b' = valid b" "latest b' = latest b" "fetched b' = Some n" "ver b' = n" by blast
  have un: "unread (latest b) (fetched b)" using assms(2) inv by (simp add: has_data_iff)
  have "\<forall>m \<in> set (map fst tr). m < n"
  proof (cases "tr = []")
    case False
    then have last: "fst (last tr) < n" using un b'(2) assms(1) by (simp add: unread_def run_inv_def)
    have "sorted_wrt (<) (map fst (butlast tr @ [last tr]))"
      using assms(1) False by (simp add: run_inv_def)
    then have "\<forall>m \<in> set (map fst (butlast tr @ [last tr])). m \<le> fst (last tr)"
      by (auto simp: sorted_wrt_append)
    then show ?thesis using last False by (auto simp del: map_append)
  qed simp
  then have "run_inv past (tr @ [(n, v)]) b'"
    using assms(1) b' unfolding run_inv_def by (auto simp: sorted_wrt_append)
  with b' show ?thesis by blast
qed

lemma run_ok:
  assumes "run_inv past tr b" "\<forall>op \<in> set ops. op_ok (valid b) op"
  shows "\<exists>tr' b'. buffer_run add has_data get ver ops tr b = Inr (tr', b')
           \<and> run_inv (past @ added ops) tr' b'"
  using assms
proof (induction ops arbitrary: past tr b)
  case (Cons op ops)
  show ?case
  proof (cases op)
    case (Op_Add v n)
    then have "valid b v" "n \<noteq> tag_no_data" using Cons.prems(2) by (auto simp: op_ok_def)
    from run_inv_add [OF Cons.prems(1) this] obtain b' where
      "add v n b = Inr b'" "valid b' = valid b" "run_inv (past @ [(n, v)]) tr b'" by blast
    with Cons.IH [of "past @ [(n, v)]" tr b'] Cons.prems(2) Op_Add show ?thesis
      by (simp add: rbind_def)
  next
    case Op_Get
    show ?thesis
    proof (cases "has_data b")
      case True
      from run_inv_get [OF Cons.prems(1) this] obtain v b' where
        "get b = Inr (v, b')" "valid b' = valid b" "run_inv past (tr @ [(ver b', v)]) b'" by blast
      with Cons.IH [of past "tr @ [(ver b', v)]" b'] Cons.prems(2) Op_Get True show ?thesis
        by (simp add: rbind_def)
    qed (use Cons Op_Get in simp)
  qed
qed simp

text \<open>Nothing new is lost: when there is nothing left to take, the newest was taken.\<close>

lemma run_inv_done:
  assumes "run_inv past tr b" "\<not> has_data b" "(m, w) \<in> set past"
  shows "tr \<noteq> [] \<and> m \<le> fst (last tr)"
proof -
  have "\<not> unread (latest b) (fetched b)"
    using assms(1,2) has_data_iff by (auto simp: run_inv_def)
  then show ?thesis using assms(1,3)
    by (cases "latest b") (fastforce simp: run_inv_def unread_def split: if_splits)+
qed

end

section \<open>The buffer of the latest version\<close>

record discard_buffer =
  db_types :: "cpp_type list"
  db_value :: "publish_value list option"  \<comment> \<open>\<^verbatim>\<open>None\<close> until a value is stored\<close>
  db_stored :: version_id
  db_last_fetched :: version_id

definition new_discard_buffer :: "cpp_type list \<Rightarrow> discard_buffer" where
  "new_discard_buffer ts =
     \<lparr>db_types = ts, db_value = None, db_stored = tag_no_data, db_last_fetched = tag_no_data\<rparr>"

definition db_has_data :: "discard_buffer \<Rightarrow> bool" where
  "db_has_data b \<longleftrightarrow> db_stored b \<noteq> tag_no_data \<and> db_stored b \<ge> db_last_fetched b + 1"

definition db_get :: "discard_buffer \<Rightarrow> (publish_value list \<times> discard_buffer) res" where
  "db_get b = rassert (db_has_data b)
     (case db_value b of
        None \<Rightarrow> Inl Undefined_Behaviour
      | Some v \<Rightarrow> Inr (v, b\<lparr>db_last_fetched := db_stored b\<rparr>))"

definition db_add :: "publish_value list \<Rightarrow> version_id \<Rightarrow> discard_buffer \<Rightarrow> discard_buffer res" where
  "db_add value version b =
     (if version > db_stored b \<or> db_stored b = tag_no_data
      then rbind (make_value (db_types b) value)
             (\<lambda>v. Inr (b\<lparr>db_stored := version, db_value := Some v\<rparr>))
      else Inr b)"

definition db_reset :: "discard_buffer \<Rightarrow> discard_buffer" where
  "db_reset b = b\<lparr>db_stored := tag_no_data, db_last_fetched := tag_no_data\<rparr>"

text \<open>The invariant, and what the buffer promises in terms of it.\<close>

definition db_inv :: "discard_buffer \<Rightarrow> bool" where
  "db_inv b \<longleftrightarrow>
     (db_stored b \<noteq> tag_no_data \<longrightarrow> (\<exists>v. db_value b = Some v \<and> span_is_valid (db_types b) v))"

definition db_latest :: "discard_buffer \<Rightarrow> (version_id \<times> publish_value list) option" where
  "db_latest b = (if db_stored b = tag_no_data then None else map_option (Pair (db_stored b)) (db_value b))"

definition db_fetched :: "discard_buffer \<Rightarrow> version_id option" where
  "db_fetched b = (if db_last_fetched b = tag_no_data then None else Some (db_last_fetched b))"

lemmas db_defs = new_discard_buffer_def db_has_data_def db_get_def db_add_def db_reset_def db_inv_def
  db_latest_def db_fetched_def

lemma plus_one_le_iff: "(f :: version_id) \<noteq> tag_no_data \<Longrightarrow> f + 1 \<le> s \<longleftrightarrow> f < s"
proof -
  assume "f \<noteq> tag_no_data"
  then have "1 + f \<noteq> 0" by (auto simp: tag_no_data_def eq_neg_iff_add_eq_0 add.commute)
  then have "unat (f + 1) = Suc (unat f)" by (metis add.commute unatSuc)
  then show ?thesis by (simp add: word_le_nat_alt word_less_nat_alt Suc_le_eq)
qed

interpretation db: version_buffer db_add db_has_data db_get db_reset db_last_fetched
    "\<lambda>b. span_is_valid (db_types b)" db_inv db_latest db_fetched
proof
  fix b v n assume a: "db_inv b" "span_is_valid (db_types b) v" "n \<noteq> tag_no_data"
  show "\<exists>b'. db_add v n b = Inr b' \<and> db_inv b' \<and> span_is_valid (db_types b') = span_is_valid (db_types b)
      \<and> db_fetched b' = db_fetched b
      \<and> db_latest b' = (if newer n (db_latest b) then Some (n, v) else db_latest b)"
    using a by (auto simp: db_defs newer_def make_value_ok rbind_def split: if_splits)
next
  fix b assume "db_inv b"
  then show "db_has_data b \<longleftrightarrow> unread (db_latest b) (db_fetched b)"
    by (auto simp: db_defs unread_def plus_one_le_iff tag_no_data_def split: if_splits)
next
  fix b assume a: "db_inv b" "db_has_data b"
  then obtain v where "db_value b = Some v" "db_get b = Inr (v, b\<lparr>db_last_fetched := db_stored b\<rparr>)"
    by (auto simp: db_defs rassert_def)
  with a show "\<exists>n v b'. db_get b = Inr (v, b') \<and> db_latest b = Some (n, v) \<and> db_inv b'
      \<and> span_is_valid (db_types b') = span_is_valid (db_types b)
      \<and> db_latest b' = db_latest b \<and> db_fetched b' = Some n \<and> db_last_fetched b' = n"
    by (intro exI [of _ "db_stored b"] exI [of _ v] exI [of _ "b\<lparr>db_last_fetched := db_stored b\<rparr>"])
      (auto simp: db_defs)
qed (auto simp: db_defs)

lemma db_get_Inr:
  "db_get b = Inr (v, b') \<longleftrightarrow> db_has_data b \<and> db_value b = Some v \<and> b' = b\<lparr>db_last_fetched := db_stored b\<rparr>"
  by (auto simp: db_get_def rassert_def split: option.splits)

lemma db_get_inv: "db_inv b \<Longrightarrow> db_get b = Inr (v, b') \<Longrightarrow> db_inv b'"
  by (auto simp: db_get_Inr db_inv_def)

lemma db_add_Inr_inv: "db_inv b \<Longrightarrow> db_add v n b = Inr b' \<Longrightarrow> db_inv b'"
  by (auto simp: db_add_def db_inv_def make_value_def res_iffs split: if_splits)

lemma db_add_total: "span_is_valid (db_types b) v \<Longrightarrow> \<exists>b'. db_add v n b = Inr b'"
  by (simp add: db_add_def make_value_ok)

lemma db_types_stable:
  "db_add v n b = Inr b' \<Longrightarrow> db_types b' = db_types b"
  "db_get b = Inr (v, b') \<Longrightarrow> db_types b' = db_types b"
  by (auto simp: db_add_def make_value_def db_get_Inr res_iffs split: if_splits)

lemma db_reset_simps [simp]: "db_types (db_reset b) = db_types b" "db_inv (db_reset b)"
  by (simp_all add: db_reset_def db_inv_def)

lemma new_discard_buffer_inv: "db_inv (new_discard_buffer ts)"
  by (simp add: db_defs)

text \<open>C28: Whatever valid values arrive in whatever order of versions, and whenever the values are taken,
  no assertion of the buffer fails; the versions taken strictly increase; everything taken is a
  value that arrived with that version; and once nothing is left to take, the newest version that
  arrived was taken.\<close>

theorem discard_buffer_latest:
  assumes "\<forall>op \<in> set ops. op_ok (span_is_valid ts) op"
  shows "\<exists>tr b. buffer_run db_add db_has_data db_get db_last_fetched ops [] (new_discard_buffer ts) = Inr (tr, b)
           \<and> sorted_wrt (<) (map fst tr) \<and> set tr \<subseteq> set (added ops)
           \<and> (\<not> db_has_data b \<longrightarrow> (\<forall>(m, w) \<in> set (added ops). tr \<noteq> [] \<and> m \<le> fst (last tr)))"
proof -
  have "db.run_inv [] [] (new_discard_buffer ts)" unfolding db.run_inv_def by (simp add: db_defs)
  from db.run_ok [OF this, of ops] assms obtain tr b where
    r: "buffer_run db_add db_has_data db_get db_last_fetched ops [] (new_discard_buffer ts) = Inr (tr, b)"
    and i: "db.run_inv (added ops) tr b"
    by (auto simp: new_discard_buffer_def)
  from i have "sorted_wrt (<) (map fst tr)" "set tr \<subseteq> set (added ops)" by (simp_all add: db.run_inv_def)
  with r db.run_inv_done [OF i] show ?thesis by blast
qed

lemma discard_buffer_latest_witness:
  "\<exists>tr b. buffer_run db_add db_has_data db_get db_last_fetched
       [Op_Add [V_int32 7] 3, Op_Add [V_int32 5] 1, Op_Get, Op_Get] [] (new_discard_buffer [T_int32]) = Inr (tr, b)
     \<and> set tr \<subseteq> {(3, [V_int32 7]), (1, [V_int32 5])}"
  using discard_buffer_latest [of "[Op_Add [V_int32 7] 3, Op_Add [V_int32 5] 1, Op_Get, Op_Get]" "[T_int32]"]
  by (force simp: op_ok_def span_is_valid_iff tag_no_data_def)

section \<open>The buffer of all versions\<close>

record fifo_buffer =
  fb_types :: "cpp_type list"
  fb_buffer :: "(publish_value list \<times> version_id) list"
  fb_last_stored :: version_id
  fb_last_fetched :: version_id

definition new_fifo_buffer :: "cpp_type list \<Rightarrow> fifo_buffer" where
  "new_fifo_buffer ts =
     \<lparr>fb_types = ts, fb_buffer = [], fb_last_stored = tag_no_data, fb_last_fetched = tag_no_data\<rparr>"

text \<open>The loop of \<^verbatim>\<open>get\<close> on the stored pairs: the value, its version and the rest.\<close>

fun fifo_loop :: "version_id \<Rightarrow> (publish_value list \<times> version_id) list
    \<Rightarrow> (publish_value list \<times> version_id \<times> (publish_value list \<times> version_id) list) res" where
  "fifo_loop required_version [] = Inl Assert_Failed"
| "fifo_loop required_version ((data, version) # buffer) =
     (if version \<ge> required_version then Inr (data, version, buffer)
      else fifo_loop required_version buffer)"

definition fifo_get :: "version_id \<Rightarrow> fifo_buffer \<Rightarrow> (publish_value list \<times> fifo_buffer) res" where
  "fifo_get required_version b =
     rbind (fifo_loop required_version (fb_buffer b))
       (\<lambda>(data, version, buffer). Inr (data, b\<lparr>fb_last_fetched := version, fb_buffer := buffer\<rparr>))"

definition fifo_has_data :: "version_id \<Rightarrow> fifo_buffer \<Rightarrow> bool" where
  "fifo_has_data required_version b \<longleftrightarrow>
     fb_buffer b \<noteq> [] \<and> snd (last (fb_buffer b)) \<ge> required_version"

definition fifo_add :: "publish_value list \<Rightarrow> version_id \<Rightarrow> fifo_buffer \<Rightarrow> fifo_buffer res" where
  "fifo_add value version b = rassert (span_is_valid (fb_types b) value)
     (if version > fb_last_stored b \<or> fb_last_stored b = tag_no_data
      then rbind (make_value (fb_types b) value) (\<lambda>v. Inr (b\<lparr>fb_buffer := fb_buffer b @ [(v, version)]\<rparr>))
      else Inr b)"

definition fifo_reset :: "fifo_buffer \<Rightarrow> fifo_buffer" where
  "fifo_reset b = b\<lparr>fb_buffer := [], fb_last_stored := tag_no_data, fb_last_fetched := tag_no_data\<rparr>"

definition fifo_inv :: "fifo_buffer \<Rightarrow> bool" where
  "fifo_inv b \<longleftrightarrow> fb_last_stored b = tag_no_data \<and> (\<forall>(v, n) \<in> set (fb_buffer b). span_is_valid (fb_types b) v)"

lemmas fifo_defs = new_fifo_buffer_def fifo_get_def fifo_has_data_def fifo_add_def fifo_reset_def
  fifo_inv_def

lemma new_fifo_buffer_inv: "fifo_inv (new_fifo_buffer ts)"
  by (simp add: fifo_defs)

lemma fifo_add_ok:
  "fifo_inv b \<Longrightarrow> span_is_valid (fb_types b) v \<Longrightarrow>
    fifo_add v n b = Inr (b\<lparr>fb_buffer := fb_buffer b @ [(v, n)]\<rparr>)
    \<and> fifo_inv (b\<lparr>fb_buffer := fb_buffer b @ [(v, n)]\<rparr>)"
  by (auto simp: fifo_defs rassert_def make_value_ok rbind_def)

lemma fifo_reset_inv: "fifo_inv (fifo_reset b)"
  by (simp add: fifo_defs)

lemma fifo_loop_Inr:
  "fifo_loop n buf = Inr (v, m, rest) \<longleftrightarrow>
    (\<exists>old. buf = old @ (v, m) # rest \<and> n \<le> m \<and> (\<forall>(_, k) \<in> set old. k < n))"
proof (induction buf)
  case (Cons p buf)
  obtain w k where p: "p = (w, k)" by fastforce
  show ?case
  proof (cases "n \<le> k")
    case True
    then show ?thesis by (force simp: p Cons_eq_append_conv)
  next
    case False
    then show ?thesis
      by (auto simp: p Cons.IH Cons_eq_append_conv intro: exI [of _ "(w, k) # _"])
  qed
qed simp

lemma fifo_get_Inr:
  "fifo_get n b = Inr (v, b') \<longleftrightarrow>
    (\<exists>old m rest. fb_buffer b = old @ (v, m) # rest \<and> n \<le> m \<and> (\<forall>(_, k) \<in> set old. k < n)
       \<and> b' = b\<lparr>fb_last_fetched := m, fb_buffer := rest\<rparr>)"
  by (auto simp: fifo_get_def res_iffs fifo_loop_Inr; blast)

lemma fifo_get_inv: "fifo_inv b \<Longrightarrow> fifo_get n b = Inr (v, b') \<Longrightarrow> fifo_inv b' \<and> span_is_valid (fb_types b) v"
  by (fastforce simp: fifo_get_Inr fifo_inv_def)

lemma fifo_loop_ok: "k \<in> set buf \<Longrightarrow> n \<le> snd k \<Longrightarrow> \<exists>v m rest. fifo_loop n buf = Inr (v, m, rest)"
  by (induction buf) auto

text \<open>Where \<^verbatim>\<open>has_data\<close> holds for a version, \<^verbatim>\<open>get\<close> for that version ends without a failed
  assertion: it returns the first stored value whose version is not below, drops those before it and
  keeps those after it.\<close>

theorem fifo_get_ok:
  assumes "fifo_has_data n b"
  shows "\<exists>old v m rest. fb_buffer b = old @ (v, m) # rest \<and> n \<le> m \<and> (\<forall>(_, k) \<in> set old. k < n)
           \<and> fifo_get n b = Inr (v, b\<lparr>fb_last_fetched := m, fb_buffer := rest\<rparr>)"
proof -
  have "last (fb_buffer b) \<in> set (fb_buffer b)" "n \<le> snd (last (fb_buffer b))"
    using assms by (auto simp: fifo_has_data_def)
  from fifo_loop_ok [OF this] obtain v m rest where loop: "fifo_loop n (fb_buffer b) = Inr (v, m, rest)"
    by blast
  then have "fifo_get n b = Inr (v, b\<lparr>fb_last_fetched := m, fb_buffer := rest\<rparr>)"
    by (simp add: fifo_get_def rbind_def)
  with loop show ?thesis unfolding fifo_loop_Inr by blast
qed

lemma fifo_get_ok_witness:
  "\<exists>old v m rest. [([V_bool True], 1), ([V_bool False], 2)] = old @ (v, m) # rest \<and> (2 :: version_id) \<le> m
     \<and> fifo_get 2 ((new_fifo_buffer [T_bool])\<lparr>fb_buffer := [([V_bool True], 1), ([V_bool False], 2)]\<rparr>)
       = Inr (v, (new_fifo_buffer [T_bool])\<lparr>fb_last_fetched := m, fb_buffer := rest\<rparr>)"
  using fifo_get_ok [of 2 "(new_fifo_buffer [T_bool])\<lparr>fb_buffer := [([V_bool True], 1), ([V_bool False], 2)]\<rparr>"]
  by (auto simp: fifo_defs)

text \<open>\<^verbatim>\<open>add\<close> keeps every value in the order of arrival, also one whose version was already stored or
  is older than a stored one, since the field that it compares with is never written.\<close>

theorem fifo_add_keeps_all:
  assumes "\<forall>(v, n) \<in> set vs. map value_type v = ts"
  shows "rfold (\<lambda>(v, n). fifo_add v n) vs (new_fifo_buffer ts)
         = Inr ((new_fifo_buffer ts)\<lparr>fb_buffer := vs\<rparr>)"
proof -
  have "\<forall>(v, n) \<in> set vs. map value_type v = ts \<Longrightarrow> fifo_inv b \<Longrightarrow> fb_types b = ts \<Longrightarrow>
      rfold (\<lambda>(v, n). fifo_add v n) vs b = Inr (b\<lparr>fb_buffer := fb_buffer b @ vs\<rparr>)" for b
  proof (induction vs arbitrary: b)
    case (Cons p vs)
    obtain v n where p: "p = (v, n)" by fastforce
    then have "fifo_add v n b = Inr (b\<lparr>fb_buffer := fb_buffer b @ [(v, n)]\<rparr>)"
      "fifo_inv (b\<lparr>fb_buffer := fb_buffer b @ [(v, n)]\<rparr>)"
      using fifo_add_ok [OF Cons.prems(2), of v n] Cons.prems by (simp_all add: span_is_valid_iff)
    with Cons p show ?case by (simp add: rbind_def)
  qed simp
  from this [of "new_fifo_buffer ts"] assms show ?thesis
    by (simp add: new_fifo_buffer_inv) (simp add: new_fifo_buffer_def)
qed

lemma fifo_add_keeps_all_witness:
  "rfold (\<lambda>(v, n). fifo_add v n) [([V_bool True], 2), ([V_bool False], 1)] (new_fifo_buffer [T_bool])
   = Inr ((new_fifo_buffer [T_bool])\<lparr>fb_buffer := [([V_bool True], 2), ([V_bool False], 1)]\<rparr>)"
  by (rule fifo_add_keeps_all) simp

end
