(* ===== verification/Sky_Algorithms.thy ===== *)
theory Sky_Algorithms
  imports Sky_Prelude
begin

text \<open>
  \<^verbatim>\<open>skywing_core/internal/utility/algorithms.hpp\<close>: splitting a string at a character,
  concatenation, merging of sets, and the removal over two zipped vectors.
\<close>

section \<open>split\<close>

text \<open>\<^verbatim>\<open>std::string::find(c, pos)\<close>: \<open>None\<close> is \<^verbatim>\<open>npos\<close>.\<close>

definition str_find :: "string \<Rightarrow> char \<Rightarrow> nat \<Rightarrow> nat option" where
  "str_find s c i = find (\<lambda>p. s ! p = c) [i..<length s]"

lemma str_find_Some: "str_find s c i = Some p \<Longrightarrow> i \<le> p \<and> p < length s \<and> s ! p = c"
  by (auto simp: str_find_def find_Some_iff)

lemma str_find_Some_before: "str_find s c i = Some p \<Longrightarrow> i \<le> q \<Longrightarrow> q < p \<Longrightarrow> s ! q \<noteq> c"
proof -
  assume "str_find s c i = Some p" and q: "i \<le> q" "q < p"
  then obtain k where k: "k < length s - i" "p = i + k" "\<forall>j<k. s ! ([i..<length s] ! j) \<noteq> c"
    by (auto simp: str_find_def find_Some_iff)
  then have "q - i < k" and "[i..<length s] ! (q - i) = q" using q by auto
  with k(3) show "s ! q \<noteq> c" by fastforce
qed

lemma str_find_None: "str_find s c i = None \<longleftrightarrow> (\<forall>p. i \<le> p \<and> p < length s \<longrightarrow> s ! p \<noteq> c)"
  by (auto simp: str_find_def find_None_iff)

text \<open>The loop of \<^verbatim>\<open>split\<close>: the position of the next separator, the start of the current piece and
  the pieces so far.\<close>

function split_loop :: "string \<Rightarrow> char \<Rightarrow> nat \<Rightarrow> nat option \<Rightarrow> nat \<Rightarrow> string list \<Rightarrow> string list" where
  "split_loop s c max_count None last_pos to_ret = to_ret @ [drop last_pos s]"
| "split_loop s c max_count (Some pos) last_pos to_ret =
     (if length to_ret + 1 = max_count then to_ret @ [drop last_pos s]
      else split_loop s c max_count (str_find s c (pos + 1)) (pos + 1)
             (to_ret @ [take (pos - last_pos) (drop last_pos s)]))"
  by pat_completeness auto
termination
proof (relation "measure (\<lambda>(s, c, m, p, l, r). case p of None \<Rightarrow> 0 | Some q \<Rightarrow> Suc (length s) - q + 1)")
  fix s c m pos l r
  show "((s, c, m, str_find s c (pos + 1), pos + 1, r @ [take (pos - l) (drop l s)]), s, c, m, Some pos, l, r)
    \<in> measure (\<lambda>(s, c, m, p, l, r). case p of None \<Rightarrow> 0 | Some q \<Rightarrow> Suc (length s) - q + 1)"
    by (auto split: option.splits dest!: str_find_Some)
qed simp

definition split :: "string \<Rightarrow> char \<Rightarrow> nat \<Rightarrow> string list" where
  "split s c max_count = split_loop s c max_count (str_find s c 0) 0 []"

text \<open>The reference: pieces between separators, and their joining.\<close>

fun pieces :: "char \<Rightarrow> string \<Rightarrow> string list" where
  "pieces c [] = [[]]"
| "pieces c (x # xs) =
     (if x = c then [] # pieces c xs
      else (case pieces c xs of p # ps \<Rightarrow> (x # p) # ps | [] \<Rightarrow> [[x]]))"

fun join :: "char \<Rightarrow> string list \<Rightarrow> string" where
  "join c [] = []"
| "join c [p] = p"
| "join c (p # ps) = p @ c # join c ps"

lemma pieces_not_Nil [simp]: "pieces c s \<noteq> []"
  by (induction s) (auto split: list.splits)

lemma pieces_no_sep: "c \<notin> set s \<Longrightarrow> pieces c s = [s]"
  by (induction s) auto

lemma pieces_append: "c \<notin> set p \<Longrightarrow> pieces c (p @ c # s) = p # pieces c s"
  by (induction p) auto

lemma join_Cons: "ps \<noteq> [] \<Longrightarrow> join c (p # ps) = p @ c # join c ps"
  by (cases ps) auto

lemma join_append1: "ps \<noteq> [] \<Longrightarrow> join c (ps @ [p]) = join c ps @ c # p"
proof (induction ps)
  case Nil
  then show ?case by simp
next
  case (Cons q ps)
  then show ?case by (cases ps) (auto simp: join_Cons)
qed

lemma pieces_join:
  assumes "ps \<noteq> []" and "\<And>p. p \<in> set ps \<Longrightarrow> c \<notin> set p"
  shows "pieces c (join c ps) = ps"
  using assms
proof (induction ps)
  case Nil
  then show ?case by simp
next
  case (Cons p ps)
  then show ?case by (cases ps) (auto simp: join_Cons pieces_no_sep pieces_append)
qed

lemma join_pieces: "join c (pieces c s) = s"
proof (induction s)
  case Nil
  then show ?case by simp
next
  case (Cons x s)
  then show ?case
    by (cases "pieces c s"; cases "tl (pieces c s)") (auto simp: join_Cons)
qed

lemma pieces_clean: "p \<in> set (pieces c s) \<Longrightarrow> c \<notin> set p"
proof (induction s arbitrary: p)
  case Nil
  then show ?case by simp
next
  case (Cons x s)
  then show ?case by (auto split: list.splits if_splits)
qed

text \<open>A separator at \<open>p\<close>, the first from \<open>l\<close> on, cuts the rest of the string.\<close>

lemma drop_at_sep:
  assumes "str_find s c l = Some p"
  shows "drop l s = take (p - l) (drop l s) @ c # drop (p + 1) s"
    and "c \<notin> set (take (p - l) (drop l s))"
proof -
  from str_find_Some [OF assms] have p: "l \<le> p" "p < length s" "s ! p = c" by auto
  have "drop l s = take (p - l) (drop l s) @ drop (p - l) (drop l s)"
    by (rule append_take_drop_id [symmetric])
  also have "drop (p - l) (drop l s) = drop p s" using p by simp
  also have "drop p s = c # drop (p + 1) s" using Cons_nth_drop_Suc [OF p(2)] p(3) by simp
  finally show "drop l s = take (p - l) (drop l s) @ c # drop (p + 1) s" .
  show "c \<notin> set (take (p - l) (drop l s))"
  proof
    assume "c \<in> set (take (p - l) (drop l s))"
    then obtain i where "i < p - l" "s ! (l + i) = c"
      using p by (auto simp: in_set_conv_nth)
    then show False using str_find_Some_before [OF assms, of "l + i"] by auto
  qed
qed

lemma drop_no_sep: "str_find s c l = None \<Longrightarrow> c \<notin> set (drop l s)"
  by (auto simp: str_find_None in_set_conv_nth)

lemma split_loop_unlimited:
  "p = str_find s c l \<Longrightarrow> split_loop s c 0 p l r = r @ pieces c (drop l s)"
proof (induction s c "0::nat" p l r rule: split_loop.induct)
  case (1 s c l r)
  then have "c \<notin> set (drop l s)" by (intro drop_no_sep) simp
  then show ?case by (simp add: pieces_no_sep)
next
  case (2 s c pos l r)
  from "2.prems" have f: "str_find s c l = Some pos" by simp
  have "pieces c (drop l s) = take (pos - l) (drop l s) # pieces c (drop (pos + 1) s)"
    using pieces_append [OF drop_at_sep(2) [OF f], of "drop (pos + 1) s"]
    by (simp only: drop_at_sep(1) [OF f, symmetric])
  moreover have "split_loop s c 0 (str_find s c (pos + 1)) (pos + 1) (r @ [take (pos - l) (drop l s)])
      = (r @ [take (pos - l) (drop l s)]) @ pieces c (drop (pos + 1) s)"
    using "2.hyps" by simp
  ultimately show ?case by simp
qed

lemma split_unlimited: "split s c 0 = pieces c s"
  unfolding split_def using split_loop_unlimited [OF refl, of s c 0 "[]"] by simp

lemma split_loop_join:
  "p = str_find s c l \<Longrightarrow> join c (split_loop s c m p l r) = join c (r @ [drop l s])"
proof (induction s c m p l r rule: split_loop.induct)
  case (1 s c m l r)
  then show ?case by simp
next
  case (2 s c m pos l r)
  from "2.prems" have f: "str_find s c l = Some pos" by simp
  have e: "join c ((r @ [take (pos - l) (drop l s)]) @ [drop (pos + 1) s]) = join c (r @ [drop l s])"
  proof (cases "r = []")
    case True
    then show ?thesis using drop_at_sep(1) [OF f] by simp
  next
    case False
    have "join c ((r @ [take (pos - l) (drop l s)]) @ [drop (pos + 1) s])
        = join c (r @ [take (pos - l) (drop l s)]) @ c # drop (pos + 1) s"
      by (rule join_append1) simp
    also have "\<dots> = join c r @ c # (take (pos - l) (drop l s) @ c # drop (pos + 1) s)"
      using False by (simp add: join_append1)
    also have "\<dots> = join c (r @ [drop l s])"
      by (simp only: drop_at_sep(1) [OF f, symmetric]) (simp add: join_append1 False)
    finally show ?thesis .
  qed
  show ?case
  proof (cases "length r + 1 = m")
    case True
    then show ?thesis by simp
  next
    case False
    from "2.IH" [OF False refl] False e show ?thesis by simp
  qed
qed

lemma split_loop_length: "m \<noteq> 0 \<Longrightarrow> length r < m \<Longrightarrow> length (split_loop s c m p l r) \<le> m"
  by (induction s c m p l r rule: split_loop.induct) auto

lemma split_length_max: "m \<noteq> 0 \<Longrightarrow> length (split s c m) \<le> m"
  by (simp add: split_def split_loop_length)

lemma join_split: "join c (split s c m) = s"
  unfolding split_def using split_loop_join [OF refl, where l = 0 and s = s and r = "[]"] by simp

lemma split_two:
  assumes "c \<notin> set p"
  shows "split (p @ c # s) c 2 = [p, s]"
proof -
  have f: "str_find (p @ c # s) c 0 = Some (length p)"
    using assms unfolding str_find_def find_Some_iff
    by (auto simp: nth_append in_set_conv_nth intro!: exI [of _ "length p"])
  show ?thesis
    by (cases "str_find (p @ c # s) c (length p + 1)") (simp_all add: split_def f)
qed

section \<open>Containers\<close>

definition concatenate :: "'a list list \<Rightarrow> 'a list" where
  "concatenate cs = concat cs"

text \<open>\<^verbatim>\<open>merge_associative_containers\<close> on sets: the left one afterwards and what stays in the right
  one. \<open>has_merge\<close> says which overload of \<^verbatim>\<open>merge_impl\<close> the library selects.\<close>

definition merge_sets :: "bool \<Rightarrow> 'a list \<Rightarrow> 'a list \<Rightarrow> 'a list \<times> 'a list" where
  "merge_sets has_merge lhs rhs =
     (if has_merge then (fold set_insert rhs lhs, filter (\<lambda>x. x \<in> set lhs) rhs)
      else (fold set_insert rhs lhs, []))"

lemma merge_sets_union: "set (fst (merge_sets h lhs rhs)) = set lhs \<union> set rhs"
  by (auto simp: merge_sets_def)

text \<open>\<^verbatim>\<open>std::remove_if\<close> over \<^verbatim>\<open>zip_iter_equal_len\<close> iterators, followed by the two \<^verbatim>\<open>erase\<close> calls. The
  end is reached only when both iterators reach theirs together, so vectors of different lengths
  run past an end: undefined behaviour.\<close>

definition zip_remove_if :: "('a \<times> 'b \<Rightarrow> bool) \<Rightarrow> 'a list \<Rightarrow> 'b list \<Rightarrow> ('a list \<times> 'b list) res" where
  "zip_remove_if p xs ys =
     (if length xs \<noteq> length ys then Inl Undefined_Behaviour
      else (let kept = filter (\<lambda>z. \<not> p z) (zip xs ys) in Inr (map fst kept, map snd kept)))"

end
