(* ===== verification/Sky_Network.thy ===== *)
theory Sky_Network
  imports Sky_Types Sky_Algorithms
begin

text \<open>
  The byte level: \<^verbatim>\<open>internal/utility/network_conv.cpp\<close> and
  \<^verbatim>\<open>internal/devices/socket_communicator.cpp\<close>. A socket is a record of what the operating system
  holds for it: the received bytes not read yet, whether the peer closed or reset the stream, what
  \<^verbatim>\<open>poll\<close> reports, the results of the next calls of \<^verbatim>\<open>send\<close>, and the messages sent. Bytes arrive
  between the calls that the model describes, never during one.
\<close>

unbundle bit_operations_syntax

section \<open>Sizes in network byte order\<close>

definition word_bytes :: "32 word \<Rightarrow> byte list" where
  "word_bytes w = map (\<lambda>i. ucast (drop_bit (8 * i) w)) [0..<4]"

fun word_of_bytes :: "byte list \<Rightarrow> 32 word" where
  "word_of_bytes [] = 0"
| "word_of_bytes (b # bs) = ucast b OR push_bit 8 (word_of_bytes bs)"

text \<open>\<^verbatim>\<open>__builtin_bswap32\<close>, and what \<^verbatim>\<open>memcpy\<close> sees of an integer on a machine of either byte order.\<close>

definition byte_swap :: "32 word \<Rightarrow> 32 word" where
  "byte_swap w = word_of_bytes (rev (word_bytes w))"

definition to_memory :: "bool \<Rightarrow> 32 word \<Rightarrow> byte list" where
  "to_memory little w = (if little then word_bytes w else rev (word_bytes w))"

definition from_memory :: "bool \<Rightarrow> byte list \<Rightarrow> 32 word" where
  "from_memory little bs = word_of_bytes (if little then bs else rev bs)"

definition from_network_bytes :: "bool \<Rightarrow> byte list \<Rightarrow> network_size" where
  "from_network_bytes little data =
     (let size = from_memory little data in if little then size else byte_swap size)"

definition to_network_bytes :: "bool \<Rightarrow> network_size \<Rightarrow> byte list" where
  "to_network_bytes little value =
     (let adj_value = (if little then value else byte_swap value) in to_memory little adj_value)"

lemma length_word_bytes [simp]: "length (word_bytes w) = 4"
  by (simp add: word_bytes_def)

lemma word_bytes_unfold:
  "word_bytes w = [ucast w, ucast (drop_bit 8 w), ucast (drop_bit 16 w), ucast (drop_bit 24 w)]"
  by (simp add: word_bytes_def upt_rec)

lemma word_of_bytes_word_bytes [simp]: "word_of_bytes (word_bytes w) = w"
proof (rule bit_word_eqI)
  fix n assume "n < LENGTH(32)"
  then show "bit (word_of_bytes (word_bytes w)) n = bit w n"
    by (cases "n < 8"; cases "n < 16"; cases "n < 24") (auto simp: word_bytes_unfold bit_simps)
qed

lemma byte_high_bits:
  "\<not> bit (x :: byte) (8 + n)" "\<not> bit (x :: byte) (16 + n)" "\<not> bit (x :: byte) (24 + n)"
  by (auto dest: bit_imp_le_length)

lemma word_bytes_word_of_bytes: "length bs = 4 \<Longrightarrow> word_bytes (word_of_bytes bs) = bs"
proof -
  assume "length bs = 4"
  then obtain a b c d where bs: "bs = [a, b, c, d]"
    by (auto simp: length_Suc_conv numeral_eq_Suc)
  show ?thesis
    unfolding bs word_bytes_unfold by (auto intro!: bit_word_eqI simp: bit_simps byte_high_bits)
qed

lemma word_bytes_byte_swap: "word_bytes (byte_swap w) = rev (word_bytes w)"
  by (simp add: byte_swap_def word_bytes_word_of_bytes)

text \<open>The wire carries the least significant byte first, whatever the machine.\<close>

lemma to_network_bytes_wire: "to_network_bytes little w = word_bytes w"
  by (simp add: to_network_bytes_def to_memory_def word_bytes_byte_swap Let_def)

lemma from_network_bytes_wire: "length bs = 4 \<Longrightarrow> from_network_bytes little bs = word_of_bytes bs"
  by (simp add: from_network_bytes_def from_memory_def Let_def byte_swap_def word_bytes_word_of_bytes)

text \<open>A size written by a machine of either byte order is read back as the same size by a machine
  of either byte order, and takes four bytes.\<close>

theorem network_bytes_round_trip:
  "from_network_bytes little (to_network_bytes little' w) = w
   \<and> length (to_network_bytes little' w) = 4"
  by (simp add: to_network_bytes_wire from_network_bytes_wire)

section \<open>Addresses\<close>

text \<open>\<^verbatim>\<open>std::to_string\<close> of a non-negative number, and \<^verbatim>\<open>strtol\<close> with base 10: white space, a sign,
  digits; the value saturates at the limits of a 64-bit \<^verbatim>\<open>long\<close>. The second result is what
  \<^verbatim>\<open>end\<close> points to.\<close>

fun to_dec :: "nat \<Rightarrow> string" where
  "to_dec n = (if n < 10 then [char_of (48 + n)] else to_dec (n div 10) @ [char_of (48 + n mod 10)])"

declare to_dec.simps [simp del]

definition digit_val :: "char \<Rightarrow> int option" where
  "digit_val c = (let n = (of_char c :: nat) in if 48 \<le> n \<and> n \<le> 57 then Some (int (n - 48)) else None)"

definition is_space :: "char \<Rightarrow> bool" where
  "is_space c \<longleftrightarrow> (let n = (of_char c :: nat) in n = 32 \<or> (9 \<le> n \<and> n \<le> 13))"

fun scan_digits :: "int \<Rightarrow> string \<Rightarrow> int \<times> string" where
  "scan_digits acc [] = (acc, [])"
| "scan_digits acc (c # cs) =
     (case digit_val c of None \<Rightarrow> (acc, c # cs) | Some d \<Rightarrow> scan_digits (acc * 10 + d) cs)"

definition long_max :: int where "long_max = 2 ^ 63 - 1"
definition long_min :: int where "long_min = - (2 ^ 63)"

definition strtol :: "string \<Rightarrow> int \<times> string" where
  "strtol s =
     (let s1 = dropWhile is_space s;
          neg = (s1 \<noteq> [] \<and> hd s1 = CHR ''-'');
          s2 = (if s1 \<noteq> [] \<and> (hd s1 = CHR ''-'' \<or> hd s1 = CHR ''+'') then tl s1 else s1)
      in if s2 \<noteq> [] \<and> digit_val (hd s2) \<noteq> None
         then (let (v, rest) = scan_digits 0 s2; w = (if neg then - v else v)
               in (max long_min (min long_max w), rest))
         else (0, s))"

definition split_address :: "string \<Rightarrow> addr_port" where
  "split_address address =
     (case str_find address CHR '':'' 0 of
        None \<Rightarrow> ([], 0)
      | Some colon_loc \<Rightarrow>
          (let port_str = drop (colon_loc + 1) address; (port, rest) = strtol port_str
           in if rest \<noteq> [] \<or> port < 0 \<or> port > 0xFFFF then ([], 0)
              else (take colon_loc address, word_of_int port)))"

definition address_string :: "addr_port \<Rightarrow> string" where
  "address_string addr = fst addr @ CHR '':'' # to_dec (unat (snd addr))"

text \<open>\<^verbatim>\<open>to_canonical\<close>: \<open>resolve\<close> is \<^verbatim>\<open>getaddrinfo\<close>, which gives the address as the 32-bit field
  \<^verbatim>\<open>s_addr\<close> (first octet lowest) or fails, and then the process exits.\<close>

definition dotted :: "32 word \<Rightarrow> string" where
  "dotted a =
     to_dec (unat (drop_bit 0 (a AND 0x000000FF))) @ ''.''
     @ to_dec (unat (drop_bit 8 (a AND 0x0000FF00))) @ ''.''
     @ to_dec (unat (drop_bit 16 (a AND 0x00FF0000))) @ ''.''
     @ to_dec (unat (drop_bit 24 (a AND 0xFF000000)))"

definition to_canonical :: "(string \<Rightarrow> 32 word option) \<Rightarrow> addr_port \<Rightarrow> addr_port res" where
  "to_canonical resolve addr =
     (case resolve (fst addr) of
        None \<Rightarrow> Inl (Exit_Process 4)
      | Some a \<Rightarrow> Inr (dotted a, snd addr))"

definition to_ip_port :: "(string \<Rightarrow> 32 word option) \<Rightarrow> addr_port \<Rightarrow> string res" where
  "to_ip_port resolve addr = rbind (to_canonical resolve addr) (\<lambda>c. Inr (address_string c))"

lemma char_of_digit: "d < 10 \<Longrightarrow> digit_val (char_of (48 + d)) = Some (int d)"
  by (simp add: digit_val_def)

lemma to_dec_hd_digit: "to_dec n \<noteq> [] \<and> digit_val (hd (to_dec n)) \<noteq> None"
proof (induction n rule: to_dec.induct)
  case (1 n)
  then show ?case
    by (subst to_dec.simps, subst (2) to_dec.simps) (auto simp: char_of_digit)
qed

lemma digit_not_special:
  "digit_val c \<noteq> None \<Longrightarrow> \<not> is_space c \<and> c \<noteq> CHR ''-'' \<and> c \<noteq> CHR ''+''"
  by (auto simp: digit_val_def is_space_def Let_def split: if_splits)

lemma scan_digits_to_dec:
  "\<exists>k. \<forall>acc rest. scan_digits acc (to_dec n @ rest) = scan_digits (acc * 10 ^ k + int n) rest"
proof (induction n rule: to_dec.induct)
  case (1 n)
  show ?case
  proof (cases "n < 10")
    case True
    then have "\<forall>acc rest. scan_digits acc (to_dec n @ rest) = scan_digits (acc * 10 ^ 1 + int n) rest"
      by (simp add: to_dec.simps [of n] char_of_digit)
    then show ?thesis by blast
  next
    case False
    then obtain k where k: "\<forall>acc rest. scan_digits acc (to_dec (n div 10) @ rest)
        = scan_digits (acc * 10 ^ k + int (n div 10)) rest"
      using 1 by blast
    have "scan_digits acc (to_dec n @ rest) = scan_digits (acc * 10 ^ (k + 1) + int n) rest" for acc rest
    proof -
      have e: "(acc * 10 ^ k + int (n div 10)) * 10 + int (n mod 10) = acc * 10 ^ (k + 1) + int n"
        using div_mult_mod_eq [of "int n" 10] by (simp add: algebra_simps zdiv_int zmod_int)
      have "scan_digits acc (to_dec n @ rest)
          = scan_digits ((acc * 10 ^ k + int (n div 10)) * 10 + int (n mod 10)) rest"
        using False k by (simp add: to_dec.simps [of n] char_of_digit)
      then show ?thesis by (simp only: e)
    qed
    then show ?thesis by blast
  qed
qed

lemma strtol_to_dec: "int n \<le> long_max \<Longrightarrow> strtol (to_dec n) = (int n, [])"
proof -
  assume n: "int n \<le> long_max"
  obtain k where k: "\<forall>acc rest. scan_digits acc (to_dec n @ rest) = scan_digits (acc * 10 ^ k + int n) rest"
    using scan_digits_to_dec by blast
  from k have "scan_digits 0 (to_dec n) = (int n, [])"
    by (metis add_0 append_Nil2 mult_zero_left scan_digits.simps(1))
  moreover have "dropWhile is_space (to_dec n) = to_dec n" "hd (to_dec n) \<noteq> CHR ''-''"
      "hd (to_dec n) \<noteq> CHR ''+''"
    using to_dec_hd_digit [of n] digit_not_special [of "hd (to_dec n)"]
    by (cases "to_dec n"; simp)+
  ultimately show ?thesis
    using to_dec_hd_digit [of n] n
    by (simp add: strtol_def Let_def long_min_def)
qed

lemma str_find_first: "c \<notin> set a \<Longrightarrow> str_find (a @ c # s) c 0 = Some (length a)"
  unfolding str_find_def find_Some_iff
  by (auto simp: nth_append in_set_conv_nth intro!: exI [of _ "length a"])

text \<open>An address printed with its port is read back by \<^verbatim>\<open>split_address\<close> as the same pair, so
  that the addresses machines announce to each other arrive.\<close>

theorem split_address_string:
  assumes "CHR '':'' \<notin> set (fst addr)"
  shows "split_address (address_string addr) = addr"
proof -
  have "int (unat (snd addr)) \<le> 0xFFFF"
    using unsigned_less [of "snd addr", where 'a = int] by simp
  then have "strtol (to_dec (unat (snd addr))) = (int (unat (snd addr)), [])"
    by (intro strtol_to_dec) (simp add: long_max_def)
  with assms \<open>int (unat (snd addr)) \<le> 0xFFFF\<close> show ?thesis
    by (cases addr) (simp add: split_address_def address_string_def str_find_first)
qed

lemma split_address_string_witness:
  "split_address (address_string (''10.0.0.7'', 40000)) = (''10.0.0.7'', 40000)"
  by (rule split_address_string) simp

section \<open>Sockets\<close>

text \<open>\<^verbatim>\<open>connection_in_progress\<close> is another name of \<^verbatim>\<open>would_block\<close> in the code.\<close>

datatype conn_error = No_Error | Would_Block | Unrecoverable | Closed

abbreviation "Connection_In_Progress \<equiv> Would_Block"

datatype rx_state = Rx_Open | Rx_Closed | Rx_Reset
datatype send_ret = Send_Ok | Send_EAGAIN | Send_Failed
datatype connect_ret = Connect_Done | Connect_EINPROGRESS | Connect_Failed
datatype poll_ret =
    Poll_Failed bool        \<comment> \<open>\<^verbatim>\<open>errno\<close> is \<^verbatim>\<open>EINPROGRESS\<close> or \<^verbatim>\<open>EAGAIN\<close>\<close>
  | Poll_Events bool bool   \<comment> \<open>an error flag is set; readable or writable\<close>

record 'm sock =
  so_rx :: "byte list"
  so_rx_state :: rx_state
  so_tx :: "'m list"
  so_tx_next :: "send_ret list"
  so_poll :: poll_ret
  so_peer :: addr_port

text \<open>\<^verbatim>\<open>connect_non_blocking\<close>: \<open>valid\<close> is what \<^verbatim>\<open>inet_pton\<close> says of the address.\<close>

definition connect_non_blocking :: "(string \<Rightarrow> bool) \<Rightarrow> (addr_port \<Rightarrow> connect_ret) \<Rightarrow> addr_port \<Rightarrow> conn_error res" where
  "connect_non_blocking valid con addr =
     (if \<not> valid (fst addr) then Inl (Exit_Process 4)
      else if con addr = Connect_EINPROGRESS then Inr Connection_In_Progress
      else Inr Unrecoverable)"

definition connect_non_blocking_str :: "(string \<Rightarrow> bool) \<Rightarrow> (addr_port \<Rightarrow> connect_ret) \<Rightarrow> string \<Rightarrow> conn_error res" where
  "connect_non_blocking_str valid con address =
     (let addr = split_address address
      in if fst addr = [] then Inr Unrecoverable else connect_non_blocking valid con addr)"

definition connection_progress_status :: "'m sock \<Rightarrow> conn_error" where
  "connection_progress_status s =
     (case so_poll s of
        Poll_Failed again \<Rightarrow> (if again then Connection_In_Progress else Unrecoverable)
      | Poll_Events err ready \<Rightarrow>
          (if err then Unrecoverable else if ready then No_Error else Connection_In_Progress))"

definition sock_send :: "'m \<Rightarrow> 'm sock \<Rightarrow> conn_error \<times> 'm sock" where
  "sock_send m s =
     (let r = (case so_tx_next s of [] \<Rightarrow> Send_Ok | r # _ \<Rightarrow> r);
          s' = s\<lparr>so_tx_next := tl (so_tx_next s)\<rparr>
      in case r of
           Send_Ok \<Rightarrow> (No_Error, s'\<lparr>so_tx := so_tx s @ [m]\<rparr>)
         | Send_EAGAIN \<Rightarrow> (Would_Block, s')
         | Send_Failed \<Rightarrow> (Unrecoverable, s'))"

text \<open>\<^verbatim>\<open>read_message\<close>: the error and the bytes that \<^verbatim>\<open>read\<close> stored. A read of no bytes returns 0, and
  so does a read at the end of the stream; a stream may hold fewer bytes than asked for, which the
  code takes as success.\<close>

definition read_message :: "nat \<Rightarrow> 'm sock \<Rightarrow> conn_error \<times> byte list \<times> 'm sock" where
  "read_message sz s =
     (if sz = 0 then (Closed, [], s)
      else if so_rx s \<noteq> [] then (No_Error, take sz (so_rx s), s\<lparr>so_rx := drop sz (so_rx s)\<rparr>)
      else (case so_rx_state s of
              Rx_Open \<Rightarrow> (Would_Block, [], s)
            | Rx_Closed \<Rightarrow> (Closed, [], s)
            | Rx_Reset \<Rightarrow> (Unrecoverable, [], s)))"

text \<open>\<^verbatim>\<open>read_network_size\<close>: after a short read the size is made of uninitialised bytes.\<close>

definition read_network_size :: "bool \<Rightarrow> 'm sock \<Rightarrow> ((network_size + conn_error) \<times> 'm sock) res" where
  "read_network_size little s =
     (let (err, bs, s') = read_message 4 s
      in if err = No_Error
         then (if length bs < 4 then Inl Undefined_Behaviour
               else Inr (Inl (from_network_bytes little bs), s'))
         else Inr (Inr err, s'))"

text \<open>\<^verbatim>\<open>read_chunked\<close>.\<close>

definition read_step_size :: nat where "read_step_size = 0x1000"
definition allocate_step_size :: nat where "allocate_step_size = read_step_size * 16"
definition resize_every_n_steps :: nat where
  "resize_every_n_steps = allocate_step_size div read_step_size"

definition store_at :: "nat \<Rightarrow> byte list \<Rightarrow> byte list \<Rightarrow> byte list" where
  "store_at off bs buf = take off buf @ bs @ drop (off + length bs) buf"

definition grow_buffer :: "nat \<Rightarrow> nat \<Rightarrow> byte list \<Rightarrow> byte list" where
  "grow_buffer num_bytes i read_bytes =
     (if i mod resize_every_n_steps = 0
      then (let mem_left_to_read = num_bytes - length read_bytes;
                additional_size = (if mem_left_to_read > allocate_step_size then allocate_step_size
                                   else mem_left_to_read)
            in read_bytes @ replicate additional_size 0)
      else read_bytes)"

function read_chunk_loop :: "nat \<Rightarrow> nat \<Rightarrow> nat \<Rightarrow> nat \<Rightarrow> byte list \<Rightarrow> 'm sock \<Rightarrow> byte list \<times> 'm sock" where
  "read_chunk_loop num_bytes final_read_size num_iters i read_bytes s =
     (if i < num_iters
      then (let buf = grow_buffer num_bytes i read_bytes;
                num_bytes_to_read = (if i = num_iters - 1 then final_read_size else read_step_size);
                (err, bs, s') = read_message num_bytes_to_read s
            in if err \<noteq> No_Error then ([], s')
               else read_chunk_loop num_bytes final_read_size num_iters (i + 1)
                      (store_at (i * read_step_size) bs buf) s')
      else (read_bytes, s))"
  by pat_completeness auto
termination
  by (relation "measure (\<lambda>(n, f, k, i, b, s). k - i)") auto

declare read_chunk_loop.simps [simp del]

definition read_chunked :: "nat \<Rightarrow> 'm sock \<Rightarrow> byte list \<times> 'm sock" where
  "read_chunked num_bytes s =
     (let final_read_size = num_bytes mod read_step_size;
          num_iters = num_bytes div read_step_size + (if final_read_size = 0 then 0 else 1)
      in read_chunk_loop num_bytes final_read_size num_iters 0 [] s)"

subsection \<open>Whole messages arrive, short reads aside\<close>

text \<open>The buffer at the head of step \<open>i\<close>: the bytes read, then zeroes up to what is allocated.\<close>

definition allocated :: "nat \<Rightarrow> nat \<Rightarrow> nat" where
  "allocated n i = min n (allocate_step_size * ((i + 15) div 16))"

lemmas step_sizes = read_step_size_def allocate_step_size_def resize_every_n_steps_def

lemma grow_amount: "(l :: nat) < n \<Longrightarrow> l + (if n - l > a then a else n - l) = min n (l + a)"
  by (cases "n - l > a") auto

lemma grow_buffer_length:
  assumes "length buf = allocated n i" and "i * read_step_size < n"
  shows "length (grow_buffer n i buf) = allocated n (i + 1)"
proof (cases "i mod 16 = 0")
  case True
  then obtain q where i: "i = 16 * q" by (auto simp: mod_eq_0_iff_dvd)
  have "(16 * q + 15) div 16 = q" "(16 * q + 16) div 16 = q + 1" by simp_all
  then have lb: "length buf = min n (allocate_step_size * q)"
    and rhs: "allocated n (i + 1) = min n (allocate_step_size * q + allocate_step_size)"
    using assms(1) by (simp_all add: allocated_def i algebra_simps)
  have q: "allocate_step_size * q < n" using assms(2) by (simp add: i step_sizes)
  with lb have "length buf = allocate_step_size * q" by simp
  moreover have "i mod resize_every_n_steps = 0" using True by (simp add: step_sizes)
  ultimately show ?thesis unfolding rhs grow_buffer_def Let_def
    by (simp only: if_True simp_thms length_append length_replicate grow_amount [OF q])
next
  case False
  then have "i div 16 * 16 < i" "i < i div 16 * 16 + 16"
    using div_mult_mod_eq [of i 16] by (linarith, simp add: dividend_less_div_times)
  then have "(i + 15) div 16 = i div 16 + 1" by (intro div_nat_eqI) auto
  moreover have "(i + 1 + 15) div 16 = i div 16 + 1" by simp
  ultimately have "allocated n (i + 1) = allocated n i" by (simp only: allocated_def)
  moreover have "i mod resize_every_n_steps \<noteq> 0" using False by (simp add: step_sizes)
  ultimately show ?thesis using assms(1) by (simp add: grow_buffer_def)
qed

lemma grow_buffer_take: "m \<le> length buf \<Longrightarrow> take m (grow_buffer n i buf) = take m buf"
  by (auto simp: grow_buffer_def Let_def)

lemma allocated_ge: "min n (i * read_step_size) \<le> allocated n i"
proof -
  have "i \<le> 16 * ((i + 15) div 16)" by presburger
  then have "i * read_step_size \<le> allocate_step_size * ((i + 15) div 16)"
    by (simp add: step_sizes)
  then show ?thesis unfolding allocated_def by (rule min.mono [OF order_refl])
qed

lemma store_at_length: "off + length bs \<le> length buf \<Longrightarrow> length (store_at off bs buf) = length buf"
  by (simp add: store_at_def)

lemma store_at_take:
  "off + length bs \<le> length buf \<Longrightarrow> take (off + length bs) (store_at off bs buf) = take off buf @ bs"
  by (simp add: store_at_def)

text \<open>One step: \<open>f\<close> bytes are asked for, the stream holds them, and they are stored after the
  \<open>off\<close> bytes already there.\<close>

lemma read_chunk_step:
  assumes "off \<le> length buf" and "take off buf = take off data" and "off + f \<le> length data"
    and "off + f \<le> length (grow_buffer n i buf)" and "0 < f" and "so_rx s = drop off data"
  shows "read_message f s = (No_Error, take f (drop off data), s\<lparr>so_rx := drop (off + f) data\<rparr>)"
    and "length (store_at off (take f (drop off data)) (grow_buffer n i buf)) = length (grow_buffer n i buf)"
    and "take (off + f) (store_at off (take f (drop off data)) (grow_buffer n i buf)) = take (off + f) data"
proof -
  have l: "length (take f (drop off data)) = f" using assms(3) by simp
  have "so_rx s \<noteq> []" using assms(3,5,6) by auto
  then show "read_message f s = (No_Error, take f (drop off data), s\<lparr>so_rx := drop (off + f) data\<rparr>)"
    using assms(5,6) by (simp add: read_message_def add.commute)
  show "length (store_at off (take f (drop off data)) (grow_buffer n i buf)) = length (grow_buffer n i buf)"
    using assms(4) l by (intro store_at_length) simp
  show "take (off + f) (store_at off (take f (drop off data)) (grow_buffer n i buf)) = take (off + f) data"
    using store_at_take [of off "take f (drop off data)" "grow_buffer n i buf"] assms(1,2,4) l
    by (simp add: grow_buffer_take take_add)
qed

lemma chunk_offsets:
  fixes n k f i :: nat
  assumes "f = n mod read_step_size" "0 < f" "k = n div read_step_size + 1" "i < k"
  shows "i * read_step_size < n"
    "i * read_step_size + (if i = k - 1 then f else read_step_size) = min n ((i + 1) * read_step_size)"
proof -
  have n: "n = n div read_step_size * read_step_size + f" by (simp add: assms(1))
  have "i * read_step_size \<le> n div read_step_size * read_step_size" using assms(4) by (simp add: assms(3))
  then show "i * read_step_size < n" using n assms(2) by linarith
  have f: "f < read_step_size" by (simp add: assms(1) step_sizes)
  show "i * read_step_size + (if i = k - 1 then f else read_step_size) = min n ((i + 1) * read_step_size)"
  proof (cases "i = k - 1")
    case True
    then have "i * read_step_size = n div read_step_size * read_step_size" by (simp add: assms(3))
    then show ?thesis using n f True by (simp add: algebra_simps)
  next
    case False
    then have "(i + 1) * read_step_size \<le> n div read_step_size * read_step_size"
      using assms(4) by (intro mult_right_mono) (auto simp: assms(3))
    then show ?thesis using n False by simp
  qed
qed

lemma read_chunk_loop_ok:
  fixes n k f :: nat
  assumes f: "f = n mod read_step_size" "0 < f" and k: "k = n div read_step_size + 1"
    and len: "n \<le> length data"
  assumes "i \<le> k" and "length buf = allocated n i"
    and "take (min n (i * read_step_size)) buf = take (min n (i * read_step_size)) data"
    and "so_rx s = drop (min n (i * read_step_size)) data"
  shows "read_chunk_loop n f k i buf s = (take n data, s\<lparr>so_rx := drop n data\<rparr>)"
  using assms(5-)
proof (induction "k - i" arbitrary: i buf s)
  case 0
  have "n mod read_step_size < read_step_size" by (simp add: step_sizes)
  then have nk: "n \<le> k * read_step_size"
    unfolding k add_mult_distrib using div_mult_mod_eq [of n read_step_size] by linarith
  have "i = k" using 0 by simp
  moreover have "allocated n k = n"
    using allocated_ge [of n k] nk by (simp add: allocated_def min_def split: if_splits)
  ultimately show ?case using 0 nk by (simp add: read_chunk_loop.simps)
next
  case (Suc d)
  then have ik: "i < k" by simp
  define off where "off = i * read_step_size"
  define r where "r = (if i = k - 1 then f else read_step_size)"
  have r: "0 < r" using f(2) by (simp add: r_def step_sizes)
  note off_n = chunk_offsets(1) [OF f k ik, folded off_def] and r_off = chunk_offsets(2) [OF f k ik, folded off_def r_def]
  let ?buf = "grow_buffer n i buf"
  have lb: "length ?buf = allocated n (i + 1)"
    using Suc.prems(2) off_n by (intro grow_buffer_length) (simp_all add: off_def)
  have "off \<le> length buf" using allocated_ge [of n i] off_n Suc.prems(2) by (simp add: off_def)
  moreover have "take off buf = take off data" using Suc.prems(3) off_n by (simp add: off_def)
  moreover have "off + r \<le> length data" using r_off len by simp
  moreover have "off + r \<le> length ?buf" using r_off lb allocated_ge [of n "i + 1"] by simp
  moreover have "so_rx s = drop off data" using Suc.prems(4) off_n by (simp add: off_def)
  ultimately have step: "read_message r s = (No_Error, take r (drop off data), s\<lparr>so_rx := drop (off + r) data\<rparr>)"
    "length (store_at off (take r (drop off data)) ?buf) = length ?buf"
    "take (off + r) (store_at off (take r (drop off data)) ?buf) = take (off + r) data"
    using r by (intro read_chunk_step; simp)+
  have "read_chunk_loop n f k i buf s
        = read_chunk_loop n f k (i + 1) (store_at off (take r (drop off data)) ?buf)
            (s\<lparr>so_rx := drop (off + r) data\<rparr>)"
    unfolding read_chunk_loop.simps [of n f k i] Let_def r_def [symmetric] step(1)
    using ik by (simp add: off_def)
  also have "\<dots> = (take n data, s\<lparr>so_rx := drop (off + r) data\<rparr>\<lparr>so_rx := drop n data\<rparr>)"
    using Suc.hyps(2) ik step lb r_off by (intro Suc.hyps(1)) auto
  finally show ?case by simp
qed

lemma read_chunked_whole:
  assumes "\<not> read_step_size dvd n" and "n \<le> length (so_rx s)"
  shows "read_chunked n s = (take n (so_rx s), s\<lparr>so_rx := drop n (so_rx s)\<rparr>)"
proof -
  have "0 < n mod read_step_size" using assms(1) by (simp add: dvd_eq_mod_eq_0)
  from read_chunk_loop_ok [OF refl this refl assms(2), of 0 "[]" s] this show ?thesis
    by (simp add: read_chunked_def Let_def allocated_def)
qed

lemma read_chunked_frame:
  "\<not> read_step_size dvd length bs \<Longrightarrow>
    read_chunked (length bs) (s\<lparr>so_rx := bs @ rest\<rparr>) = (bs, s\<lparr>so_rx := rest\<rparr>)"
  by (simp add: read_chunked_whole)

text \<open>C36: \<^verbatim>\<open>read_chunked\<close> returns exactly the announced number of bytes and leaves the rest in the
  socket, whenever they have all arrived and their number is no multiple of the step.\<close>

theorem read_chunked_ok:
  assumes "\<not> read_step_size dvd n" and "n \<le> length (so_rx s)"
  shows "read_chunked n s = (take n (so_rx s), s\<lparr>so_rx := drop n (so_rx s)\<rparr>)"
  using assms by (rule read_chunked_whole)

lemma read_chunked_ok_witness:
  "read_chunked 5000
     \<lparr>so_rx = replicate 5000 7 @ [1, 2], so_rx_state = Rx_Open, so_tx = ([] :: unit list), so_tx_next = [],
      so_poll = Poll_Events False True, so_peer = ([], 0)\<rparr>
   = (replicate 5000 7,
      \<lparr>so_rx = [1, 2], so_rx_state = Rx_Open, so_tx = [], so_tx_next = [],
       so_poll = Poll_Events False True, so_peer = ([], 0)\<rparr>)"
  by (subst read_chunked_ok) (simp_all add: step_sizes)

text \<open>Where the size is a multiple of the step, the last step asks for no bytes, which the code takes
  for the end of the stream, so that nothing is returned.\<close>

lemma read_chunk_loop_multiple:
  assumes "i < k"
  shows "fst (read_chunk_loop n 0 k i buf s) = []"
  using assms
proof (induction "k - i" arbitrary: i buf s)
  case (Suc d)
  obtain err bs s' where r: "read_message (if i = k - 1 then 0 else read_step_size) s = (err, bs, s')"
    by (metis prod_cases3)
  show ?case
  proof (cases "i = k - 1")
    case True
    then show ?thesis using Suc.prems
      by (subst read_chunk_loop.simps) (simp add: read_message_def Let_def)
  next
    case False
    then have "d = k - (i + 1)" "i + 1 < k" using Suc by auto
    then show ?thesis using Suc.prems False r Suc.hyps(1)
      by (subst read_chunk_loop.simps) (simp add: Let_def)
  qed
qed simp

text \<open>A message whose size is a positive multiple of 4096 is never received: \<^verbatim>\<open>read_chunked\<close> returns
  no bytes, whatever the socket holds.\<close>

theorem read_chunked_multiple:
  assumes "read_step_size dvd n" and "0 < n"
  shows "fst (read_chunked n s) = []"
  using assms by (auto simp: read_chunked_def Let_def step_sizes intro!: read_chunk_loop_multiple)

lemma read_chunked_multiple_witness:
  "fst (read_chunked 8192
     \<lparr>so_rx = replicate 8192 7, so_rx_state = Rx_Open, so_tx = ([] :: unit list), so_tx_next = [],
      so_poll = Poll_Events False True, so_peer = ([], 0)\<rparr>) = []"
  by (rule read_chunked_multiple) (simp_all add: step_sizes)

end
