(* ===== verification/Sky_Job.thy ===== *)
theory Sky_Job
  imports Sky_Tag_Buffer Sky_Network "HOL-Library.Char_ord" "HOL-Library.List_Lexorder"
    "HOL-Library.Multiset"
begin

text \<open>
  \<^verbatim>\<open>skywing_core/job.cpp\<close> and \<^verbatim>\<open>job.hpp\<close>: the subscriptions of a job with their buffers, the versions
  it published, the tags it declared, and the place of a machine in the binary tree of a reduce
  group. An operation that asks something of the manager returns what it asks for; the manager's
  theory executes it. The job's thread, and the locking of the buffer mutex, are outside: every
  operation is one step.
\<close>

section \<open>State\<close>

datatype tag_error = No_Tag_Error | Incorrect_Type | Disconnected

record tag_info =
  ti_buffer :: "discard_buffer option"  \<comment> \<open>\<^verbatim>\<open>None\<close> is the null pointer that \<^verbatim>\<open>rebuild_tags\<close> stores\<close>
  ti_expected :: "8 word list"
  ti_connection_id :: "16 word"
  ti_error :: tag_error

record job =
  job_id :: job_id
  job_bufs :: "(tag_id \<times> tag_info) list"
  job_last_published :: "(tag_id \<times> version_id) list"
  job_running :: bool                      \<comment> \<open>\<^verbatim>\<open>to_run_\<close> is set\<close>
  job_produced :: "(tag_id \<times> 8 word list) list"
  job_notified :: nat                      \<comment> \<open>calls of \<^verbatim>\<open>notify_all\<close> on the condition variable\<close>

definition new_job :: "job_id \<Rightarrow> job res" where
  "new_job i = rassert (i \<noteq> [])
     (Inr \<lparr>job_id = i, job_bufs = [], job_last_published = [], job_running = True,
           job_produced = [], job_notified = 0\<rparr>)"

text \<open>The end of the thread that \<^verbatim>\<open>Job::Accessor::run\<close> starts.\<close>

definition finish_run :: "job \<Rightarrow> job" where
  "finish_run j = j\<lparr>job_running := False\<rparr>"

definition is_finished :: "job \<Rightarrow> bool" where
  "is_finished j \<longleftrightarrow> \<not> job_running j"

definition notify_update :: "job \<Rightarrow> job" where
  "notify_update j = j\<lparr>job_notified := job_notified j + 1\<rparr>"

definition set_tag_info :: "tag_id \<Rightarrow> tag_info \<Rightarrow> job \<Rightarrow> job" where
  "set_tag_info tag ti j = j\<lparr>job_bufs := AList.update tag ti (job_bufs j)\<rparr>"

section \<open>Data and errors\<close>

definition process_data :: "tag_id \<Rightarrow> publish_value list \<Rightarrow> version_id \<Rightarrow> job \<Rightarrow> (bool \<times> job) res" where
  "process_data tag data version j =
     (case map_of (job_bufs j) tag of
        None \<Rightarrow> Inr (True, j)
      | Some ti \<Rightarrow>
          if \<not> types_match (ti_expected ti) data
          then Inr (False, notify_update (set_tag_info tag (ti\<lparr>ti_error := Incorrect_Type\<rparr>) j))
          else (case ti_buffer ti of
                  None \<Rightarrow> Inl Undefined_Behaviour
                | Some b \<Rightarrow> rbind (db_add data version b)
                    (\<lambda>b'. Inr (True, notify_update (set_tag_info tag (ti\<lparr>ti_buffer := Some b'\<rparr>) j)))))"

definition mark_tag_as_dead :: "tag_id \<Rightarrow> job \<Rightarrow> job" where
  "mark_tag_as_dead tag j =
     (case map_of (job_bufs j) tag of
        None \<Rightarrow> j
      | Some ti \<Rightarrow> notify_update (set_tag_info tag
          (ti\<lparr>ti_error := Disconnected, ti_connection_id := ti_connection_id ti + 1\<rparr>) j))"

definition tag_has_subscription :: "tag_id \<Rightarrow> job \<Rightarrow> bool" where
  "tag_has_subscription tag j =
     (case map_of (job_bufs j) tag of None \<Rightarrow> False | Some ti \<Rightarrow> ti_error ti = No_Tag_Error)"

fun tags_have_subscriptions :: "tag_id list \<Rightarrow> job \<Rightarrow> bool" where
  "tags_have_subscriptions [] j = True"
| "tags_have_subscriptions (tag # tags) j =
     (case map_of (job_bufs j) tag of
        None \<Rightarrow> False
      | Some ti \<Rightarrow> if ti_error ti \<noteq> No_Tag_Error then False else tags_have_subscriptions tags j)"

definition tag_has_active_publisher :: "tag_id \<Rightarrow> job \<Rightarrow> bool" where
  "tag_has_active_publisher tag j =
     (case map_of (job_bufs j) tag of None \<Rightarrow> False | Some ti \<Rightarrow> ti_error ti = No_Tag_Error)"

definition job_has_data :: "tag_id \<Rightarrow> job \<Rightarrow> bool res" where
  "job_has_data tag j =
     (case map_of (job_bufs j) tag of
        None \<Rightarrow> Inr False
      | Some ti \<Rightarrow> (case ti_buffer ti of None \<Rightarrow> Inl Undefined_Behaviour | Some b \<Rightarrow> Inr (db_has_data b)))"

section \<open>Taking data\<close>

text \<open>\<^verbatim>\<open>get_waiter\<close> captures the entry of the tag, which is never erased, and its connection id; the two
  closures are the test whether the wait is over and the retrieval.\<close>

definition get_waiter :: "tag_id \<Rightarrow> job \<Rightarrow> (16 word) res" where
  "get_waiter tag j =
     (case map_of (job_bufs j) tag of None \<Rightarrow> Inl Assert_Failed | Some ti \<Rightarrow> Inr (ti_connection_id ti))"

definition value_waiter_ready :: "tag_id \<Rightarrow> 16 word \<Rightarrow> job \<Rightarrow> bool res" where
  "value_waiter_ready tag conn_id j =
     (case map_of (job_bufs j) tag of
        None \<Rightarrow> Inl Undefined_Behaviour
      | Some ti \<Rightarrow> (case ti_buffer ti of
            None \<Rightarrow> Inl Undefined_Behaviour
          | Some b \<Rightarrow> Inr (db_has_data b \<or> ti_error ti \<noteq> No_Tag_Error \<or> ti_connection_id ti \<noteq> conn_id)))"

definition value_waiter_get :: "tag_id \<Rightarrow> job \<Rightarrow> (publish_value list option \<times> job) res" where
  "value_waiter_get tag j =
     (case map_of (job_bufs j) tag of
        None \<Rightarrow> Inl Undefined_Behaviour
      | Some ti \<Rightarrow> (case ti_buffer ti of
            None \<Rightarrow> Inl Undefined_Behaviour
          | Some b \<Rightarrow>
              if db_has_data b
              then rbind (db_get b) (\<lambda>(v, b'). Inr (Some v, set_tag_info tag (ti\<lparr>ti_buffer := Some b'\<rparr>) j))
              else Inr (None, j)))"

section \<open>Subscribing\<close>

definition init_or_update_one :: "tag \<times> discard_buffer option \<Rightarrow> job \<Rightarrow> job res" where
  "init_or_update_one = (\<lambda>(t, ptr) j.
     (case map_of (job_bufs j) (tag_name t) of
        None \<Rightarrow> Inr (j\<lparr>job_bufs := try_emplace (tag_name t)
                  \<lparr>ti_buffer = ptr, ti_expected = tag_types t, ti_connection_id = 0, ti_error = No_Tag_Error\<rparr>
                  (job_bufs j)\<rparr>)
      | Some ti \<Rightarrow> (case ti_buffer ti of
            None \<Rightarrow> Inl Undefined_Behaviour
          | Some b \<Rightarrow> Inr (set_tag_info (tag_name t)
              (ti\<lparr>ti_connection_id := ti_connection_id ti + 1, ti_buffer := Some (db_reset b),
                  ti_error := No_Tag_Error\<rparr>) j))))"

definition init_or_update_subscribe :: "tag list \<Rightarrow> discard_buffer option list \<Rightarrow> job \<Rightarrow> job res" where
  "init_or_update_subscribe tags ptrs j =
     rassert (length tags = length ptrs) (rfold init_or_update_one (zip tags ptrs) j)"

text \<open>A tag with its template arguments: the buffer of \<^verbatim>\<open>BufferType\<close> has the same ones. The result is
  the job and the tags that the manager is asked to subscribe to.\<close>

type_synonym typed_tag = "tag \<times> cpp_type list"

definition typed_tag_ok :: "typed_tag \<Rightarrow> bool" where
  "typed_tag_ok tt \<longleftrightarrow> tag_types (fst tt) = expected_type_for (snd tt)"

definition subscribe_range :: "typed_tag list \<Rightarrow> job \<Rightarrow> (tag_id list \<times> job) res" where
  "subscribe_range tts j =
     rbind (init_or_update_subscribe (map fst tts) (map (\<lambda>(t, ts). Some (new_discard_buffer ts)) tts) j)
       (\<lambda>j'. Inr (map (\<lambda>(t, ts). tag_name t) tts, j'))"

definition job_subscribe :: "typed_tag list \<Rightarrow> job \<Rightarrow> (tag_id list \<times> job) res" where
  "job_subscribe tts j =
     rassert (\<forall>(t, ts) \<in> set tts. \<not> has_key (tag_name t) (job_bufs j)) (subscribe_range tts j)"

definition job_ip_subscribe :: "string \<Rightarrow> typed_tag list \<Rightarrow> job \<Rightarrow> ((addr_port \<times> tag_id list) \<times> job) res" where
  "job_ip_subscribe address tts j =
     rbind (subscribe_range tts j) (\<lambda>(tag_ids, j').
       let addr_pair = split_address address
       in if fst addr_pair = [] then Inl (Exit_Process 1) else Inr ((addr_pair, tag_ids), j'))"

definition rebuild_tags :: "tag list \<Rightarrow> job \<Rightarrow> (tag_id list \<times> job) res" where
  "rebuild_tags tags j =
     rbind (init_or_update_subscribe tags (map (\<lambda>_. None) tags) j) (\<lambda>j'. Inr (map tag_name tags, j'))"

text \<open>The tags with an error are built again from their identifiers without the first character, in
  front of which the constructor of a publish tag puts its own marker.\<close>

definition rebuild_missing_tag_connections :: "job \<Rightarrow> (tag_id list \<times> job) res" where
  "rebuild_missing_tag_connections j =
     rebuild_tags (map (\<lambda>(tag, _). \<lparr>tag_name = publish_tag_marker # drop 1 tag, tag_types = []\<rparr>)
                     (filter (\<lambda>(_, ti). ti_error ti \<noteq> No_Tag_Error) (job_bufs j))) j"

section \<open>Publishing\<close>

definition declare_publication_intent :: "tag list \<Rightarrow> job \<Rightarrow> tag_id list \<times> job" where
  "declare_publication_intent tags j =
     (map tag_name tags,
      j\<lparr>job_produced := fold (\<lambda>t. try_emplace (tag_name t) (tag_types t)) tags (job_produced j)\<rparr>)"

text \<open>The version that the manager is asked to publish: one more than the last, starting with 0.\<close>

definition publish_impl :: "tag_id \<Rightarrow> job \<Rightarrow> (version_id \<times> job) res" where
  "publish_impl tag j = rassert (has_key tag (job_produced j))
     (let m = try_emplace tag tag_no_data (job_last_published j);
          last_version = (case map_of m tag of Some v \<Rightarrow> v | None \<Rightarrow> tag_no_data) + 1
      in Inr (last_version, j\<lparr>job_last_published := AList.update tag last_version m\<rparr>))"

section \<open>Reduce trees\<close>

text \<open>The tags of the group sorted, as a heap: the neighbours of the tag produced here.\<close>

definition reduce_neighbors_of :: "tag_id \<Rightarrow> tag_id list \<Rightarrow> reduce_neighbors" where
  "reduce_neighbors_of tag_produced reduce_over_tags =
     (let bin_tree = sort reduce_over_tags;
          index = index_of tag_produced bin_tree;
          at = (\<lambda>i. if i < length bin_tree then bin_tree ! i else [])
      in \<lparr>rn_parent = (if index \<noteq> 0 then bin_tree ! ((index - 1) div 2) else []),
          rn_left = at (2 * index + 1), rn_right = at (2 * index + 2)\<rparr>)"

definition create_reduce_group_init :: "tag_id \<Rightarrow> tag_id list \<Rightarrow> 8 word list \<Rightarrow> job \<Rightarrow> (reduce_neighbors \<times> job) res" where
  "create_reduce_group_init tag_produced reduce_over_tags expected_types j =
     rassert (\<not> has_key tag_produced (job_produced j))
       (Inr (reduce_neighbors_of tag_produced reduce_over_tags,
             j\<lparr>job_produced := try_emplace tag_produced expected_types (job_produced j)\<rparr>))"

section \<open>The invariant of a job\<close>

definition info_ok :: "tag_id \<Rightarrow> tag_info \<Rightarrow> bool" where
  "info_ok tag ti \<longleftrightarrow>
     (case ti_buffer ti of
        None \<Rightarrow> True
      | Some b \<Rightarrow> db_inv b \<and> ti_expected ti = expected_type_for (db_types b))"

definition job_inv :: "job \<Rightarrow> bool" where
  "job_inv j \<longleftrightarrow> distinct (map fst (job_bufs j)) \<and> map_all info_ok (job_bufs j)
     \<and> distinct (map fst (job_produced j))"

text \<open>No null buffer: what holds until the first \<^verbatim>\<open>rebuild_tags\<close> of a tag that is not subscribed.\<close>

definition job_buffered :: "job \<Rightarrow> bool" where
  "job_buffered j \<longleftrightarrow> map_all (\<lambda>_ ti. ti_buffer ti \<noteq> None) (job_bufs j)"

lemma new_job_inv: "new_job i = Inr j \<Longrightarrow> job_inv j \<and> job_buffered j"
  by (auto simp: new_job_def res_iffs job_inv_def job_buffered_def)

lemma job_inv_set_tag_info: "job_inv j \<Longrightarrow> info_ok tag ti \<Longrightarrow> job_inv (set_tag_info tag ti j)"
  by (auto simp: job_inv_def set_tag_info_def intro: map_all_intros)

lemma job_buffered_set_tag_info:
  "job_buffered j \<Longrightarrow> ti_buffer ti \<noteq> None \<Longrightarrow> job_buffered (set_tag_info tag ti j)"
  by (auto simp: job_buffered_def set_tag_info_def intro: map_all_intros)

lemma notify_update_inv [simp]:
  "job_inv (notify_update j) = job_inv j" "job_buffered (notify_update j) = job_buffered j"
  "job_bufs (notify_update j) = job_bufs j"
  by (simp_all add: job_inv_def job_buffered_def notify_update_def)

lemma job_notified_simps [simp]:
  "job_notified (notify_update j) = job_notified j + 1" "job_notified (set_tag_info tag ti j) = job_notified j"
  by (simp_all add: notify_update_def set_tag_info_def)

lemma job_invD: "job_inv j \<Longrightarrow> map_of (job_bufs j) tag = Some ti \<Longrightarrow> info_ok tag ti"
  by (auto simp: job_inv_def dest: map_allD)

lemma job_bufferedD: "job_buffered j \<Longrightarrow> map_of (job_bufs j) tag = Some ti \<Longrightarrow> \<exists>b. ti_buffer ti = Some b"
  by (auto simp: job_buffered_def dest: map_allD)

lemma map_of_set_tag_info:
  "map_of (job_bufs (set_tag_info tag ti j)) k = (if k = tag then Some ti else map_of (job_bufs j) k)"
  by (simp add: set_tag_info_def update_conv')

lemma process_data_inv: "job_inv j \<Longrightarrow> process_data tag data n j = Inr (ok, j') \<Longrightarrow> job_inv j'"
  by (fastforce simp: process_data_def res_iffs info_ok_def db_types_stable
      dest: job_invD db_add_Inr_inv intro!: job_inv_set_tag_info split: option.splits if_splits)

lemma mark_tag_as_dead_inv: "job_inv j \<Longrightarrow> job_inv (mark_tag_as_dead tag j)"
  by (auto simp: mark_tag_as_dead_def info_ok_def dest: job_invD intro!: job_inv_set_tag_info
      split: option.splits)

lemma value_waiter_get_inv: "job_inv j \<Longrightarrow> value_waiter_get tag j = Inr (v, j') \<Longrightarrow> job_inv j'"
  by (fastforce simp: value_waiter_get_def res_iffs info_ok_def db_types_stable
      dest: job_invD db_get_inv intro!: job_inv_set_tag_info split: option.splits if_splits)

lemma init_or_update_one_inv:
  assumes "job_inv j" "init_or_update_one (t, ptr) j = Inr j'"
    and "\<And>b. ptr = Some b \<Longrightarrow> db_inv b \<and> tag_types t = expected_type_for (db_types b)"
  shows "job_inv j'"
proof (cases "map_of (job_bufs j) (tag_name t)")
  case None
  let ?ti = "\<lparr>ti_buffer = ptr, ti_expected = tag_types t, ti_connection_id = 0, ti_error = No_Tag_Error\<rparr>"
  have "info_ok (tag_name t) ?ti" using assms(3) by (simp add: info_ok_def split: option.split)
  then have "map_all info_ok (try_emplace (tag_name t) ?ti (job_bufs j))"
    using assms(1) by (simp add: job_inv_def map_all_try_emplace)
  with assms(1,2) None show ?thesis by (auto simp: init_or_update_one_def job_inv_def)
next
  case (Some ti)
  with assms(2) obtain b where "ti_buffer ti = Some b"
    by (cases "ti_buffer ti") (simp_all add: init_or_update_one_def)
  moreover have "info_ok (tag_name t) ti" using assms(1) Some by (rule job_invD)
  ultimately have "info_ok (tag_name t) (ti\<lparr>ti_connection_id := ti_connection_id ti + 1,
      ti_buffer := Some (db_reset b), ti_error := No_Tag_Error\<rparr>)"
    by (simp add: info_ok_def)
  from job_inv_set_tag_info [OF assms(1) this] show ?thesis
    using assms(2) Some \<open>ti_buffer ti = Some b\<close> by (simp add: init_or_update_one_def)
qed

lemma init_or_update_inv:
  assumes "job_inv j" "init_or_update_subscribe tags ptrs j = Inr j'"
    and "\<forall>(t, ptr) \<in> set (zip tags ptrs). case ptr of None \<Rightarrow> True
           | Some b \<Rightarrow> db_inv b \<and> tag_types t = expected_type_for (db_types b)"
  shows "job_inv j'"
proof -
  have r: "rfold init_or_update_one (zip tags ptrs) j = Inr j'"
    using assms(2) by (simp add: init_or_update_subscribe_def res_iffs)
  show ?thesis
  proof (rule rfold_inv [of init_or_update_one _ _ _ job_inv, OF r assms(1)])
    fix x u v assume a: "x \<in> set (zip tags ptrs)" "job_inv u" "init_or_update_one x u = Inr v"
    obtain t ptr where x: "x = (t, ptr)" by fastforce
    show "job_inv v"
      by (rule init_or_update_one_inv [OF a(2) a(3) [unfolded x]]) (use assms(3) a(1) x in auto)
  qed
qed

lemma subscribe_range_inv:
  assumes "job_inv j" "subscribe_range tts j = Inr (ids, j')" "\<forall>tt \<in> set tts. typed_tag_ok tt"
  shows "job_inv j'"
proof -
  have "init_or_update_subscribe (map fst tts) (map (\<lambda>(t, ts). Some (new_discard_buffer ts)) tts) j = Inr j'"
    using assms(2) by (auto simp: subscribe_range_def res_iffs)
  moreover have "zip (map fst tts) (map (\<lambda>(t, ts). Some (new_discard_buffer ts)) tts)
      = map (\<lambda>(t, ts). (t, Some (new_discard_buffer ts))) tts"
    by (induction tts) auto
  moreover have "db_types (new_discard_buffer ts) = ts" for ts by (simp add: new_discard_buffer_def)
  moreover have "tag_types t = expected_type_for ts" if "(t, ts) \<in> set tts" for t ts
    using assms(3) that by (auto simp: typed_tag_ok_def)
  ultimately show ?thesis
    using assms(1) new_discard_buffer_inv by (intro init_or_update_inv [OF assms(1)]) auto
qed

lemma rebuild_tags_inv: "job_inv j \<Longrightarrow> rebuild_tags tags j = Inr (ids, j') \<Longrightarrow> job_inv j'"
  by (fastforce simp: rebuild_tags_def res_iffs dest: set_zip_rightD intro: init_or_update_inv split: option.splits)

lemma publish_impl_bufs: "publish_impl tag j = Inr (n, j') \<Longrightarrow> job_bufs j' = job_bufs j \<and> job_produced j' = job_produced j"
  by (auto simp: publish_impl_def res_iffs Let_def)

lemma distinct_fold_try_emplace [simp]:
  "distinct (map fst (fold (\<lambda>t. try_emplace (f t) (g t)) ts m)) \<longleftrightarrow> distinct (map fst m)"
  by (induction ts arbitrary: m) auto

section \<open>Runs of a job\<close>

datatype job_event =
    Ev_Data tag_id "publish_value list" version_id
  | Ev_Dead tag_id
  | Ev_Subscribe "typed_tag list"
  | Ev_Subscribe_Range "typed_tag list"
  | Ev_IP_Subscribe string "typed_tag list"
  | Ev_Get tag_id
  | Ev_Declare "tag list"
  | Ev_Publish tag_id
  | Ev_Reduce_Group tag_id "tag_id list" "8 word list"
  | Ev_Rebuild "tag list"
  | Ev_Rebuild_Missing
  | Ev_Finish

fun job_step :: "job_event \<Rightarrow> job \<Rightarrow> job res" where
  "job_step (Ev_Data tag data n) j = rbind (process_data tag data n j) (\<lambda>(ok, j'). Inr j')"
| "job_step (Ev_Dead tag) j = Inr (mark_tag_as_dead tag j)"
| "job_step (Ev_Subscribe tts) j = rbind (job_subscribe tts j) (\<lambda>(ids, j'). Inr j')"
| "job_step (Ev_Subscribe_Range tts) j = rbind (subscribe_range tts j) (\<lambda>(ids, j'). Inr j')"
| "job_step (Ev_IP_Subscribe a tts) j = rbind (job_ip_subscribe a tts j) (\<lambda>(ids, j'). Inr j')"
| "job_step (Ev_Get tag) j =
     rbind (get_waiter tag j) (\<lambda>_. rbind (value_waiter_get tag j) (\<lambda>(v, j'). Inr j'))"
| "job_step (Ev_Declare tags) j = Inr (snd (declare_publication_intent tags j))"
| "job_step (Ev_Publish tag) j = rbind (publish_impl tag j) (\<lambda>(n, j'). Inr j')"
| "job_step (Ev_Reduce_Group tag tags ts) j = rbind (create_reduce_group_init tag tags ts j) (\<lambda>(n, j'). Inr j')"
| "job_step (Ev_Rebuild tags) j = rbind (rebuild_tags tags j) (\<lambda>(ids, j'). Inr j')"
| "job_step Ev_Rebuild_Missing j = rbind (rebuild_missing_tag_connections j) (\<lambda>(ids, j'). Inr j')"
| "job_step Ev_Finish j = Inr (finish_run j)"

fun event_typed :: "job_event \<Rightarrow> bool" where
  "event_typed (Ev_Subscribe tts) \<longleftrightarrow> (\<forall>tt \<in> set tts. typed_tag_ok tt)"
| "event_typed (Ev_Subscribe_Range tts) \<longleftrightarrow> (\<forall>tt \<in> set tts. typed_tag_ok tt)"
| "event_typed (Ev_IP_Subscribe a tts) \<longleftrightarrow> (\<forall>tt \<in> set tts. typed_tag_ok tt)"
| "event_typed _ \<longleftrightarrow> True"

lemma job_step_inv:
  assumes "job_inv j" "event_typed e" "job_step e j = Inr j'"
  shows "job_inv j'"
proof (cases e)
  case (Ev_Data tag data n)
  then show ?thesis using assms by (auto simp: res_iffs intro: process_data_inv)
next
  case (Ev_Dead tag)
  then show ?thesis using assms by (auto intro: mark_tag_as_dead_inv)
next
  case (Ev_Subscribe tts)
  then show ?thesis using assms by (auto simp: res_iffs job_subscribe_def intro: subscribe_range_inv)
next
  case (Ev_Subscribe_Range tts)
  then show ?thesis using assms by (auto simp: res_iffs intro: subscribe_range_inv)
next
  case (Ev_IP_Subscribe a tts)
  then show ?thesis using assms
    by (auto simp: res_iffs job_ip_subscribe_def Let_def intro: subscribe_range_inv split: if_splits)
next
  case (Ev_Get tag)
  then show ?thesis using assms by (auto simp: res_iffs intro: value_waiter_get_inv)
next
  case (Ev_Declare tags)
  then show ?thesis using assms by (auto simp: declare_publication_intent_def job_inv_def)
next
  case (Ev_Publish tag)
  then show ?thesis using assms by (auto simp: res_iffs job_inv_def dest!: publish_impl_bufs)
next
  case (Ev_Reduce_Group tag tags ts)
  then show ?thesis using assms by (auto simp: res_iffs create_reduce_group_init_def job_inv_def)
next
  case (Ev_Rebuild tags)
  then show ?thesis using assms by (auto simp: res_iffs intro: rebuild_tags_inv)
next
  case Ev_Rebuild_Missing
  then show ?thesis using assms
    by (auto simp: res_iffs rebuild_missing_tag_connections_def intro: rebuild_tags_inv)
next
  case Ev_Finish
  then show ?thesis using assms by (auto simp: finish_run_def job_inv_def)
qed

interpretation job: invariant_run "\<lambda>e j. rassert (event_typed e) (job_step e j)" job_inv
  by unfold_locales (auto simp: res_iffs intro: job_step_inv)

section \<open>Data that arrives\<close>

lemma types_match_buffer: "info_ok tag ti \<Longrightarrow> ti_buffer ti = Some b \<Longrightarrow>
    types_match (ti_expected ti) data \<longleftrightarrow> span_is_valid (db_types b) data"
  by (simp add: info_ok_def span_is_valid_types_match)

lemma process_data_known:
  assumes "job_inv j" "map_of (job_bufs j) tag = Some ti" "ti_buffer ti = Some b"
  shows "\<not> types_match (ti_expected ti) data \<Longrightarrow>
      process_data tag data n j
        = Inr (False, notify_update (set_tag_info tag (ti\<lparr>ti_error := Incorrect_Type\<rparr>) j))"
    and "types_match (ti_expected ti) data \<Longrightarrow>
      \<exists>b'. db_add data n b = Inr b' \<and> process_data tag data n j
        = Inr (True, notify_update (set_tag_info tag (ti\<lparr>ti_buffer := Some b'\<rparr>) j))"
proof -
  have ok: "info_ok tag ti" using assms(1,2) by (rule job_invD)
  show "\<not> types_match (ti_expected ti) data \<Longrightarrow>
      process_data tag data n j
        = Inr (False, notify_update (set_tag_info tag (ti\<lparr>ti_error := Incorrect_Type\<rparr>) j))"
    using assms by (simp add: process_data_def)
  assume t: "types_match (ti_expected ti) data"
  then obtain b' where "db_add data n b = Inr b'"
    using types_match_buffer [OF ok assms(3)] db_add_total by blast
  with t assms(2,3) show "\<exists>b'. db_add data n b = Inr b' \<and> process_data tag data n j
        = Inr (True, notify_update (set_tag_info tag (ti\<lparr>ti_buffer := Some b'\<rparr>) j))"
    by (simp add: process_data_def)
qed

text \<open>What the handling of arriving data promises, by the entry of its tag before and after.\<close>

definition data_effect :: "publish_value list \<Rightarrow> version_id \<Rightarrow> bool \<Rightarrow> tag_info \<Rightarrow> tag_info \<Rightarrow> bool" where
  "data_effect data n ok ti ti' \<longleftrightarrow>
     ok = types_match (ti_expected ti) data \<and> ti_expected ti' = ti_expected ti
     \<and> ti_connection_id ti' = ti_connection_id ti
     \<and> (if ok
        then ti_error ti' = ti_error ti
          \<and> (\<exists>b b'. ti_buffer ti = Some b \<and> ti_buffer ti' = Some b' \<and> db_fetched b' = db_fetched b
               \<and> db_latest b' = (if newer n (db_latest b) then Some (n, data) else db_latest b))
        else ti_error ti' = Incorrect_Type \<and> ti_buffer ti' = ti_buffer ti)"

text \<open>C29: Data that arrives for a tag never fails an assertion and never meets a null buffer before the
  first rebuild. For a tag without subscription it changes nothing and is no error. Otherwise it is
  accepted exactly when its types are the expected ones; accepted data replaces the stored value
  exactly when its version is newer, and leaves an earlier error as it is; data of wrong types marks
  the tag and leaves the buffer. Other tags stay as they are, and waiting threads are notified.\<close>

theorem process_data_spec:
  assumes "job_inv j" "job_buffered j" "n \<noteq> tag_no_data"
  shows "\<exists>ok j'. process_data tag data n j = Inr (ok, j') \<and> job_inv j' \<and> job_buffered j'
    \<and> (\<forall>k. k \<noteq> tag \<longrightarrow> map_of (job_bufs j') k = map_of (job_bufs j) k)
    \<and> (case map_of (job_bufs j) tag of
         None \<Rightarrow> ok \<and> j' = j
       | Some ti \<Rightarrow> job_notified j' = job_notified j + 1
           \<and> (\<exists>ti'. map_of (job_bufs j') tag = Some ti' \<and> data_effect data n ok ti ti'))"
proof (cases "map_of (job_bufs j) tag")
  case None
  with assms show ?thesis by (auto simp: process_data_def)
next
  case (Some ti)
  obtain b where b: "ti_buffer ti = Some b" using job_bufferedD [OF assms(2) Some] by blast
  have ok: "info_ok tag ti" using assms(1) Some by (rule job_invD)
  let ?wrong = "ti\<lparr>ti_error := Incorrect_Type\<rparr>"
  note known = process_data_known [OF assms(1) Some b]
  show ?thesis
  proof (cases "types_match (ti_expected ti) data")
    case False
    have e: "data_effect data n False ti ?wrong" using False by (simp add: data_effect_def)
    have "job_buffered (set_tag_info tag ?wrong j)"
      using assms(2) b by (simp add: job_buffered_set_tag_info)
    moreover have "job_inv (set_tag_info tag ?wrong j)"
      using ok by (intro job_inv_set_tag_info [OF assms(1)]) (simp add: info_ok_def split: option.splits)
    ultimately show ?thesis using known(1) [OF False] Some e
      by (intro exI [of _ False] exI [of _ "notify_update (set_tag_info tag ?wrong j)"])
        (simp add: map_of_set_tag_info)
  next
    case True
    from known(2) [OF True] obtain b' where b': "db_add data n b = Inr b'" and
      p: "process_data tag data n j = Inr (True, notify_update (set_tag_info tag (ti\<lparr>ti_buffer := Some b'\<rparr>) j))"
      by blast
    have "db_inv b" "span_is_valid (db_types b) data"
      using ok b True by (auto simp: info_ok_def span_is_valid_types_match)
    from db.add_ok [OF this assms(3)] b' have l: "db_fetched b' = db_fetched b"
      "db_latest b' = (if newer n (db_latest b) then Some (n, data) else db_latest b)" by auto
    let ?new = "ti\<lparr>ti_buffer := Some b'\<rparr>"
    have e: "data_effect data n True ti ?new" using True b l by (simp add: data_effect_def)
    have "job_buffered (set_tag_info tag ?new j)" using assms(2) by (simp add: job_buffered_set_tag_info)
    moreover have "job_inv (set_tag_info tag ?new j)"
      using process_data_inv [OF assms(1) p] by simp
    ultimately show ?thesis using p Some e
      by (intro exI [of _ True] exI [of _ "notify_update (set_tag_info tag ?new j)"])
        (simp add: map_of_set_tag_info)
  qed
qed

text \<open>A job subscribed to one tag, for the witnesses.\<close>

definition sample_info :: tag_info where
  "sample_info = \<lparr>ti_buffer = Some (new_discard_buffer [T_int32]), ti_expected = expected_type_for [T_int32],
     ti_connection_id = 0, ti_error = No_Tag_Error\<rparr>"

definition sample_job :: job where
  "sample_job = \<lparr>job_id = ''j'', job_bufs = [(''pa'', sample_info)], job_last_published = [],
     job_running = True, job_produced = [(''pb'', [8])], job_notified = 0\<rparr>"

lemma sample_job_inv: "job_inv sample_job" "job_buffered sample_job"
  by (simp_all add: job_inv_def job_buffered_def sample_job_def sample_info_def info_ok_def
      new_discard_buffer_inv) (simp_all add: new_discard_buffer_def)

lemma process_data_spec_witness:
  "\<exists>ok j'. process_data ''pa'' [V_int32 7] 3 sample_job = Inr (ok, j') \<and> job_inv j'
     \<and> (\<exists>ti'. map_of (job_bufs j') ''pa'' = Some ti' \<and> data_effect [V_int32 7] 3 ok sample_info ti')"
proof -
  have "(3 :: version_id) \<noteq> tag_no_data" by (simp add: tag_no_data_def)
  from process_data_spec [OF sample_job_inv this, of "''pa''" "[V_int32 7]"] show ?thesis
    by (auto simp: sample_job_def)
qed

text \<open>A value of the right types and a new version is what the waiter of its tag is ready to take, and
  takes, once: afterwards there is nothing to take until a newer version arrives.\<close>

theorem arrived_value_is_taken:
  assumes "job_inv j" "map_of (job_bufs j) tag = Some ti" "ti_buffer ti = Some b"
    and "map value_type data = db_types b" "n \<noteq> tag_no_data" "newer n (db_latest b)"
    and "\<forall>f. db_fetched b = Some f \<longrightarrow> f < n"
  shows "\<exists>j1 j2. process_data tag data n j = Inr (True, j1)
     \<and> value_waiter_ready tag c j1 = Inr True
     \<and> value_waiter_get tag j1 = Inr (Some data, j2) \<and> job_has_data tag j2 = Inr False"
proof -
  have ok: "info_ok tag ti" using assms(1,2) by (rule job_invD)
  have v: "span_is_valid (db_types b) data" using assms(4) by (simp add: span_is_valid_iff)
  have t: "types_match (ti_expected ti) data" using types_match_buffer [OF ok assms(3)] v by simp
  have "db_inv b" using ok assms(3) by (simp add: info_ok_def)
  from db.get_after_add [OF this v assms(5,6)] assms(7) obtain b1 b2 where
    b: "db_add data n b = Inr b1" "db_has_data b1" "db_get b1 = Inr (data, b2)" "\<not> db_has_data b2"
    by blast
  from process_data_known(2) [OF assms(1-3) t, of n] b(1) have
    p: "process_data tag data n j
        = Inr (True, notify_update (set_tag_info tag (ti\<lparr>ti_buffer := Some b1\<rparr>) j))" by auto
  show ?thesis
    by (rule exI, rule exI [of _ "set_tag_info tag (ti\<lparr>ti_buffer := Some b2\<rparr>)
          (notify_update (set_tag_info tag (ti\<lparr>ti_buffer := Some b1\<rparr>) j))"], rule conjI [OF p])
      (simp add: value_waiter_ready_def value_waiter_get_def job_has_data_def map_of_set_tag_info b)
qed

lemma arrived_value_is_taken_witness:
  "\<exists>j1 j2. process_data ''pa'' [V_int32 7] 3 sample_job = Inr (True, j1)
     \<and> value_waiter_get ''pa'' j1 = Inr (Some [V_int32 7], j2)"
proof -
  have "\<exists>j1 j2. process_data ''pa'' [V_int32 7] 3 sample_job = Inr (True, j1)
      \<and> value_waiter_ready ''pa'' 0 j1 = Inr True
      \<and> value_waiter_get ''pa'' j1 = Inr (Some [V_int32 7], j2) \<and> job_has_data ''pa'' j2 = Inr False"
    by (rule arrived_value_is_taken [OF sample_job_inv(1), of "''pa''" sample_info "new_discard_buffer [T_int32]"])
      (simp_all add: sample_job_def sample_info_def db_defs tag_no_data_def newer_def)
  then show ?thesis by blast
qed

section \<open>Lost connections\<close>

text \<open>When a tag is marked dead, its subscription counts as lost, the waiters created before are ready,
  and threads that wait are notified. After the tag is subscribed again, the subscription counts, yet
  the old waiters stay ready and find nothing: a value of the new connection is never taken for one of
  the old.\<close>

theorem dead_tag_releases_waiters:
  assumes "map_of (job_bufs j) tag = Some ti" "ti_buffer ti = Some b"
  shows "\<not> tag_has_subscription tag (mark_tag_as_dead tag j)
    \<and> value_waiter_ready tag (ti_connection_id ti) (mark_tag_as_dead tag j) = Inr True
    \<and> job_notified (mark_tag_as_dead tag j) = job_notified j + 1
    \<and> (\<exists>j'. init_or_update_one (\<lparr>tag_name = tag, tag_types = ts\<rparr>, ptr) (mark_tag_as_dead tag j) = Inr j'
         \<and> tag_has_subscription tag j'
         \<and> value_waiter_ready tag (ti_connection_id ti) j' = Inr True
         \<and> value_waiter_get tag j' = Inr (None, j'))"
proof -
  have [simp]: "ti_connection_id ti + 1 + 1 \<noteq> ti_connection_id ti"
    by (simp add: add.assoc)
  let ?dead = "ti\<lparr>ti_error := Disconnected, ti_connection_id := ti_connection_id ti + 1\<rparr>"
  have d: "mark_tag_as_dead tag j = notify_update (set_tag_info tag ?dead j)"
    using assms(1) by (simp add: mark_tag_as_dead_def)
  have m: "map_of (job_bufs (mark_tag_as_dead tag j)) tag = Some ?dead"
    by (simp add: d map_of_set_tag_info)
  have "\<not> db_has_data (db_reset b)" by (rule db.reset_empty)
  with assms(2) m show ?thesis
    by (simp add: tag_has_subscription_def value_waiter_ready_def value_waiter_get_def
        init_or_update_one_def map_of_set_tag_info)
      (simp add: d notify_update_def set_tag_info_def)
qed

lemma dead_tag_releases_waiters_witness:
  "value_waiter_ready ''pa'' 0 (mark_tag_as_dead ''pa'' sample_job) = Inr True"
  using dead_tag_releases_waiters [of sample_job "''pa''" sample_info "new_discard_buffer [T_int32]"]
  by (simp add: sample_job_def sample_info_def)

text \<open>A private tag that lost its connection is not rebuilt: the identifier loses its marker and the
  constructor puts the marker of publish tags in front, so that the manager is asked for a tag of
  another name, whose entry has no buffer; the private tag keeps its error. Asking the new entry for
  data dereferences the null pointer.\<close>

theorem rebuild_missing_private_tag:
  assumes "filter (\<lambda>(_, ti). ti_error ti \<noteq> No_Tag_Error) (job_bufs j) = [(private_tag_marker # name, ti)]"
    and "\<not> has_key (publish_tag_marker # name) (job_bufs j)" "distinct (map fst (job_bufs j))"
  shows "\<exists>j'. rebuild_missing_tag_connections j = Inr ([publish_tag_marker # name], j')
    \<and> map_of (job_bufs j') (private_tag_marker # name) = Some ti \<and> ti_error ti \<noteq> No_Tag_Error
    \<and> job_has_data (publish_tag_marker # name) j' = Inl Undefined_Behaviour"
proof -
  have "(private_tag_marker # name, ti) \<in> set (filter (\<lambda>(_, ti). ti_error ti \<noteq> No_Tag_Error) (job_bufs j))"
    by (simp add: assms(1))
  then have "map_of (job_bufs j) (private_tag_marker # name) = Some ti" "ti_error ti \<noteq> No_Tag_Error"
    using assms(3) by (auto intro: map_of_is_SomeI)
  moreover have "map_of (job_bufs j) (publish_tag_marker # name) = None"
    using assms(2) by (simp add: has_key_def)
  ultimately show ?thesis using assms(1,2)
    by (simp add: rebuild_missing_tag_connections_def rebuild_tags_def init_or_update_subscribe_def
        init_or_update_one_def job_has_data_def map_of_try_emplace markers)
qed

lemma rebuild_missing_private_tag_witness:
  "\<exists>j'. rebuild_missing_tag_connections
      (sample_job\<lparr>job_bufs := [(''xa'', sample_info\<lparr>ti_error := Disconnected\<rparr>)]\<rparr>) = Inr ([''pa''], j')
    \<and> job_has_data ''pa'' j' = Inl Undefined_Behaviour"
  using rebuild_missing_private_tag
    [of "sample_job\<lparr>job_bufs := [(''xa'', sample_info\<lparr>ti_error := Disconnected\<rparr>)]\<rparr>" "''a''"
        "sample_info\<lparr>ti_error := Disconnected\<rparr>"]
  by (auto simp: markers has_key_def)

section \<open>Published versions\<close>

fun publish_all :: "tag_id list \<Rightarrow> job \<Rightarrow> (version_id list \<times> job) res" where
  "publish_all [] j = Inr ([], j)"
| "publish_all (tag # tags) j =
     rbind (publish_impl tag j) (\<lambda>(n, j'). rbind (publish_all tags j') (\<lambda>(ns, j''). Inr (n # ns, j'')))"

definition next_version :: "tag_id \<Rightarrow> job \<Rightarrow> version_id" where
  "next_version tag j = (case map_of (job_last_published j) tag of None \<Rightarrow> 0 | Some v \<Rightarrow> v + 1)"

lemma publish_impl_next:
  assumes "has_key tag (job_produced j)"
  shows "\<exists>j'. publish_impl tag j = Inr (next_version tag j, j') \<and> job_produced j' = job_produced j
           \<and> (\<forall>t. next_version t j' = (if t = tag then next_version t j + 1 else next_version t j))"
proof -
  let ?m = "try_emplace tag tag_no_data (job_last_published j)"
  let ?v = "(case map_of ?m tag of Some v \<Rightarrow> v | None \<Rightarrow> tag_no_data) + 1"
  have v: "?v = next_version tag j"
    by (auto simp: next_version_def map_of_try_emplace has_key_def tag_no_data_def split: option.splits)
  have "map_of (AList.update tag (next_version tag j) ?m) t
      = (if t = tag then Some (next_version tag j) else map_of (job_last_published j) t)" for t
    by (auto simp: update_conv' map_of_try_emplace)
  then have "next_version t (j\<lparr>job_last_published := AList.update tag (next_version tag j) ?m\<rparr>)
      = (if t = tag then next_version t j + 1 else next_version t j)" for t
    by (simp add: next_version_def [of _ "j\<lparr>job_last_published := _\<rparr>"]) (simp add: next_version_def)
  with assms show ?thesis by (simp add: publish_impl_def Let_def v)
qed

text \<open>The versions that a job publishes on a tag count up from 0, one tag independently of the others:
  the publication after \<open>k\<close> earlier ones on the same tag has version \<open>k\<close> (modulo \<open>2 ^ 32\<close>).\<close>

theorem publish_versions_count:
  assumes "\<forall>tag \<in> set tags. has_key tag (job_produced j)" "job_last_published j = []"
  shows "\<exists>vs j'. publish_all tags j = Inr (vs, j') \<and> length vs = length tags
           \<and> (\<forall>i < length tags. vs ! i = of_nat (count_list (take i tags) (tags ! i)))"
proof -
  have "\<forall>tag \<in> set tags. has_key tag (job_produced j) \<Longrightarrow>
      \<exists>vs j'. publish_all tags j = Inr (vs, j') \<and> length vs = length tags
        \<and> (\<forall>i < length tags. vs ! i = next_version (tags ! i) j + of_nat (count_list (take i tags) (tags ! i)))"
    for j
  proof (induction tags arbitrary: j)
    case (Cons tag tags)
    from Cons.prems publish_impl_next [of tag j] obtain j1 where
      j1: "publish_impl tag j = Inr (next_version tag j, j1)" "job_produced j1 = job_produced j"
      "\<And>t. next_version t j1 = (if t = tag then next_version t j + 1 else next_version t j)" by auto
    with Cons.prems Cons.IH [of j1] obtain vs j2 where
      j2: "publish_all tags j1 = Inr (vs, j2)" "length vs = length tags"
      "\<forall>i < length tags. vs ! i = next_version (tags ! i) j1 + of_nat (count_list (take i tags) (tags ! i))"
      by auto
    have "\<forall>i < length (tag # tags). (next_version tag j # vs) ! i
        = next_version ((tag # tags) ! i) j + of_nat (count_list (take i (tag # tags)) ((tag # tags) ! i))"
      using j1(3) j2(2,3) by (auto simp: nth_Cons split: nat.splits)
    with j1(1) j2(1,2) show ?case by (auto intro!: exI [of _ "next_version tag j # vs"])
  qed simp
  from this [OF assms(1)] assms(2) show ?thesis by (simp add: next_version_def)
qed

lemma publish_versions_count_witness:
  "\<exists>vs j'. publish_all [''pb'', ''pb''] sample_job = Inr (vs, j') \<and> vs ! 1 = 1"
proof -
  have "\<exists>vs j'. publish_all [''pb'', ''pb''] sample_job = Inr (vs, j') \<and> length vs = length [''pb'', ''pb'']
      \<and> (\<forall>i < length [''pb'', ''pb'']. vs ! i = of_nat (count_list (take i [''pb'', ''pb'']) ([''pb'', ''pb''] ! i)))"
    by (rule publish_versions_count) (simp_all add: sample_job_def has_key_def)
  then obtain vs j' where "publish_all [''pb'', ''pb''] sample_job = Inr (vs, j')"
      "\<forall>i < 2. vs ! i = (of_nat (count_list (take i [''pb'', ''pb'']) ([''pb'', ''pb''] ! i)) :: version_id)"
    by auto
  then show ?thesis by (intro exI [of _ vs] exI [of _ j']) simp
qed

section \<open>No undefined behaviour without rebuilding\<close>

fun event_rebuilds :: "job_event \<Rightarrow> bool" where
  "event_rebuilds (Ev_Rebuild tags) \<longleftrightarrow> True"
| "event_rebuilds Ev_Rebuild_Missing \<longleftrightarrow> True"
| "event_rebuilds _ \<longleftrightarrow> False"

definition defined_and :: "('s \<Rightarrow> bool) \<Rightarrow> 's res \<Rightarrow> bool" where
  "defined_and P r = (case r of Inl e \<Rightarrow> e \<noteq> Undefined_Behaviour | Inr s \<Rightarrow> P s)"

lemma defined_and_simps [simp]:
  "defined_and P (Inl e) \<longleftrightarrow> e \<noteq> Undefined_Behaviour" "defined_and P (Inr s) \<longleftrightarrow> P s"
  by (simp_all add: defined_and_def)

lemma defined_and_bind:
  "defined_and P m \<Longrightarrow> (\<And>x. m = Inr x \<Longrightarrow> P x \<Longrightarrow> defined_and Q (f x)) \<Longrightarrow> defined_and Q (rbind m f)"
  by (cases m) auto

lemma defined_and_assert: "(b \<Longrightarrow> defined_and P m) \<Longrightarrow> defined_and P (rassert b m)"
  by (cases b) auto

lemma defined_and_fold:
  assumes "P s" "\<And>x u. x \<in> set xs \<Longrightarrow> P u \<Longrightarrow> defined_and P (f x u)"
  shows "defined_and P (rfold f xs s)"
  using assms
proof (induction xs arbitrary: s)
  case (Cons x xs)
  have "defined_and P (f x s)" using Cons.prems by simp
  then have "defined_and P (rbind (f x s) (rfold f xs))"
    by (rule defined_and_bind) (use Cons in auto)
  then show ?case by simp
qed simp

lemma init_or_update_one_defined:
  "job_buffered j \<Longrightarrow> ptr \<noteq> None \<Longrightarrow> defined_and job_buffered (init_or_update_one (t, ptr) j)"
proof (cases "map_of (job_bufs j) (tag_name t)")
  case (Some ti)
  assume "job_buffered j"
  with Some obtain b where "ti_buffer ti = Some b" using job_bufferedD by blast
  with Some \<open>job_buffered j\<close> show ?thesis
    by (simp add: init_or_update_one_def job_buffered_set_tag_info)
qed (simp add: init_or_update_one_def job_buffered_def map_all_try_emplace)

lemma subscribe_range_defined:
  assumes "job_buffered j"
  shows "defined_and (\<lambda>(ids, j'). job_buffered j') (subscribe_range tts j)"
proof -
  have "defined_and job_buffered
      (init_or_update_subscribe (map fst tts) (map (\<lambda>(t, ts). Some (new_discard_buffer ts)) tts) j)"
    unfolding init_or_update_subscribe_def
    by (intro defined_and_assert defined_and_fold assms)
      (auto simp: init_or_update_one_defined dest!: set_zip_rightD)
  then show ?thesis unfolding subscribe_range_def by (rule defined_and_bind) simp
qed

lemma process_data_defined:
  assumes "job_inv j" "job_buffered j"
  shows "defined_and (\<lambda>(ok, j'). job_buffered j') (process_data tag data n j)"
proof (cases "map_of (job_bufs j) tag")
  case (Some ti)
  obtain b where b: "ti_buffer ti = Some b" using job_bufferedD [OF assms(2) Some] by blast
  then show ?thesis
    using process_data_known [OF assms(1) Some b, where data = data and n = n] assms(2) b
    by (cases "types_match (ti_expected ti) data") (auto simp: job_buffered_set_tag_info)
qed (simp add: process_data_def assms)

lemma value_waiter_get_defined:
  assumes "job_inv j" "job_buffered j" "has_key tag (job_bufs j)"
  shows "defined_and (\<lambda>(v, j'). job_buffered j') (value_waiter_get tag j)"
proof -
  obtain ti where ti: "map_of (job_bufs j) tag = Some ti" using assms(3) by (auto simp: has_key_def)
  obtain b where b: "ti_buffer ti = Some b" using job_bufferedD [OF assms(2) ti] by blast
  have "db_inv b" using job_invD [OF assms(1) ti] b by (simp add: info_ok_def)
  then have "db_has_data b \<Longrightarrow> \<exists>v b'. db_get b = Inr (v, b')" using db.get_ok by blast
  then show ?thesis using assms(2) ti b
    by (cases "db_has_data b") (auto simp: value_waiter_get_def job_buffered_set_tag_info)
qed

lemma job_buffered_cong: "job_bufs j' = job_bufs j \<Longrightarrow> job_buffered j' = job_buffered j"
  by (simp add: job_buffered_def)

lemma job_step_defined:
  assumes "job_inv j" "job_buffered j" "\<not> event_rebuilds e"
  shows "defined_and job_buffered (job_step e j)"
proof (cases e)
  case (Ev_Data tag data n)
  show ?thesis unfolding Ev_Data job_step.simps
    by (rule defined_and_bind [OF process_data_defined [OF assms(1,2)]]) auto
next
  case (Ev_Dead tag)
  then show ?thesis using assms(2) job_bufferedD [OF assms(2)]
    by (auto simp: mark_tag_as_dead_def job_buffered_set_tag_info split: option.splits)
next
  case (Ev_Subscribe tts)
  show ?thesis unfolding Ev_Subscribe job_step.simps job_subscribe_def
    by (rule defined_and_bind [OF defined_and_assert [OF subscribe_range_defined [OF assms(2)]]]) auto
next
  case (Ev_Subscribe_Range tts)
  show ?thesis unfolding Ev_Subscribe_Range job_step.simps
    by (rule defined_and_bind [OF subscribe_range_defined [OF assms(2)]]) auto
next
  case (Ev_IP_Subscribe a tts)
  then show ?thesis unfolding job_step.simps job_ip_subscribe_def Ev_IP_Subscribe
    by (intro defined_and_bind [where P = "\<lambda>(x, j'). job_buffered j'"]
        defined_and_bind [OF subscribe_range_defined [OF assms(2)]]) (auto simp: Let_def)
next
  case (Ev_Get tag)
  show ?thesis
  proof (cases "has_key tag (job_bufs j)")
    case True
    then obtain c where c: "get_waiter tag j = Inr c" by (auto simp: get_waiter_def has_key_def)
    show ?thesis unfolding Ev_Get job_step.simps c rbind_simps
      by (rule defined_and_bind [OF value_waiter_get_defined [OF assms(1,2) True]]) auto
  qed (simp add: Ev_Get get_waiter_def has_key_def)
next
  case (Ev_Declare tags)
  then show ?thesis using assms(2) by (simp add: declare_publication_intent_def job_buffered_def)
next
  case (Ev_Publish tag)
  then show ?thesis using assms(2) by (simp add: publish_impl_def Let_def rassert_def job_buffered_def)
next
  case (Ev_Reduce_Group tag tags ts)
  then show ?thesis using assms(2) by (simp add: create_reduce_group_init_def rassert_def job_buffered_def)
next
  case Ev_Finish
  then show ?thesis using assms(2) by (simp add: finish_run_def job_buffered_def)
qed (use assms(3) in simp_all)

text \<open>Whatever happens to a job, short of rebuilding tags, in whatever order (subscriptions of typed tags,
  arriving data of any types and versions, lost connections, takings, publications), no operation
  dereferences a null buffer or otherwise runs into undefined behaviour: the run ends in a state with the
  invariant, or in a failed assertion or exit that a call of the client causes.\<close>

theorem job_runs_defined:
  assumes "new_job i = Inr j" "\<forall>e \<in> set es. event_typed e \<and> \<not> event_rebuilds e"
  shows "defined_and (\<lambda>j'. job_inv j' \<and> job_buffered j') (rfold job_step es j)"
proof (rule defined_and_fold)
  show "job_inv j \<and> job_buffered j" using assms(1) by (rule new_job_inv)
  fix e u assume e: "e \<in> set es" and u: "job_inv u \<and> job_buffered u"
  then have "defined_and job_buffered (job_step e u)" using assms(2) by (intro job_step_defined) auto
  moreover have "job_inv v" if "job_step e u = Inr v" for v
    using job_step_inv [OF _ _ that] e u assms(2) by auto
  ultimately show "defined_and (\<lambda>j'. job_inv j' \<and> job_buffered j') (job_step e u)"
    by (cases "job_step e u") auto
qed

lemma job_runs_defined_witness:
  "\<exists>j. new_job ''j'' = Inr j \<and> defined_and (\<lambda>j'. job_inv j' \<and> job_buffered j')
     (rfold job_step [Ev_Subscribe [(\<lparr>tag_name = ''pa'', tag_types = expected_type_for [T_int32]\<rparr>, [T_int32])],
        Ev_Data ''pa'' [V_string ''x''] 1, Ev_Data ''pa'' [] 1, Ev_Dead ''pa'', Ev_Get ''pa''] j)"
proof -
  obtain j where j: "new_job ''j'' = Inr j" by (simp add: new_job_def)
  then have "defined_and (\<lambda>j'. job_inv j' \<and> job_buffered j')
     (rfold job_step [Ev_Subscribe [(\<lparr>tag_name = ''pa'', tag_types = expected_type_for [T_int32]\<rparr>, [T_int32])],
        Ev_Data ''pa'' [V_string ''x''] 1, Ev_Data ''pa'' [] 1, Ev_Dead ''pa'', Ev_Get ''pa''] j)"
    by (rule job_runs_defined) (simp add: typed_tag_ok_def)
  with j show ?thesis by blast
qed

section \<open>The reduce tree\<close>

lemma index_of_nth: "distinct xs \<Longrightarrow> i < length xs \<Longrightarrow> index_of (xs ! i) xs = i"
proof (induction xs arbitrary: i)
  case (Cons x xs)
  then show ?case by (cases i) auto
qed simp

lemma in_sorted: "t \<in> set tags \<Longrightarrow> \<exists>i < length tags. sort tags ! i = t"
  by (metis in_set_conv_nth length_sort set_sort)

lemma neighbors_at:
  assumes "distinct tags" "i < length tags"
  shows "reduce_neighbors_of (sort tags ! i) tags =
    \<lparr>rn_parent = (if i \<noteq> 0 then sort tags ! ((i - 1) div 2) else []),
     rn_left = (if 2 * i + 1 < length tags then sort tags ! (2 * i + 1) else []),
     rn_right = (if 2 * i + 2 < length tags then sort tags ! (2 * i + 2) else [])\<rparr>"
proof -
  have "index_of (sort tags ! i) (sort tags) = i" using assms by (intro index_of_nth) auto
  then show ?thesis unfolding reduce_neighbors_of_def Let_def by (simp only: length_sort)
qed

lemma sort_nth_eq:
  "distinct tags \<Longrightarrow> i < length tags \<Longrightarrow> k < length tags \<Longrightarrow> sort tags ! i = sort tags ! k \<longleftrightarrow> i = k"
  by (simp add: nth_eq_iff_index_eq)

lemma sort_nth_nonempty: "[] \<notin> set tags \<Longrightarrow> i < length tags \<Longrightarrow> sort tags ! i \<noteq> []"
  by (metis length_sort nth_mem set_sort)

text \<open>C14: The members of a reduce group compute the same tree, whatever order each lists the tags in: a tag is
  the parent of another exactly when that other is its left or right child, and only the first in the
  order of tags has no parent.\<close>

theorem reduce_tree_consistent:
  assumes "distinct tags" "[] \<notin> set tags" "t \<in> set tags" "u \<in> set tags" "mset tags' = mset tags"
  shows "reduce_neighbors_of t tags' = reduce_neighbors_of t tags
    \<and> (rn_parent (reduce_neighbors_of t tags) = u
         \<longleftrightarrow> t = rn_left (reduce_neighbors_of u tags) \<or> t = rn_right (reduce_neighbors_of u tags))
    \<and> (rn_parent (reduce_neighbors_of t tags) = [] \<longleftrightarrow> t = hd (sort tags))"
proof -
  obtain i k where i: "i < length tags" "sort tags ! i = t" and k: "k < length tags" "sort tags ! k = u"
    using in_sorted assms(3,4) by blast
  note nt = neighbors_at [OF assms(1) i(1), unfolded i(2)] neighbors_at [OF assms(1) k(1), unfolded k(2)]
  have "sort tags' = sort tags"
    using assms(5) by (metis mset_sort properties_for_sort sorted_sort)
  then have "reduce_neighbors_of t tags' = reduce_neighbors_of t tags"
    by (simp add: reduce_neighbors_of_def)
  moreover have "rn_parent (reduce_neighbors_of t tags) = u \<longleftrightarrow> i \<noteq> 0 \<and> (i - 1) div 2 = k"
    using i(1) k sort_nth_nonempty [OF assms(2) k(1)]
    by (auto simp: nt(1) sort_nth_eq [OF assms(1), symmetric])
  moreover have "t = rn_left (reduce_neighbors_of u tags) \<longleftrightarrow> i = 2 * k + 1"
    using i k sort_nth_nonempty [OF assms(2) i(1)] sort_nth_eq [OF assms(1) i(1), of "2 * k + 1"]
    by (auto simp: nt(2))
  moreover have "t = rn_right (reduce_neighbors_of u tags) \<longleftrightarrow> i = 2 * k + 2"
    using i k sort_nth_nonempty [OF assms(2) i(1)] sort_nth_eq [OF assms(1) i(1), of "2 * k + 2"]
    by (auto simp: nt(2))
  moreover have "i \<noteq> 0 \<and> (i - 1) div 2 = k \<longleftrightarrow> i = 2 * k + 1 \<or> i = 2 * k + 2" by arith
  moreover have "rn_parent (reduce_neighbors_of t tags) = [] \<longleftrightarrow> i = 0"
    using sort_nth_nonempty [OF assms(2), of "(i - 1) div 2"] i(1) by (auto simp: nt(1))
  moreover have "i = 0 \<longleftrightarrow> t = hd (sort tags)"
  proof -
    have "sort tags \<noteq> []" using i(1) by (metis length_0_conv length_sort not_less_zero)
    then have "hd (sort tags) = sort tags ! 0" by (rule hd_conv_nth)
    moreover have "tags \<noteq> []" using i(1) by auto
    ultimately show ?thesis using i sort_nth_eq [OF assms(1) i(1), of 0] by auto
  qed
  ultimately show ?thesis by (simp only: simp_thms)
qed

lemma reduce_tree_consistent_witness:
  "reduce_neighbors_of ''rb'' [''rc'', ''ra'', ''rb''] = reduce_neighbors_of ''rb'' [''ra'', ''rb'', ''rc'']
   \<and> rn_parent (reduce_neighbors_of ''rb'' [''ra'', ''rb'', ''rc'']) = ''ra''"
  using reduce_tree_consistent [of "[''ra'', ''rb'', ''rc'']" "''rb''" "''ra''" "[''rc'', ''ra'', ''rb'']"]
  by (simp add: reduce_neighbors_of_def Let_def)

text \<open>From every member the parents lead to the one root, in fewer steps than there are members.\<close>

theorem reduce_tree_rooted:
  assumes "distinct tags" "[] \<notin> set tags" "t \<in> set tags"
  shows "\<exists>k < length tags. ((\<lambda>u. rn_parent (reduce_neighbors_of u tags)) ^^ k) t = hd (sort tags)"
proof -
  obtain i where i: "i < length tags" "sort tags ! i = t" using in_sorted [OF assms(3)] by blast
  have ne: "sort tags \<noteq> []" using i(1) by (metis length_0_conv length_sort not_less_zero)
  have "\<exists>k \<le> i. ((\<lambda>u. rn_parent (reduce_neighbors_of u tags)) ^^ k) (sort tags ! i) = hd (sort tags)"
    using i(1)
  proof (induction i rule: less_induct)
    case (less i)
    show ?case
    proof (cases "i = 0")
      case True
      then show ?thesis using ne by (simp add: hd_conv_nth)
    next
      case False
      then have "(i - 1) div 2 < i" by arith
      with less obtain k where k: "k \<le> (i - 1) div 2"
        "((\<lambda>u. rn_parent (reduce_neighbors_of u tags)) ^^ k) (sort tags ! ((i - 1) div 2)) = hd (sort tags)"
        by (metis less_trans)
      have "rn_parent (reduce_neighbors_of (sort tags ! i) tags) = sort tags ! ((i - 1) div 2)"
        using False by (simp add: neighbors_at [OF assms(1) less.prems])
      with k(2) have "((\<lambda>u. rn_parent (reduce_neighbors_of u tags)) ^^ Suc k) (sort tags ! i) = hd (sort tags)"
        by (simp add: funpow_swap1 [symmetric] del: funpow.simps) (simp add: funpow_Suc_right del: funpow.simps)
      moreover have "Suc k \<le> i" using k(1) False by arith
      ultimately show ?thesis by blast
    qed
  qed
  then show ?thesis using i by (metis le_less_trans)
qed

lemma reduce_tree_rooted_witness:
  "\<exists>k < 3. ((\<lambda>u. rn_parent (reduce_neighbors_of u [''rb'', ''rc'', ''ra''])) ^^ k) ''rc'' = ''ra''"
  using reduce_tree_rooted [of "[''rb'', ''rc'', ''ra'']" "''rc''"] by (simp add: eval_nat_numeral)

end
