(* ===== verification/Sky_Reduce_Group.thy ===== *)
theory Sky_Reduce_Group
  imports Sky_Tag_Buffer "HOL-Library.Multiset"
begin

text \<open>
  \<^verbatim>\<open>skywing_core/internal/reduce_group.hpp\<close> and \<^verbatim>\<open>reduce_group.cpp\<close>: the part of a reduce group that one
  machine holds. What the group sends through its manager is returned as a list of requests, in the
  order of the calls; the manager's theory executes them. A value is the list of its variants, so the
  packing and unpacking of tuples is the identity.
\<close>

section \<open>Disconnection identifiers\<close>

text \<open>\<^verbatim>\<open>std::minstd_rand\<close>: seeding and the next number, which is also the next state.\<close>

definition minstd_modulus :: nat where "minstd_modulus = 2147483647"

definition minstd_seed :: "nat \<Rightarrow> nat" where
  "minstd_seed s = (if s mod minstd_modulus = 0 then 1 else s mod minstd_modulus)"

definition minstd_next :: "nat \<Rightarrow> nat" where
  "minstd_next x = (48271 * x) mod minstd_modulus"

definition minstd_ok :: "nat \<Rightarrow> bool" where
  "minstd_ok x \<longleftrightarrow> 0 < x \<and> x < minstd_modulus"

lemma minstd_seed_ok: "minstd_ok (minstd_seed s)"
  by (simp add: minstd_ok_def minstd_seed_def minstd_modulus_def)

lemma coprime_48271: "coprime (48271 :: nat) minstd_modulus"
  by (simp add: minstd_modulus_def coprime_iff_gcd_eq_1 gcd_non_0_nat)

lemma coprime_48270: "coprime (48270 :: nat) minstd_modulus"
  by (simp add: minstd_modulus_def coprime_iff_gcd_eq_1 gcd_non_0_nat)

lemma dvd_small: "minstd_modulus dvd x \<Longrightarrow> x < minstd_modulus \<Longrightarrow> x = 0"
  by (rule ccontr) (auto dest: dvd_imp_le)

lemma minstd_next_ok: "minstd_ok x \<Longrightarrow> minstd_ok (minstd_next x)"
proof -
  assume x: "minstd_ok x"
  have "minstd_modulus dvd 48271 * x \<Longrightarrow> minstd_modulus dvd x"
    using coprime_48271 by (simp add: coprime_dvd_mult_right_iff coprime_commute)
  then have "minstd_next x \<noteq> 0"
    using x dvd_small [of x] by (auto simp: minstd_next_def minstd_ok_def mod_eq_0_iff_dvd)
  then show ?thesis by (simp add: minstd_ok_def minstd_next_def minstd_modulus_def)
qed

lemma minstd_next_differs: "minstd_ok x \<Longrightarrow> minstd_next x \<noteq> x"
proof
  assume x: "minstd_ok x" and "minstd_next x = x"
  then have "(48270 * x + x) mod minstd_modulus = (0 + x) mod minstd_modulus"
    by (simp add: minstd_next_def minstd_ok_def)
  then have "minstd_modulus dvd 48270 * x"
    using mod_eq_dvd_iff_nat [of x "48270 * x + x" minstd_modulus] by simp
  then have "minstd_modulus dvd x"
    using coprime_48270 by (simp add: coprime_dvd_mult_right_iff coprime_commute)
  then show False using x dvd_small by (auto simp: minstd_ok_def)
qed

section \<open>State\<close>

type_synonym value_span = "publish_value list"
type_synonym reduce_op = "value_span \<Rightarrow> value_span \<Rightarrow> value_span"

record pending_reduce =
  pr_required :: version_id
  pr_value :: value_span
  pr_operation :: reduce_op
  pr_all :: bool

record reduce_group =
  rg_types :: "cpp_type list"
  rg_neighbors :: reduce_neighbors
  rg_last_heard :: "(machine_id \<times> disconnect_id) list"
  rg_id :: tag_id
  rg_produced :: tag_id
  rg_last_sent :: version_id
  rg_prng :: nat
  rg_expected :: "8 word list"
  rg_valid :: bool
  rg_conn_counter :: "16 word"
  rg_pending :: "pending_reduce list"
  rg_buffer0 :: fifo_buffer        \<comment> \<open>\<^verbatim>\<open>data_buffers_[0]\<close>: from the parent, or the result at the root\<close>
  rg_buffer1 :: fifo_buffer        \<comment> \<open>from the left child\<close>
  rg_buffer2 :: fifo_buffer        \<comment> \<open>from the right child\<close>
  rg_notified :: nat

datatype rg_request =
    To_Parent version_id tag_id value_span
  | To_Children version_id tag_id value_span
  | Send_Disconnection machine_id disconnect_id

definition new_reduce_group ::
  "cpp_type list \<Rightarrow> reduce_neighbors \<Rightarrow> tag_id \<Rightarrow> tag_id \<Rightarrow> nat \<Rightarrow> reduce_group" where
  "new_reduce_group ts neighbors group_id produced random =
     \<lparr>rg_types = ts, rg_neighbors = neighbors, rg_last_heard = [], rg_id = group_id,
      rg_produced = produced, rg_last_sent = tag_no_data, rg_prng = minstd_seed random,
      rg_expected = expected_type_for ts, rg_valid = True, rg_conn_counter = 0, rg_pending = [],
      rg_buffer0 = new_fifo_buffer ts, rg_buffer1 = new_fifo_buffer ts, rg_buffer2 = new_fifo_buffer ts,
      rg_notified = 0\<rparr>"

definition returns_value_on_reduce :: "reduce_group \<Rightarrow> bool" where
  "returns_value_on_reduce g \<longleftrightarrow> rn_parent (rg_neighbors g) = []"

definition rg_notify :: "reduce_group \<Rightarrow> reduce_group" where
  "rg_notify g = g\<lparr>rg_notified := rg_notified g + 1\<rparr>"

section \<open>Values through the tree\<close>

definition add_data_index :: "nat \<Rightarrow> value_span \<Rightarrow> version_id \<Rightarrow> reduce_group \<Rightarrow> reduce_group res" where
  "add_data_index index value version g = rassert (index < 3)
     (if index = 0 then rbind (fifo_add value version (rg_buffer0 g)) (\<lambda>b. Inr (g\<lparr>rg_buffer0 := b\<rparr>))
      else if index = 1 then rbind (fifo_add value version (rg_buffer1 g)) (\<lambda>b. Inr (g\<lparr>rg_buffer1 := b\<rparr>))
      else rbind (fifo_add value version (rg_buffer2 g)) (\<lambda>b. Inr (g\<lparr>rg_buffer2 := b\<rparr>)))"

definition reduce_is_ready :: "version_id \<Rightarrow> reduce_group \<Rightarrow> bool" where
  "reduce_is_ready required_version g =
     (if rn_left (rg_neighbors g) = [] then True
      else if rn_right (rg_neighbors g) = [] then fifo_has_data required_version (rg_buffer1 g)
      else fifo_has_data required_version (rg_buffer1 g) \<and> fifo_has_data required_version (rg_buffer2 g))"

text \<open>What a node makes of its own value and those of its children.\<close>

definition reduce_node :: "('v \<Rightarrow> 'v \<Rightarrow> 'v) \<Rightarrow> 'v option \<Rightarrow> 'v \<Rightarrow> 'v option \<Rightarrow> 'v" where
  "reduce_node operation left_val value right_val =
     (case left_val of
        None \<Rightarrow> value
      | Some l \<Rightarrow> (case right_val of
            None \<Rightarrow> operation l value
          | Some r \<Rightarrow> operation (operation l value) r))"

definition take_children :: "version_id \<Rightarrow> reduce_group
    \<Rightarrow> (value_span option \<times> value_span option \<times> reduce_group) res" where
  "take_children required_version g =
     (if rn_left (rg_neighbors g) = [] then Inr (None, None, g)
      else rbind (fifo_get required_version (rg_buffer1 g)) (\<lambda>(left_val, b1).
        let g1 = g\<lparr>rg_buffer1 := b1\<rparr>
        in if rn_right (rg_neighbors g) = [] then Inr (Some left_val, None, g1)
           else rbind (fifo_get required_version (rg_buffer2 g1)) (\<lambda>(right_val, b2).
             Inr (Some left_val, Some right_val, g1\<lparr>rg_buffer2 := b2\<rparr>))))"

text \<open>The loop over the pending operations; those not processed stay in the group.\<close>

fun pending_loop :: "pending_reduce list \<Rightarrow> reduce_group \<Rightarrow> (rg_request list \<times> reduce_group) res" where
  "pending_loop [] g = Inr ([], g\<lparr>rg_pending := []\<rparr>)"
| "pending_loop (p # ps) g =
     (if \<not> rg_valid g then pending_loop ps g
      else if \<not> reduce_is_ready (pr_required p) g then Inr ([], g\<lparr>rg_pending := p # ps\<rparr>)
      else rbind (take_children (pr_required p) (g\<lparr>rg_last_sent := pr_required p\<rparr>)) (\<lambda>(l, r, g1).
        let result = reduce_node (pr_operation p) l (pr_value p) r
        in if returns_value_on_reduce g1
           then rbind (add_data_index 0 result (pr_required p) g1) (\<lambda>g2.
             rbind (pending_loop ps g2) (\<lambda>(reqs, g3).
               Inr ((if pr_all p then [To_Children (pr_required p) (rg_produced g) result] else []) @ reqs, g3)))
           else rbind (pending_loop ps g1) (\<lambda>(reqs, g3).
             Inr (To_Parent (pr_required p) (rg_produced g) result # reqs, g3))))"

definition process_pending_reduce_ops :: "reduce_group \<Rightarrow> (rg_request list \<times> reduce_group) res" where
  "process_pending_reduce_ops g = pending_loop (rg_pending g) g"

definition rg_add_data ::
  "tag_id \<Rightarrow> value_span \<Rightarrow> version_id \<Rightarrow> reduce_group \<Rightarrow> (bool \<times> rg_request list \<times> reduce_group) res" where
  "rg_add_data tag value version g =
     (if \<not> types_match (rg_expected g) value then Inr (False, [], g)
      else if tag \<in> set (rn_tags (rg_neighbors g))
      then (let i = index_of tag (rn_tags (rg_neighbors g))
            in rbind (add_data_index i value version g) (\<lambda>g1.
                 rbind (process_pending_reduce_ops g1) (\<lambda>(reqs, g2).
                   Inr (True, (if i = 0 then [To_Children version (rg_produced g) value] else []) @ reqs,
                        rg_notify g2))))
      else Inr (False, [], g))"

section \<open>Reducing\<close>

text \<open>The waiter keeps the required version and the connection id of the call. The empty optional that an
  allreduce returns on an error is \<open>Reduce_Disconnection\<close> here.\<close>

definition reduce_impl :: "bool \<Rightarrow> reduce_op \<Rightarrow> value_span \<Rightarrow> reduce_group
    \<Rightarrow> ((version_id \<times> 16 word) \<times> rg_request list \<times> reduce_group) res" where
  "reduce_impl is_all operation value g =
     (let required_version = rg_last_sent g + 1;
          p = \<lparr>pr_required = required_version, pr_value = value, pr_operation = operation, pr_all = is_all\<rparr>
      in rbind (process_pending_reduce_ops (g\<lparr>rg_pending := rg_pending g @ [p]\<rparr>)) (\<lambda>(reqs, g').
           Inr ((required_version, rg_conn_counter g'), reqs, g')))"

definition reduce_waiter_ready :: "bool \<Rightarrow> version_id \<times> 16 word \<Rightarrow> reduce_group \<Rightarrow> bool" where
  "reduce_waiter_ready is_all = (\<lambda>(required_version, conn_id) g.
     if conn_id < rg_conn_counter g \<or> \<not> rg_valid g then True
     else if is_all then fifo_has_data required_version (rg_buffer0 g)
     else rg_last_sent g \<noteq> tag_no_data \<and> rg_last_sent g \<ge> required_version)"

definition reduce_waiter_get :: "bool \<Rightarrow> version_id \<times> 16 word \<Rightarrow> reduce_group
    \<Rightarrow> (value_span reduce_result \<times> reduce_group) res" where
  "reduce_waiter_get is_all = (\<lambda>(required_version, conn_id) g.
     let error_occurred = (conn_id < rg_conn_counter g \<or> \<not> rg_valid g)
     in if is_all \<or> returns_value_on_reduce g
        then (if fifo_has_data required_version (rg_buffer0 g)
              then rbind (fifo_get required_version (rg_buffer0 g))
                     (\<lambda>(v, b). Inr (Reduce_Value v, g\<lparr>rg_buffer0 := b\<rparr>))
              else Inr (Reduce_Disconnection, g))
        else if error_occurred then Inr (Reduce_Disconnection, g)
        else Inr (Reduce_No_Value, g))"

section \<open>Disconnections\<close>

definition propagate_disconnection :: "machine_id \<Rightarrow> disconnect_id \<Rightarrow> reduce_group \<Rightarrow> rg_request list \<times> reduce_group" where
  "propagate_disconnection machine i g =
     (if map_of (rg_last_heard g) machine = Some i then ([], g)
      else ([Send_Disconnection machine i],
            rg_notify (g\<lparr>rg_last_heard := AList.update machine i (rg_last_heard g), rg_valid := False,
                         rg_conn_counter := rg_conn_counter g + 1\<rparr>)))"

definition report_disconnection :: "machine_id \<Rightarrow> reduce_group \<Rightarrow> rg_request list \<times> reduce_group" where
  "report_disconnection own_id g =
     (let x = minstd_next (rg_prng g)
      in ([Send_Disconnection own_id (of_nat x)],
          rg_notify (g\<lparr>rg_valid := False, rg_conn_counter := rg_conn_counter g + 1, rg_prng := x\<rparr>)))"

definition rg_rebuild :: "reduce_group \<Rightarrow> reduce_group" where
  "rg_rebuild g =
     g\<lparr>rg_last_sent := tag_no_data, rg_valid := True, rg_buffer0 := fifo_reset (rg_buffer0 g),
       rg_buffer1 := fifo_reset (rg_buffer1 g), rg_buffer2 := fifo_reset (rg_buffer2 g)\<rparr>"

section \<open>The invariant of a group\<close>

definition op_typed :: "cpp_type list \<Rightarrow> reduce_op \<Rightarrow> bool" where
  "op_typed ts f \<longleftrightarrow> (\<forall>a b. span_is_valid ts a \<and> span_is_valid ts b \<longrightarrow> span_is_valid ts (f a b))"

definition buffer_ok :: "cpp_type list \<Rightarrow> fifo_buffer \<Rightarrow> bool" where
  "buffer_ok ts b \<longleftrightarrow> fifo_inv b \<and> fb_types b = ts"

definition pending_ok :: "cpp_type list \<Rightarrow> pending_reduce \<Rightarrow> bool" where
  "pending_ok ts p \<longleftrightarrow> span_is_valid ts (pr_value p) \<and> op_typed ts (pr_operation p)"

definition rg_inv :: "reduce_group \<Rightarrow> bool" where
  "rg_inv g \<longleftrightarrow> rg_expected g = expected_type_for (rg_types g)
     \<and> buffer_ok (rg_types g) (rg_buffer0 g) \<and> buffer_ok (rg_types g) (rg_buffer1 g)
     \<and> buffer_ok (rg_types g) (rg_buffer2 g) \<and> (\<forall>p \<in> set (rg_pending g). pending_ok (rg_types g) p)
     \<and> minstd_ok (rg_prng g)"

text \<open>What no operation on values changes.\<close>

definition rg_frame :: "reduce_group \<Rightarrow> reduce_group \<Rightarrow> bool" where
  "rg_frame g g' \<longleftrightarrow> rg_types g' = rg_types g \<and> rg_neighbors g' = rg_neighbors g \<and> rg_id g' = rg_id g
     \<and> rg_produced g' = rg_produced g \<and> rg_expected g' = rg_expected g \<and> rg_valid g' = rg_valid g
     \<and> rg_conn_counter g' = rg_conn_counter g \<and> rg_prng g' = rg_prng g
     \<and> rg_last_heard g' = rg_last_heard g"

lemma rg_frame_refl [simp]: "rg_frame g g"
  by (simp add: rg_frame_def)

lemma rg_frame_trans: "rg_frame g h \<Longrightarrow> rg_frame h k \<Longrightarrow> rg_frame g k"
  by (simp add: rg_frame_def)

lemma new_reduce_group_inv: "rg_inv (new_reduce_group ts n i p r)"
  by (simp add: rg_inv_def new_reduce_group_def buffer_ok_def new_fifo_buffer_inv minstd_seed_ok)
    (simp add: new_fifo_buffer_def)

lemma fifo_add_buffer_ok:
  "buffer_ok ts b \<Longrightarrow> span_is_valid ts v \<Longrightarrow> \<exists>b'. fifo_add v n b = Inr b' \<and> buffer_ok ts b'"
  using fifo_add_ok [of b v n] by (auto simp: buffer_ok_def)

lemma fifo_get_buffer_ok:
  assumes "buffer_ok ts b" "fifo_has_data n b"
  shows "\<exists>v b'. fifo_get n b = Inr (v, b') \<and> buffer_ok ts b' \<and> span_is_valid ts v"
proof -
  have "last (fb_buffer b) \<in> set (fb_buffer b)" "n \<le> snd (last (fb_buffer b))"
    using assms(2) by (auto simp: fifo_has_data_def)
  from fifo_loop_ok [OF this] obtain v m rest where "fifo_loop n (fb_buffer b) = Inr (v, m, rest)"
    by blast
  then have get: "fifo_get n b = Inr (v, b\<lparr>fb_last_fetched := m, fb_buffer := rest\<rparr>)"
    by (simp add: fifo_get_def)
  with fifo_get_inv [OF _ get] assms(1) show ?thesis by (auto simp: buffer_ok_def)
qed

lemma add_data_index_ok:
  assumes "rg_inv g" "span_is_valid (rg_types g) v" "i < 3"
  shows "\<exists>g'. add_data_index i v n g = Inr g' \<and> rg_inv g' \<and> rg_frame g g' \<and> rg_pending g' = rg_pending g
           \<and> rg_last_sent g' = rg_last_sent g"
proof -
  have b: "buffer_ok (rg_types g) (rg_buffer0 g)" "buffer_ok (rg_types g) (rg_buffer1 g)"
    "buffer_ok (rg_types g) (rg_buffer2 g)" using assms(1) by (simp_all add: rg_inv_def)
  consider "i = 0" | "i = 1" | "i = 2" using assms(3) by linarith
  then show ?thesis
  proof cases
    case 1
    then show ?thesis using fifo_add_buffer_ok [OF b(1) assms(2), of n] assms(1)
      by (auto simp: add_data_index_def rg_inv_def rg_frame_def)
  next
    case 2
    then show ?thesis using fifo_add_buffer_ok [OF b(2) assms(2), of n] assms(1)
      by (auto simp: add_data_index_def rg_inv_def rg_frame_def)
  next
    case 3
    then show ?thesis using fifo_add_buffer_ok [OF b(3) assms(2), of n] assms(1)
      by (auto simp: add_data_index_def rg_inv_def rg_frame_def)
  qed
qed

lemma take_children_ok:
  assumes "rg_inv g" "reduce_is_ready n g"
  shows "\<exists>l r g'. take_children n g = Inr (l, r, g') \<and> rg_inv g' \<and> rg_frame g g'
     \<and> rg_pending g' = rg_pending g \<and> rg_last_sent g' = rg_last_sent g
     \<and> (\<forall>v. l = Some v \<or> r = Some v \<longrightarrow> span_is_valid (rg_types g) v)"
proof (cases "rn_left (rg_neighbors g) = []")
  case True
  then show ?thesis using assms(1) by (simp add: take_children_def)
next
  case False
  have b: "buffer_ok (rg_types g) (rg_buffer1 g)" "buffer_ok (rg_types g) (rg_buffer2 g)"
    using assms(1) by (simp_all add: rg_inv_def)
  have h: "fifo_has_data n (rg_buffer1 g)" using assms(2) False by (auto simp: reduce_is_ready_def split: if_splits)
  from fifo_get_buffer_ok [OF b(1) h] obtain lv b1 where
    l: "fifo_get n (rg_buffer1 g) = Inr (lv, b1)" "buffer_ok (rg_types g) b1" "span_is_valid (rg_types g) lv"
    by blast
  show ?thesis
  proof (cases "rn_right (rg_neighbors g) = []")
    case True
    then show ?thesis using False l assms(1)
      by (auto simp: take_children_def Let_def rg_inv_def rg_frame_def)
  next
    case right: False
    then have "fifo_has_data n (rg_buffer2 g)" using assms(2) False by (simp add: reduce_is_ready_def)
    from fifo_get_buffer_ok [OF b(2) this] obtain rv b2 where
      "fifo_get n (rg_buffer2 g) = Inr (rv, b2)" "buffer_ok (rg_types g) b2" "span_is_valid (rg_types g) rv"
      by blast
    then show ?thesis using False right l assms(1)
      by (auto simp: take_children_def Let_def rg_inv_def rg_frame_def)
  qed
qed

lemma reduce_node_valid:
  assumes "op_typed ts f" "span_is_valid ts v" "\<forall>w. l = Some w \<or> r = Some w \<longrightarrow> span_is_valid ts w"
  shows "span_is_valid ts (reduce_node f l v r)"
  using assms by (auto simp: reduce_node_def op_typed_def split: option.splits)

lemma rg_inv_last_sent [simp]: "rg_inv (g\<lparr>rg_last_sent := n\<rparr>) = rg_inv g"
  by (simp add: rg_inv_def)

lemma rg_frame_last_sent [simp]:
  "rg_frame (g\<lparr>rg_last_sent := n\<rparr>) h = rg_frame g h" "rg_frame g (h\<lparr>rg_last_sent := n\<rparr>) = rg_frame g h"
  "rg_frame g (h\<lparr>rg_pending := ps\<rparr>) = rg_frame g h"
  by (simp_all add: rg_frame_def)

lemma pending_loop_ok:
  assumes "rg_inv g" "\<forall>p \<in> set ps. pending_ok (rg_types g) p"
  shows "\<exists>reqs g'. pending_loop ps g = Inr (reqs, g') \<and> rg_inv g' \<and> rg_frame g g'"
  using assms
proof (induction ps arbitrary: g)
  case Nil
  then show ?case by (simp add: rg_inv_def)
next
  case (Cons p ps)
  show ?case
  proof (cases "rg_valid g \<and> reduce_is_ready (pr_required p) g")
    case False
    then show ?thesis using Cons by (cases "rg_valid g") (auto simp: rg_inv_def)
  next
    case True
    let ?g = "g\<lparr>rg_last_sent := pr_required p\<rparr>"
    have "reduce_is_ready (pr_required p) ?g" using True by (simp add: reduce_is_ready_def)
    from take_children_ok [OF _ this] Cons.prems(1) obtain l r g1 where
      g1: "take_children (pr_required p) ?g = Inr (l, r, g1)" "rg_inv g1" "rg_frame g g1"
      and lr: "\<forall>v. l = Some v \<or> r = Some v \<longrightarrow> span_is_valid (rg_types g) v"
      by auto
    let ?res = "reduce_node (pr_operation p) l (pr_value p) r"
    have "span_is_valid (rg_types g) ?res"
      using Cons.prems(2) lr by (intro reduce_node_valid) (auto simp: pending_ok_def)
    then have v: "span_is_valid (rg_types g1) ?res" using g1(3) by (simp add: rg_frame_def)
    have ps1: "\<forall>p \<in> set ps. pending_ok (rg_types g1) p"
      using Cons.prems(2) g1(3) by (simp add: rg_frame_def)
    from add_data_index_ok [OF g1(2) v, of 0] obtain g2 where
      g2: "add_data_index 0 ?res (pr_required p) g1 = Inr g2" "rg_inv g2" "rg_frame g1 g2" by auto
    then have "rg_frame g g2" using g1(3) rg_frame_trans by blast
    moreover have "\<forall>p \<in> set ps. pending_ok (rg_types g2) p" using ps1 g2(3) by (simp add: rg_frame_def)
    ultimately have fr2: "rg_frame g g2" and ps2: "\<forall>p \<in> set ps. pending_ok (rg_types g2) p" by auto
    show ?thesis
    proof (cases "returns_value_on_reduce g1")
      case root: True
      from Cons.IH [OF g2(2) ps2] obtain reqs g3 where
        "pending_loop ps g2 = Inr (reqs, g3)" "rg_inv g3" "rg_frame g2 g3" by blast
      moreover from this fr2 have "rg_frame g g3" using rg_frame_trans by blast
      ultimately show ?thesis using True root g1(1) g2(1) by (simp add: Let_def)
    next
      case inner: False
      from Cons.IH [OF g1(2) ps1] obtain reqs g3 where
        "pending_loop ps g1 = Inr (reqs, g3)" "rg_inv g3" "rg_frame g1 g3" by blast
      moreover from this g1(3) have "rg_frame g g3" using rg_frame_trans by blast
      ultimately show ?thesis using True inner g1(1) by (simp add: Let_def)
    qed
  qed
qed

lemma process_pending_ok:
  "rg_inv g \<Longrightarrow> \<exists>reqs g'. process_pending_reduce_ops g = Inr (reqs, g') \<and> rg_inv g' \<and> rg_frame g g'"
  unfolding process_pending_reduce_ops_def by (rule pending_loop_ok) (simp_all add: rg_inv_def)

lemma rg_notify_simps [simp]: "rg_inv (rg_notify g) = rg_inv g" "rg_frame h (rg_notify g) = rg_frame h g"
  by (simp_all add: rg_inv_def rg_frame_def rg_notify_def)

lemma rg_add_data_ok:
  assumes "rg_inv g"
  shows "\<exists>ok reqs g'. rg_add_data tag v n g = Inr (ok, reqs, g') \<and> rg_inv g' \<and> rg_frame g g'
     \<and> (ok \<longleftrightarrow> span_is_valid (rg_types g) v \<and> tag \<in> set (rn_tags (rg_neighbors g)))"
proof (cases "types_match (rg_expected g) v \<and> tag \<in> set (rn_tags (rg_neighbors g))")
  case True
  then have v: "span_is_valid (rg_types g) v" using assms by (simp add: rg_inv_def span_is_valid_types_match)
  have "index_of tag (rn_tags (rg_neighbors g)) < length (rn_tags (rg_neighbors g))"
    using True by (simp add: index_of_less_iff)
  then have i: "index_of tag (rn_tags (rg_neighbors g)) < 3" by (simp add: rn_tags_def)
  from add_data_index_ok [OF assms v i] obtain g1 where
    g1: "add_data_index (index_of tag (rn_tags (rg_neighbors g))) v n g = Inr g1" "rg_inv g1"
    "rg_frame g g1" by blast
  from process_pending_ok [OF g1(2)] obtain reqs g2 where
    g2: "process_pending_reduce_ops g1 = Inr (reqs, g2)" "rg_inv g2" "rg_frame g1 g2" by blast
  have "rg_frame g g2" using g1(3) g2(3) by (rule rg_frame_trans)
  with True v g1 g2 show ?thesis by (auto simp: rg_add_data_def Let_def)
qed (use assms in \<open>auto simp: rg_add_data_def rg_inv_def span_is_valid_types_match\<close>)

lemma reduce_impl_ok:
  assumes "rg_inv g" "span_is_valid (rg_types g) v" "op_typed (rg_types g) f"
  shows "\<exists>c reqs g'. reduce_impl is_all f v g = Inr ((rg_last_sent g + 1, c), reqs, g') \<and> rg_inv g'
     \<and> c = rg_conn_counter g \<and> rg_frame g g'"
proof -
  let ?p = "\<lparr>pr_required = rg_last_sent g + 1, pr_value = v, pr_operation = f, pr_all = is_all\<rparr>"
  have "rg_inv (g\<lparr>rg_pending := rg_pending g @ [?p]\<rparr>)"
    using assms by (auto simp: rg_inv_def pending_ok_def)
  from process_pending_ok [OF this] obtain reqs g' where
    "process_pending_reduce_ops (g\<lparr>rg_pending := rg_pending g @ [?p]\<rparr>) = Inr (reqs, g')" "rg_inv g'"
    "rg_frame (g\<lparr>rg_pending := rg_pending g @ [?p]\<rparr>) g'" by blast
  then show ?thesis by (auto simp: reduce_impl_def Let_def rg_frame_def)
qed

lemma reduce_waiter_get_ok:
  assumes "rg_inv g"
  shows "\<exists>res g'. reduce_waiter_get is_all w g = Inr (res, g') \<and> rg_inv g' \<and> rg_frame g g'"
proof -
  obtain n c where w: "w = (n, c)" by fastforce
  have "buffer_ok (rg_types g) (rg_buffer0 g)" using assms by (simp add: rg_inv_def)
  from fifo_get_buffer_ok [OF this, of n] show ?thesis
    using assms by (auto simp: reduce_waiter_get_def Let_def w rg_inv_def rg_frame_def)
qed

lemma propagate_inv: "rg_inv g \<Longrightarrow> rg_inv (snd (propagate_disconnection m i g))"
  by (simp add: propagate_disconnection_def) (simp add: rg_inv_def)

lemma report_inv: "rg_inv g \<Longrightarrow> rg_inv (snd (report_disconnection m g))"
  by (simp add: report_disconnection_def Let_def) (simp add: rg_inv_def minstd_next_ok)

lemma rebuild_inv: "rg_inv g \<Longrightarrow> rg_inv (rg_rebuild g)"
  by (simp add: rg_rebuild_def rg_inv_def buffer_ok_def fifo_reset_inv) (simp add: fifo_reset_def)

section \<open>Runs of a group\<close>

datatype rg_event =
    RE_Data tag_id value_span version_id
  | RE_Reduce bool reduce_op value_span
  | RE_Get bool "version_id \<times> 16 word"
  | RE_Propagate machine_id disconnect_id
  | RE_Report machine_id
  | RE_Rebuild

text \<open>The state of a run holds the requests made so far.\<close>

fun rg_step :: "rg_event \<Rightarrow> rg_request list \<times> reduce_group \<Rightarrow> (rg_request list \<times> reduce_group) res" where
  "rg_step (RE_Data tag v n) (out, g) = rbind (rg_add_data tag v n g) (\<lambda>(ok, reqs, g'). Inr (out @ reqs, g'))"
| "rg_step (RE_Reduce is_all f v) (out, g) =
     rbind (reduce_impl is_all f v g) (\<lambda>(w, reqs, g'). Inr (out @ reqs, g'))"
| "rg_step (RE_Get is_all w) (out, g) = rbind (reduce_waiter_get is_all w g) (\<lambda>(res, g'). Inr (out, g'))"
| "rg_step (RE_Propagate m i) (out, g) = (let (reqs, g') = propagate_disconnection m i g in Inr (out @ reqs, g'))"
| "rg_step (RE_Report m) (out, g) = (let (reqs, g') = report_disconnection m g in Inr (out @ reqs, g'))"
| "rg_step RE_Rebuild (out, g) = Inr (out, rg_rebuild g)"

definition rg_event_typed :: "cpp_type list \<Rightarrow> rg_event \<Rightarrow> bool" where
  "rg_event_typed ts e = (case e of RE_Reduce _ f v \<Rightarrow> span_is_valid ts v \<and> op_typed ts f | _ \<Rightarrow> True)"

lemma rg_step_ok:
  assumes "rg_inv g" "rg_types g = ts" "rg_event_typed ts e"
  shows "\<exists>out' g'. rg_step e (out, g) = Inr (out', g') \<and> rg_inv g' \<and> rg_types g' = ts"
proof (cases e)
  case (RE_Data tag v n)
  from rg_add_data_ok [OF assms(1), of tag v n] show ?thesis
    using RE_Data assms(2) by (auto simp: rg_frame_def)
next
  case (RE_Reduce is_all f v)
  from reduce_impl_ok [OF assms(1), of v f is_all] show ?thesis
    using RE_Reduce assms(2,3) by (auto simp: rg_frame_def rg_event_typed_def)
next
  case (RE_Get is_all w)
  from reduce_waiter_get_ok [OF assms(1), of is_all w] show ?thesis
    using RE_Get assms(2) by (auto simp: rg_frame_def)
next
  case (RE_Propagate m i)
  then show ?thesis using propagate_inv [OF assms(1), of m i] assms(2)
    by (auto simp: propagate_disconnection_def rg_notify_def split: if_splits)
next
  case (RE_Report m)
  then show ?thesis using report_inv [OF assms(1), of m] assms(2)
    by (auto simp: report_disconnection_def rg_notify_def Let_def)
next
  case RE_Rebuild
  then show ?thesis using rebuild_inv [OF assms(1)] assms(2) by (simp add: rg_rebuild_def)
qed

interpretation rg_run: invariant_run "\<lambda>e s. rassert (rg_event_typed ts e) (rg_step e s)"
    "\<lambda>(out, g). rg_inv g \<and> rg_types g = ts" for ts
proof
  fix e and s t :: "rg_request list \<times> reduce_group"
  assume a: "(\<lambda>(out, g). rg_inv g \<and> rg_types g = ts) s" "rassert (rg_event_typed ts e) (rg_step e s) = Inr t"
  obtain out g where s: "s = (out, g)" by fastforce
  from a rg_step_ok [of g ts e out] show "(\<lambda>(out, g). rg_inv g \<and> rg_types g = ts) t"
    by (auto simp: s res_iffs)
qed

text \<open>No assertion of a reduce group fails, whatever arrives from other machines and whatever the job does
  with values and operations of the group's types: every run of reductions, arriving data of any types,
  tags and versions, disconnections and rebuilds completes and keeps the buffers well typed.\<close>

theorem reduce_group_runs:
  assumes "\<forall>e \<in> set es. rg_event_typed ts e"
  shows "\<exists>out g. rfold rg_step es ([], new_reduce_group ts n i p r) = Inr (out, g)
           \<and> rg_inv g \<and> rg_types g = ts"
proof -
  have "\<exists>t. rfold rg_step es ([], new_reduce_group ts n i p r) = Inr t
      \<and> (\<lambda>(out, g). rg_inv g \<and> rg_types g = ts) t"
  proof (rule rfold_total)
    show "(\<lambda>(out, g). rg_inv g \<and> rg_types g = ts) ([], new_reduce_group ts n i p r)"
      using new_reduce_group_inv by (simp add: new_reduce_group_def)
    fix e and u :: "rg_request list \<times> reduce_group"
    assume "e \<in> set es" and u: "(\<lambda>(out, g). rg_inv g \<and> rg_types g = ts) u"
    obtain out g where "u = (out, g)" by fastforce
    with u assms \<open>e \<in> set es\<close> rg_step_ok [of g ts e out]
    show "\<exists>v. rg_step e u = Inr v \<and> (\<lambda>(out, g). rg_inv g \<and> rg_types g = ts) v" by auto
  qed
  then show ?thesis by auto
qed

definition sum_op :: reduce_op where
  "sum_op a b = (case (a, b) of ([V_int32 x], [V_int32 y]) \<Rightarrow> [V_int32 (x + y)] | _ \<Rightarrow> a)"

lemma sum_op_typed: "op_typed [T_int32] sum_op"
proof -
  have "\<exists>x. v = V_int32 x" if "value_type v = T_int32" for v using that by (cases v) auto
  then have a: "\<exists>x. a = [V_int32 x]" if "span_is_valid [T_int32] a" for a
    using that by (auto simp: span_is_valid_iff map_eq_Cons_conv)
  show ?thesis unfolding op_typed_def
  proof (intro allI impI)
    fix a b assume "span_is_valid [T_int32] a \<and> span_is_valid [T_int32] b"
    with a obtain x y where "a = [V_int32 x]" "b = [V_int32 y]" by blast
    then show "span_is_valid [T_int32] (sum_op a b)" by (simp add: sum_op_def span_is_valid_iff)
  qed
qed

definition sample_neighbors :: reduce_neighbors where
  "sample_neighbors = \<lparr>rn_parent = ''ra'', rn_left = ''rc'', rn_right = []\<rparr>"

lemma reduce_group_runs_witness:
  "\<exists>out g. rfold rg_step [RE_Reduce False sum_op [V_int32 2], RE_Data ''rc'' [V_int32 3] 0, RE_Report ''m'',
       RE_Data ''ra'' [V_bool True] 7, RE_Rebuild] ([], new_reduce_group [T_int32] sample_neighbors ''gx'' ''rb'' 5)
     = Inr (out, g) \<and> rg_inv g \<and> rg_types g = [T_int32]"
  by (rule reduce_group_runs) (simp add: rg_event_typed_def sum_op_typed span_is_valid_iff)

section \<open>One round of a reduce\<close>

text \<open>What happens to one member in the first round: its own call, and the values of its children; what it
  must compute; and the state in which the round is done.\<close>

definition round_events :: "reduce_neighbors \<Rightarrow> bool \<Rightarrow> reduce_op \<Rightarrow> value_span \<Rightarrow> value_span \<Rightarrow> value_span \<Rightarrow> rg_event list" where
  "round_events n is_all f v lv rv =
     RE_Reduce is_all f v # (if rn_left n = [] then [] else [RE_Data (rn_left n) lv 0])
       @ (if rn_right n = [] then [] else [RE_Data (rn_right n) rv 0])"

definition round_result :: "reduce_neighbors \<Rightarrow> reduce_op \<Rightarrow> value_span \<Rightarrow> value_span \<Rightarrow> value_span \<Rightarrow> value_span" where
  "round_result n f v lv rv =
     reduce_node f (if rn_left n = [] then None else Some lv) v (if rn_right n = [] then None else Some rv)"

definition round_done :: "reduce_neighbors \<Rightarrow> tag_id \<Rightarrow> bool \<Rightarrow> value_span \<Rightarrow> rg_request list \<times> reduce_group \<Rightarrow> bool" where
  "round_done n p is_all res = (\<lambda>(out, g).
     (if rn_parent n = []
      then out = (if is_all then [To_Children 0 p res] else []) \<and> fb_buffer (rg_buffer0 g) = [(res, 0)]
      else out = [To_Parent 0 p res] \<and> fb_buffer (rg_buffer0 g) = [])
     \<and> rg_pending g = [] \<and> rg_last_sent g = 0 \<and> rg_valid g \<and> rg_neighbors g = n \<and> rg_conn_counter g = 0)"

lemmas round_simps = new_reduce_group_def new_fifo_buffer_def rg_add_data_def reduce_impl_def
  process_pending_reduce_ops_def reduce_is_ready_def take_children_def add_data_index_def
  fifo_add_def fifo_get_def fifo_has_data_def make_value_def returns_value_on_reduce_def rg_notify_def
  rn_tags_def reduce_node_def span_is_valid_types_match [symmetric] Let_def tag_no_data_def


text \<open>The events of a round in any order.\<close>

lemma mset_three: "mset es = {#a, b, c#} \<Longrightarrow> es \<in> {[a, b, c], [a, c, b], [b, a, c], [b, c, a], [c, a, b], [c, b, a]}"
proof -
  assume m: "mset es = {#a, b, c#}"
  have "length es = 3" using arg_cong [OF m, of size] by simp
  then obtain x y z where es: "es = [x, y, z]" by (auto simp: length_Suc_conv numeral_eq_Suc)
  show ?thesis using m unfolding es by (auto simp: add_eq_conv_ex)
qed

lemma mset_two: "mset es = {#a, b#} \<Longrightarrow> es \<in> {[a, b], [b, a]}"
proof -
  assume m: "mset es = {#a, b#}"
  have "length es = 2" using arg_cong [OF m, of size] by simp
  then obtain x y where es: "es = [x, y]" by (auto simp: length_Suc_conv numeral_eq_Suc)
  show ?thesis using m unfolding es by (auto simp: add_eq_conv_ex)
qed

lemma round_two_children:
  assumes "span_is_valid ts v" "span_is_valid ts lv" "span_is_valid ts rv" "op_typed ts f"
    and "rn_left n \<noteq> []" "rn_right n \<noteq> []" "distinct (rn_tags n)"
    and "es \<in> {[a, b, c], [a, c, b], [b, a, c], [b, c, a], [c, a, b], [c, b, a]}"
    and "a = RE_Reduce is_all f v" "b = RE_Data (rn_left n) lv 0" "c = RE_Data (rn_right n) rv 0"
  shows "\<exists>s. rfold rg_step es ([], new_reduce_group ts n i p r) = Inr s
    \<and> round_done n p is_all (f (f lv v) rv) s"
proof -
  have "span_is_valid ts (f (f lv v) rv)" using assms(1-4) by (simp add: op_typed_def)
  then show ?thesis using assms(1-3,5-7) assms(8) unfolding assms(9-11) insert_iff empty_iff
    by (elim disjE) (auto simp: round_simps round_done_def)
qed

lemma round_one_child:
  assumes "span_is_valid ts v" "span_is_valid ts lv" "op_typed ts f"
    and "rn_left n \<noteq> []" "rn_right n = []" "rn_parent n \<noteq> rn_left n"
    and "es \<in> {[a, b], [b, a]}" and "a = RE_Reduce is_all f v" "b = RE_Data (rn_left n) lv 0"
  shows "\<exists>s. rfold rg_step es ([], new_reduce_group ts n i p r) = Inr s
    \<and> round_done n p is_all (f lv v) s"
proof -
  have "span_is_valid ts (f lv v)" using assms(1-3) by (simp add: op_typed_def)
  then show ?thesis using assms(1,2,4-6) assms(7) unfolding assms(8-9) insert_iff empty_iff
    by (elim disjE) (auto simp: round_simps round_done_def)
qed

lemma round_no_child:
  assumes "span_is_valid ts v" "rn_left n = []"
  shows "\<exists>s. rfold rg_step [RE_Reduce is_all f v] ([], new_reduce_group ts n i p r) = Inr s
    \<and> round_done n p is_all v s"
  using assms by (auto simp: round_simps round_done_def)

text \<open>Whatever the order in which a member's own call and the values of its children come, once all are
  there the member has sent exactly one value to its parent, its own combined between the left and the
  right one; the root has instead stored that value for its waiter, and in an allreduce has sent it to its
  children.\<close>

theorem reduce_round_any_order:
  assumes "span_is_valid ts v" "span_is_valid ts lv" "span_is_valid ts rv" "op_typed ts f"
    and "distinct (filter (\<lambda>t. t \<noteq> []) (rn_tags n))" "rn_left n = [] \<longrightarrow> rn_right n = []"
    and "mset es = mset (round_events n is_all f v lv rv)"
  shows "\<exists>s. rfold rg_step es ([], new_reduce_group ts n i p r) = Inr s
    \<and> round_done n p is_all (round_result n f v lv rv) s"
proof -
  consider (none) "rn_left n = []" "rn_right n = []" | (one) "rn_left n \<noteq> []" "rn_right n = []"
    | (two) "rn_left n \<noteq> []" "rn_right n \<noteq> []" using assms(6) by blast
  then show ?thesis
  proof cases
    case none
    then have "es = [RE_Reduce is_all f v]" using assms(7) by (simp add: round_events_def)
    then show ?thesis using round_no_child [OF assms(1) none(1)] none
      by (simp add: round_result_def reduce_node_def)
  next
    case one
    then have m: "mset es = {#RE_Reduce is_all f v, RE_Data (rn_left n) lv 0#}"
      using assms(7) by (simp add: round_events_def)
    have "rn_parent n \<noteq> rn_left n" using one assms(5) by (auto simp: rn_tags_def split: if_splits)
    from round_one_child [OF assms(1,2,4) one this mset_two [OF m] refl refl] show ?thesis
      using one by (simp add: round_result_def reduce_node_def)
  next
    case two
    then have m: "mset es = {#RE_Reduce is_all f v, RE_Data (rn_left n) lv 0, RE_Data (rn_right n) rv 0#}"
      using assms(7) by (simp add: round_events_def)
    have "distinct (rn_tags n)" using two assms(5) by (auto simp: rn_tags_def split: if_splits)
    from round_two_children [OF assms(1-4) two this mset_three [OF m] refl refl refl] show ?thesis
      using two by (simp add: round_result_def reduce_node_def)
  qed
qed

lemma reduce_round_any_order_witness:
  "\<exists>s. rfold rg_step [RE_Data ''rc'' [V_int32 3] 0, RE_Reduce False sum_op [V_int32 2]]
        ([], new_reduce_group [T_int32] sample_neighbors ''gx'' ''rb'' 5) = Inr s
     \<and> fst s = [To_Parent 0 ''rb'' [V_int32 5]]"
proof -
  have "\<exists>s. rfold rg_step [RE_Data ''rc'' [V_int32 3] 0, RE_Reduce False sum_op [V_int32 2]]
        ([], new_reduce_group [T_int32] sample_neighbors ''gx'' ''rb'' 5) = Inr s
     \<and> round_done sample_neighbors ''rb'' False
         (round_result sample_neighbors sum_op [V_int32 2] [V_int32 3] [V_int32 0]) s"
    by (rule reduce_round_any_order)
      (simp_all add: span_is_valid_iff sum_op_typed sample_neighbors_def rn_tags_def round_events_def)
  then show ?thesis
    by (auto simp: round_done_def sample_neighbors_def round_result_def reduce_node_def sum_op_def)
qed

section \<open>The value of the whole tree\<close>

text \<open>The members are numbered by their tags in order, the children of \<open>i\<close> being \<open>2 i + 1\<close> and \<open>2 i + 2\<close>:
  the value that \<open>i\<close> sends, and the members below it from left to right.\<close>

function tree_reduce :: "('v \<Rightarrow> 'v \<Rightarrow> 'v) \<Rightarrow> (nat \<Rightarrow> 'v) \<Rightarrow> nat \<Rightarrow> nat \<Rightarrow> 'v" where
  "tree_reduce f v n i =
     (if 2 * i + 2 < n then f (f (tree_reduce f v n (2 * i + 1)) (v i)) (tree_reduce f v n (2 * i + 2))
      else if 2 * i + 1 < n then f (tree_reduce f v n (2 * i + 1)) (v i)
      else v i)"
  by pat_completeness auto
termination by (relation "measure (\<lambda>(f, v, n, i). n - i)") auto

function in_order :: "nat \<Rightarrow> nat \<Rightarrow> nat list" where
  "in_order n i =
     (if i < n then in_order n (2 * i + 1) @ [i] @ in_order n (2 * i + 2) else [])"
  by pat_completeness auto
termination by (relation "measure (\<lambda>(n, i). n - i)") auto

declare tree_reduce.simps [simp del] in_order.simps [simp del]

text \<open>This is what the members compute.\<close>

lemma tree_reduce_node:
  "tree_reduce f v n i =
     reduce_node f (if 2 * i + 1 < n then Some (tree_reduce f v n (2 * i + 1)) else None) (v i)
       (if 2 * i + 2 < n then Some (tree_reduce f v n (2 * i + 2)) else None)"
  by (subst tree_reduce.simps) (simp add: reduce_node_def)

fun foldr1 :: "('v \<Rightarrow> 'v \<Rightarrow> 'v) \<Rightarrow> 'v list \<Rightarrow> 'v" where
  "foldr1 f [] = undefined"
| "foldr1 f [x] = x"
| "foldr1 f (x # y # ys) = f x (foldr1 f (y # ys))"

lemma foldr1_Cons: "ys \<noteq> [] \<Longrightarrow> foldr1 f (x # ys) = f x (foldr1 f ys)"
  by (cases ys) auto

lemma foldr1_append:
  assumes "\<And>a b c. f (f a b) c = f a (f b c)" "xs \<noteq> []" "ys \<noteq> []"
  shows "foldr1 f (xs @ ys) = f (foldr1 f xs) (foldr1 f ys)"
  using assms(2)
proof (induction xs)
  case (Cons x xs)
  then show ?case using assms(1,3) by (cases "xs = []") (simp_all add: foldr1_Cons)
qed simp

lemma in_order_Nil: "in_order n i = [] \<longleftrightarrow> n \<le> i"
  by (subst in_order.simps) auto

lemma tree_reduce_in_order:
  assumes "\<And>a b c. f (f a b) c = f a (f b c)" "i < n"
  shows "tree_reduce f v n i = foldr1 f (map v (in_order n i))"
  using assms(2)
proof (induction n i rule: in_order.induct)
  case (1 n i)
  have o: "in_order n i = in_order n (2 * i + 1) @ [i] @ in_order n (2 * i + 2)"
    using 1(3) by (subst in_order.simps) simp
  consider "n \<le> 2 * i + 1" | "2 * i + 1 < n" "n \<le> 2 * i + 2" | "2 * i + 2 < n" by linarith
  then show ?case
  proof cases
    case 1
    then have "in_order n (2 * i + 1) = []" "in_order n (2 * i + 2) = []" by (simp_all only: in_order_Nil)
    with 1 show ?thesis unfolding o by (subst tree_reduce.simps) simp
  next
    case 2
    then have "tree_reduce f v n i = f (tree_reduce f v n (2 * i + 1)) (v i)"
      by (subst tree_reduce.simps) simp
    moreover have e: "in_order n (2 * i + 2) = []" using 2 by (simp only: in_order_Nil)
    moreover have "map v (in_order n (2 * i + 1)) \<noteq> []" using 2(1) in_order_Nil [of n "2 * i + 1"] by simp
    ultimately show ?thesis unfolding o e using 1(1) [OF 1(3) 2(1)]
      by (simp add: foldr1_append [OF assms(1)])
  next
    case 3
    then have "tree_reduce f v n i
        = f (f (tree_reduce f v n (2 * i + 1)) (v i)) (tree_reduce f v n (2 * i + 2))"
      by (subst tree_reduce.simps) simp
    then show ?thesis unfolding o using 1(1) [OF 1(3)] 1(2) [OF 1(3)] 3
      by (simp add: foldr1_append [OF assms(1)] foldr1_Cons in_order_Nil not_le assms(1))
  qed
qed

text \<open>The members below \<open>i\<close> are those from which going up leads to \<open>i\<close>.\<close>

lemma in_order_ge: "j \<in> set (in_order n i) \<Longrightarrow> i \<le> j \<and> j < n"
proof (induction n i rule: in_order.induct)
  case (1 n i)
  then show ?case by (subst (asm) in_order.simps) (fastforce split: if_splits)
qed

lemma in_order_parent: "j \<in> set (in_order n i) \<Longrightarrow> j \<noteq> i \<Longrightarrow> (j - 1) div 2 \<in> set (in_order n i)"
proof (induction n i rule: in_order.induct)
  case (1 n i)
  then have i: "i < n" and "j \<in> set (in_order n (2 * i + 1)) \<or> j \<in> set (in_order n (2 * i + 2))"
    by (subst (asm) in_order.simps, simp split: if_splits)+
  moreover have s: "set (in_order n i) = set (in_order n (2 * i + 1)) \<union> {i} \<union> set (in_order n (2 * i + 2))"
    using i by (subst in_order.simps) auto
  ultimately consider "j = 2 * i + 1 \<or> j = 2 * i + 2"
    | "j \<in> set (in_order n (2 * i + 1))" "j \<noteq> 2 * i + 1"
    | "j \<in> set (in_order n (2 * i + 2))" "j \<noteq> 2 * i + 2" by blast
  then show ?case
  proof cases
    case 1
    then have "(j - 1) div 2 = i" by auto
    then show ?thesis by (simp add: s)
  next
    case 2
    then show ?thesis using 1(1) [OF i] by (simp add: s)
  next
    case 3
    then show ?thesis using 1(2) [OF i] by (simp add: s)
  qed
qed

lemma in_order_iff:
  "j \<in> set (in_order n i) \<longleftrightarrow>
    i < n \<and> (j = i \<or> j \<in> set (in_order n (2 * i + 1)) \<or> j \<in> set (in_order n (2 * i + 2)))"
  by (subst in_order.simps) auto

lemma in_order_child:
  "i \<in> set (in_order n k) \<Longrightarrow> c < n \<Longrightarrow> c = 2 * i + 1 \<or> c = 2 * i + 2 \<Longrightarrow> c \<in> set (in_order n k)"
proof (induction n k rule: in_order.induct)
  case (1 n k)
  have k: "k < n" using 1(3) in_order_iff [of i n k] by blast
  have c: "c \<in> set (in_order n c)" using 1(4) in_order_iff [of c n c] by blast
  from 1(3) consider "i = k" | "i \<in> set (in_order n (2 * k + 1))" | "i \<in> set (in_order n (2 * k + 2))"
    using in_order_iff [of i n k] by blast
  then show ?case
  proof cases
    case 1
    then show ?thesis using c k \<open>c = 2 * i + 1 \<or> c = 2 * i + 2\<close> in_order_iff [of c n k] by auto
  next
    case 2
    then show ?thesis using 1(1) [OF k 2 1(4,5)] k in_order_iff [of c n k] by blast
  next
    case 3
    then show ?thesis using 1(2) [OF k 3 1(4,5)] k in_order_iff [of c n k] by blast
  qed
qed

lemma in_order_all: "j < n \<Longrightarrow> j \<in> set (in_order n 0)"
proof (induction j rule: less_induct)
  case (less j)
  show ?case
  proof (cases "j = 0")
    case True
    then show ?thesis using less.prems by (subst in_order_iff) simp
  next
    case False
    then have "(j - 1) div 2 \<in> set (in_order n 0)" using less by simp
    moreover have "j = 2 * ((j - 1) div 2) + 1 \<or> j = 2 * ((j - 1) div 2) + 2" using False by presburger
    ultimately show ?thesis using in_order_child less.prems by blast
  qed
qed

lemma siblings_disjoint: "j \<in> set (in_order n (2 * i + 1)) \<Longrightarrow> j \<notin> set (in_order n (2 * i + 2))"
proof (induction j rule: less_induct)
  case (less j)
  show ?case
  proof
    assume r: "j \<in> set (in_order n (2 * i + 2))"
    have ge: "2 * i + 2 \<le> j" using in_order_ge [OF r] by simp
    then have l: "(j - 1) div 2 \<in> set (in_order n (2 * i + 1))"
      using in_order_parent [OF less.prems] by auto
    show False
    proof (cases "j = 2 * i + 2")
      case True
      then have "(j - 1) div 2 = i" by auto
      then show False using in_order_ge [OF l] by simp
    next
      case False
      have "(j - 1) div 2 < j" using ge by arith
      then show False using less.IH [OF _ l] in_order_parent [OF r False] by blast
    qed
  qed
qed

lemma distinct_in_order: "distinct (in_order n i)"
proof (induction n i rule: in_order.induct)
  case (1 n i)
  show ?case
  proof (cases "i < n")
    case True
    have "i \<notin> set (in_order n (2 * i + 1))" "i \<notin> set (in_order n (2 * i + 2))"
      using in_order_ge by fastforce+
    then show ?thesis using 1 True siblings_disjoint [of _ n i]
      by (subst in_order.simps) auto
  qed (simp add: in_order.simps [of n i])
qed

text \<open>For an associative operation the value that the root computes is the combination of the values of
  all members, each exactly once, from left to right in the tree; and what a member computes from its
  children's values is \<^verbatim>\<open>op(op(left, value), right)\<close> at every node.\<close>

theorem tree_reduce_all_values:
  assumes "\<And>a b c. f (f a b) c = f a (f b c)" "0 < n"
  shows "tree_reduce f v n 0 = foldr1 f (map v (in_order n 0))
    \<and> distinct (in_order n 0) \<and> set (in_order n 0) = {..<n}"
proof -
  have "set (in_order n 0) = {..<n}" using in_order_ge in_order_all by blast
  then show ?thesis using tree_reduce_in_order [OF assms] distinct_in_order by simp
qed

lemma tree_reduce_all_values_witness:
  "tree_reduce (@) (\<lambda>i. [i]) 3 0 = foldr1 (@) (map (\<lambda>i. [i]) (in_order 3 0)) \<and> set (in_order 3 0) = {..<3}"
  using tree_reduce_all_values [of "(@)" 3 "\<lambda>i. [i]"] by simp

section \<open>Disconnections are passed on once\<close>

lemma others_heard:
  assumes "\<forall>(m', i') \<in> set between. m' \<noteq> m"
  shows "map_of (rg_last_heard (fold (\<lambda>(m', i') h. snd (propagate_disconnection m' i' h)) between h)) m = map_of (rg_last_heard h) m"
  using assms
proof (induction between arbitrary: h)
  case (Cons x between)
  obtain m' i' where x: "x = (m', i')" by fastforce
  then have "map_of (rg_last_heard (snd (propagate_disconnection m' i' h))) m = map_of (rg_last_heard h) m"
    using Cons.prems by (auto simp: propagate_disconnection_def rg_notify_def update_conv')
  with Cons x show ?case by simp
qed simp

lemma own_ids_differ:
  assumes "minstd_ok s"
  shows "(of_nat (minstd_next s) :: disconnect_id) \<noteq> of_nat (minstd_next (minstd_next s))"
proof
  let ?x = "minstd_next s"
  have ok: "minstd_ok ?x" using assms by (rule minstd_next_ok)
  assume "(of_nat ?x :: disconnect_id) = of_nat (minstd_next ?x)"
  then have "unat (of_nat ?x :: disconnect_id) = unat (of_nat (minstd_next ?x) :: disconnect_id)" by simp
  moreover have "?x < 2 ^ 64" "minstd_next ?x < 2 ^ 64"
    using ok minstd_next_ok [OF ok] by (auto simp: minstd_ok_def minstd_modulus_def)
  ultimately have "?x = minstd_next ?x" by (simp add: unat_of_nat)
  with minstd_next_differs [OF ok] show False by simp
qed

text \<open>A member passes a disconnection notice on the first time and ignores its repetitions; the notices of
  other machines in between do not change that. Two notices that a member itself starts one after the
  other have different identifiers, so that the second is not taken for a repetition of the first.\<close>

theorem disconnection_passed_on_once:
  assumes "minstd_ok (rg_prng g)" "\<forall>(m', i') \<in> set between. m' \<noteq> m"
  shows "(let (r1, g1) = propagate_disconnection m i g;
              g2 = fold (\<lambda>(m', i') h. snd (propagate_disconnection m' i' h)) between g1
          in propagate_disconnection m i g2 = ([], g2)
             \<and> (r1 = [] \<longrightarrow> g1 = g)
             \<and> (r1 \<noteq> [] \<longrightarrow> r1 = [Send_Disconnection m i] \<and> \<not> rg_valid g1))
    \<and> (let (r1, g1) = report_disconnection own g; (r2, g2) = report_disconnection own g1
       in \<exists>x y. r1 = [Send_Disconnection own x] \<and> r2 = [Send_Disconnection own y] \<and> x \<noteq> y)"
proof (rule conjI)
  obtain r1 g1 where p: "propagate_disconnection m i g = (r1, g1)" by fastforce
  have heard: "map_of (rg_last_heard g1) m = Some i"
    using p by (auto simp: propagate_disconnection_def rg_notify_def update_conv' split: if_splits)
  then have "propagate_disconnection m i (fold (\<lambda>(m', i') h. snd (propagate_disconnection m' i' h)) between g1)
      = ([], fold (\<lambda>(m', i') h. snd (propagate_disconnection m' i' h)) between g1)"
    using others_heard [OF assms(2), of g1] by (simp add: propagate_disconnection_def)
  then show "let (r1, g1) = propagate_disconnection m i g;
              g2 = fold (\<lambda>(m', i') h. snd (propagate_disconnection m' i' h)) between g1
          in propagate_disconnection m i g2 = ([], g2)
             \<and> (r1 = [] \<longrightarrow> g1 = g)
             \<and> (r1 \<noteq> [] \<longrightarrow> r1 = [Send_Disconnection m i] \<and> \<not> rg_valid g1)"
    using p by (auto simp: Let_def propagate_disconnection_def rg_notify_def split: if_splits)
next
  show "let (r1, g1) = report_disconnection own g; (r2, g2) = report_disconnection own g1
      in \<exists>x y. r1 = [Send_Disconnection own x] \<and> r2 = [Send_Disconnection own y] \<and> x \<noteq> y"
    using own_ids_differ [OF assms(1)] by (simp add: report_disconnection_def Let_def rg_notify_def)
qed

definition sample_group :: reduce_group where
  "sample_group = new_reduce_group [T_int32] sample_neighbors ''gx'' ''rb'' 5"

lemma disconnection_passed_on_once_witness:
  "let (r1, g1) = report_disconnection ''m'' sample_group; (r2, g2) = report_disconnection ''m'' g1
   in \<exists>x y. r1 = [Send_Disconnection ''m'' x] \<and> r2 = [Send_Disconnection ''m'' y] \<and> x \<noteq> y"
proof -
  have "minstd_ok (rg_prng sample_group)" by (simp add: sample_group_def new_reduce_group_def minstd_seed_ok)
  from disconnection_passed_on_once [OF this, of "[(''b'', 1)]" "''a''" 7 "''m''"] show ?thesis
    by (rule conjunct2) simp
qed

text \<open>C37: After a disconnection, whether it was reported by a neighbour or is noticed here, every waiter that was created
  before is ready. One that takes its result from the buffer, as all do in an allreduce and at the root, and finds
  it there, still gets it; every other one reports the disconnection. All this stays so after a rebuild, which
  empties the buffer. The counter of connections must not wrap around.\<close>

theorem disconnection_releases_waiters:
  assumes "propagate_disconnection m i g = ([Send_Disconnection m i], g') \<or> report_disconnection m g = (reqs, g')"
    and "rg_inv g" "rg_conn_counter g < -1" "c \<le> rg_conn_counter g" "h \<in> {g', rg_rebuild g'}"
  shows "reduce_waiter_ready is_all (n, c) h
    \<and> (if (is_all \<or> returns_value_on_reduce h) \<and> fifo_has_data n (rg_buffer0 h)
       then \<exists>v b. fifo_get n (rg_buffer0 h) = Inr (v, b)
              \<and> reduce_waiter_get is_all (n, c) h = Inr (Reduce_Value v, h\<lparr>rg_buffer0 := b\<rparr>)
       else reduce_waiter_get is_all (n, c) h = Inr (Reduce_Disconnection, h))
    \<and> \<not> fifo_has_data n (rg_buffer0 (rg_rebuild g'))"
proof -
  have "rg_conn_counter h = rg_conn_counter g + 1"
    using assms(1,5) by (auto simp: propagate_disconnection_def report_disconnection_def Let_def rg_notify_def rg_rebuild_def split: if_splits)
  moreover have "rg_conn_counter g < rg_conn_counter g + 1"
  proof -
    have "rg_conn_counter g \<noteq> -1" using assms(3) by simp
    then have "1 + rg_conn_counter g \<noteq> 0" by (metis add.commute eq_neg_iff_add_eq_0)
    then have "unat (rg_conn_counter g + 1) = Suc (unat (rg_conn_counter g))" by (metis add.commute unatSuc)
    then show ?thesis by (simp add: word_less_nat_alt)
  qed
  ultimately have later: "c < rg_conn_counter h" using assms(4) by simp
  have "rg_inv g'" using assms(1) propagate_inv [OF assms(2), of m i] report_inv [OF assms(2), of m] by auto
  then have "rg_inv h" using assms(5) rebuild_inv by auto
  then have "buffer_ok (rg_types h) (rg_buffer0 h)" by (simp add: rg_inv_def)
  then have found: "\<exists>v b. fifo_get n (rg_buffer0 h) = Inr (v, b)" if "fifo_has_data n (rg_buffer0 h)"
    using fifo_get_buffer_ok [OF _ that] by blast
  have "\<not> fifo_has_data n (rg_buffer0 (rg_rebuild g'))" by (simp add: rg_rebuild_def fifo_reset_def fifo_has_data_def)
  moreover have "reduce_waiter_ready is_all (n, c) h" using later by (simp add: reduce_waiter_ready_def)
  moreover have "if (is_all \<or> returns_value_on_reduce h) \<and> fifo_has_data n (rg_buffer0 h)
       then \<exists>v b. fifo_get n (rg_buffer0 h) = Inr (v, b)
              \<and> reduce_waiter_get is_all (n, c) h = Inr (Reduce_Value v, h\<lparr>rg_buffer0 := b\<rparr>)
       else reduce_waiter_get is_all (n, c) h = Inr (Reduce_Disconnection, h)"
    using later found by (auto simp: reduce_waiter_get_def Let_def)
  ultimately show ?thesis by blast
qed

lemma disconnection_releases_waiters_witness:
  "\<exists>h. reduce_waiter_ready False (0, 0) h \<and> reduce_waiter_get False (0, 0) h = Inr (Reduce_Disconnection, h)"
proof -
  let ?g = "snd (report_disconnection ''a'' sample_group)"
  have "report_disconnection ''a'' sample_group = (fst (report_disconnection ''a'' sample_group), ?g)" by simp
  moreover have "rg_inv sample_group" by (simp add: sample_group_def new_reduce_group_inv)
  moreover have "rg_conn_counter sample_group < -1" "(0 :: 16 word) \<le> rg_conn_counter sample_group"
    by (simp_all add: sample_group_def new_reduce_group_def word_greater_zero_iff)
  ultimately have "reduce_waiter_ready False (0, 0) (rg_rebuild ?g)"
    "\<not> fifo_has_data 0 (rg_buffer0 (rg_rebuild ?g))"
    "\<not> fifo_has_data 0 (rg_buffer0 (rg_rebuild ?g)) \<longrightarrow> reduce_waiter_get False (0, 0) (rg_rebuild ?g) = Inr (Reduce_Disconnection, rg_rebuild ?g)"
    using disconnection_releases_waiters [of "''a''" 7 sample_group ?g "fst (report_disconnection ''a'' sample_group)" 0 "rg_rebuild ?g" False 0]
    by (blast, blast, simp)
  then show ?thesis by blast
qed

section \<open>Two reductions at a time, and reductions across a rebuild\<close>

text \<open>A second reduction that is called while the first still waits for its children gets the same
  version as the first, although the two are different reductions.\<close>

theorem pending_reduces_share_version:
  assumes "rg_inv g" "rg_valid g" "rg_pending g = []" "\<not> reduce_is_ready (rg_last_sent g + 1) g"
  shows "\<exists>w g1 g2. reduce_impl False f v g = Inr (w, [], g1) \<and> reduce_impl False f' v' g1 = Inr (w, [], g2)
    \<and> map pr_required (rg_pending g2) = [fst w, fst w] \<and> map pr_value (rg_pending g2) = [v, v']"
  using assms by (auto simp: reduce_impl_def process_pending_reduce_ops_def Let_def reduce_is_ready_def)

lemma pending_reduces_share_version_witness:
  "\<exists>w g1 g2. reduce_impl False sum_op [V_int32 1] sample_group = Inr (w, [], g1)
     \<and> reduce_impl False sum_op [V_int32 2] g1 = Inr (w, [], g2)
     \<and> map pr_required (rg_pending g2) = [fst w, fst w]"
proof -
  have "rg_inv sample_group" by (simp add: sample_group_def new_reduce_group_inv)
  from pending_reduces_share_version [OF this, of sum_op "[V_int32 1]" sum_op "[V_int32 2]"] show ?thesis
    by (auto simp: sample_group_def new_reduce_group_def sample_neighbors_def reduce_is_ready_def
        fifo_has_data_def new_fifo_buffer_def)
qed

text \<open>A reduction that waits for its child when the group is disconnected survives the rebuild: the first
  reduction after it is answered with the value of the one before. For a member with one child and a
  parent, of the values \<open>v\<close> before and \<open>v'\<close> after, the first is what goes to the parent with the child's
  new value, and the new reduction keeps waiting.\<close>

theorem rebuild_keeps_pending_reduce:
  assumes "rg_inv g" "rg_valid g" "rg_pending g = []" "rg_last_sent g = tag_no_data"
    and "rn_parent (rg_neighbors g) \<noteq> []" "rn_left (rg_neighbors g) \<noteq> []" "rn_right (rg_neighbors g) = []"
    and "rn_left (rg_neighbors g) \<noteq> rn_parent (rg_neighbors g)" "fb_buffer (rg_buffer1 g) = []"
    and "map_of (rg_last_heard g) m = None" "span_is_valid (rg_types g) lv"
  shows "\<exists>out h. rfold rg_step [RE_Reduce False f v, RE_Propagate m i, RE_Rebuild, RE_Reduce False f v',
        RE_Data (rn_left (rg_neighbors g)) lv 0] ([], g) = Inr (out, h)
      \<and> out = [Send_Disconnection m i, To_Parent 0 (rg_produced g) (f lv v)]
      \<and> map pr_value (rg_pending h) = [v']"
proof -
  have b: "fb_types (rg_buffer1 g) = rg_types g" using assms(1) by (simp add: rg_inv_def buffer_ok_def)
  have t: "types_match (rg_expected g) lv"
    using assms(1,11) by (simp add: rg_inv_def span_is_valid_types_match)
  have "rn_left (rg_neighbors g) \<in> set (rn_tags (rg_neighbors g))"
    "index_of (rn_left (rg_neighbors g)) (rn_tags (rg_neighbors g)) = 1"
    using assms(8) by (simp_all add: rn_tags_def)
  then show ?thesis
    using assms(2-7,9-11) b t
    by (simp add: reduce_impl_def process_pending_reduce_ops_def Let_def reduce_is_ready_def
        fifo_has_data_def propagate_disconnection_def rg_notify_def rg_rebuild_def fifo_reset_def
        rg_add_data_def add_data_index_def fifo_add_def make_value_def take_children_def fifo_get_def
        returns_value_on_reduce_def reduce_node_def tag_no_data_def)
qed

lemma rebuild_keeps_pending_reduce_witness:
  "\<exists>out h. rfold rg_step [RE_Reduce False sum_op [V_int32 1], RE_Propagate ''m'' 9, RE_Rebuild,
        RE_Reduce False sum_op [V_int32 100], RE_Data ''rc'' [V_int32 5] 0] ([], sample_group) = Inr (out, h)
      \<and> out = [Send_Disconnection ''m'' 9, To_Parent 0 ''rb'' [V_int32 6]]"
proof -
  have "rg_inv sample_group" by (simp add: sample_group_def new_reduce_group_inv)
  from rebuild_keeps_pending_reduce [OF this, of "''m''" "[V_int32 5]" sum_op "[V_int32 1]" 9 "[V_int32 100]"]
  show ?thesis
    by (simp add: sample_group_def new_reduce_group_def sample_neighbors_def new_fifo_buffer_def
        span_is_valid_iff del: rfold.simps) (auto simp: sum_op_def)
qed

end
