(* ===== verification/Sky_Messages.thy ===== *)
theory Sky_Messages
  imports Sky_Network
begin

text \<open>
  Messages: the schema \<^verbatim>\<open>message_format.capnp\<close>, the accessors of
  \<^verbatim>\<open>internal/capn_proto_wrapper.cpp\<close>, the conversion of published values in
  \<^verbatim>\<open>include/publish_value_handler.hpp\<close> and the builders of \<^verbatim>\<open>internal/message_creators.cpp\<close>.

  Cap'n Proto itself is not part of the repository. Its serialisation is the parameter \<open>enc\<close> and its
  parser the parameter \<open>dec\<close>; what is relied on is that \<open>dec\<close> reads back what \<open>enc\<close> wrote, and that
  an encoded message is a positive number of words.
\<close>

section \<open>The schema\<close>

text \<open>A member of the union \<^verbatim>\<open>PublishValue\<close>. A peer with a newer schema can send a discriminant that
  this schema does not have.\<close>

datatype capnp_value =
    C_D "64 word" | C_RD "64 word list"
  | C_F "32 word" | C_RF "32 word list"
  | C_I8 "8 word" | C_RI8 "8 word list"
  | C_I16 "16 word" | C_RI16 "16 word list"
  | C_I32 "32 word" | C_RI32 "32 word list"
  | C_I64 "64 word" | C_RI64 "64 word list"
  | C_U8 "8 word" | C_RU8 "8 word list"
  | C_U16 "16 word" | C_RU16 "16 word list"
  | C_U32 "32 word" | C_RU32 "32 word list"
  | C_U64 "64 word" | C_RU64 "64 word list"
  | C_Bool bool | C_RBool "bool list"
  | C_Str string | C_RStr "string list"
  | C_Bytes "byte list"
  | C_Unknown "16 word"

datatype value_which =
    W_D | W_RD | W_F | W_RF | W_I8 | W_RI8 | W_I16 | W_RI16 | W_I32 | W_RI32 | W_I64 | W_RI64 | W_U8 | W_RU8 | W_U16 | W_RU16 | W_U32 | W_RU32 | W_U64 | W_RU64 | W_Bool | W_RBool | W_Str | W_RStr | W_Bytes | W_Unknown "16 word"

fun which :: "capnp_value \<Rightarrow> value_which" where
  "which (C_D _) = W_D" | "which (C_RD _) = W_RD"
| "which (C_F _) = W_F" | "which (C_RF _) = W_RF"
| "which (C_I8 _) = W_I8" | "which (C_RI8 _) = W_RI8"
| "which (C_I16 _) = W_I16" | "which (C_RI16 _) = W_RI16"
| "which (C_I32 _) = W_I32" | "which (C_RI32 _) = W_RI32"
| "which (C_I64 _) = W_I64" | "which (C_RI64 _) = W_RI64"
| "which (C_U8 _) = W_U8" | "which (C_RU8 _) = W_RU8"
| "which (C_U16 _) = W_U16" | "which (C_RU16 _) = W_RU16"
| "which (C_U32 _) = W_U32" | "which (C_RU32 _) = W_RU32"
| "which (C_U64 _) = W_U64" | "which (C_RU64 _) = W_RU64"
| "which (C_Bool _) = W_Bool" | "which (C_RBool _) = W_RBool"
| "which (C_Str _) = W_Str" | "which (C_RStr _) = W_RStr"
| "which (C_Bytes _) = W_Bytes" | "which (C_Unknown w) = W_Unknown w"

record publish_data =
  pd_value :: "capnp_value list"
  pd_version :: version_id
  pd_tag :: tag_id

text \<open>The union \<^verbatim>\<open>StatusMessage\<close>. \<open>SM_Unknown\<close> stands for a discriminant outside the schema and
  for a member whose pointers the reader refuses.\<close>

datatype status_message =
    SM_Greeting machine_id "machine_id list" "16 word"
  | SM_Goodbye
  | SM_New_Neighbor machine_id
  | SM_Remove_Neighbor machine_id
  | SM_Heartbeat
  | SM_Report_Publishers "tag_id list" "string list list" "machine_id list list" "tag_id list"
  | SM_Get_Publishers "tag_id list" "byte list" bool
  | SM_Join_Reduce_Group tag_id tag_id
  | SM_Submit_Reduce_Value tag_id publish_data
  | SM_Report_Reduce_Disconnection tag_id machine_id disconnect_id
  | SM_Publish_Data publish_data
  | SM_Subscription_Notice "tag_id list" bool
  | SM_Unknown

section \<open>Published values\<close>

text \<open>What the accessor of the active union member reads, a list as a vector (\<^verbatim>\<open>list_to_vector\<close>) and
  bytes by their range; and \<^verbatim>\<open>PublishValueHandler<T>::get\<close>, which first tests that the active member
  is the one of type \<open>T\<close>.\<close>

fun active_member :: "capnp_value \<Rightarrow> publish_value option" where
  "active_member (C_D x) = Some (V_double x)" | "active_member (C_RD xs) = Some (V_vec_double xs)"
| "active_member (C_F x) = Some (V_float x)" | "active_member (C_RF xs) = Some (V_vec_float xs)"
| "active_member (C_I8 x) = Some (V_int8 x)" | "active_member (C_RI8 xs) = Some (V_vec_int8 xs)"
| "active_member (C_I16 x) = Some (V_int16 x)" | "active_member (C_RI16 xs) = Some (V_vec_int16 xs)"
| "active_member (C_I32 x) = Some (V_int32 x)" | "active_member (C_RI32 xs) = Some (V_vec_int32 xs)"
| "active_member (C_I64 x) = Some (V_int64 x)" | "active_member (C_RI64 xs) = Some (V_vec_int64 xs)"
| "active_member (C_U8 x) = Some (V_uint8 x)" | "active_member (C_RU8 xs) = Some (V_vec_uint8 xs)"
| "active_member (C_U16 x) = Some (V_uint16 x)" | "active_member (C_RU16 xs) = Some (V_vec_uint16 xs)"
| "active_member (C_U32 x) = Some (V_uint32 x)" | "active_member (C_RU32 xs) = Some (V_vec_uint32 xs)"
| "active_member (C_U64 x) = Some (V_uint64 x)" | "active_member (C_RU64 xs) = Some (V_vec_uint64 xs)"
| "active_member (C_Bool x) = Some (V_bool x)" | "active_member (C_RBool xs) = Some (V_vec_bool xs)"
| "active_member (C_Str x) = Some (V_string x)" | "active_member (C_RStr xs) = Some (V_vec_string xs)"
| "active_member (C_Bytes bs) = Some (V_vec_byte bs)" | "active_member (C_Unknown _) = None"

definition pvh_get :: "cpp_type \<Rightarrow> capnp_value \<Rightarrow> publish_value option" where
  "pvh_get t r =
     (case active_member r of
        None \<Rightarrow> None
      | Some v \<Rightarrow> if value_type v = t then Some v else None)"

text \<open>\<^verbatim>\<open>PublishValueHandler<T>::set\<close>, for the alternative that the variant holds.\<close>

fun pvh_set :: "publish_value \<Rightarrow> capnp_value" where
  "pvh_set (V_double x) = C_D x" | "pvh_set (V_vec_double xs) = C_RD xs"
| "pvh_set (V_float x) = C_F x" | "pvh_set (V_vec_float xs) = C_RF xs"
| "pvh_set (V_int8 x) = C_I8 x" | "pvh_set (V_vec_int8 xs) = C_RI8 xs"
| "pvh_set (V_int16 x) = C_I16 x" | "pvh_set (V_vec_int16 xs) = C_RI16 xs"
| "pvh_set (V_int32 x) = C_I32 x" | "pvh_set (V_vec_int32 xs) = C_RI32 xs"
| "pvh_set (V_int64 x) = C_I64 x" | "pvh_set (V_vec_int64 xs) = C_RI64 xs"
| "pvh_set (V_uint8 x) = C_U8 x" | "pvh_set (V_vec_uint8 xs) = C_RU8 xs"
| "pvh_set (V_uint16 x) = C_U16 x" | "pvh_set (V_vec_uint16 xs) = C_RU16 xs"
| "pvh_set (V_uint32 x) = C_U32 x" | "pvh_set (V_vec_uint32 xs) = C_RU32 xs"
| "pvh_set (V_uint64 x) = C_U64 x" | "pvh_set (V_vec_uint64 xs) = C_RU64 xs"
| "pvh_set (V_bool x) = C_Bool x" | "pvh_set (V_vec_bool xs) = C_RBool xs"
| "pvh_set (V_string x) = C_Str x" | "pvh_set (V_vec_string xs) = C_RStr xs"
| "pvh_set (V_vec_byte bs) = C_Bytes bs"

text \<open>The \<^verbatim>\<open>switch\<close> of \<^verbatim>\<open>PublishData::value\<close>, in its order.\<close>

definition decode_value :: "capnp_value \<Rightarrow> publish_value option" where
  "decode_value reader =
     (case which reader of
        W_D \<Rightarrow> pvh_get T_double reader
      | W_RD \<Rightarrow> pvh_get T_vec_double reader
      | W_F \<Rightarrow> pvh_get T_float reader
      | W_RF \<Rightarrow> pvh_get T_vec_float reader
      | W_Str \<Rightarrow> pvh_get T_string reader
      | W_RStr \<Rightarrow> pvh_get T_vec_string reader
      | W_I8 \<Rightarrow> pvh_get T_int8 reader
      | W_I16 \<Rightarrow> pvh_get T_int16 reader
      | W_I32 \<Rightarrow> pvh_get T_int32 reader
      | W_I64 \<Rightarrow> pvh_get T_int64 reader
      | W_U8 \<Rightarrow> pvh_get T_uint8 reader
      | W_U16 \<Rightarrow> pvh_get T_uint16 reader
      | W_U32 \<Rightarrow> pvh_get T_uint32 reader
      | W_U64 \<Rightarrow> pvh_get T_uint64 reader
      | W_RI8 \<Rightarrow> pvh_get T_vec_int8 reader
      | W_RI16 \<Rightarrow> pvh_get T_vec_int16 reader
      | W_RI32 \<Rightarrow> pvh_get T_vec_int32 reader
      | W_RI64 \<Rightarrow> pvh_get T_vec_int64 reader
      | W_RU8 \<Rightarrow> pvh_get T_vec_uint8 reader
      | W_RU16 \<Rightarrow> pvh_get T_vec_uint16 reader
      | W_RU32 \<Rightarrow> pvh_get T_vec_uint32 reader
      | W_RU64 \<Rightarrow> pvh_get T_vec_uint64 reader
      | W_Bytes \<Rightarrow> pvh_get T_vec_byte reader
      | W_Bool \<Rightarrow> pvh_get T_bool reader
      | W_RBool \<Rightarrow> pvh_get T_vec_bool reader
      | W_Unknown _ \<Rightarrow> None)"

text \<open>\<^verbatim>\<open>PublishData::value\<close>: nothing as soon as one element cannot be decoded.\<close>

fun decode_values :: "capnp_value list \<Rightarrow> publish_value list option" where
  "decode_values [] = Some []"
| "decode_values (r # rs) =
     (case decode_value r of
        None \<Rightarrow> None
      | Some v \<Rightarrow> (case decode_values rs of None \<Rightarrow> None | Some vs \<Rightarrow> Some (v # vs)))"

definition publish_data_value :: "publish_data \<Rightarrow> publish_value list option" where
  "publish_data_value d = decode_values (pd_value d)"

definition set_publish_data :: "version_id \<Rightarrow> tag_id \<Rightarrow> publish_value list \<Rightarrow> publish_data" where
  "set_publish_data version tag value =
     \<lparr>pd_value = map pvh_set value, pd_version = version, pd_tag = tag\<rparr>"

lemma decode_value_set [simp]: "decode_value (pvh_set v) = Some v"
  by (cases v) (simp_all add: decode_value_def pvh_get_def)

lemma decode_value_Some: "decode_value r = Some v \<Longrightarrow> r = pvh_set v"
  by (cases r) (auto simp: decode_value_def pvh_get_def)

lemma decode_value_None: "decode_value r = None \<longleftrightarrow> (\<exists>w. r = C_Unknown w)"
  by (cases r) (simp_all add: decode_value_def pvh_get_def)

lemma decode_values_set [simp]: "decode_values (map pvh_set vs) = Some vs"
  by (induction vs) simp_all

lemma decode_values_Some: "decode_values rs = Some vs \<longleftrightarrow> rs = map pvh_set vs"
proof
  show "decode_values rs = Some vs \<Longrightarrow> rs = map pvh_set vs"
    by (induction rs arbitrary: vs) (auto split: option.splits dest: decode_value_Some)
qed simp

text \<open>C32: A published value of any of the 25 types survives the conversion to Cap'n Proto and back; what
  decodes at all decodes to the value whose conversion was sent; and decoding fails exactly when
  some element has a discriminant outside the schema.\<close>

theorem publish_value_round_trip:
  "publish_data_value (set_publish_data version tag vs) = Some vs
   \<and> (publish_data_value d = Some ws \<longleftrightarrow> pd_value d = map pvh_set ws)
   \<and> (publish_data_value d = None \<longleftrightarrow> (\<exists>w. C_Unknown w \<in> set (pd_value d)))"
proof -
  have "decode_values rs = None \<longleftrightarrow> (\<exists>w. C_Unknown w \<in> set rs)" for rs
    by (induction rs) (auto split: option.splits simp: decode_value_None, metis decode_value_None option.distinct(1))
  then show ?thesis
    by (simp add: publish_data_value_def set_publish_data_def decode_values_Some)
qed

lemma publish_data_value_set: "publish_data_value (set_publish_data version tag vs) = Some vs"
  by (simp add: publish_data_value_def set_publish_data_def)

section \<open>Reading a message\<close>

text \<open>\<^verbatim>\<open>MessageHandler::MessageVariant\<close> and \<^verbatim>\<open>extract_message\<close>.\<close>

datatype message =
    Greeting (gr_from: machine_id) (gr_neighbors: "machine_id list") (gr_port: "16 word")
  | Goodbye
  | New_Neighbor machine_id
  | Remove_Neighbor machine_id
  | Heartbeat
  | Report_Publishers "tag_id list" "string list list" "machine_id list list" "tag_id list"
  | Get_Publishers "tag_id list" "byte list" bool
  | Join_Reduce_Group tag_id tag_id
  | Submit_Reduce_Value tag_id publish_data
  | Report_Reduce_Disconnection tag_id machine_id disconnect_id
  | Publish_Data publish_data
  | Subscription_Notice "tag_id list" bool

fun extract_message :: "status_message \<Rightarrow> message option" where
  "extract_message (SM_Greeting from neighbors port) = Some (Greeting from neighbors port)"
| "extract_message SM_Goodbye = Some Goodbye"
| "extract_message (SM_New_Neighbor n) = Some (New_Neighbor n)"
| "extract_message (SM_Remove_Neighbor n) = Some (Remove_Neighbor n)"
| "extract_message SM_Heartbeat = Some Heartbeat"
| "extract_message (SM_Report_Publishers tags addresses machines local_tags) =
     Some (Report_Publishers tags addresses machines local_tags)"
| "extract_message (SM_Get_Publishers tags needed ignore) = Some (Get_Publishers tags needed ignore)"
| "extract_message (SM_Join_Reduce_Group reduce_tag tag_produced) =
     Some (Join_Reduce_Group reduce_tag tag_produced)"
| "extract_message (SM_Submit_Reduce_Value reduce_tag data) = Some (Submit_Reduce_Value reduce_tag data)"
| "extract_message (SM_Report_Reduce_Disconnection reduce_tag machine i) =
     Some (Report_Reduce_Disconnection reduce_tag machine i)"
| "extract_message (SM_Publish_Data data) = Some (Publish_Data data)"
| "extract_message (SM_Subscription_Notice tags is_unsubscribe) =
     Some (Subscription_Notice tags is_unsubscribe)"
| "extract_message SM_Unknown = None"

text \<open>\<^verbatim>\<open>MessageHandler::try_to_create\<close> is the parser; \<^verbatim>\<open>do_callback\<close> runs the handler of the message's
  alternative, and is \<open>False\<close> where there is none.\<close>

type_synonym parser = "byte list \<Rightarrow> status_message option"

definition try_to_create :: "parser \<Rightarrow> byte list \<Rightarrow> status_message option" where
  "try_to_create dec data = dec data"

definition do_callback :: "(message \<Rightarrow> 's \<Rightarrow> (bool \<times> 's) res) \<Rightarrow> status_message \<Rightarrow> 's \<Rightarrow> (bool \<times> 's) res" where
  "do_callback callback root s =
     (case extract_message root of None \<Rightarrow> Inr (False, s) | Some m \<Rightarrow> callback m s)"

section \<open>Building a message\<close>

definition make_publish :: "version_id \<Rightarrow> tag_id \<Rightarrow> publish_value list \<Rightarrow> status_message" where
  "make_publish version tag value = SM_Publish_Data (set_publish_data version tag value)"

definition make_greeting :: "machine_id \<Rightarrow> machine_id list \<Rightarrow> 16 word \<Rightarrow> status_message" where
  "make_greeting from neighbors port = SM_Greeting from neighbors port"

definition make_goodbye :: status_message where "make_goodbye = SM_Goodbye"

definition make_new_neighbor :: "machine_id \<Rightarrow> status_message" where
  "make_new_neighbor neighbor = SM_New_Neighbor neighbor"

definition make_remove_neighbor :: "machine_id \<Rightarrow> status_message" where
  "make_remove_neighbor neighbor = SM_Remove_Neighbor neighbor"

definition make_heartbeat :: status_message where "make_heartbeat = SM_Heartbeat"

definition make_report_publishers ::
  "tag_id list \<Rightarrow> string list list \<Rightarrow> machine_id list list \<Rightarrow> tag_id list \<Rightarrow> status_message res" where
  "make_report_publishers tags addresses machines local_tags =
     rassert (length tags = length addresses \<and> length tags = length machines)
       (Inr (SM_Report_Publishers tags (map (\<lambda>i. addresses ! i) [0..<length tags])
               (map (\<lambda>i. machines ! i) [0..<length tags]) local_tags))"

definition make_get_publishers :: "tag_id list \<Rightarrow> byte list \<Rightarrow> bool \<Rightarrow> status_message res" where
  "make_get_publishers tags publishers_needed ignore_cache =
     rassert (length tags = length publishers_needed)
       (Inr (SM_Get_Publishers tags publishers_needed ignore_cache))"

definition make_join_reduce_group :: "tag_id \<Rightarrow> tag_id \<Rightarrow> status_message" where
  "make_join_reduce_group reduce_tag tag_produced = SM_Join_Reduce_Group reduce_tag tag_produced"

definition make_submit_reduce_value ::
  "tag_id \<Rightarrow> version_id \<Rightarrow> tag_id \<Rightarrow> publish_value list \<Rightarrow> status_message" where
  "make_submit_reduce_value reduce_tag version tag value =
     SM_Submit_Reduce_Value reduce_tag (set_publish_data version tag value)"

definition make_report_reduce_disconnection ::
  "tag_id \<Rightarrow> machine_id \<Rightarrow> disconnect_id \<Rightarrow> status_message" where
  "make_report_reduce_disconnection reduce_tag machine i =
     SM_Report_Reduce_Disconnection reduce_tag machine i"

definition make_subscription_notice :: "tag_id list \<Rightarrow> bool \<Rightarrow> status_message" where
  "make_subscription_notice tags is_unsubscribe = SM_Subscription_Notice tags is_unsubscribe"

lemmas make_defs = make_publish_def make_greeting_def make_goodbye_def make_new_neighbor_def
  make_remove_neighbor_def make_heartbeat_def make_report_publishers_def make_get_publishers_def
  make_join_reduce_group_def make_submit_reduce_value_def make_report_reduce_disconnection_def
  make_subscription_notice_def

lemma make_report_publishers_ok:
  "length tags = length addresses \<Longrightarrow> length tags = length machines \<Longrightarrow>
   make_report_publishers tags addresses machines local_tags
     = Inr (SM_Report_Publishers tags addresses machines local_tags)"
  by (simp add: make_report_publishers_def rassert_def) (metis map_nth)

text \<open>\<^verbatim>\<open>finalize_message\<close>: the size in network order, converted to 32 bits, then the message.\<close>

definition finalize_message :: "bool \<Rightarrow> (status_message \<Rightarrow> byte list) \<Rightarrow> status_message \<Rightarrow> byte list" where
  "finalize_message little enc m =
     (let msg = enc m in to_network_bytes little (of_nat (length msg)) @ msg)"

text \<open>Reading a frame as \<^verbatim>\<open>ExternalManager::try_to_get_message\<close> and the handshake do: the size, then
  that many bytes in chunks, then the parser.\<close>

lemma read_network_size_frame:
  assumes "so_rx s = finalize_message little enc m @ rest"
  shows "read_network_size little' s
         = Inr (Inl (of_nat (length (enc m))), s\<lparr>so_rx := enc m @ rest\<rparr>)"
proof -
  have "read_message 4 s
        = (No_Error, word_bytes (of_nat (length (enc m))), s\<lparr>so_rx := enc m @ rest\<rparr>)"
    using assms by (auto simp: read_message_def finalize_message_def to_network_bytes_wire Let_def
        dest: arg_cong [of _ _ length])
  then show ?thesis
    by (simp add: read_network_size_def from_network_bytes_wire)
qed

lemma read_frame:
  assumes "so_rx s = finalize_message little enc m @ rest"
    and "\<not> read_step_size dvd length (enc m)" and "length (enc m) < 2 ^ 32"
  shows "read_network_size little' s
           = Inr (Inl (of_nat (length (enc m))), s\<lparr>so_rx := enc m @ rest\<rparr>)"
    and "read_chunked (unat (of_nat (length (enc m)) :: network_size)) (s\<lparr>so_rx := enc m @ rest\<rparr>)
           = (enc m, s\<lparr>so_rx := rest\<rparr>)"
proof -
  have "unat (of_nat (length (enc m)) :: network_size) = length (enc m)"
    using assms(3) by (simp add: unat_of_nat)
  then show "read_chunked (unat (of_nat (length (enc m)) :: network_size)) (s\<lparr>so_rx := enc m @ rest\<rparr>)
      = (enc m, s\<lparr>so_rx := rest\<rparr>)"
    using read_chunked_frame [OF assms(2)] by simp
qed (use assms(1) in \<open>rule read_network_size_frame\<close>)

text \<open>A frame whose size is a multiple of the step is announced, but nothing of it is returned.\<close>

lemma read_frame_multiple:
  assumes "so_rx s = finalize_message little enc m @ rest"
    and "read_step_size dvd length (enc m)" "length (enc m) < 2 ^ 32"
  shows "\<exists>n s' s''. read_network_size little' s = Inr (Inl n, s') \<and> read_chunked (unat n) s' = ([], s'')"
proof -
  have n: "unat (of_nat (length (enc m)) :: network_size) = length (enc m)"
    using assms(3) by (simp add: unat_of_nat)
  have "fst (read_chunked (length (enc m)) t) = []" for t :: "'b sock"
    using read_chunked_multiple [OF assms(2), of t]
    by (cases "length (enc m) = 0") (simp_all add: read_chunked_def read_chunk_loop.simps)
  then show ?thesis
    using read_network_size_frame [OF assms(1), of little'] n by (metis prod.exhaust_sel)
qed

end
