(* ===== verification/Sky_External_Manager.thy ===== *)
theory Sky_External_Manager
  imports Sky_Messages "HOL-Library.Char_ord" "HOL-Library.List_Lexorder"
begin

text \<open>
  \<^verbatim>\<open>internal::ExternalManager\<close> of \<^verbatim>\<open>skywing_core/manager.cpp\<close>: what a manager keeps of one connected
  machine. Its handlers that reach into the manager are in \<open>Sky_Manager\<close>. Times are milliseconds of the
  steady clock; \<open>now\<close> is one reading of it for a whole operation.

  \<^verbatim>\<open>conns_\<close> is never empty: the constructor puts one socket in and none is ever removed (\<open>em_ok\<close>), so
  \<^verbatim>\<open>conns_[0]\<close> is the head of the list.
\<close>

section \<open>The environment\<close>

text \<open>What the operating system and Cap'n Proto answer: the byte order, the parser, whether \<^verbatim>\<open>inet_pton\<close>
  accepts an address, the result of \<^verbatim>\<open>connect\<close>, the resolver, and the state of a socket after \<^verbatim>\<open>connect\<close>.\<close>

record net =
  nt_little :: bool
  nt_dec :: parser
  nt_valid :: "string \<Rightarrow> bool"
  nt_connect :: "addr_port \<Rightarrow> connect_ret"
  nt_resolve :: "string \<Rightarrow> 32 word option"
  nt_socket :: "addr_port \<Rightarrow> status_message sock"

section \<open>State\<close>

record ext_manager =
  em_conns :: "status_message sock list"
  em_id :: machine_id
  em_last_heard :: nat
  em_neighbors :: "machine_id list"
  em_request_time :: nat
  em_subs :: "tag_id list"
  em_port :: "16 word"
  em_backoff :: "8 word"
  em_ignore_cache :: bool
  em_dead :: bool
  em_pending_request :: bool

definition new_ext_manager ::
  "status_message sock \<Rightarrow> machine_id \<Rightarrow> machine_id list \<Rightarrow> 16 word \<Rightarrow> nat \<Rightarrow> ext_manager" where
  "new_ext_manager conn i neighbors port now =
     \<lparr>em_conns = [conn], em_id = i, em_last_heard = now, em_neighbors = neighbors, em_request_time = 0,
      em_subs = [], em_port = port, em_backoff = 0, em_ignore_cache = False, em_dead = False,
      em_pending_request = False\<rparr>"

definition em_ok :: "machine_id \<Rightarrow> ext_manager \<Rightarrow> bool" where
  "em_ok k em \<longleftrightarrow> em_id em = k \<and> em_conns em \<noteq> []"

definition add_communicator :: "status_message sock \<Rightarrow> ext_manager \<Rightarrow> ext_manager" where
  "add_communicator comm em = em\<lparr>em_conns := em_conns em @ [comm]\<rparr>"

definition mark_as_dead :: "ext_manager \<Rightarrow> ext_manager" where
  "mark_as_dead em = em\<lparr>em_dead := True\<rparr>"

definition em_send :: "status_message \<Rightarrow> ext_manager \<Rightarrow> ext_manager" where
  "em_send c em =
     (if em_dead em then em
      else (let (err, conn) = sock_send c (hd (em_conns em));
                em' = em\<lparr>em_conns := conn # tl (em_conns em)\<rparr>
            in if err \<noteq> No_Error then em'\<lparr>em_dead := True\<rparr> else em'))"

definition ignore_cache_on_next_request :: "ext_manager \<Rightarrow> ext_manager" where
  "ignore_cache_on_next_request em = em\<lparr>em_ignore_cache := True\<rparr>"

definition is_subscribed_to :: "tag_id \<Rightarrow> ext_manager \<Rightarrow> bool" where
  "is_subscribed_to tag em \<longleftrightarrow> tag \<in> set (em_subs em)"

definition em_address_pair :: "ext_manager \<Rightarrow> addr_port" where
  "em_address_pair em = (fst (so_peer (hd (em_conns em))), em_port em)"

definition em_address :: "ext_manager \<Rightarrow> string" where
  "em_address em = fst (so_peer (hd (em_conns em))) @ CHR '':'' # to_dec (unat (em_port em))"

section \<open>The neighbours of a neighbour\<close>

text \<open>\<^verbatim>\<open>std::lower_bound\<close>: the binary search of the standard libraries, which on a sorted range is the
  position that the standard specifies.\<close>

function lower_bound_loop :: "'a :: linorder list \<Rightarrow> 'a \<Rightarrow> nat \<Rightarrow> nat \<Rightarrow> nat" where
  "lower_bound_loop xs v first len =
     (if len = 0 then first
      else (let half = len div 2; middle = first + half
            in if xs ! middle < v then lower_bound_loop xs v (middle + 1) (len - half - 1)
               else lower_bound_loop xs v first half))"
  by pat_completeness auto
termination by (relation "measure (\<lambda>(xs, v, f, n). n)") auto

declare lower_bound_loop.simps [simp del]

definition lower_bound :: "'a :: linorder list \<Rightarrow> 'a \<Rightarrow> nat" where
  "lower_bound xs v = lower_bound_loop xs v 0 (length xs)"

definition has_neighbor :: "machine_id \<Rightarrow> ext_manager \<Rightarrow> bool" where
  "has_neighbor i em =
     (let loc = lower_bound (em_neighbors em) i
      in loc \<noteq> length (em_neighbors em) \<and> em_neighbors em ! loc = i)"

definition handle_new_neighbor :: "machine_id \<Rightarrow> ext_manager \<Rightarrow> ext_manager" where
  "handle_new_neighbor i em =
     (let ns = em_neighbors em; loc = lower_bound ns i
      in if loc = length ns \<or> ns ! loc \<noteq> i then em\<lparr>em_neighbors := take loc ns @ i # drop loc ns\<rparr> else em)"

definition handle_remove_neighbor :: "machine_id \<Rightarrow> ext_manager \<Rightarrow> ext_manager" where
  "handle_remove_neighbor i em =
     (let ns = em_neighbors em; loc = lower_bound ns i
      in if loc \<noteq> length ns then em\<lparr>em_neighbors := butlast (ns[loc := last ns, length ns - 1 := ns ! loc])\<rparr>
         else em)"

lemma lower_bound_loop_sorted:
  assumes "sorted xs" "first + len \<le> length xs"
    and "\<forall>i < first. xs ! i < v" "\<forall>i. first + len \<le> i \<and> i < length xs \<longrightarrow> v \<le> xs ! i"
  shows "lower_bound_loop xs v first len \<le> length xs
    \<and> (\<forall>i < lower_bound_loop xs v first len. xs ! i < v)
    \<and> (\<forall>i. lower_bound_loop xs v first len \<le> i \<and> i < length xs \<longrightarrow> v \<le> xs ! i)"
  using assms
proof (induction xs v first len rule: lower_bound_loop.induct)
  case (1 xs v first len)
  note IH = 1(1,2) and prems = 1(3-6)
  show ?case
  proof (cases "len = 0")
    case True
    then show ?thesis using prems by (simp add: lower_bound_loop.simps)
  next
    case False
    define half where "half = len div 2"
    have half: "half < len" using False by (simp add: half_def)
    show ?thesis
    proof (cases "xs ! (first + half) < v")
      case True
      have "\<forall>i < first + half + 1. xs ! i < v"
      proof (intro allI impI)
        fix i assume "i < first + half + 1"
        then have "xs ! i \<le> xs ! (first + half)"
          using prems(1,2) half by (intro sorted_nth_mono) auto
        with True show "xs ! i < v" by simp
      qed
      moreover have "lower_bound_loop xs v first len = lower_bound_loop xs v (first + half + 1) (len - half - 1)"
        using False True by (subst lower_bound_loop.simps) (simp add: half_def Let_def)
      ultimately show ?thesis
        using IH(1) [OF False refl refl True [unfolded half_def]] prems half
        by (simp add: half_def [symmetric])
    next
      case ge: False
      have "\<forall>i. first + half \<le> i \<and> i < length xs \<longrightarrow> v \<le> xs ! i"
      proof (intro allI impI)
        fix i assume "first + half \<le> i \<and> i < length xs"
        then have "xs ! (first + half) \<le> xs ! i" using prems(1) by (intro sorted_nth_mono) auto
        with ge show "v \<le> xs ! i" by simp
      qed
      moreover have "lower_bound_loop xs v first len = lower_bound_loop xs v first half"
        using False ge by (subst lower_bound_loop.simps) (simp add: half_def Let_def)
      moreover have "first + half \<le> length xs" using prems(2) half by simp
      ultimately show ?thesis
        using IH(2) [OF False refl refl, folded half_def, OF ge prems(1) _ prems(3)] by simp
    qed
  qed
qed

lemma lower_bound_sorted:
  assumes "sorted xs"
  shows "lower_bound xs v \<le> length xs" "\<forall>i < lower_bound xs v. xs ! i < v"
    "\<forall>i. lower_bound xs v \<le> i \<and> i < length xs \<longrightarrow> v \<le> xs ! i"
proof -
  have "lower_bound_loop xs v 0 (length xs) \<le> length xs
    \<and> (\<forall>i < lower_bound_loop xs v 0 (length xs). xs ! i < v)
    \<and> (\<forall>i. lower_bound_loop xs v 0 (length xs) \<le> i \<and> i < length xs \<longrightarrow> v \<le> xs ! i)"
    by (rule lower_bound_loop_sorted [OF assms]) auto
  then show "lower_bound xs v \<le> length xs" "\<forall>i < lower_bound xs v. xs ! i < v"
    "\<forall>i. lower_bound xs v \<le> i \<and> i < length xs \<longrightarrow> v \<le> xs ! i"
    unfolding lower_bound_def by blast+
qed

text \<open>Without any order the result is still a position of the list or its end.\<close>

lemma lower_bound_loop_le: "lower_bound_loop xs v first len \<le> first + len"
proof (induction xs v first len rule: lower_bound_loop.induct)
  case (1 xs v first len)
  then show ?case
    by (subst lower_bound_loop.simps) (fastforce simp: Let_def)
qed

lemma lower_bound_le: "lower_bound xs v \<le> length xs"
  using lower_bound_loop_le [of xs v 0 "length xs"] by (simp add: lower_bound_def)

lemma lower_bound_split:
  assumes "sorted (xs :: 'a :: linorder list)" "distinct xs"
  shows "v \<in> set xs \<longleftrightarrow> lower_bound xs v \<noteq> length xs \<and> xs ! lower_bound xs v = v"
proof
  note lb = lower_bound_sorted [OF assms(1), of v]
  assume "v \<in> set xs"
  then obtain i where i: "i < length xs" "xs ! i = v" by (auto simp: in_set_conv_nth)
  then have "lower_bound xs v \<le> i" using lb(2) by (meson less_irrefl not_le)
  moreover have "xs ! lower_bound xs v \<le> xs ! i" using calculation i assms(1) by (intro sorted_nth_mono)
  moreover have "v \<le> xs ! lower_bound xs v" using lb(3) calculation(1) i by auto
  ultimately show "lower_bound xs v \<noteq> length xs \<and> xs ! lower_bound xs v = v" using i by auto
next
  assume "lower_bound xs v \<noteq> length xs \<and> xs ! lower_bound xs v = v"
  then show "v \<in> set xs" using lower_bound_le [of xs v] nth_mem [of "lower_bound xs v" xs] by auto
qed

lemma lower_bound_parts:
  assumes "sorted xs"
  shows "\<forall>x \<in> set (take (lower_bound xs v) xs). x < v" "\<forall>x \<in> set (drop (lower_bound xs v) xs). v \<le> x"
  using lower_bound_sorted [OF assms, of v] by (auto simp: in_set_conv_nth)

text \<open>While the list of a neighbour's neighbours is sorted, the look-up in it is membership, and the
  announcement of a new neighbour adds it exactly when it is not there, keeping the list sorted and
  without repetitions.\<close>

theorem neighbor_list_sorted:
  assumes "sorted (em_neighbors em)" "distinct (em_neighbors em)"
  shows "(has_neighbor j em \<longleftrightarrow> j \<in> set (em_neighbors em))
    \<and> set (em_neighbors (handle_new_neighbor i em)) = insert i (set (em_neighbors em))
    \<and> sorted (em_neighbors (handle_new_neighbor i em)) \<and> distinct (em_neighbors (handle_new_neighbor i em))"
proof -
  let ?ns = "em_neighbors em"
  let ?loc = "lower_bound ?ns i"
  have has: "has_neighbor j em \<longleftrightarrow> j \<in> set ?ns" for j
    using lower_bound_split [OF assms, of j] by (simp add: has_neighbor_def Let_def)
  show ?thesis
  proof (cases "i \<in> set ?ns")
    case True
    then have "handle_new_neighbor i em = em"
      using lower_bound_split [OF assms, of i] by (simp add: handle_new_neighbor_def Let_def)
    then show ?thesis using has assms True by auto
  next
    case False
    then have e: "em_neighbors (handle_new_neighbor i em) = take ?loc ?ns @ i # drop ?loc ?ns"
      using lower_bound_split [OF assms, of i] by (auto simp: handle_new_neighbor_def Let_def)
    have s: "set (take ?loc ?ns) \<union> set (drop ?loc ?ns) = set ?ns" by (metis append_take_drop_id set_append)
    have d: "distinct (take ?loc ?ns @ drop ?loc ?ns)" "sorted (take ?loc ?ns @ drop ?loc ?ns)"
      using assms by simp_all
    note parts = lower_bound_parts [OF assms(1), of i]
    have "sorted (take ?loc ?ns @ i # drop ?loc ?ns)"
      using d(2) parts by (fastforce simp: sorted_append)
    moreover have "distinct (take ?loc ?ns @ i # drop ?loc ?ns)"
    proof -
      have "i \<notin> set (take ?loc ?ns) \<union> set (drop ?loc ?ns)" using False s by simp
      moreover have "distinct (take ?loc ?ns)" "distinct (drop ?loc ?ns)"
        "set (take ?loc ?ns) \<inter> set (drop ?loc ?ns) = {}"
        using d(1) unfolding distinct_append by auto
      ultimately show ?thesis by simp
    qed
    ultimately show ?thesis using has s unfolding e by auto
  qed
qed

definition sample_sock :: "status_message sock" where
  "sample_sock = \<lparr>so_rx = [], so_rx_state = Rx_Open, so_tx = [], so_tx_next = [],
     so_poll = Poll_Events False True, so_peer = (''10.0.0.2'', 5000)\<rparr>"

definition sample_em :: "machine_id \<Rightarrow> machine_id list \<Rightarrow> ext_manager" where
  "sample_em i ns = new_ext_manager sample_sock i ns 4000 0"

lemma sample_em_simps [simp]:
  "em_neighbors (sample_em i ns) = ns" "em_id (sample_em i ns) = i" "em_dead (sample_em i ns) = False"
  by (simp_all add: sample_em_def new_ext_manager_def)

lemma neighbor_list_sorted_witness:
  "(has_neighbor ''b'' (sample_em ''m'' [''a'', ''c'']) \<longleftrightarrow> ''b'' \<in> {''a'', ''c''})
   \<and> set (em_neighbors (handle_new_neighbor ''b'' (sample_em ''m'' [''a'', ''c'']))) = {''a'', ''b'', ''c''}"
proof -
  have "sorted [''a'', ''c'']" by (simp add: List_Lexorder.less_eq_list_code)
  from neighbor_list_sorted [of "sample_em ''m'' [''a'', ''c'']" "''b''" "''b''"] this show ?thesis by auto
qed

text \<open>The removal of a neighbour that the list does not hold removes the next larger neighbour instead,
  and after a removal the list need not be sorted, so that a neighbour that is there is not found.\<close>

theorem remove_neighbor_wrong:
  assumes "sorted (em_neighbors em)" "distinct (em_neighbors em)" "i \<notin> set (em_neighbors em)"
    and "j \<in> set (em_neighbors em)" "i < j" "\<forall>k \<in> set (em_neighbors em). i < k \<longrightarrow> j \<le> k"
  shows "set (em_neighbors (handle_remove_neighbor i em)) = set (em_neighbors em) - {j}
    \<and> (let em' = handle_remove_neighbor ''a'' (sample_em m [''a'', ''b'', ''c''])
       in ''b'' \<in> set (em_neighbors em') \<and> \<not> has_neighbor ''b'' em')"
proof (rule conjI)
  let ?ns = "em_neighbors em"
  let ?loc = "lower_bound ?ns i"
  note parts = lower_bound_parts [OF assms(1), of i]
  have "j \<in> set (drop ?loc ?ns)"
    using assms(4,5) parts(1) by (metis Un_iff append_take_drop_id less_asym set_append)
  then have loc: "?loc < length ?ns" by (metis drop_all empty_iff list.set(1) not_le)
  then have at: "?ns ! ?loc \<in> set (drop ?loc ?ns)" by (metis Cons_nth_drop_Suc list.set_intros(1))
  then have "i < ?ns ! ?loc" using parts(2) loc assms(3) by (metis nth_mem order_le_less)
  then have "j \<le> ?ns ! ?loc" using assms(6) loc by simp
  moreover have "?ns ! ?loc \<le> j"
  proof -
    obtain k where k: "k < length (drop ?loc ?ns)" "drop ?loc ?ns ! k = j"
      using \<open>j \<in> set (drop ?loc ?ns)\<close> by (auto simp: in_set_conv_nth)
    then have "?ns ! (?loc + k) = j" using loc by simp
    moreover have "?ns ! ?loc \<le> ?ns ! (?loc + k)" using assms(1) k by (intro sorted_nth_mono) auto
    ultimately show ?thesis by simp
  qed
  ultimately have j: "?ns ! ?loc = j" by simp
  define p q where "p = take ?loc ?ns" and "q = drop (Suc ?loc) ?ns"
  have split: "?ns = p @ j # q" using id_take_nth_drop [OF loc] by (simp add: p_def q_def j)
  have len: "length p = ?loc" using loc by (simp add: p_def)
  define loc where "loc = ?loc"
  have ll: "loc = length p" by (simp add: len loc_def)
  have "set (butlast (?ns[loc := last ?ns, length ?ns - 1 := ?ns ! loc])) = set p \<union> set q"
  proof (cases q rule: rev_cases)
    case Nil
    then show ?thesis unfolding split ll by simp
  next
    case (snoc q' l)
    have "(p @ j # q' @ [l])[length p := l, length p + Suc (length q') := j] = p @ l # q' @ [j]"
      by (simp add: list_update_append)
    then show ?thesis unfolding split ll snoc by (simp add: butlast_append)
  qed
  moreover have "set p \<union> set q = set ?ns - {j}" using assms(2) unfolding split by auto
  ultimately show "set (em_neighbors (handle_remove_neighbor i em)) = set ?ns - {j}"
    using loc by (simp add: handle_remove_neighbor_def Let_def loc_def)
next
  have "lower_bound [''a'', ''b'', ''c''] ''a'' = 0" "lower_bound [''c'', ''b''] ''b'' = 0"
    by (simp_all add: lower_bound_def lower_bound_loop.simps Let_def)
  then show "let em' = handle_remove_neighbor ''a'' (sample_em m [''a'', ''b'', ''c''])
      in ''b'' \<in> set (em_neighbors em') \<and> \<not> has_neighbor ''b'' em'"
    by (simp add: handle_remove_neighbor_def has_neighbor_def Let_def)
qed

lemma remove_neighbor_wrong_witness:
  "set (em_neighbors (handle_remove_neighbor ''b'' (sample_em ''m'' [''a'', ''c'']))) = {''a''}"
proof -
  have "sorted [''a'', ''c'']" by (simp add: List_Lexorder.less_eq_list_code)
  from remove_neighbor_wrong [of "sample_em ''m'' [''a'', ''c'']" "''b''" "''c''"] this show ?thesis
    by (simp add: less_list_code) auto
qed

section \<open>Requests for publishers\<close>

definition backoff_times :: "nat list" where
  "backoff_times = [20, 40, 80, 160, 320, 500, 750, 1000, 2000, 5000]"

definition calc_next_request_time :: "nat \<Rightarrow> ext_manager \<Rightarrow> nat" where
  "calc_next_request_time now em =
     (let add_time = (if unat (em_backoff em) \<ge> length backoff_times then last backoff_times
                      else backoff_times ! unat (em_backoff em))
      in now + add_time)"

definition should_ask_for_tags :: "nat \<Rightarrow> ext_manager \<Rightarrow> bool" where
  "should_ask_for_tags now em \<longleftrightarrow> \<not> em_pending_request em \<and> now > em_request_time em"

definition reset_backoff_counter :: "nat \<Rightarrow> ext_manager \<Rightarrow> ext_manager" where
  "reset_backoff_counter now em =
     (let em' = em\<lparr>em_backoff := 0\<rparr> in em'\<lparr>em_request_time := calc_next_request_time now em'\<rparr>)"

definition increase_backoff_counter :: "nat \<Rightarrow> ext_manager \<Rightarrow> ext_manager" where
  "increase_backoff_counter now em =
     (let em' = em\<lparr>em_backoff := em_backoff em + 1\<rparr>
      in em'\<lparr>em_request_time := calc_next_request_time now em'\<rparr>)"

definition find_publishers_for_tags :: "tag_id list \<Rightarrow> byte list \<Rightarrow> ext_manager \<Rightarrow> ext_manager res" where
  "find_publishers_for_tags tags publishers_needed em =
     (if em_pending_request em then Inr em
      else rbind (make_get_publishers tags publishers_needed (em_ignore_cache em)) (\<lambda>msg.
        Inr ((em_send msg em)\<lparr>em_ignore_cache := False, em_pending_request := True\<rparr>)))"

definition send_heartbeat_if_past_interval :: "nat \<Rightarrow> nat \<Rightarrow> ext_manager \<Rightarrow> ext_manager" where
  "send_heartbeat_if_past_interval interval now em =
     (if now - em_last_heard em \<ge> interval
      then (em_send make_heartbeat em)\<lparr>em_last_heard := now\<rparr>
      else em)"

lemma em_send_simps [simp]:
  "em_id (em_send c em) = em_id em" "em_conns (em_send c em) = [] \<longleftrightarrow> (em_conns em = [] \<and> em_dead em)"
  "em_neighbors (em_send c em) = em_neighbors em" "em_subs (em_send c em) = em_subs em"
  "em_backoff (em_send c em) = em_backoff em" "em_pending_request (em_send c em) = em_pending_request em"
  "em_request_time (em_send c em) = em_request_time em" "em_ignore_cache (em_send c em) = em_ignore_cache em"
  "em_last_heard (em_send c em) = em_last_heard em" "em_port (em_send c em) = em_port em"
  by (auto simp: em_send_def Let_def split: prod.splits)

named_theorems em_ok_intros \<open>operations on one neighbour keep its identifier and its first socket\<close>

lemma em_ok_send [em_ok_intros]: "em_ok k em \<Longrightarrow> em_ok k (em_send c em)"
  by (simp add: em_ok_def)

lemma em_ok_updates [em_ok_intros]:
  "em_ok k em \<Longrightarrow> em_ok k (mark_as_dead em)" "em_ok k em \<Longrightarrow> em_ok k (add_communicator c em)"
  "em_ok k em \<Longrightarrow> em_ok k (ignore_cache_on_next_request em)"
  "em_ok k em \<Longrightarrow> em_ok k (reset_backoff_counter now em)"
  "em_ok k em \<Longrightarrow> em_ok k (increase_backoff_counter now em)"
  "em_ok k em \<Longrightarrow> em_ok k (send_heartbeat_if_past_interval i now em)"
  "em_ok k em \<Longrightarrow> em_ok k (handle_new_neighbor n em)"
  "em_ok k em \<Longrightarrow> em_ok k (handle_remove_neighbor n em)"
  by (auto simp: em_ok_def mark_as_dead_def add_communicator_def ignore_cache_on_next_request_def
      reset_backoff_counter_def increase_backoff_counter_def send_heartbeat_if_past_interval_def
      handle_new_neighbor_def handle_remove_neighbor_def Let_def)

lemma em_ok_find [em_ok_intros]: "em_ok k em \<Longrightarrow> find_publishers_for_tags ts ns em = Inr em' \<Longrightarrow> em_ok k em'"
  by (auto simp: find_publishers_for_tags_def res_iffs em_ok_def split: if_splits)

lemma new_ext_manager_ok: "em_ok i (new_ext_manager conn i ns port now)"
  by (simp add: em_ok_def new_ext_manager_def)

text \<open>The time until the next request for publishers lies between 20 ms and 5 s and does not shrink while
  requests go unanswered, until the 8-bit counter wraps around: after 255 unanswered requests the next
  one is again due after 20 ms.\<close>

theorem backoff_bounds:
  "em_request_time (increase_backoff_counter now em) \<in> {now + 20 .. now + 5000}
   \<and> (em_backoff em < 255 \<longrightarrow> calc_next_request_time now em \<le> em_request_time (increase_backoff_counter now em))
   \<and> (em_backoff em = 255 \<longrightarrow> em_request_time (increase_backoff_counter now em) = now + 20)
   \<and> em_request_time (reset_backoff_counter now em) = now + 20"
proof -
  define f where "f = (\<lambda>k :: nat. if k \<ge> length backoff_times then last backoff_times else backoff_times ! k)"
  have f_range: "f k \<in> {20 .. 5000}" for k
  proof (cases "k < 10")
    case True
    then have "k \<in> {0, 1, 2, 3, 4, 5, 6, 7, 8, 9}" by auto
    then show ?thesis by (auto simp: f_def backoff_times_def)
  qed (simp add: f_def backoff_times_def)
  have f_mono: "f k \<le> f (Suc k)" for k
  proof (cases "k < 9")
    case True
    then have "k \<in> {0, 1, 2, 3, 4, 5, 6, 7, 8}" by auto
    then show ?thesis by (auto simp: f_def backoff_times_def)
  next
    case False
    then show ?thesis by (cases "k = 9") (auto simp: f_def backoff_times_def)
  qed
  have calc: "calc_next_request_time now em = now + f (unat (em_backoff em))" for em
    by (simp add: calc_next_request_time_def f_def)
  have inc: "em_request_time (increase_backoff_counter now em) = now + f (unat (em_backoff em + 1))"
    by (simp add: increase_backoff_counter_def Let_def calc)
  have "unat (em_backoff em + 1) = Suc (unat (em_backoff em))" if "em_backoff em < 255"
  proof -
    have "(255 :: 8 word) = -1" by simp
    then have "em_backoff em \<noteq> -1" using that by auto
    then have "1 + em_backoff em \<noteq> 0" by (metis add.commute eq_neg_iff_add_eq_0)
    then show ?thesis by (metis add.commute unatSuc)
  qed
  moreover have "f 0 = 20" by (simp add: f_def backoff_times_def)
  ultimately show ?thesis using f_range f_mono
    by (auto simp: inc calc reset_backoff_counter_def Let_def)
qed

lemma backoff_bounds_witness:
  "em_request_time (increase_backoff_counter 7 ((sample_em ''m'' [])\<lparr>em_backoff := 255\<rparr>)) = 27"
  using backoff_bounds [of 7 "(sample_em ''m'' [])\<lparr>em_backoff := 255\<rparr>"] by simp

section \<open>Reading messages\<close>

definition set_conn :: "nat \<Rightarrow> status_message sock \<Rightarrow> ext_manager \<Rightarrow> ext_manager" where
  "set_conn i c em = em\<lparr>em_conns := (em_conns em)[i := c]\<rparr>"

text \<open>\<^verbatim>\<open>try_to_get_message\<close> on the socket with index \<open>i\<close>.\<close>

definition try_to_get_message :: "net \<Rightarrow> nat \<Rightarrow> ext_manager \<Rightarrow> (status_message option \<times> ext_manager) res" where
  "try_to_get_message net i em =
     rbind (read_network_size (nt_little net) (em_conns em ! i)) (\<lambda>(bytes_to_read_or_error, c).
       case bytes_to_read_or_error of
         Inl bytes_to_read \<Rightarrow>
           (let (message_buffer, c') = read_chunked (unat bytes_to_read) c
            in if message_buffer \<noteq> [] then Inr (try_to_create (nt_dec net) message_buffer, set_conn i c' em)
               else Inr (None, (set_conn i c' em)\<lparr>em_dead := True\<rparr>))
       | Inr err \<Rightarrow>
           (if err = Closed then Inr (None, (set_conn i c em)\<lparr>em_dead := True\<rparr>)
            else if err \<noteq> Would_Block then Inr (None, (set_conn i c em)\<lparr>em_dead := True\<rparr>)
            else Inr (None, set_conn i c em)))"

text \<open>C30: A message that a peer built and framed, shorter than 4 GiB and one that the parser reads back from
  what the serialiser wrote, also from a machine of the other byte order and whatever follows it in the stream: if
  its size is no multiple of 4096 it arrives as the same message and what follows it stays in the socket; if its
  size is a multiple of 4096 the message is lost and the neighbour is taken for dead.\<close>

theorem message_arrives:
  assumes "nt_dec net (enc m) = Some m" "length (enc m) < 2 ^ 32"
    and "i < length (em_conns em)" "so_rx (em_conns em ! i) = finalize_message little enc m @ rest"
  shows "(\<not> read_step_size dvd length (enc m) \<longrightarrow>
      try_to_get_message net i em = Inr (Some m, set_conn i ((em_conns em ! i)\<lparr>so_rx := rest\<rparr>) em))
    \<and> (read_step_size dvd length (enc m) \<longrightarrow>
      (\<exists>c. try_to_get_message net i em = Inr (None, (set_conn i c em)\<lparr>em_dead := True\<rparr>)))"
proof (cases "read_step_size dvd length (enc m)")
  case True
  from read_frame_multiple [OF assms(4) True assms(2), of "nt_little net"] show ?thesis
    using True by (auto simp: try_to_get_message_def)
next
  case False
  then have "enc m \<noteq> []" by auto
  with False read_frame [OF assms(4) False assms(2)] assms(1) show ?thesis
    by (simp add: try_to_get_message_def try_to_create_def)
qed

definition sample_net :: net where
  "sample_net = \<lparr>nt_little = True, nt_dec = (\<lambda>bs. if bs = [1, 2, 3, 4, 5, 6, 7, 8] then Some SM_Heartbeat else None),
     nt_valid = (\<lambda>_. True), nt_connect = (\<lambda>_. Connect_EINPROGRESS), nt_resolve = (\<lambda>_. Some 0x0100007F),
     nt_socket = (\<lambda>a. sample_sock\<lparr>so_peer := a\<rparr>)\<rparr>"

definition sample_wire :: "status_message \<Rightarrow> byte list" where
  "sample_wire m = (if m = SM_Heartbeat then [1, 2, 3, 4, 5, 6, 7, 8] else replicate 4096 9)"

definition received :: "status_message \<Rightarrow> ext_manager" where
  "received m = new_ext_manager (sample_sock\<lparr>so_rx := finalize_message False sample_wire m @ [9]\<rparr>) ''m'' [] 1 0"

definition two_message_net :: net where
  "two_message_net = sample_net\<lparr>nt_dec := (\<lambda>bs. if bs = sample_wire SM_Heartbeat then Some SM_Heartbeat
     else if bs = sample_wire SM_Goodbye then Some SM_Goodbye else None)\<rparr>"

lemma message_arrives_witness:
  "(\<exists>em. try_to_get_message two_message_net 0 (received SM_Heartbeat) = Inr (Some SM_Heartbeat, em))
     \<and> (\<exists>em. try_to_get_message two_message_net 0 (received SM_Goodbye) = Inr (None, em) \<and> em_dead em)"
proof -
  have p: "nt_dec two_message_net (sample_wire SM_Heartbeat) = Some SM_Heartbeat"
    "nt_dec two_message_net (sample_wire SM_Goodbye) = Some SM_Goodbye"
    by (auto simp: two_message_net_def sample_wire_def dest: arg_cong [of _ _ length])
  have d: "\<not> read_step_size dvd length (sample_wire SM_Heartbeat)" "read_step_size dvd length (sample_wire SM_Goodbye)"
    by (auto simp: sample_wire_def step_sizes dest: dvd_imp_le)
  have l: "length (sample_wire m) < 2 ^ 32" for m by (simp add: sample_wire_def)
  have r: "0 < length (em_conns (received m))" "so_rx (em_conns (received m) ! 0) = finalize_message False sample_wire m @ [9]" for m
    by (simp_all add: received_def new_ext_manager_def)
  show ?thesis
    using message_arrives [OF p(1) l r] message_arrives [OF p(2) l r] d by fastforce
qed

end
