(* ===== verification/Sky_Manager.thy ===== *)
theory Sky_Manager
  imports Sky_Job Sky_Reduce_Group Sky_External_Manager
begin

text \<open>
  \<^verbatim>\<open>Manager\<close> of \<^verbatim>\<open>skywing_core/manager.cpp\<close> and \<^verbatim>\<open>manager.hpp\<close>, with the message handlers of
  \<^verbatim>\<open>ExternalManager\<close> that reach into it: connections, the search for publishers of tags, subscriptions,
  the delivery of data to jobs, and the traffic of reduce groups.

  A pointer to an \<^verbatim>\<open>ExternalManager\<close> is the key of its entry in \<^verbatim>\<open>neighbors_\<close>; using it when there is no such
  entry is undefined behaviour. A parameter \<open>net\<close> is what the system answers during the call, \<open>now\<close> the
  clock. Mutexes are left out: every operation runs under \<^verbatim>\<open>job_mut_\<close> and is one step. What goes out on a
  socket is recorded as the message itself; its bytes are \<open>finalize_message\<close> of it.
\<close>

section \<open>State\<close>

datatype conn_status = Waiting_For_Conn | Waiting_For_Resp
datatype conn_type = User_Requested | By_Accept | Subscription_Conn | Reduce_Group_Conn | Specific_IP

record pending_info =
  pi_conn :: "status_message sock"
  pi_status :: conn_status
  pi_type :: conn_type
  pi_tag :: string

record reduce_data =
  rd_group :: reduce_group
  rd_parents :: "machine_id list"
  rd_left :: "machine_id list"      \<comment> \<open>\<^verbatim>\<open>child_machines[0]\<close>\<close>
  rd_right :: "machine_id list"     \<comment> \<open>\<^verbatim>\<open>child_machines[1]\<close>\<close>

type_synonym publisher_info = "string \<times> machine_id"

record manager =
  m_jobs :: "(job_id \<times> job) list"
  m_neighbors :: "(machine_id \<times> ext_manager) list"
  m_publishers :: "(tag_id \<times> publisher_info list) list"
  m_pending_tags :: "tag_id list"
  m_reduce :: "(tag_id \<times> reduce_data) list"
  m_id :: machine_id
  m_heartbeat :: nat
  m_send_info :: "(tag_id \<times> machine_id list) list"
  m_self_subs :: "(tag_id \<times> int) list"
  m_port :: "16 word"
  m_addrs :: "(addr_port \<times> machine_id) list"
  m_tags :: "(tag_id \<times> machine_id) list"
  m_pending :: "(addr_port \<times> pending_info) list"
  m_notify_sub :: bool
  m_notify_reduce :: bool
  m_notify_conn :: bool
  m_cvs :: "nat \<times> nat \<times> nat"        \<comment> \<open>notifications of the three condition variables so far\<close>

definition new_manager :: "16 word \<Rightarrow> machine_id \<Rightarrow> nat \<Rightarrow> bool \<Rightarrow> manager res" where
  "new_manager port i heartbeat listening =
     (if \<not> listening then Inl (Exit_Process 1)
      else Inr \<lparr>m_jobs = [], m_neighbors = [], m_publishers = [], m_pending_tags = [], m_reduce = [],
             m_id = i, m_heartbeat = heartbeat, m_send_info = [], m_self_subs = [], m_port = port,
             m_addrs = [], m_tags = [], m_pending = [], m_notify_sub = False, m_notify_reduce = False,
             m_notify_conn = False, m_cvs = (0, 0, 0)\<rparr>)"

section \<open>Neighbours\<close>

text \<open>A change of one neighbour, and of all of them in turn.\<close>

definition upd_em :: "machine_id \<Rightarrow> (ext_manager \<Rightarrow> ext_manager) \<Rightarrow> manager \<Rightarrow> manager" where
  "upd_em k f m = m\<lparr>m_neighbors := AList.map_entry k f (m_neighbors m)\<rparr>"

definition all_em :: "(ext_manager \<Rightarrow> ext_manager) \<Rightarrow> manager \<Rightarrow> manager" where
  "all_em f m = m\<lparr>m_neighbors := map (\<lambda>(k, em). (k, f em)) (m_neighbors m)\<rparr>"

fun rmap_em :: "(machine_id \<Rightarrow> ext_manager \<Rightarrow> ext_manager res) \<Rightarrow> (machine_id \<times> ext_manager) list
    \<Rightarrow> (machine_id \<times> ext_manager) list res" where
  "rmap_em f [] = Inr []"
| "rmap_em f ((k, em) # xs) =
     rbind (f k em) (\<lambda>em'. rbind (rmap_em f xs) (\<lambda>xs'. Inr ((k, em') # xs')))"

definition deref :: "machine_id \<Rightarrow> manager \<Rightarrow> ext_manager res" where
  "deref k m = (case map_of (m_neighbors m) k of None \<Rightarrow> Inl Undefined_Behaviour | Some em \<Rightarrow> Inr em)"

definition send_to :: "machine_id \<Rightarrow> status_message \<Rightarrow> manager \<Rightarrow> manager" where
  "send_to k msg m = upd_em k (em_send msg) m"

definition send_to_neighbors_if :: "status_message \<Rightarrow> (ext_manager \<Rightarrow> bool) \<Rightarrow> manager \<Rightarrow> manager" where
  "send_to_neighbors_if msg condition m = all_em (\<lambda>em. if condition em then em_send msg em else em) m"

definition send_to_neighbors :: "status_message \<Rightarrow> manager \<Rightarrow> manager" where
  "send_to_neighbors msg m = send_to_neighbors_if msg (\<lambda>_. True) m"

definition destroy_manager :: "manager \<Rightarrow> manager" where
  "destroy_manager m = send_to_neighbors make_goodbye m"

definition number_of_neighbors :: "manager \<Rightarrow> nat" where
  "number_of_neighbors m = length (m_neighbors m)"

definition make_neighbor_vector :: "manager \<Rightarrow> machine_id list" where
  "make_neighbor_vector m = keys (m_neighbors m)"

definition notify_of_new_neighbor :: "machine_id \<Rightarrow> manager \<Rightarrow> manager" where
  "notify_of_new_neighbor i m = send_to_neighbors_if (make_new_neighbor i) (\<lambda>em. em_id em \<noteq> i) m"

definition local_tags :: "manager \<Rightarrow> tag_id list" where
  "local_tags m = keys (m_self_subs m)"

definition make_handshake :: "manager \<Rightarrow> status_message" where
  "make_handshake m = make_greeting (m_id m) (make_neighbor_vector m) (m_port m)"

definition make_need_one_pub :: "tag_id list \<Rightarrow> byte list" where
  "make_need_one_pub tags = replicate (length tags) 1"

definition number_of_subscribers :: "tag_id \<Rightarrow> manager \<Rightarrow> int" where
  "number_of_subscribers tag m =
     (case map_of (m_self_subs m) tag of None \<Rightarrow> 0 | Some n \<Rightarrow> n)
     + int (length (filter (\<lambda>(_, em). is_subscribed_to tag em) (m_neighbors m)))"

text \<open>The back-off of every neighbour is reset and it is asked for publishers.\<close>

definition ask_all :: "nat \<Rightarrow> tag_id list \<Rightarrow> byte list \<Rightarrow> manager \<Rightarrow> manager res" where
  "ask_all now tags needed m =
     rbind (rmap_em (\<lambda>_ em. find_publishers_for_tags tags needed (reset_backoff_counter now em)) (m_neighbors m))
       (\<lambda>ns. Inr (m\<lparr>m_neighbors := ns\<rparr>))"

definition find_publishers_for_pending_tags :: "bool \<Rightarrow> nat \<Rightarrow> manager \<Rightarrow> manager res" where
  "find_publishers_for_pending_tags force_ask now m =
     (if force_ask then ask_all now (m_pending_tags m) (make_need_one_pub (m_pending_tags m)) m
      else (let to_ask_for = filter (\<lambda>tag. \<not> has_key tag (m_tags m)
                 \<and> (case map_of (m_publishers m) tag of None \<Rightarrow> True | Some ps \<Rightarrow> ps = [])) (m_pending_tags m)
            in if to_ask_for = [] then Inr m
               else rbind (rmap_em (\<lambda>_ em. if should_ask_for_tags now em
                      then find_publishers_for_tags to_ask_for (make_need_one_pub to_ask_for)
                             (increase_backoff_counter now em)
                      else Inr em) (m_neighbors m))
                    (\<lambda>ns. Inr (m\<lparr>m_neighbors := ns\<rparr>))))"

section \<open>Jobs\<close>

definition submit_job :: "job_id \<Rightarrow> manager \<Rightarrow> (bool \<times> manager) res" where
  "submit_job name m =
     (if has_key name (m_jobs m) then Inr (False, m)
      else rbind (new_job name) (\<lambda>j. Inr (True, m\<lparr>m_jobs := try_emplace name j (m_jobs m)\<rparr>)))"

text \<open>The data goes to every job; the result says whether all accepted it.\<close>

fun deliver :: "tag_id \<Rightarrow> publish_value list \<Rightarrow> version_id \<Rightarrow> (job_id \<times> job) list
    \<Rightarrow> (bool \<times> (job_id \<times> job) list) res" where
  "deliver tag value version [] = Inr (True, [])"
| "deliver tag value version ((name, j) # js) =
     rbind (process_data tag value version j) (\<lambda>(ok, j').
       rbind (deliver tag value version js) (\<lambda>(oks, js'). Inr (ok \<and> oks, (name, j') # js')))"

definition publish :: "version_id \<Rightarrow> tag_id \<Rightarrow> publish_value list \<Rightarrow> manager \<Rightarrow> manager res" where
  "publish version tag value m =
     rbind (deliver tag value version (m_jobs m)) (\<lambda>(_, js).
       Inr (send_to_neighbors_if (make_publish version tag value) (is_subscribed_to tag) (m\<lparr>m_jobs := js\<rparr>)))"

definition handle_publish_data :: "publish_data \<Rightarrow> manager \<Rightarrow> (bool \<times> manager) res" where
  "handle_publish_data msg m =
     (case publish_data_value msg of
        None \<Rightarrow> Inr (False, m)
      | Some value \<Rightarrow> rbind (deliver (pd_tag msg) value (pd_version msg) (m_jobs m))
          (\<lambda>(okay, js). Inr (okay, m\<lparr>m_jobs := js\<rparr>)))"

text \<open>\<^verbatim>\<open>add_data_to_queue\<close> stops at the first job that rejects the data.\<close>

fun deliver_until :: "publish_data \<Rightarrow> (job_id \<times> job) list \<Rightarrow> (bool \<times> (job_id \<times> job) list) res" where
  "deliver_until msg [] = Inr (True, [])"
| "deliver_until msg ((name, j) # js) =
     (case publish_data_value msg of
        None \<Rightarrow> Inr (False, (name, j) # js)
      | Some value \<Rightarrow> rbind (process_data (pd_tag msg) value (pd_version msg) j) (\<lambda>(ok, j').
          if \<not> ok then Inr (False, (name, j') # js)
          else rbind (deliver_until msg js) (\<lambda>(oks, js'). Inr (oks, (name, j') # js'))))"

definition add_data_to_queue :: "publish_data \<Rightarrow> manager \<Rightarrow> (bool \<times> manager) res" where
  "add_data_to_queue msg m =
     rbind (deliver_until msg (m_jobs m)) (\<lambda>(ok, js). Inr (ok, m\<lparr>m_jobs := js\<rparr>))"

definition report_new_publish_tags :: "tag_id list \<Rightarrow> manager \<Rightarrow> manager res" where
  "report_new_publish_tags tags m =
     rbind (rfold (\<lambda>tag subs. if has_key tag subs then Inl (Exit_Process 1) else Inr (subs @ [(tag, 0)]))
              tags (m_self_subs m))
       (\<lambda>subs. Inr (m\<lparr>m_self_subs := subs, m_notify_sub := True\<rparr>))"

section \<open>Traffic of reduce groups\<close>

definition send_and_remove_missing :: "machine_id list \<Rightarrow> status_message \<Rightarrow> manager \<Rightarrow> machine_id list \<times> manager" where
  "send_and_remove_missing machines msg m =
     (let present = filter (\<lambda>k. has_key k (m_neighbors m)) machines
      in (present, fold (\<lambda>k. send_to k msg) present m))"

definition set_reduce :: "tag_id \<Rightarrow> (reduce_data \<Rightarrow> reduce_data) \<Rightarrow> manager \<Rightarrow> manager" where
  "set_reduce gid f m = m\<lparr>m_reduce := AList.map_entry gid f (m_reduce m)\<rparr>"

definition find_group :: "tag_id \<Rightarrow> manager \<Rightarrow> reduce_data res" where
  "find_group gid m = (case map_of (m_reduce m) gid of None \<Rightarrow> Inl Assert_Failed | Some rd \<Rightarrow> Inr rd)"

definition send_reduce_data_to_parent :: "tag_id \<Rightarrow> version_id \<Rightarrow> tag_id \<Rightarrow> publish_value list \<Rightarrow> manager \<Rightarrow> manager res" where
  "send_reduce_data_to_parent gid version reduce_tag value m =
     rbind (find_group gid m) (\<lambda>rd.
       let (ps, m') = send_and_remove_missing (rd_parents rd) (make_submit_reduce_value gid version reduce_tag value) m
       in Inr (set_reduce gid (\<lambda>rd. rd\<lparr>rd_parents := ps\<rparr>) m'))"

definition send_reduce_data_to_children :: "tag_id \<Rightarrow> version_id \<Rightarrow> tag_id \<Rightarrow> publish_value list \<Rightarrow> manager \<Rightarrow> manager res" where
  "send_reduce_data_to_children gid version reduce_tag value m =
     rbind (find_group gid m) (\<lambda>rd.
       let msg = make_submit_reduce_value gid version reduce_tag value;
           (ls, m1) = send_and_remove_missing (rd_left rd) msg m;
           (rs, m2) = send_and_remove_missing (rd_right rd) msg m1
       in Inr (set_reduce gid (\<lambda>rd. rd\<lparr>rd_left := ls, rd_right := rs\<rparr>) m2))"

definition send_report_disconnection :: "tag_id \<Rightarrow> machine_id \<Rightarrow> disconnect_id \<Rightarrow> manager \<Rightarrow> manager res" where
  "send_report_disconnection gid machine i m =
     rbind (find_group gid m) (\<lambda>rd.
       let msg = make_report_reduce_disconnection gid machine i;
           (ps, m1) = send_and_remove_missing (rd_parents rd) msg m;
           (ls, m2) = send_and_remove_missing (rd_left rd) msg m1;
           (rs, m3) = send_and_remove_missing (rd_right rd) msg m2
       in Inr (set_reduce gid (\<lambda>rd. rd\<lparr>rd_parents := ps, rd_left := ls, rd_right := rs\<rparr>) m3))"

text \<open>A group makes its requests while its own operation is under way; it does not read the manager in
  between, so the new state of the group is stored first.\<close>

fun exec_request :: "tag_id \<Rightarrow> rg_request \<Rightarrow> manager \<Rightarrow> manager res" where
  "exec_request gid (To_Parent version tag value) m = send_reduce_data_to_parent gid version tag value m"
| "exec_request gid (To_Children version tag value) m = send_reduce_data_to_children gid version tag value m"
| "exec_request gid (Send_Disconnection machine i) m = send_report_disconnection gid machine i m"

definition group_result :: "tag_id \<Rightarrow> rg_request list \<times> reduce_group \<Rightarrow> manager \<Rightarrow> manager res" where
  "group_result gid = (\<lambda>(reqs, g) m.
     rfold (exec_request (rg_id g)) reqs (set_reduce gid (\<lambda>rd. rd\<lparr>rd_group := g\<rparr>) m))"

section \<open>Creating and joining reduce groups\<close>

text \<open>The result is the id that the waiter keeps.\<close>

definition create_reduce_group :: "nat \<Rightarrow> reduce_group \<Rightarrow> manager \<Rightarrow> (tag_id \<times> manager) res" where
  "create_reduce_group now grp m =
     (if has_key (rg_produced grp) (m_self_subs m) then Inl (Exit_Process 1)
      else (let gid = rg_id grp;
                m1 = m\<lparr>m_self_subs := try_emplace (rg_produced grp) 0 (m_self_subs m),
                       m_reduce := try_emplace gid \<lparr>rd_group = grp, rd_parents = [], rd_left = [], rd_right = []\<rparr>
                                     (m_reduce m)\<rparr>
            in rbind (find_group gid m1) (\<lambda>rd.
                 let parent_tag = rn_parent (rg_neighbors (rd_group rd))
                 in rbind (if parent_tag \<noteq> []
                           then ask_all now [parent_tag] [1] (m1\<lparr>m_pending_tags := m_pending_tags m1 @ [parent_tag]\<rparr>)
                           else Inr m1)
                      (\<lambda>m2. Inr (gid, m2\<lparr>m_notify_reduce := True\<rparr>)))))"

definition rebuild_reduce_group :: "nat \<Rightarrow> tag_id \<Rightarrow> manager \<Rightarrow> manager res" where
  "rebuild_reduce_group now gid m =
     rbind (find_group gid m) (\<lambda>rd.
       let parent_tag = rn_parent (rg_neighbors (rd_group rd))
       in if parent_tag \<noteq> [] \<and> rd_parents rd = []
          then ask_all now [parent_tag] [1] (m\<lparr>m_pending_tags := m_pending_tags m @ [parent_tag]\<rparr>)
          else Inr m)"

definition reduce_group_is_created :: "tag_id \<Rightarrow> manager \<Rightarrow> bool res" where
  "reduce_group_is_created gid m =
     rbind (find_group gid m) (\<lambda>rd.
       let n = rg_neighbors (rd_group rd);
           missing = (\<lambda>tag machines. tag \<noteq> [] \<and> machines = [] \<and> \<not> has_key tag (m_self_subs m))
       in Inr (\<not> missing (rn_parent n) (rd_parents rd) \<and> \<not> missing (rn_left n) (rd_left rd)
               \<and> \<not> missing (rn_right n) (rd_right rd)))"

definition get_reduce_group :: "tag_id \<Rightarrow> manager \<Rightarrow> reduce_group res" where
  "get_reduce_group gid m = rbind (find_group gid m) (\<lambda>rd. Inr (rd_group rd))"

text \<open>A machine joins as a child. The search for a repetition looks for the tag among the machines.\<close>

definition join_child :: "tag_id \<Rightarrow> machine_id \<Rightarrow> machine_id list \<Rightarrow> bool \<times> machine_id list" where
  "join_child tag_produced from existing_conns =
     (if tag_produced \<in> set existing_conns then (False, remove1 tag_produced existing_conns)
      else (True, existing_conns @ [from]))"

definition handle_join_reduce_group :: "tag_id \<Rightarrow> tag_id \<Rightarrow> machine_id \<Rightarrow> manager \<Rightarrow> bool \<times> manager" where
  "handle_join_reduce_group gid tag_produced from m =
     (case map_of (m_reduce m) gid of
        None \<Rightarrow> (False, m)
      | Some rd \<Rightarrow>
          (let n = rg_neighbors (rd_group rd)
           in if tag_produced = rn_left n
              then (let (ok, ms) = join_child tag_produced from (rd_left rd);
                        m' = set_reduce gid (\<lambda>rd. rd\<lparr>rd_left := ms\<rparr>) m
                    in (ok, if ok then m'\<lparr>m_notify_reduce := True\<rparr> else m'))
              else if tag_produced = rn_right n
              then (let (ok, ms) = join_child tag_produced from (rd_right rd);
                        m' = set_reduce gid (\<lambda>rd. rd\<lparr>rd_right := ms\<rparr>) m
                    in (ok, if ok then m'\<lparr>m_notify_reduce := True\<rparr> else m'))
              else (False, m)))"

definition handle_reduce_value :: "tag_id \<Rightarrow> publish_data \<Rightarrow> manager \<Rightarrow> (bool \<times> manager) res" where
  "handle_reduce_value gid value m =
     (case map_of (m_reduce m) gid of
        None \<Rightarrow> Inr (False, m)
      | Some rd \<Rightarrow> (case publish_data_value value of
            None \<Rightarrow> Inr (False, m)
          | Some v \<Rightarrow> rbind (rg_add_data (pd_tag value) v (pd_version value) (rd_group rd)) (\<lambda>(ok, reqs, g).
              rbind (group_result gid (reqs, g) m) (\<lambda>m'. Inr (ok, m')))))"

definition handle_report_reduce_disconnection ::
  "tag_id \<Rightarrow> machine_id \<Rightarrow> disconnect_id \<Rightarrow> manager \<Rightarrow> (bool \<times> manager) res" where
  "handle_report_reduce_disconnection gid machine i m =
     (case map_of (m_reduce m) gid of
        None \<Rightarrow> Inr (False, m)
      | Some rd \<Rightarrow> rbind (group_result gid (propagate_disconnection machine i (rd_group rd)) m)
          (\<lambda>m'. Inr (True, m')))"

text \<open>The group whose parent has a tag; the first in the order of the container.\<close>

definition group_from_parent_tag :: "tag_id \<Rightarrow> manager \<Rightarrow> (tag_id \<times> reduce_data) res" where
  "group_from_parent_tag parent_tag m =
     (case find (\<lambda>(gid, rd). rn_parent (rg_neighbors (rd_group rd)) = parent_tag) (m_reduce m) of
        None \<Rightarrow> Inl Assert_Failed
      | Some p \<Rightarrow> Inr p)"

definition finalize_reduce_group :: "machine_id \<Rightarrow> tag_id \<Rightarrow> manager \<Rightarrow> manager res" where
  "finalize_reduce_group parent_machine gid m =
     rbind (find_group gid m) (\<lambda>rd.
       let m1 = set_reduce gid (\<lambda>rd. rd\<lparr>rd_parents := rd_parents rd @ [parent_machine]\<rparr>) m
       in rassert (has_key parent_machine (m_neighbors m1))
            (Inr ((send_to parent_machine (make_join_reduce_group gid (rg_produced (rd_group rd))) m1)
                    \<lparr>m_notify_reduce := True\<rparr>)))"

text \<open>For every tag of a list separated by null characters.\<close>

definition finalize_reduce_groups :: "machine_id \<Rightarrow> string \<Rightarrow> manager \<Rightarrow> manager res" where
  "finalize_reduce_groups machine tags m =
     rfold (\<lambda>tag m. rbind (group_from_parent_tag tag m) (\<lambda>(gid, _). finalize_reduce_group machine gid m))
       (split tags CHR 0x00 0) m"

section \<open>Subscriptions\<close>

definition subscribe_is_done :: "tag_id list \<Rightarrow> manager \<Rightarrow> bool" where
  "subscribe_is_done required_tags m \<longleftrightarrow>
     (\<forall>tag \<in> set required_tags. has_key tag (m_self_subs m) \<or> has_key tag (m_tags m))"

definition is_private_tag :: "tag_id \<Rightarrow> bool" where
  "is_private_tag tag \<longleftrightarrow> tag \<noteq> [] \<and> hd tag = private_tag_marker"

definition is_publish_tag :: "tag_id \<Rightarrow> bool" where
  "is_publish_tag tag \<longleftrightarrow> tag \<noteq> [] \<and> hd tag = publish_tag_marker"

definition add_pending_tag :: "tag_id \<Rightarrow> manager \<Rightarrow> manager" where
  "add_pending_tag to_find m =
     (if has_key to_find (m_tags m) \<or> to_find \<in> set (m_pending_tags m) \<or> is_private_tag to_find then m
      else m\<lparr>m_pending_tags := m_pending_tags m @ [to_find]\<rparr>)"

definition subscribe :: "nat \<Rightarrow> tag_id list \<Rightarrow> manager \<Rightarrow> manager res" where
  "subscribe now tag_ids m =
     (let m1 = fold add_pending_tag tag_ids m
      in rbind (if m_pending_tags m1 \<noteq> [] then ask_all now tag_ids (make_need_one_pub tag_ids) m1 else Inr m1)
           (\<lambda>m2. Inr (m2\<lparr>m_notify_sub := True\<rparr>)))"

definition finalize_subscription :: "string \<Rightarrow> machine_id \<Rightarrow> manager \<Rightarrow> manager" where
  "finalize_subscription tags source m =
     (let tags_to_sub_to = split tags CHR 0x00 0;
          m1 = m\<lparr>m_tags := fold (\<lambda>tag. AList.update tag source) tags_to_sub_to (m_tags m)\<rparr>
      in (send_to source (make_subscription_notice tags_to_sub_to False) m1)\<lparr>m_notify_sub := True\<rparr>)"

definition subscription_tags_are_produced :: "tag_id list \<Rightarrow> manager \<Rightarrow> bool" where
  "subscription_tags_are_produced tags m \<longleftrightarrow> (\<forall>tag \<in> set tags. has_key tag (m_self_subs m))"

section \<open>Connecting\<close>

definition conn_is_complete :: "addr_port \<Rightarrow> manager \<Rightarrow> bool" where
  "conn_is_complete address m \<longleftrightarrow> \<not> has_key address (m_pending m)"

definition addr_is_connected :: "addr_port \<Rightarrow> manager \<Rightarrow> bool res" where
  "addr_is_connected address m =
     (case map_of (m_addrs m) address of
        None \<Rightarrow> Inr False
      | Some k \<Rightarrow> rbind (deref k m) (\<lambda>em. Inr (\<not> em_dead em)))"

definition new_pending :: "net \<Rightarrow> addr_port \<Rightarrow> conn_type \<Rightarrow> string \<Rightarrow> pending_info" where
  "new_pending net addr ty tag =
     \<lparr>pi_conn = nt_socket net addr, pi_status = Waiting_For_Conn, pi_type = ty, pi_tag = tag\<rparr>"

text \<open>Without a pending connection to the address one is started, whatever \<^verbatim>\<open>connect\<close> says. The result is the
  canonical address that the waiter keeps.\<close>

definition connect_to_server :: "net \<Rightarrow> addr_port \<Rightarrow> manager \<Rightarrow> (addr_port \<times> manager) res" where
  "connect_to_server net addr m =
     rbind (to_canonical (nt_resolve net) addr) (\<lambda>canonical.
       if has_key canonical (m_addrs m) \<or> has_key canonical (m_pending m) then Inr (canonical, m)
       else rbind (connect_non_blocking (nt_valid net) (nt_connect net) canonical) (\<lambda>_.
         Inr (canonical, m\<lparr>m_pending := try_emplace canonical (new_pending net canonical User_Requested [])
                                       (m_pending m)\<rparr>)))"

definition connect_to_server_str :: "net \<Rightarrow> string \<Rightarrow> manager \<Rightarrow> (addr_port \<times> manager) res" where
  "connect_to_server_str net address m = connect_to_server net (split_address address) m"

text \<open>The loop that counts the port up until the key is free; it would not end if all ports were taken.\<close>

definition free_key :: "addr_port \<Rightarrow> (addr_port \<times> 'v) list \<Rightarrow> addr_port res" where
  "free_key ap pending =
     (case find (\<lambda>k. \<not> has_key (fst ap, snd ap + of_nat k) pending) [0..<65536] of
        None \<Rightarrow> Inl Runs_Forever
      | Some k \<Rightarrow> Inr (fst ap, snd ap + of_nat k))"

definition accept_one :: "status_message sock \<Rightarrow> manager \<Rightarrow> manager res" where
  "accept_one conn m =
     rbind (free_key (so_peer conn) (m_pending m)) (\<lambda>key.
       Inr (m\<lparr>m_pending := try_emplace key
              \<lparr>pi_conn = conn, pi_status = Waiting_For_Conn, pi_type = User_Requested, pi_tag = []\<rparr> (m_pending m)\<rparr>))"

definition accept_pending_connections :: "status_message sock list \<Rightarrow> manager \<Rightarrow> manager res" where
  "accept_pending_connections accepted m = rfold accept_one accepted m"

text \<open>\<^verbatim>\<open>ip_subscribe\<close>: the address, the tags and whether the waiter is one of a self-subscription.\<close>

definition ip_subscribe :: "net \<Rightarrow> addr_port \<Rightarrow> tag_id list \<Rightarrow> manager
    \<Rightarrow> ((addr_port \<times> tag_id list \<times> bool) \<times> manager) res" where
  "ip_subscribe net addr tag_ids m =
     rbind (to_canonical (nt_resolve net) addr) (\<lambda>canonical.
     rbind (to_ip_port (nt_resolve net) canonical) (\<lambda>there.
     rbind (to_ip_port (nt_resolve net) (''localhost'', m_port m)) (\<lambda>here.
       if there = here
       then rbind (rfold (\<lambda>tag subs. if has_key tag subs then Inr (AList.map_entry tag (\<lambda>n. n + 1) subs)
                                     else Inl (Exit_Process 4)) tag_ids (m_self_subs m))
              (\<lambda>subs. Inr ((canonical, tag_ids, tag_ids \<noteq> []), m\<lparr>m_self_subs := subs, m_notify_sub := True\<rparr>))
       else case map_of (m_addrs m) canonical of
         Some k \<Rightarrow> rbind (deref k m) (\<lambda>_.
           Inr ((canonical, tag_ids, False),
                (send_to k (make_subscription_notice tag_ids False) m)\<lparr>m_notify_sub := True\<rparr>))
       | None \<Rightarrow>
           (let tag_list = address_string canonical @ concat (map (\<lambda>tag. CHR 0x00 # tag) tag_ids)
            in rassert (\<not> has_key canonical (m_pending m))
                 (rbind (connect_non_blocking (nt_valid net) (nt_connect net) canonical) (\<lambda>_.
                   Inr ((canonical, tag_ids, False),
                        m\<lparr>m_pending := try_emplace canonical (new_pending net canonical Specific_IP tag_list)
                            (m_pending m)\<rparr>)))))))"

text \<open>The waiters of \<^verbatim>\<open>manager_waiter_callables.cpp\<close>.\<close>

definition ip_subscribe_complete :: "addr_port \<times> tag_id list \<times> bool \<Rightarrow> manager \<Rightarrow> bool" where
  "ip_subscribe_complete = (\<lambda>(address, tags, is_self_sub) m. is_self_sub \<or> conn_is_complete address m)"

definition ip_subscribe_success :: "addr_port \<times> tag_id list \<times> bool \<Rightarrow> manager \<Rightarrow> bool res" where
  "ip_subscribe_success = (\<lambda>(address, tags, is_self_sub) m.
     if is_self_sub then Inr True
     else rbind (addr_is_connected address m) (\<lambda>c. Inr (c \<and> subscribe_is_done tags m)))"

section \<open>Publishers\<close>

definition remove_tags_with_enough_publishers :: "tag_id list \<Rightarrow> byte list \<Rightarrow> manager \<Rightarrow> (tag_id list \<times> byte list) res" where
  "remove_tags_with_enough_publishers tags needed m =
     zip_remove_if (\<lambda>(tag, num_left).
       let self_subscribed = (if has_key tag (m_self_subs m) then 1 else 0);
           num_external_pubs = (case map_of (m_publishers m) tag of None \<Rightarrow> 0 | Some ps \<Rightarrow> length ps)
       in num_external_pubs + self_subscribed \<ge> unat num_left) tags needed"

definition make_known_tag_publisher_message :: "manager \<Rightarrow> status_message res" where
  "make_known_tag_publisher_message m =
     (let known = filter (\<lambda>(tag, infos). infos \<noteq> []) (m_publishers m)
      in make_report_publishers (map fst known) (map (map fst \<circ> snd) known) (map (map snd \<circ> snd) known)
           (local_tags m))"

text \<open>The entry that the early answer erases is that of the machine's identifier, in a map keyed by tags.\<close>

definition handle_get_publishers :: "nat \<Rightarrow> tag_id list \<Rightarrow> byte list \<Rightarrow> bool \<Rightarrow> machine_id \<Rightarrow> manager \<Rightarrow> manager res" where
  "handle_get_publishers now tags needed ignore_cache from m =
     rbind (remove_tags_with_enough_publishers tags needed m) (\<lambda>(remaining_tags, num_left).
       if remaining_tags = [] then rbind (make_known_tag_publisher_message m) (\<lambda>msg. Inr (send_to from msg m))
       else (let m1 = m\<lparr>m_publishers := fold (\<lambda>tag ps.
                         let ps' = try_emplace tag [] ps
                         in if ignore_cache then AList.map_entry tag (\<lambda>_. []) ps' else ps')
                       remaining_tags (m_publishers m)\<rparr>
             in if length (m_neighbors m1) = 1
                then rbind (make_known_tag_publisher_message m1) (\<lambda>msg. Inr (send_to from msg m1))
                else rbind (deref from m1) (\<lambda>em.
                  let m2 = m1\<lparr>m_send_info := fold (\<lambda>tag si. AList.map_entry tag (set_insert (em_id em)) (try_emplace tag [] si))
                             remaining_tags (m_send_info m1)\<rparr>
                  in if em_pending_request em
                     then rbind (make_known_tag_publisher_message m2) (\<lambda>msg.
                       Inr ((send_to from msg m2)\<lparr>m_send_info := AList.delete (em_id em) (m_send_info m2)\<rparr>))
                     else rbind (rmap_em (\<lambda>k em. if k \<noteq> from
                              then find_publishers_for_tags remaining_tags num_left (reset_backoff_counter now em)
                              else Inr em) (m_neighbors m2))
                            (\<lambda>ns. Inr (m2\<lparr>m_neighbors := ns\<rparr>)))))"

text \<open>A pending tag is connected to: its publisher is a neighbour already, it is produced here, or it waits
  for a connection to its publisher's address, one for all the tags of the address, which are joined by
  null characters.\<close>

definition add_to_conn :: "string \<Rightarrow> tag_id \<Rightarrow> (string \<times> string) list \<Rightarrow> (string \<times> string) list" where
  "add_to_conn addr tag to_conn =
     (if has_key addr to_conn
      then AList.map_entry addr (\<lambda>tag_list. (if tag_list \<noteq> [] then tag_list @ [CHR 0x00] else tag_list) @ tag) to_conn
      else to_conn @ [(addr, tag)])"

text \<open>One pending tag: the tags that stay pending, the connections to make, and the new state.\<close>

definition init_one :: "tag_id \<Rightarrow> tag_id list \<times> (string \<times> string) list \<times> manager
    \<Rightarrow> (tag_id list \<times> (string \<times> string) list \<times> manager) res" where
  "init_one tag = (\<lambda>(kept, to_conn, m).
     if has_key tag (m_self_subs m)
     then Inr (kept, to_conn, m\<lparr>m_self_subs := AList.map_entry tag (\<lambda>n. n + 1) (m_self_subs m), m_notify_sub := True\<rparr>)
     else case map_of (m_publishers m) tag of
       None \<Rightarrow> Inr (kept @ [tag], to_conn, m)
     | Some [] \<Rightarrow> Inr (kept @ [tag], to_conn, m)
     | Some ((addr, connect_to_id) # _) \<Rightarrow>
         (case map_of (m_addrs m) (split_address addr) of
            Some k \<Rightarrow> rbind (deref k m) (\<lambda>em.
              if em_id em \<noteq> connect_to_id then Inr (kept @ [tag], to_conn, m)
              else if is_publish_tag tag then Inr (kept, to_conn, finalize_subscription tag k m)
              else rbind (finalize_reduce_groups (em_id em) tag m) (\<lambda>m'. Inr (kept, to_conn, m')))
          | None \<Rightarrow> Inr (kept, add_to_conn addr tag to_conn, m)))"

definition start_conn :: "net \<Rightarrow> string \<times> string \<Rightarrow> manager \<Rightarrow> manager res" where
  "start_conn net = (\<lambda>(addr, tag) m.
     rbind (connect_non_blocking_str (nt_valid net) (nt_connect net) addr) (\<lambda>err.
       if err = Connection_In_Progress \<or> err = No_Error
       then rbind (free_key (split_address addr) (m_pending m)) (\<lambda>key.
         Inr (m\<lparr>m_pending := try_emplace key
                (new_pending net (split_address addr)
                   (if is_publish_tag tag then Subscription_Conn else Reduce_Group_Conn) tag) (m_pending m)\<rparr>))
       else Inr m))"

definition init_connections_for_pending_tags :: "net \<Rightarrow> manager \<Rightarrow> manager res" where
  "init_connections_for_pending_tags net m =
     rbind (rfold init_one (m_pending_tags m) ([], [], m)) (\<lambda>(kept, to_conn, m1).
     rbind (rfold (start_conn net) to_conn m1) (\<lambda>m2. Inr (m2\<lparr>m_pending_tags := kept\<rparr>)))"

definition insert_publisher_infos :: "tag_id \<Rightarrow> string list \<Rightarrow> machine_id list
    \<Rightarrow> (tag_id \<times> publisher_info list) list \<Rightarrow> (tag_id \<times> publisher_info list) list res" where
  "insert_publisher_infos tag addresses machines publishers =
     rassert (length addresses = length machines)
       (Inr (AList.map_entry tag (fold set_insert (zip addresses machines)) (try_emplace tag [] publishers)))"

definition add_publishers_and_propagate :: "net \<Rightarrow> tag_id list \<Rightarrow> string list list \<Rightarrow> machine_id list list
    \<Rightarrow> tag_id list \<Rightarrow> machine_id \<Rightarrow> manager \<Rightarrow> manager res" where
  "add_publishers_and_propagate net tags publishers_list machines_list external_tags from m =
     (if length tags \<noteq> length publishers_list \<or> length tags \<noteq> length machines_list then Inr m
      else rbind (rfold (\<lambda>(tag, publishers, machines). insert_publisher_infos tag publishers machines)
                   (zip tags (zip publishers_list machines_list)) (m_publishers m)) (\<lambda>ps.
           rbind (deref from m) (\<lambda>em.
             let ps' = fold (\<lambda>tag ps. AList.map_entry tag (set_insert (em_address em, em_id em)) (try_emplace tag [] ps))
                         external_tags ps;
                 (machines, si) = fold (\<lambda>tag (machines, si).
                     case map_of si tag of None \<Rightarrow> (machines, si)
                     | Some ms \<Rightarrow> (fold set_insert ms machines, AList.delete tag si))
                   (keys ps') ([], m_send_info m);
                 m1 = m\<lparr>m_publishers := ps', m_send_info := si\<rparr>
             in rbind (if machines \<noteq> []
                       then rbind (make_known_tag_publisher_message m1) (\<lambda>msg.
                              Inr (fold (\<lambda>k. send_to k msg) machines m1))
                       else Inr m1)
                  (init_connections_for_pending_tags net))))"

section \<open>The messages of a neighbour\<close>

text \<open>The loop of a subscription notice: a tag goes in before the rest of the notice is looked at.\<close>

fun notice_loop :: "tag_id list \<Rightarrow> ext_manager \<Rightarrow> bool \<times> ext_manager" where
  "notice_loop [] em = (True, em)"
| "notice_loop (tag # tags) em =
     (if \<not> tag_name_okay tag then (False, em)
      else if tag \<in> set (em_subs em) then (False, em)
      else notice_loop tags (em\<lparr>em_subs := em_subs em @ [tag]\<rparr>))"

definition handle_subscription_notice :: "tag_id list \<Rightarrow> machine_id \<Rightarrow> manager \<Rightarrow> (bool \<times> manager) res" where
  "handle_subscription_notice tags k m =
     rbind (deref k m) (\<lambda>em.
       let (ok, em') = notice_loop tags em; m' = upd_em k (\<lambda>_. em') m
       in if \<not> ok then Inr (False, m')
          else if \<not> subscription_tags_are_produced tags m' then Inr (False, m')
          else Inr (True, m'\<lparr>m_notify_sub := True\<rparr>))"

definition handle_report_publishers :: "net \<Rightarrow> nat \<Rightarrow> tag_id list \<Rightarrow> string list list \<Rightarrow> machine_id list list
    \<Rightarrow> tag_id list \<Rightarrow> machine_id \<Rightarrow> manager \<Rightarrow> (bool \<times> manager) res" where
  "handle_report_publishers net now tags addresses machines local k m =
     (if \<not> (\<forall>tag \<in> set (tags @ local). tag_name_okay tag) then Inr (False, m)
      else rbind (add_publishers_and_propagate net tags addresses machines local k m) (\<lambda>m'.
        Inr (True, upd_em k (\<lambda>em. let em' = em\<lparr>em_pending_request := False\<rparr>
                                  in em'\<lparr>em_request_time := calc_next_request_time now em'\<rparr>) m')))"

fun message_callback :: "net \<Rightarrow> nat \<Rightarrow> machine_id \<Rightarrow> message \<Rightarrow> manager \<Rightarrow> (bool \<times> manager) res" where
  "message_callback net now k (Greeting _ _ _) m = Inr (False, m)"
| "message_callback net now k Goodbye m = Inr (True, upd_em k mark_as_dead m)"
| "message_callback net now k (New_Neighbor i) m = Inr (True, upd_em k (handle_new_neighbor i) m)"
| "message_callback net now k (Remove_Neighbor i) m = Inr (True, upd_em k (handle_remove_neighbor i) m)"
| "message_callback net now k Heartbeat m = Inr (True, m)"
| "message_callback net now k (Report_Publishers tags addresses machines local) m =
     handle_report_publishers net now tags addresses machines local k m"
| "message_callback net now k (Get_Publishers tags needed ignore_cache) m =
     (if \<not> (\<forall>tag \<in> set tags. tag_name_okay tag) then Inr (False, m)
      else rbind (handle_get_publishers now tags needed ignore_cache k m) (\<lambda>m'. Inr (True, m')))"
| "message_callback net now k (Join_Reduce_Group reduce_tag tag_produced) m =
     (if \<not> tag_name_okay reduce_tag \<or> \<not> tag_name_okay tag_produced then Inr (False, m)
      else Inr (handle_join_reduce_group reduce_tag tag_produced k m))"
| "message_callback net now k (Submit_Reduce_Value reduce_tag data) m =
     (if \<not> tag_name_okay reduce_tag \<or> \<not> tag_name_okay (pd_tag data) then Inr (False, m)
      else handle_reduce_value reduce_tag data m)"
| "message_callback net now k (Report_Reduce_Disconnection reduce_tag machine i) m =
     (if \<not> tag_name_okay reduce_tag then Inr (False, m)
      else handle_report_reduce_disconnection reduce_tag machine i m)"
| "message_callback net now k (Publish_Data data) m =
     (if \<not> tag_name_okay (pd_tag data) then Inr (False, m) else handle_publish_data data m)"
| "message_callback net now k (Subscription_Notice tags is_unsubscribe) m = handle_subscription_notice tags k m"

definition handle_message :: "net \<Rightarrow> nat \<Rightarrow> machine_id \<Rightarrow> status_message \<Rightarrow> manager \<Rightarrow> manager res" where
  "handle_message net now k msg m =
     rbind (do_callback (message_callback net now k) msg m)
       (\<lambda>(okay, m'). Inr (if okay then m' else upd_em k mark_as_dead m'))"

text \<open>The loop over the messages of one socket. \<open>read_all\<close> gives it fuel for every byte that has arrived, and
  a message takes at least one.\<close>

fun message_loop :: "nat \<Rightarrow> net \<Rightarrow> nat \<Rightarrow> machine_id \<Rightarrow> nat \<Rightarrow> manager \<Rightarrow> manager res" where
  "message_loop 0 net now k i m = Inl Runs_Forever"
| "message_loop (Suc n) net now k i m =
     rbind (deref k m) (\<lambda>em.
     rbind (try_to_get_message net i em) (\<lambda>(handler, em').
       case handler of
         None \<Rightarrow> Inr (upd_em k (\<lambda>_. em') m)
       | Some msg \<Rightarrow>
           rbind (handle_message net now k msg (upd_em k (\<lambda>_. em'\<lparr>em_last_heard := now\<rparr>) m))
             (message_loop n net now k i)))"

definition read_all :: "net \<Rightarrow> nat \<Rightarrow> machine_id \<Rightarrow> nat \<Rightarrow> manager \<Rightarrow> manager res" where
  "read_all net now k i m =
     rbind (deref k m) (\<lambda>em. message_loop (Suc (length (so_rx (em_conns em ! i)))) net now k i m)"

definition get_and_handle_messages :: "net \<Rightarrow> nat \<Rightarrow> machine_id \<Rightarrow> manager \<Rightarrow> manager res" where
  "get_and_handle_messages net now k m =
     rbind (deref k m) (\<lambda>em.
       if em_dead em then Inr m else rfold (read_all net now k) [0..<length (em_conns em)] m)"

definition handle_neighbor_messages :: "net \<Rightarrow> nat \<Rightarrow> manager \<Rightarrow> manager res" where
  "handle_neighbor_messages net now m = rfold (get_and_handle_messages net now) (keys (m_neighbors m)) m"

section \<open>Connections that are being made\<close>

text \<open>\<^verbatim>\<open>handle_error\<close>: the tags of the connection are pending again. The flag is \<^verbatim>\<open>new_pending_tags\<close>.\<close>

definition handle_tag :: "tag_id \<Rightarrow> tag_id \<Rightarrow> bool \<times> manager \<Rightarrow> (bool \<times> manager) res" where
  "handle_tag pub_tag base_tag = (\<lambda>(_, m).
     case map_of (m_publishers m) pub_tag of
       None \<Rightarrow> Inl Assert_Failed
     | Some publishers \<Rightarrow>
         (let m1 = (if publishers = [] then all_em ignore_cache_on_next_request m else m)
          in Inr (True, m1\<lparr>m_pending_tags := m_pending_tags m1 @ [base_tag]\<rparr>)))"

definition handle_error :: "pending_info \<Rightarrow> bool \<times> manager \<Rightarrow> (bool \<times> manager) res" where
  "handle_error info s =
     (case pi_type info of
        Subscription_Conn \<Rightarrow> rfold (\<lambda>tag. handle_tag tag tag) (split (pi_tag info) CHR 0x00 0) s
      | Reduce_Group_Conn \<Rightarrow> rfold (\<lambda>tag (b, m). rbind (group_from_parent_tag tag m) (\<lambda>(_, rd).
            handle_tag (rn_parent (rg_neighbors (rd_group rd))) tag (b, m))) (split (pi_tag info) CHR 0x00 0) s
      | _ \<Rightarrow> Inr s)"

definition fail_conn :: "pending_info \<Rightarrow> bool \<times> manager \<Rightarrow> (pending_info option \<times> bool \<times> manager) res" where
  "fail_conn info s = rbind (handle_error info s) (\<lambda>(b, m). Inr (None, b, m\<lparr>m_notify_conn := True\<rparr>))"

text \<open>A greeting makes a neighbour, or adds a socket to one.\<close>

definition greet :: "nat \<Rightarrow> status_message sock \<Rightarrow> message \<Rightarrow> manager \<Rightarrow> manager" where
  "greet now conn g m =
     (if has_key (gr_from g) (m_neighbors m) then upd_em (gr_from g) (add_communicator conn) m
      else (let em = new_ext_manager conn (gr_from g) (gr_neighbors g) (gr_port g) now
            in m\<lparr>m_neighbors := try_emplace (gr_from g) em (m_neighbors m),
                 m_addrs := try_emplace (em_address_pair em) (gr_from g) (m_addrs m)\<rparr>))"

text \<open>After the greeting; the result says whether the machine is the one that was meant.\<close>

definition finalize_conn :: "pending_info \<Rightarrow> machine_id \<Rightarrow> manager \<Rightarrow> (bool \<times> manager) res" where
  "finalize_conn info k m =
     (case pi_type info of
        Reduce_Group_Conn \<Rightarrow> rbind (finalize_reduce_groups k (pi_tag info) m) (\<lambda>m'. Inr (True, m'))
      | Subscription_Conn \<Rightarrow> Inr (True, finalize_subscription (pi_tag info) k m)
      | Specific_IP \<Rightarrow>
          (let ip_and_tag = split (pi_tag info) CHR 0x00 2
           in rassert (length ip_and_tag = 2)
                (rbind (deref k m) (\<lambda>em.
                   if em_address em \<noteq> ip_and_tag ! 0
                   then Inr (False, (upd_em k mark_as_dead m)\<lparr>m_notify_sub := True\<rparr>)
                   else Inr (True, finalize_subscription (ip_and_tag ! 1) k m))))
      | _ \<Rightarrow> Inr (True, m))"

definition greeting_of :: "status_message \<Rightarrow> message option" where
  "greeting_of msg =
     (case extract_message msg of
        Some (Greeting from ns port) \<Rightarrow> Some (Greeting from ns port)
      | _ \<Rightarrow> None)"

text \<open>One pass over one pending connection: what stays of it, and the new state. A message that could not be
  read in full is dropped and the connection stays.\<close>

definition process_resp :: "net \<Rightarrow> nat \<Rightarrow> pending_info \<Rightarrow> bool \<times> manager
    \<Rightarrow> (pending_info option \<times> bool \<times> manager) res" where
  "process_resp net now info = (\<lambda>(b, m).
     rbind (read_network_size (nt_little net) (pi_conn info)) (\<lambda>(bytes_to_read_or_error, c).
       case bytes_to_read_or_error of
         Inr err \<Rightarrow> (if err = Would_Block then Inr (Some (info\<lparr>pi_conn := c\<rparr>), b, m)
                     else fail_conn (info\<lparr>pi_conn := c\<rparr>) (b, m))
       | Inl bytes_to_read \<Rightarrow>
           (let (message_buffer, c') = read_chunked (unat bytes_to_read) c; info' = info\<lparr>pi_conn := c'\<rparr>
            in if message_buffer = [] then Inr (Some info', b, m)
               else case try_to_create (nt_dec net) message_buffer of
                 None \<Rightarrow> fail_conn info' (b, m)
               | Some msg \<Rightarrow>
                   (case greeting_of msg of
                      None \<Rightarrow> fail_conn info' (b, m)
                    | Some g \<Rightarrow>
                        rbind (finalize_conn info' (gr_from g) (greet now c' g m)) (\<lambda>(ok, m1).
                          if \<not> ok then Inr (None, b, m1)
                          else rbind (find_publishers_for_pending_tags False now (notify_of_new_neighbor (gr_from g) m1))
                            (\<lambda>m2. Inr (None, b, m2\<lparr>m_notify_conn := True\<rparr>)))))))"

definition process_pending :: "net \<Rightarrow> nat \<Rightarrow> pending_info \<Rightarrow> bool \<times> manager
    \<Rightarrow> (pending_info option \<times> bool \<times> manager) res" where
  "process_pending net now info = (\<lambda>(b, m).
     case pi_status info of
       Waiting_For_Resp \<Rightarrow> process_resp net now info (b, m)
     | Waiting_For_Conn \<Rightarrow>
         (let init_status = connection_progress_status (pi_conn info)
          in if init_status = Connection_In_Progress then Inr (Some info, b, m)
             else if init_status = No_Error
             then (let (err, c) = sock_send (make_handshake m) (pi_conn info)
                   in if err \<noteq> No_Error then Inr (None, b, m\<lparr>m_notify_conn := True\<rparr>)
                      else Inr (Some (info\<lparr>pi_conn := c, pi_status := Waiting_For_Resp\<rparr>), b, m))
             else fail_conn info (b, m)))"

definition update_pending :: "addr_port \<Rightarrow> pending_info option \<Rightarrow> manager \<Rightarrow> manager" where
  "update_pending key info m =
     m\<lparr>m_pending := (case info of None \<Rightarrow> AList.delete key (m_pending m)
                     | Some i \<Rightarrow> AList.map_entry key (\<lambda>_. i) (m_pending m))\<rparr>"

definition process_pending_conns :: "net \<Rightarrow> nat \<Rightarrow> manager \<Rightarrow> manager res" where
  "process_pending_conns net now m =
     rbind (rfold (\<lambda>(key, info) s. rbind (process_pending net now info s)
              (\<lambda>(info', b, m'). Inr (b, update_pending key info' m'))) (m_pending m) (False, m))
       (\<lambda>(new_pending_tags, m1).
          if new_pending_tags
          then rbind (find_publishers_for_pending_tags False now m1) (init_connections_for_pending_tags net)
          else Inr m1)"

section \<open>Neighbours that are gone\<close>

text \<open>A machine is taken out of one list of a group, which reports it.\<close>

definition drop_from_list :: "machine_id \<Rightarrow> tag_id \<Rightarrow> (reduce_data \<Rightarrow> machine_id list)
    \<Rightarrow> ((machine_id list \<Rightarrow> machine_id list) \<Rightarrow> reduce_data \<Rightarrow> reduce_data) \<Rightarrow> manager \<Rightarrow> manager res" where
  "drop_from_list k gid get upd m =
     rbind (find_group gid m) (\<lambda>rd.
       if k \<in> set (get rd)
       then group_result gid (report_disconnection (m_id m) (rd_group rd)) (set_reduce gid (upd (remove1 k)) m)
       else Inr m)"

definition leave_group :: "machine_id \<Rightarrow> tag_id \<Rightarrow> manager \<Rightarrow> manager res" where
  "leave_group k gid m =
     rbind (drop_from_list k gid rd_parents rd_parents_update m) (\<lambda>m1.
     rbind (drop_from_list k gid rd_left rd_left_update m1)
       (drop_from_list k gid rd_right rd_right_update))"

definition report_dead_tag :: "tag_id \<Rightarrow> (job_id \<times> job) list \<Rightarrow> (job_id \<times> job) list" where
  "report_dead_tag tag js = map (\<lambda>(name, j). (name, mark_tag_as_dead tag j)) js"

text \<open>One step of the loop; the flag is \<^verbatim>\<open>new_tags\<close>.\<close>

definition remove_if_dead :: "machine_id \<Rightarrow> bool \<times> manager \<Rightarrow> (bool \<times> manager) res" where
  "remove_if_dead k = (\<lambda>(new_tags, m).
     rbind (deref k m) (\<lambda>em.
       if \<not> em_dead em then Inr (new_tags, m)
       else rbind (rfold (leave_group k) (keys (m_reduce m))
                    (send_to_neighbors (make_remove_neighbor k) (m\<lparr>m_notify_sub := True\<rparr>))) (\<lambda>m1.
         let lost = map fst (filter (\<lambda>(_, k'). k' = k) (m_tags m1))
         in Inr (new_tags \<or> lost \<noteq> [],
              m1\<lparr>m_addrs := filter (\<lambda>(_, k'). k' \<noteq> k) (m_addrs m1),
                 m_tags := filter (\<lambda>(_, k'). k' \<noteq> k) (m_tags m1),
                 m_jobs := fold report_dead_tag lost (m_jobs m1),
                 m_pending_tags := m_pending_tags m1 @ lost,
                 m_neighbors := AList.delete k (m_neighbors m1)\<rparr>))))"

definition remove_dead_neighbors :: "nat \<Rightarrow> manager \<Rightarrow> manager res" where
  "remove_dead_neighbors now m =
     rbind (rfold remove_if_dead (keys (m_neighbors m)) (False, m)) (\<lambda>(new_tags, m1).
       if new_tags then find_publishers_for_pending_tags True now m1 else Inr m1)"

section \<open>The loop of the manager\<close>

definition notify_cvs :: "manager \<Rightarrow> manager" where
  "notify_cvs m =
     (let (s, r, c) = m_cvs m
      in m\<lparr>m_cvs := (if m_notify_sub m then s + 1 else s, if m_notify_reduce m then r + 1 else r,
                     if m_notify_conn m then c + 1 else c),
           m_notify_sub := False, m_notify_reduce := False, m_notify_conn := False\<rparr>)"

text \<open>One pass of \<^verbatim>\<open>Manager::run\<close>. \<open>free\<close> says which jobs' mutexes could be locked.\<close>

definition run_pass :: "net \<Rightarrow> nat \<Rightarrow> (job_id \<Rightarrow> bool) \<Rightarrow> status_message sock list \<Rightarrow> manager \<Rightarrow> manager res" where
  "run_pass net now free accepted m =
     rbind (process_pending_conns net now
              (m\<lparr>m_jobs := filter (\<lambda>(name, j). \<not> (free name \<and> is_finished j)) (m_jobs m)\<rparr>)) (\<lambda>m1.
     rbind (accept_pending_connections accepted m1) (\<lambda>m2.
     rbind (handle_neighbor_messages net now m2) (\<lambda>m3.
     rbind (remove_dead_neighbors now m3) (\<lambda>m4.
     rbind (find_publishers_for_pending_tags False now m4) (\<lambda>m5.
       Inr (notify_cvs (all_em (send_heartbeat_if_past_interval (m_heartbeat m5) now) m5)))))))"

end
