(* ===== verification/Sky_Manager_Runs.thy ===== *)
theory Sky_Manager_Runs
  imports Sky_Manager
begin

text \<open>
  The invariant of the manager of \<open>Sky_Manager\<close>. Most operations keep the set of neighbours and what has
  arrived from them, and bind addresses and tags to neighbours only: the relation \<open>frame\<close>. The lemmas show
  it for each of them; from it follow the invariant over every run (\<open>manager_run\<close>), in particular that no
  \<^verbatim>\<open>ExternalManager*\<close> dangles, and that the loop over the messages of a socket ends.
\<close>

section \<open>What most operations leave alone\<close>

definition em_frame :: "ext_manager \<Rightarrow> ext_manager \<Rightarrow> bool" where
  "em_frame em em' \<longleftrightarrow> em_id em' = em_id em \<and> (em_conns em \<noteq> [] \<longrightarrow> map so_rx (em_conns em') = map so_rx (em_conns em))
     \<and> (em_dead em \<longrightarrow> em_dead em')"

definition ns_frame :: "(machine_id \<times> ext_manager) list \<Rightarrow> (machine_id \<times> ext_manager) list \<Rightarrow> bool" where
  "ns_frame = list_all2 (\<lambda>(k, em) (k', em'). k = k' \<and> em_frame em em')"

definition group_ok :: "tag_id \<Rightarrow> reduce_data \<Rightarrow> bool" where
  "group_ok gid rd \<longleftrightarrow> rg_id (rd_group rd) = gid \<and> rg_inv (rd_group rd)"

definition tables_ok :: "manager \<Rightarrow> bool" where
  "tables_ok m \<longleftrightarrow> distinct (map fst (m_addrs m)) \<and> distinct (map fst (m_tags m))
     \<and> distinct (map fst (m_pending m)) \<and> distinct (map fst (m_self_subs m))
     \<and> distinct (map fst (m_reduce m)) \<and> map_all group_ok (m_reduce m)
     \<and> distinct (map fst (m_jobs m)) \<and> map_all (\<lambda>_. job_inv) (m_jobs m)"

text \<open>The keys of neighbours that stand for the code's pointers.\<close>

definition pointers :: "manager \<Rightarrow> machine_id set" where
  "pointers m = snd ` set (m_addrs m) \<union> snd ` set (m_tags m)"

definition neighbor_keys :: "manager \<Rightarrow> machine_id set" where
  "neighbor_keys m = fst ` set (m_neighbors m)"

definition frame :: "manager \<Rightarrow> manager \<Rightarrow> bool" where
  "frame m m' \<longleftrightarrow> ns_frame (m_neighbors m) (m_neighbors m') \<and> pointers m' \<subseteq> pointers m \<union> neighbor_keys m
     \<and> (tables_ok m \<longrightarrow> tables_ok m')"

definition manager_inv :: "manager \<Rightarrow> bool" where
  "manager_inv m \<longleftrightarrow> tables_ok m \<and> distinct (map fst (m_neighbors m)) \<and> map_all em_ok (m_neighbors m)
     \<and> pointers m \<subseteq> neighbor_keys m"

lemma em_frame_refl [simp]: "em_frame em em"
  by (simp add: em_frame_def)

lemma em_frame_trans: "em_frame a b \<Longrightarrow> em_frame b c \<Longrightarrow> em_frame a c"
  by (cases "em_conns b") (auto simp: em_frame_def)

lemma ns_frame_refl [simp]: "ns_frame ns ns"
  by (auto simp: ns_frame_def list_all2_same)

lemma ns_frame_trans: "ns_frame a b \<Longrightarrow> ns_frame b c \<Longrightarrow> ns_frame a c"
  unfolding ns_frame_def
  by (rule list_all2_trans [of "\<lambda>(k, em) (k', em'). k = k' \<and> em_frame em em'"]) (auto intro: em_frame_trans)

lemma ns_frame_keys: "ns_frame a b \<Longrightarrow> map fst b = map fst a"
  unfolding ns_frame_def by (induction rule: list_all2_induct) auto

lemma ns_frame_map_of: "ns_frame a b \<Longrightarrow> map_of a k = Some em \<Longrightarrow> \<exists>em'. map_of b k = Some em' \<and> em_frame em em'"
  unfolding ns_frame_def by (induction rule: list_all2_induct) (auto split: if_splits)

lemma frame_refl [simp]: "frame m m"
  by (simp add: frame_def)

lemma frame_keys: "frame m m' \<Longrightarrow> neighbor_keys m' = neighbor_keys m"
  using ns_frame_keys [of "m_neighbors m" "m_neighbors m'"] unfolding frame_def neighbor_keys_def
  by (metis list.set_map)

lemma frame_trans: "frame a b \<Longrightarrow> frame b c \<Longrightarrow> frame a c"
  using frame_keys [of a b] by (auto simp: frame_def intro: ns_frame_trans)

lemma frame_has_key: "frame m m' \<Longrightarrow> has_key k (m_neighbors m') = has_key k (m_neighbors m)"
  using frame_keys [of m m'] by (simp add: has_key_iff neighbor_keys_def)

lemma frame_inv: "frame m m' \<Longrightarrow> manager_inv m \<Longrightarrow> manager_inv m'"
proof -
  assume f: "frame m m'" and i: "manager_inv m"
  have "map_all em_ok (m_neighbors m')"
  proof -
    have "list_all2 (\<lambda>(k, em) (k', em'). k = k' \<and> em_frame em em') (m_neighbors m) (m_neighbors m')"
      using f by (simp add: frame_def ns_frame_def)
    moreover have "map_all em_ok (m_neighbors m)" using i by (simp add: manager_inv_def)
    ultimately show ?thesis
      by (induction rule: list_all2_induct) (auto simp: em_ok_def em_frame_def split: prod.splits)
  qed
  then show ?thesis using f i frame_keys [OF f] ns_frame_keys [of "m_neighbors m" "m_neighbors m'"]
    by (auto simp: manager_inv_def frame_def)
qed

lemma rfold_frame:
  assumes "rfold f xs m = Inr m'" "\<And>x u v. x \<in> set xs \<Longrightarrow> frame m u \<Longrightarrow> f x u = Inr v \<Longrightarrow> frame u v"
  shows "frame m m'"
  by (rule rfold_inv [where P = "frame m", OF assms(1)]) (auto intro: frame_trans assms(2))

lemma fold_frame:
  assumes "\<And>x u. x \<in> set xs \<Longrightarrow> frame m u \<Longrightarrow> frame u (f x u)"
  shows "frame m (fold f xs m)"
proof -
  have "frame m u \<Longrightarrow> frame m (fold f ys u)" if "set ys \<subseteq> set xs" for ys u
    using that
  proof (induction ys arbitrary: u)
    case (Cons y ys)
    then have "frame u (f y u)" by (intro assms) auto
    with Cons show ?case by (auto intro: frame_trans)
  qed simp
  then show ?thesis by simp
qed

text \<open>Fields that the relation does not look at.\<close>

lemma frame_fields [simp]:
  "frame m (m'\<lparr>m_publishers := a\<rparr>) = frame m m'"
  "frame m (m'\<lparr>m_pending_tags := b\<rparr>) = frame m m'"
  "frame m (m'\<lparr>m_send_info := c\<rparr>) = frame m m'"
  "frame m (m'\<lparr>m_notify_sub := d\<rparr>) = frame m m'"
  "frame m (m'\<lparr>m_notify_reduce := e\<rparr>) = frame m m'"
  "frame m (m'\<lparr>m_notify_conn := f\<rparr>) = frame m m'"
  "frame m (m'\<lparr>m_cvs := g\<rparr>) = frame m m'"
  by (simp_all add: frame_def tables_ok_def pointers_def)

lemma frame_fields_left [simp]:
  "frame (m\<lparr>m_publishers := a\<rparr>) m' = frame m m'"
  "frame (m\<lparr>m_pending_tags := b\<rparr>) m' = frame m m'"
  "frame (m\<lparr>m_send_info := c\<rparr>) m' = frame m m'"
  by (simp_all add: frame_def tables_ok_def pointers_def neighbor_keys_def)

lemma frame_neighbors: "frame m (m\<lparr>m_neighbors := ns\<rparr>) \<longleftrightarrow> ns_frame (m_neighbors m) ns"
  by (simp add: frame_def tables_ok_def pointers_def)

lemma frame_jobs: "(tables_ok m \<Longrightarrow> distinct (map fst js) \<and> map_all (\<lambda>_. job_inv) js) \<Longrightarrow> frame m (m\<lparr>m_jobs := js\<rparr>)"
  by (simp add: frame_def tables_ok_def pointers_def)

lemma frame_self_subs: "(distinct (map fst (m_self_subs m)) \<Longrightarrow> distinct (map fst ss)) \<Longrightarrow> frame m (m\<lparr>m_self_subs := ss\<rparr>)"
  by (simp add: frame_def tables_ok_def pointers_def)

lemma frame_pending: "(distinct (map fst (m_pending m)) \<Longrightarrow> distinct (map fst ps)) \<Longrightarrow> frame m (m\<lparr>m_pending := ps\<rparr>)"
  by (simp add: frame_def tables_ok_def pointers_def)

lemma frame_reduce:
  "(tables_ok m \<Longrightarrow> distinct (map fst r) \<and> map_all group_ok r) \<Longrightarrow> frame m (m\<lparr>m_reduce := r\<rparr>)"
  by (simp add: frame_def tables_ok_def pointers_def)

section \<open>Operations on neighbours\<close>

named_theorems em_frames \<open>operations on one neighbour that keep the frame\<close>

lemma sock_send_rx: "sock_send c s = (err, s') \<Longrightarrow> so_rx s' = so_rx s"
  by (auto simp: sock_send_def Let_def split: send_ret.splits list.splits)

lemma em_frame_send [em_frames]: "em_frame em (em_send c em)"
  by (cases "em_conns em") (auto simp: em_frame_def em_send_def Let_def split: prod.splits dest: sock_send_rx)

lemma em_frame_updates [em_frames]:
  "em_frame em (mark_as_dead em)" "em_frame em (ignore_cache_on_next_request em)"
  "em_frame em (reset_backoff_counter now em)" "em_frame em (increase_backoff_counter now em)"
  "em_frame em (handle_new_neighbor n em)" "em_frame em (handle_remove_neighbor n em)"
  by (auto simp: em_frame_def mark_as_dead_def ignore_cache_on_next_request_def reset_backoff_counter_def
      increase_backoff_counter_def handle_new_neighbor_def handle_remove_neighbor_def Let_def)

lemma em_frame_fields [simp]:
  "em_frame em (em'\<lparr>em_last_heard := a\<rparr>) = em_frame em em'"
  "em_frame em (em'\<lparr>em_request_time := b\<rparr>) = em_frame em em'"
  "em_frame em (em'\<lparr>em_ignore_cache := d\<rparr>) = em_frame em em'"
  "em_frame em (em'\<lparr>em_pending_request := e\<rparr>) = em_frame em em'"
  "em_frame em (em'\<lparr>em_subs := f\<rparr>) = em_frame em em'"
  by (simp_all add: em_frame_def)

lemma em_frame_heartbeat [em_frames]: "em_frame em (send_heartbeat_if_past_interval i now em)"
  by (simp add: send_heartbeat_if_past_interval_def em_frames)

lemma em_frame_find [em_frames]: "find_publishers_for_tags ts ns em = Inr em' \<Longrightarrow> em_frame em em'"
  by (auto simp: find_publishers_for_tags_def res_iffs em_frames split: if_splits)

lemma em_frame_ask:
  "find_publishers_for_tags ts ns (reset_backoff_counter now em) = Inr em' \<Longrightarrow> em_frame em em'"
  "find_publishers_for_tags ts ns (increase_backoff_counter now em) = Inr em' \<Longrightarrow> em_frame em em'"
  by (blast intro: em_frame_trans em_frames)+

lemma em_frame_notice [em_frames]: "notice_loop tags em = (ok, em') \<Longrightarrow> em_frame em em'"
proof (induction tags em rule: notice_loop.induct)
  case (2 tag tags em)
  then show ?case by (auto split: if_splits) (auto simp: em_frame_def)
qed simp

lemma upd_em_frame: "(\<And>em. map_of (m_neighbors m) k = Some em \<Longrightarrow> em_frame em (f em)) \<Longrightarrow> frame m (upd_em k f m)"
proof -
  assume a: "\<And>em. map_of (m_neighbors m) k = Some em \<Longrightarrow> em_frame em (f em)"
  have "(\<And>em. map_of ns k = Some em \<Longrightarrow> em_frame em (f em)) \<Longrightarrow> ns_frame ns (AList.map_entry k f ns)" for ns
  proof (induction ns)
    case (Cons p ns)
    then show ?case by (cases p) (auto simp: ns_frame_def list_all2_same split: if_splits)
  qed (simp add: ns_frame_def)
  with a show ?thesis by (simp add: upd_em_def frame_neighbors)
qed

lemma all_em_frame: "(\<And>em. em_frame em (f em)) \<Longrightarrow> frame m (all_em f m)"
  by (auto simp: all_em_def frame_neighbors ns_frame_def list_all2_map2 list_all2_same)

lemma rmap_em_frame:
  "rmap_em f ns = Inr ns' \<Longrightarrow> (\<And>k em em'. f k em = Inr em' \<Longrightarrow> em_frame em em') \<Longrightarrow> ns_frame ns ns'"
proof (induction ns arbitrary: ns')
  case (Cons p ns)
  then show ?case by (cases p) (auto simp: res_iffs ns_frame_def)
qed (simp add: ns_frame_def)

lemma upd_em_keys [simp]: "neighbor_keys (upd_em k f m) = neighbor_keys m"
  by (simp add: neighbor_keys_def upd_em_def)

lemma deref_key: "deref k m = Inr em \<Longrightarrow> map_of (m_neighbors m) k = Some em \<and> k \<in> neighbor_keys m"
  by (auto simp: deref_def neighbor_keys_def split: option.splits) (metis domI dom_map_of_conv_image_fst)

lemma deref_frame:
  assumes "frame m m'" "deref k m = Inr em"
  shows "\<exists>em'. deref k m' = Inr em' \<and> em_frame em em'"
proof -
  obtain em' where "map_of (m_neighbors m') k = Some em'" "em_frame em em'"
    using assms deref_key [OF assms(2)] ns_frame_map_of [of "m_neighbors m" "m_neighbors m'" k em]
    by (auto simp: frame_def)
  then show ?thesis by (simp add: deref_def)
qed

named_theorems frames \<open>operations that keep the frame\<close>

lemma send_to_frame [frames]: "frame m (send_to k msg m)"
  by (simp add: send_to_def upd_em_frame em_frames)

lemma send_to_neighbors_if_frame [frames]: "frame m (send_to_neighbors_if msg c m)"
  unfolding send_to_neighbors_if_def by (rule all_em_frame) (simp add: em_frames)

lemma send_to_neighbors_frame [frames]: "frame m (send_to_neighbors msg m)"
  by (simp add: send_to_neighbors_def frames)

lemma notify_of_new_neighbor_frame [frames]: "frame m (notify_of_new_neighbor i m)"
  by (simp add: notify_of_new_neighbor_def frames)

lemma ask_all_frame [frames]: "ask_all now tags needed m = Inr m' \<Longrightarrow> frame m m'"
  by (auto simp: ask_all_def res_iffs frame_neighbors intro!: rmap_em_frame dest: em_frame_ask)

lemma find_publishers_frame [frames]:
  assumes "find_publishers_for_pending_tags force now m = Inr m'"
  shows "frame m m'"
proof -
  have "frame m (m\<lparr>m_neighbors := ns\<rparr>)"
    if "rmap_em (\<lambda>_ em. if should_ask_for_tags now em
          then find_publishers_for_tags ts ps (increase_backoff_counter now em) else Inr em) (m_neighbors m) = Inr ns"
    for ns ts ps
    unfolding frame_neighbors using that
    by (rule rmap_em_frame) (auto dest: em_frame_ask split: if_splits)
  then show ?thesis using assms
    by (auto simp: find_publishers_for_pending_tags_def Let_def res_iffs frames split: if_splits)
qed

section \<open>Operations on jobs\<close>

lemma deliver_ok:
  "deliver tag v n js = Inr (ok, js') \<Longrightarrow> map_all (\<lambda>_. job_inv) js \<Longrightarrow>
    map fst js' = map fst js \<and> map_all (\<lambda>_. job_inv) js'"
proof (induction js arbitrary: ok js')
  case (Cons p js)
  then show ?case by (cases p) (auto simp: res_iffs dest: process_data_inv)
qed simp

lemma deliver_until_ok:
  "deliver_until msg js = Inr (ok, js') \<Longrightarrow> map_all (\<lambda>_. job_inv) js \<Longrightarrow>
    map fst js' = map fst js \<and> map_all (\<lambda>_. job_inv) js'"
proof (induction js arbitrary: ok js')
  case (Cons p js)
  obtain name j where p: "p = (name, j)" by fastforce
  from Cons.prems show ?case
    by (auto simp: p res_iffs split: option.splits if_splits dest: process_data_inv Cons.IH)
qed simp

lemma deliver_frame: "deliver tag v n (m_jobs m) = Inr (ok, js) \<Longrightarrow> frame m (m\<lparr>m_jobs := js\<rparr>)"
  by (rule frame_jobs) (auto simp: tables_ok_def dest: deliver_ok)

lemma publish_frame [frames]: "publish n tag v m = Inr m' \<Longrightarrow> frame m m'"
  by (auto simp: publish_def res_iffs intro: frame_trans [OF deliver_frame send_to_neighbors_if_frame])

lemma handle_publish_data_frame [frames]: "handle_publish_data msg m = Inr (ok, m') \<Longrightarrow> frame m m'"
  by (auto simp: handle_publish_data_def res_iffs intro: deliver_frame split: option.splits)

lemma add_data_to_queue_frame [frames]: "add_data_to_queue msg m = Inr (ok, m') \<Longrightarrow> frame m m'"
  by (auto simp: add_data_to_queue_def res_iffs tables_ok_def intro!: frame_jobs dest: deliver_until_ok)

lemma report_new_publish_tags_frame [frames]: "report_new_publish_tags tags m = Inr m' \<Longrightarrow> frame m m'"
proof -
  assume "report_new_publish_tags tags m = Inr m'"
  then obtain ss where ss: "rfold (\<lambda>tag subs. if has_key tag subs then Inl (Exit_Process 1) else Inr (subs @ [(tag, 0)]))
      tags (m_self_subs m) = Inr ss" "m' = m\<lparr>m_self_subs := ss, m_notify_sub := True\<rparr>"
    by (auto simp: report_new_publish_tags_def res_iffs)
  have "distinct (map fst (m_self_subs m)) \<Longrightarrow> distinct (map fst ss)"
    by (rule rfold_inv [where P = "\<lambda>s. distinct (map fst s)", OF ss(1)]) (auto simp: has_key_iff split: if_splits)
  then show ?thesis by (simp add: ss(2) frame_self_subs)
qed

section \<open>Operations on reduce groups\<close>

lemma set_reduce_frame:
  assumes "\<And>rd. group_ok gid rd \<Longrightarrow> map_of (m_reduce m) gid = Some rd \<Longrightarrow> group_ok gid (f rd)"
  shows "frame m (set_reduce gid f m)"
  unfolding set_reduce_def by (rule frame_reduce) (auto simp: tables_ok_def intro!: map_all_map_entry assms)

lemma group_ok_fields [simp]:
  "group_ok gid (rd\<lparr>rd_parents := a\<rparr>) = group_ok gid rd" "group_ok gid (rd\<lparr>rd_left := b\<rparr>) = group_ok gid rd"
  "group_ok gid (rd\<lparr>rd_right := c\<rparr>) = group_ok gid rd"
  by (simp_all add: group_ok_def)

lemma send_and_remove_missing_frame: "frame m (snd (send_and_remove_missing ks msg m))"
  unfolding send_and_remove_missing_def Let_def snd_conv by (rule fold_frame) (rule send_to_frame)

lemma exec_request_frame: "exec_request gid r m = Inr m' \<Longrightarrow> frame m m'"
proof (cases r)
  case (To_Parent n tag v)
  assume "exec_request gid r m = Inr m'"
  then show ?thesis unfolding To_Parent
    by (auto simp: send_reduce_data_to_parent_def res_iffs case_prod_unfold Let_def
        intro!: frame_trans [OF send_and_remove_missing_frame set_reduce_frame])
next
  case (To_Children n tag v)
  assume "exec_request gid r m = Inr m'"
  then show ?thesis unfolding To_Children
    by (auto simp: send_reduce_data_to_children_def res_iffs Let_def case_prod_unfold
        intro!: frame_trans [OF frame_trans [OF send_and_remove_missing_frame send_and_remove_missing_frame]
            set_reduce_frame])
next
  case (Send_Disconnection machine i)
  assume "exec_request gid r m = Inr m'"
  then show ?thesis unfolding Send_Disconnection
    by (auto simp: send_report_disconnection_def res_iffs Let_def case_prod_unfold
        intro!: frame_trans [OF frame_trans [OF frame_trans [OF send_and_remove_missing_frame
            send_and_remove_missing_frame] send_and_remove_missing_frame] set_reduce_frame])
qed

lemma group_result_frame:
  assumes "group_result gid r m = Inr m'"
    and "\<And>rd. group_ok gid rd \<Longrightarrow> map_of (m_reduce m) gid = Some rd \<Longrightarrow> rg_id (snd r) = gid \<and> rg_inv (snd r)"
  shows "frame m m'"
proof -
  have "rfold (exec_request (rg_id (snd r))) (fst r) (set_reduce gid (\<lambda>rd. rd\<lparr>rd_group := snd r\<rparr>) m) = Inr m'"
    using assms(1) by (simp add: group_result_def case_prod_unfold)
  then have "frame (set_reduce gid (\<lambda>rd. rd\<lparr>rd_group := snd r\<rparr>) m) m'"
    by (rule rfold_frame) (rule exec_request_frame)
  moreover have "frame m (set_reduce gid (\<lambda>rd. rd\<lparr>rd_group := snd r\<rparr>) m)"
    by (rule set_reduce_frame) (use assms(2) in \<open>auto simp: group_ok_def\<close>)
  ultimately show ?thesis by (blast intro: frame_trans)
qed

lemma rg_step_same:
  assumes "rg_inv g"
  shows "rg_add_data tag v n g = Inr (ok, reqs, g') \<Longrightarrow> rg_inv g' \<and> rg_id g' = rg_id g"
    and "rg_id (snd (propagate_disconnection k i g)) = rg_id g" "rg_id (snd (report_disconnection k g)) = rg_id g"
    and "rg_id (rg_rebuild g) = rg_id g"
  using rg_add_data_ok [OF assms, of tag v n]
  by (auto simp: rg_frame_def propagate_disconnection_def report_disconnection_def rg_rebuild_def rg_notify_def
      Let_def)

lemma handle_reduce_value_frame [frames]: "handle_reduce_value gid d m = Inr (ok, m') \<Longrightarrow> frame m m'"
proof -
  assume a: "handle_reduce_value gid d m = Inr (ok, m')"
  show ?thesis
  proof (cases "map_of (m_reduce m) gid")
    case None
    then show ?thesis using a by (simp add: handle_reduce_value_def)
  next
    case (Some rd)
    show ?thesis
    proof (cases "publish_data_value d")
      case None
      then show ?thesis using a Some by (simp add: handle_reduce_value_def)
    next
      case v: (Some v)
      then obtain reqs g where g: "rg_add_data (pd_tag d) v (pd_version d) (rd_group rd) = Inr (ok, reqs, g)"
        "group_result gid (reqs, g) m = Inr m'"
        using a Some by (auto simp: handle_reduce_value_def res_iffs)
      show ?thesis
        by (rule group_result_frame [OF g(2)]) (use g(1) Some rg_step_same(1) in \<open>auto simp: group_ok_def\<close>)
    qed
  qed
qed

lemma propagate_frame:
  assumes "map_of (m_reduce m) gid = Some rd"
    and "group_result gid (propagate_disconnection k i (rd_group rd)) m = Inr m'"
  shows "frame m m'"
  by (rule group_result_frame [OF assms(2)])
    (use assms(1) propagate_inv rg_step_same(2) in \<open>auto simp: group_ok_def\<close>)

lemma report_frame:
  assumes "map_of (m_reduce m) gid = Some rd"
    and "group_result gid (report_disconnection k (rd_group rd)) m = Inr m'"
  shows "frame m m'"
  by (rule group_result_frame [OF assms(2)])
    (use assms(1) report_inv rg_step_same(3) in \<open>auto simp: group_ok_def\<close>)

lemma handle_report_frame [frames]:
  assumes "handle_report_reduce_disconnection gid k i m = Inr (ok, m')"
  shows "frame m m'"
proof (cases "map_of (m_reduce m) gid")
  case None
  then show ?thesis using assms by (simp add: handle_report_reduce_disconnection_def)
next
  case (Some rd)
  then have "group_result gid (propagate_disconnection k i (rd_group rd)) m = Inr m'"
    using assms by (auto simp: handle_report_reduce_disconnection_def rbind_eq_Inr_iff)
  with Some show ?thesis by (rule propagate_frame)
qed

lemma handle_join_frame [frames]: "frame m (snd (handle_join_reduce_group gid tag k m))"
proof (cases "map_of (m_reduce m) gid")
  case None
  then show ?thesis by (simp add: handle_join_reduce_group_def)
next
  case (Some rd)
  have l: "frame m (set_reduce gid (\<lambda>rd. rd\<lparr>rd_left := x\<rparr>) m)" for x by (rule set_reduce_frame) simp
  have r: "frame m (set_reduce gid (\<lambda>rd. rd\<lparr>rd_right := x\<rparr>) m)" for x by (rule set_reduce_frame) simp
  show ?thesis using l r by (simp add: Some handle_join_reduce_group_def Let_def case_prod_unfold)
qed

lemma rebuild_reduce_group_frame [frames]: "rebuild_reduce_group now gid m = Inr m' \<Longrightarrow> frame m m'"
proof -
  have "frame m m1" if "ask_all now ts ns (m\<lparr>m_pending_tags := ps\<rparr>) = Inr m1" for ts ns ps m1
    using ask_all_frame [OF that] by (rule frame_trans [rotated]) simp
  then show "rebuild_reduce_group now gid m = Inr m' \<Longrightarrow> frame m m'"
    by (auto simp: rebuild_reduce_group_def res_iffs Let_def split: if_splits)
qed

lemma create_reduce_group_frame:
  assumes "create_reduce_group now g m = Inr (gid, m')" "rg_inv g"
  shows "frame m m'"
proof -
  let ?m1 = "m\<lparr>m_self_subs := try_emplace (rg_produced g) 0 (m_self_subs m),
     m_reduce := try_emplace (rg_id g) \<lparr>rd_group = g, rd_parents = [], rd_left = [], rd_right = []\<rparr> (m_reduce m)\<rparr>"
  have 1: "frame m ?m1"
    using assms(2) by (auto simp: frame_def tables_ok_def pointers_def group_ok_def intro!: map_all_try_emplace)
  have 2: "frame m m2" if "ask_all now ts ns (?m1\<lparr>m_pending_tags := ps\<rparr>) = Inr m2" for ts ns ps m2
    using 1 ask_all_frame [OF that] frame_trans by auto
  show ?thesis using assms(1) 1
    by (auto simp: create_reduce_group_def res_iffs Let_def split: if_splits dest: 2)
qed

lemma finalize_reduce_group_frame [frames]: "finalize_reduce_group k gid m = Inr m' \<Longrightarrow> frame m m'"
  by (auto simp: finalize_reduce_group_def res_iffs Let_def intro!: frame_trans [OF set_reduce_frame send_to_frame])

lemma finalize_reduce_groups_frame [frames]: "finalize_reduce_groups k tags m = Inr m' \<Longrightarrow> frame m m'"
  unfolding finalize_reduce_groups_def
  by (rule rfold_frame) (auto simp: rbind_eq_Inr_iff intro: frames split: prod.splits)

section \<open>Subscriptions and connections\<close>

lemma fold_update_ok:
  "distinct (map fst ts) \<Longrightarrow> distinct (map fst (fold (\<lambda>tag. AList.update tag k) xs ts))"
  "snd ` set (fold (\<lambda>tag. AList.update tag k) xs ts) \<subseteq> snd ` set ts \<union> {k}"
proof -
  show "distinct (map fst ts) \<Longrightarrow> distinct (map fst (fold (\<lambda>tag. AList.update tag k) xs ts))"
    by (induction xs arbitrary: ts) simp_all
  show "snd ` set (fold (\<lambda>tag. AList.update tag k) xs ts) \<subseteq> snd ` set ts \<union> {k}"
  proof (induction xs arbitrary: ts)
    case (Cons x xs)
    have "snd ` set (AList.update x k ts) \<subseteq> snd ` set ts \<union> {k}"
      using set_update_subset [of x k ts] by auto
    with Cons [of "AList.update x k ts"] show ?case by auto
  qed auto
qed

lemma finalize_subscription_frame:
  assumes "k \<in> neighbor_keys m"
  shows "frame m (finalize_subscription tags k m)"
proof -
  let ?m1 = "m\<lparr>m_tags := fold (\<lambda>tag. AList.update tag k) (split tags CHR 0x00 0) (m_tags m)\<rparr>"
  have "frame m ?m1"
    using assms fold_update_ok [where ts = "m_tags m" and k = k and xs = "split tags CHR 0x00 0"]
    by (auto simp: frame_def tables_ok_def pointers_def)
  then show ?thesis
    by (simp add: finalize_subscription_def Let_def) (rule frame_trans, assumption, rule send_to_frame)
qed

lemma fold_add_pending_fields [simp]:
  "m_neighbors (fold add_pending_tag tags m) = m_neighbors m" "frame m (fold add_pending_tag tags m)"
proof -
  show "frame m (fold add_pending_tag tags m)" by (rule fold_frame) (simp add: add_pending_tag_def)
  show "m_neighbors (fold add_pending_tag tags m) = m_neighbors m"
    by (induction tags arbitrary: m) (auto simp: add_pending_tag_def)
qed

lemma subscribe_frame [frames]: "subscribe now tags m = Inr m' \<Longrightarrow> frame m m'"
  by (auto simp: subscribe_def Let_def res_iffs split: if_splits
      intro: frame_trans [OF fold_add_pending_fields(2) ask_all_frame])

lemma frame_new_pending: "frame m (m\<lparr>m_pending := try_emplace k v (m_pending m)\<rparr>)"
  by (rule frame_pending) simp

lemma connect_to_server_frame [frames]:
  assumes "connect_to_server net addr m = Inr (a, m')"
  shows "frame m m'"
proof -
  obtain c where "to_canonical (nt_resolve net) addr = Inr c"
    using assms by (auto simp: connect_to_server_def rbind_eq_Inr_iff)
  then show ?thesis using assms
    by (simp add: connect_to_server_def rbind_eq_Inr_iff split: if_split_asm) (auto simp only: frame_new_pending)
qed

lemma accept_frame [frames]: "accept_pending_connections accepted m = Inr m' \<Longrightarrow> frame m m'"
  unfolding accept_pending_connections_def
  by (rule rfold_frame) (auto simp: accept_one_def res_iffs intro!: frame_pending)

lemma ip_subscribe_frame [frames]:
  assumes "ip_subscribe net addr tags m = Inr (w, m')"
  shows "frame m m'"
proof -
  have ss: "distinct (map fst s) \<Longrightarrow> rfold (\<lambda>tag subs. if has_key tag subs then Inr (AList.map_entry tag (\<lambda>n. n + 1) subs)
      else Inl (Exit_Process 4)) ts s = Inr s' \<Longrightarrow> distinct (map fst s')" for ts s and s' :: "(tag_id \<times> int) list"
    by (rule rfold_inv [where P = "\<lambda>s. distinct (map fst s)"]) (auto split: if_splits)
  have ss': "rfold (\<lambda>tag subs. if has_key tag subs then Inr (AList.map_entry tag (\<lambda>n. n + 1) subs)
      else Inl (Exit_Process 4)) tags (m_self_subs m) = Inr s' \<Longrightarrow> frame m (m\<lparr>m_self_subs := s'\<rparr>)" for s'
    by (rule frame_self_subs) (rule ss)
  show ?thesis using assms
    by (auto simp: ip_subscribe_def res_iffs Let_def intro: send_to_frame frame_new_pending dest: ss'
        split: if_splits option.splits)
qed

section \<open>Publishers\<close>

lemma handle_get_publishers_frame [frames]:
  assumes "handle_get_publishers now tags needed ic from m = Inr m'"
  shows "frame m m'"
proof -
  have n: "frame m (m\<lparr>m_publishers := p, m_send_info := si, m_neighbors := ns\<rparr>)"
    if "rmap_em (\<lambda>k em. if k \<noteq> from then find_publishers_for_tags ts ps (reset_backoff_counter now em) else Inr em)
          (m_neighbors m) = Inr ns" for ns ts ps p si
  proof -
    have "ns_frame (m_neighbors m) ns"
      using that by (rule rmap_em_frame) (auto dest: em_frame_ask split: if_splits)
    then show ?thesis by (simp add: frame_def tables_ok_def pointers_def)
  qed
  have s: "frame m (send_to k msg (m\<lparr>m_publishers := p\<rparr>))" for k msg p
    by (rule frame_trans [OF _ send_to_frame]) simp
  have t: "frame m (send_to k msg (m\<lparr>m_publishers := p, m_send_info := si\<rparr>))" for k msg p si
    by (rule frame_trans [OF _ send_to_frame]) simp
  obtain ts ps where "remove_tags_with_enough_publishers tags needed m = Inr (ts, ps)"
    using assms by (auto simp: handle_get_publishers_def rbind_eq_Inr_iff)
  then show ?thesis using assms
    by (auto simp: handle_get_publishers_def rbind_eq_Inr_iff Let_def s t send_to_frame split: if_split_asm dest: n)
qed

lemma init_one_frame:
  assumes "init_one tag (kept, cs, m) = Inr (kept', cs', m')"
  shows "frame m m'"
proof (cases "has_key tag (m_self_subs m)")
  case True
  then have "m' = m\<lparr>m_self_subs := AList.map_entry tag (\<lambda>n. n + 1) (m_self_subs m), m_notify_sub := True\<rparr>"
    using assms by (auto simp: init_one_def)
  then show ?thesis by (simp add: frame_self_subs)
next
  case False
  have fs: "deref k m = Inr em \<Longrightarrow> frame m (finalize_subscription tag k m)" for k em
    using deref_key [of k m em] finalize_subscription_frame by blast
  have fg: "finalize_reduce_groups k tag m = Inr m1 \<Longrightarrow> frame m m1" for k m1
    by (rule finalize_reduce_groups_frame)
  show ?thesis
    using assms False
    by (auto simp: init_one_def rbind_eq_Inr_iff fs fg split: option.splits list.splits if_splits)
qed

lemma start_conn_frame:
  assumes "start_conn net c m = Inr m'"
  shows "frame m m'"
proof -
  obtain addr tag where c: "c = (addr, tag)" by fastforce
  obtain err where "connect_non_blocking_str (nt_valid net) (nt_connect net) addr = Inr err"
    using assms by (auto simp: c start_conn_def rbind_eq_Inr_iff)
  then show ?thesis using assms
    by (simp add: c start_conn_def rbind_eq_Inr_iff split: if_split_asm) (auto simp only: frame_new_pending frame_refl)
qed

lemma init_connections_frame [frames]:
  assumes "init_connections_for_pending_tags net m = Inr m'"
  shows "frame m m'"
proof -
  obtain kept cs m1 m2 where *: "rfold init_one (m_pending_tags m) ([], [], m) = Inr (kept, cs, m1)"
    "rfold (start_conn net) cs m1 = Inr m2" "m' = m2\<lparr>m_pending_tags := kept\<rparr>"
    using assms by (auto simp: init_connections_for_pending_tags_def res_iffs)
  have "(\<lambda>(kept, cs, m1). frame m m1) (kept, cs, m1)"
    by (rule rfold_inv [OF *(1)]) (auto intro: frame_trans init_one_frame)
  moreover have "frame m1 m2" using *(2) by (rule rfold_frame) (rule start_conn_frame)
  ultimately show ?thesis by (auto simp: *(3) intro: frame_trans)
qed

lemma add_publishers_frame [frames]:
  assumes "add_publishers_and_propagate net tags pl ml ext from m = Inr m'"
  shows "frame m m'"
proof -
  have 1: "frame m (fold (\<lambda>k. send_to k msg) ks (m\<lparr>m_publishers := p, m_send_info := si\<rparr>))" for msg ks p si
    by (rule frame_trans [OF _ fold_frame]) (auto intro: send_to_frame)
  have 2: "init_connections_for_pending_tags net (m\<lparr>m_publishers := p, m_send_info := si\<rparr>) = Inr m' \<Longrightarrow> frame m m'" for p si
    by (rule frame_trans [OF _ init_connections_frame]) simp_all
  show ?thesis using assms
    by (auto simp: add_publishers_and_propagate_def res_iffs Let_def case_prod_unfold
        split: if_split_asm intro: 2 frame_trans [OF 1 init_connections_frame])
qed

section \<open>Messages\<close>

lemma handle_report_publishers_frame [frames]:
  assumes "handle_report_publishers net now tags addresses machines local k m = Inr (ok, m')"
  shows "frame m m'"
proof -
  have u: "frame m1 (upd_em k (\<lambda>em. let em' = em\<lparr>em_pending_request := False\<rparr>
      in em'\<lparr>em_request_time := calc_next_request_time now em'\<rparr>) m1)" for m1
    by (rule upd_em_frame) (simp add: Let_def)
  show ?thesis using assms
    by (auto simp: handle_report_publishers_def res_iffs split: if_splits
        intro: frame_trans [OF add_publishers_frame u])
qed

lemma handle_subscription_notice_frame [frames]:
  assumes "handle_subscription_notice tags k m = Inr (ok, m')"
  shows "frame m m'"
proof -
  obtain em where em: "deref k m = Inr em" using assms by (auto simp: handle_subscription_notice_def res_iffs)
  obtain b em' where nl: "notice_loop tags em = (b, em')" by fastforce
  have "frame m (upd_em k (\<lambda>_. em') m)"
    by (rule upd_em_frame) (use em_frame_notice [OF nl] deref_key [OF em] in auto)
  then show ?thesis using assms em nl
    by (auto simp: handle_subscription_notice_def Let_def split: if_splits)
qed

lemma message_callback_frame:
  "message_callback net now k msg m = Inr (ok, m') \<Longrightarrow> frame m m'"
proof (cases msg)
  case (Join_Reduce_Group rt tp)
  assume "message_callback net now k msg m = Inr (ok, m')"
  then show ?thesis unfolding Join_Reduce_Group using handle_join_frame [of m rt tp k]
    by (auto split: if_splits)
qed (auto simp: res_iffs split: if_splits intro: frames upd_em_frame em_frames)

lemma handle_message_frame [frames]:
  assumes "handle_message net now k msg m = Inr m'"
  shows "frame m m'"
proof -
  obtain ok m1 where "do_callback (message_callback net now k) msg m = Inr (ok, m1)"
    "m' = (if ok then m1 else upd_em k mark_as_dead m1)"
    using assms by (auto simp: handle_message_def res_iffs)
  moreover have "frame m m1" using calculation(1)
    by (auto simp: do_callback_def split: option.splits intro: message_callback_frame)
  moreover have "frame m1 (upd_em k mark_as_dead m1)" by (rule upd_em_frame) (rule em_frames)
  ultimately show ?thesis by (auto intro: frame_trans)
qed

section \<open>Reading\<close>

lemma read_message_rx:
  "read_message sz s = (err, bs, s') \<Longrightarrow> length (so_rx s') \<le> length (so_rx s)
    \<and> (err = No_Error \<longrightarrow> length (so_rx s') < length (so_rx s))"
  by (auto simp: read_message_def split: if_splits rx_state.splits)

lemma read_chunk_loop_rx: "length (so_rx (snd (read_chunk_loop n f k i b s))) \<le> length (so_rx s)"
proof (induction n f k i b s rule: read_chunk_loop.induct)
  case (1 n f k i b s)
  show ?case
  proof (cases "i < k")
    case False
    then show ?thesis by (simp add: read_chunk_loop.simps)
  next
    case True
    obtain err bs s' where r: "read_message (if i = k - 1 then f else read_step_size) s = (err, bs, s')"
      by (rule prod_cases3)
    show ?thesis
      using True r read_message_rx [OF r] 1 [OF True refl refl r [symmetric] refl]
      by (subst read_chunk_loop.simps) (auto simp: Let_def)
  qed
qed

lemma read_chunked_rx: "read_chunked n s = (b, s') \<Longrightarrow> length (so_rx s') \<le> length (so_rx s)"
  using read_chunk_loop_rx by (metis read_chunked_def snd_conv)

lemma read_network_size_rx:
  "read_network_size little s = Inr (Inl n, s') \<Longrightarrow> length (so_rx s') < length (so_rx s)"
  using read_message_rx [of 4 s] by (auto simp: read_network_size_def Let_def split: prod.splits if_splits)

lemma set_conn_fields [simp]:
  "em_id (set_conn i c em) = em_id em" "em_conns (set_conn i c em) = (em_conns em)[i := c]"
  "em_dead (set_conn i c em) = em_dead em"
  by (simp_all add: set_conn_def)

lemma try_to_get_message_conns:
  assumes "try_to_get_message net i em = Inr (msg, em')"
  shows "em_id em' = em_id em \<and> (\<exists>c. em_conns em' = (em_conns em)[i := c]
     \<and> (msg \<noteq> None \<longrightarrow> length (so_rx c) < length (so_rx (em_conns em ! i))))"
proof -
  obtain r c where r: "read_network_size (nt_little net) (em_conns em ! i) = Inr (r, c)"
    using assms by (auto simp: try_to_get_message_def rbind_eq_Inr_iff)
  show ?thesis
  proof (cases r)
    case (Inr err)
    then show ?thesis using assms r by (auto simp: try_to_get_message_def split: if_splits)
  next
    case (Inl n)
    obtain b c' where b: "read_chunked (unat n) c = (b, c')" by fastforce
    have "length (so_rx c') < length (so_rx (em_conns em ! i))"
      using read_chunked_rx [OF b] read_network_size_rx [OF r [unfolded Inl]] by simp
    then show ?thesis using assms r b Inl by (auto simp: try_to_get_message_def split: if_splits)
  qed
qed

lemma em_ok_get [em_ok_intros]: "try_to_get_message net i em = Inr (msg, em') \<Longrightarrow> em_ok k em \<Longrightarrow> em_ok k em'"
  using try_to_get_message_conns [of net i em msg em'] by (fastforce simp: em_ok_def)

lemma inv_upd_em:
  assumes "manager_inv m" "\<And>em. map_of (m_neighbors m) k = Some em \<Longrightarrow> em_ok k em \<Longrightarrow> em_ok k (f em)"
  shows "manager_inv (upd_em k f m)"
  using assms
  by (auto simp: manager_inv_def upd_em_def tables_ok_def pointers_def neighbor_keys_def intro!: map_all_map_entry)

lemma message_loop_inv:
  "message_loop n net now k i m = Inr m' \<Longrightarrow> manager_inv m \<Longrightarrow> manager_inv m'"
proof (induction n arbitrary: m)
  case (Suc n)
  obtain em msg em' where em: "deref k m = Inr em" "try_to_get_message net i em = Inr (msg, em')"
    using Suc.prems(1) by (auto simp: rbind_eq_Inr_iff)
  have ok: "map_of (m_neighbors m) k = Some e \<Longrightarrow> em_ok k e \<Longrightarrow> em_ok k em'" for e
    using em_ok_get [OF em(2), of k] deref_key [OF em(1)] by auto
  show ?case
  proof (cases msg)
    case None
    then show ?thesis using Suc.prems em ok by (auto intro!: inv_upd_em)
  next
    case (Some sm)
    let ?m1 = "upd_em k (\<lambda>_. em'\<lparr>em_last_heard := now\<rparr>) m"
    obtain m2 where m2: "handle_message net now k sm ?m1 = Inr m2" "message_loop n net now k i m2 = Inr m'"
      using Suc.prems(1) em Some by (auto simp: rbind_eq_Inr_iff)
    have "manager_inv ?m1" using Suc.prems(2) ok by (auto simp: em_ok_def intro!: inv_upd_em)
    then have "manager_inv m2" by (rule frame_inv [OF handle_message_frame [OF m2(1)]])
    with m2(2) show ?thesis by (rule Suc.IH)
  qed
qed simp

text \<open>More fuel than bytes that have arrived makes no difference: the loop over a socket's messages ends.\<close>

lemma upd_em_same: "map_of (m_neighbors m) k = Some em \<Longrightarrow> map_of (m_neighbors (upd_em k f m)) k = Some (f em)"
  by (simp add: upd_em_def map_of_map_entry)

lemma deref_eq: "deref k m = Inr em \<longleftrightarrow> map_of (m_neighbors m) k = Some em"
  by (simp add: deref_def split: option.splits)

lemma message_taken:
  assumes m: "map_of (m_neighbors m) k = Some em" "i < length (em_conns em)"
    and t: "try_to_get_message net i em = Inr (Some sm, em')"
    and h: "handle_message net now k sm (upd_em k (\<lambda>_. em'\<lparr>em_last_heard := now\<rparr>) m) = Inr m2"
  shows "\<exists>em2. map_of (m_neighbors m2) k = Some em2 \<and> i < length (em_conns em2)
    \<and> length (so_rx (em_conns em2 ! i)) < length (so_rx (em_conns em ! i))"
proof -
  obtain c where c: "em_conns em' = (em_conns em)[i := c]" "length (so_rx c) < length (so_rx (em_conns em ! i))"
    using try_to_get_message_conns [OF t] by auto
  have "map_of (m_neighbors (upd_em k (\<lambda>_. em'\<lparr>em_last_heard := now\<rparr>) m)) k = Some (em'\<lparr>em_last_heard := now\<rparr>)"
    using m(1) by (rule upd_em_same)
  then obtain em2 where em2: "map_of (m_neighbors m2) k = Some em2" "em_frame (em'\<lparr>em_last_heard := now\<rparr>) em2"
    using deref_frame [OF handle_message_frame [OF h], of k] by (auto simp: deref_eq)
  have "em_conns em' \<noteq> []" using c(1) m(2) by auto
  then have rx: "map so_rx (em_conns em2) = map so_rx (em_conns em')" using em2(2) by (simp add: em_frame_def)
  then have "length (em_conns em2) = length (em_conns em)" using c(1) by (metis length_list_update length_map)
  moreover from this have "so_rx (em_conns em2 ! i) = so_rx c"
    using arg_cong [OF rx, of "\<lambda>xs. xs ! i"] c(1) m(2) by simp
  ultimately show ?thesis using em2(1) m(2) c(2) by auto
qed

lemma message_loop_fuel:
  assumes "map_of (m_neighbors m) k = Some em" "i < length (em_conns em)" "length (so_rx (em_conns em ! i)) < n"
    and "length (so_rx (em_conns em ! i)) < n'"
  shows "message_loop n net now k i m = message_loop n' net now k i m"
  using assms
proof (induction n arbitrary: n' m em)
  case (Suc n)
  then obtain l where n': "n' = Suc l" by (cases n') auto
  show ?case
  proof (cases "try_to_get_message net i em")
    case (Inl e)
    then show ?thesis using Suc.prems(1) by (simp add: n' deref_def)
  next
    case (Inr r)
    obtain msg em' where r: "r = (msg, em')" by fastforce
    show ?thesis
    proof (cases msg)
      case None
      then show ?thesis using Suc.prems(1) Inr by (simp add: n' deref_def r)
    next
      case (Some sm)
      let ?m1 = "upd_em k (\<lambda>_. em'\<lparr>em_last_heard := now\<rparr>) m"
      have "message_loop n net now k i m2 = message_loop l net now k i m2"
        if m2: "handle_message net now k sm ?m1 = Inr m2" for m2
      proof -
        obtain em2 where em2: "map_of (m_neighbors m2) k = Some em2" "i < length (em_conns em2)"
            "length (so_rx (em_conns em2 ! i)) < length (so_rx (em_conns em ! i))"
          using message_taken [OF Suc.prems(1,2) Inr [unfolded r Some] m2] by blast
        show ?thesis using em2(3) Suc.prems(3,4) n' by (intro Suc.IH [OF em2(1,2)]) auto
      qed
      then show ?thesis using Suc.prems(1) Inr Some
        by (cases "handle_message net now k sm ?m1") (simp_all add: n' deref_def r)
    qed
  qed
qed simp

lemma read_all_inv: "read_all net now k i m = Inr m' \<Longrightarrow> manager_inv m \<Longrightarrow> manager_inv m'"
  unfolding read_all_def rbind_eq_Inr_iff by (blast intro: message_loop_inv)

lemma rfold_manager_inv:
  assumes "rfold f xs m = Inr m'" "manager_inv m"
    "\<And>x u v. x \<in> set xs \<Longrightarrow> f x u = Inr v \<Longrightarrow> manager_inv u \<Longrightarrow> manager_inv v"
  shows "manager_inv m'"
  using rfold_inv [of f xs m m' manager_inv] assms by blast

lemma handle_neighbor_messages_inv:
  assumes "handle_neighbor_messages net now m = Inr m'" "manager_inv m"
  shows "manager_inv m'"
  using assms unfolding handle_neighbor_messages_def
proof (rule rfold_manager_inv)
  fix k u v
  assume a: "get_and_handle_messages net now k u = Inr v" and i: "manager_inv u"
  then have "\<exists>em :: ext_manager. (if em_dead em then Inr u else rfold (read_all net now k) [0..<length (em_conns em)] u) = Inr v"
    unfolding get_and_handle_messages_def rbind_eq_Inr_iff by blast
  then obtain em :: ext_manager where em: "(if em_dead em then Inr u else rfold (read_all net now k) [0..<length (em_conns em)] u) = Inr v" ..
  show "manager_inv v"
  proof (cases "em_dead em")
    case False
    then have "rfold (read_all net now k) [0..<length (em_conns em)] u = Inr v" using em by simp
    then show ?thesis using i by (rule rfold_manager_inv) (rule read_all_inv)
  qed (use em i in simp)
qed

section \<open>Connections that are being made\<close>

lemma frame_fst: "frame m (snd p) = frame m (case p of (b, m') \<Rightarrow> m')"
  by (simp add: case_prod_unfold)

lemma handle_tag_frame: "handle_tag pt bt (b, m) = Inr (b', m') \<Longrightarrow> frame m m'"
proof -
  have a: "frame m (all_em ignore_cache_on_next_request m)" by (rule all_em_frame) (rule em_frames)
  then show "handle_tag pt bt (b, m) = Inr (b', m') \<Longrightarrow> frame m m'"
    by (auto simp: handle_tag_def Let_def split: option.splits if_splits)
qed

lemma rfold_snd_frame:
  assumes "rfold f xs (b, m) = Inr (b', m')"
    and "\<And>x b u b' v. x \<in> set xs \<Longrightarrow> f x (b, u) = Inr (b', v) \<Longrightarrow> frame u v"
  shows "frame m m'"
proof -
  have "(\<lambda>(b, u). frame m u) (b', m')"
    by (rule rfold_inv [OF assms(1)]) (auto intro: frame_trans assms(2))
  then show ?thesis by simp
qed

lemma handle_error_frame: "handle_error info (b, m) = Inr (b', m') \<Longrightarrow> frame m m'"
  unfolding handle_error_def
  by (auto split: conn_type.splits elim!: rfold_snd_frame simp: rbind_eq_Inr_iff split: prod.splits
      intro: handle_tag_frame)

lemma fail_conn_frame: "fail_conn info (b, m) = Inr (i, b', m') \<Longrightarrow> frame m m'"
  by (auto simp: fail_conn_def rbind_eq_Inr_iff dest!: handle_error_frame)

lemma greet_inv:
  assumes "manager_inv m"
  shows "manager_inv (greet now conn g m)" "gr_from g \<in> neighbor_keys (greet now conn g m)"
proof -
  show "manager_inv (greet now conn g m)"
  proof (cases "has_key (gr_from g) (m_neighbors m)")
    case True
    then show ?thesis using assms
      by (auto simp: greet_def intro!: inv_upd_em intro: em_ok_intros)
  next
    case False
    let ?em = "new_ext_manager conn (gr_from g) (gr_neighbors g) (gr_port g) now"
    have "snd ` set (try_emplace (em_address_pair ?em) (gr_from g) (m_addrs m)) \<subseteq> insert (gr_from g) (snd ` set (m_addrs m))"
      using set_try_emplace [of "em_address_pair ?em" "gr_from g" "m_addrs m"] by auto
    then show ?thesis using assms False
      by (auto simp: greet_def Let_def manager_inv_def tables_ok_def pointers_def neighbor_keys_def
          intro!: map_all_try_emplace new_ext_manager_ok)
  qed
  show "gr_from g \<in> neighbor_keys (greet now conn g m)"
    by (auto simp: greet_def Let_def neighbor_keys_def upd_em_def has_key_iff)
qed

lemma finalize_conn_frame:
  assumes "finalize_conn info k m = Inr (ok, m')" "k \<in> neighbor_keys m"
  shows "frame m m'"
proof -
  have s: "frame m (finalize_subscription t k m)" for t using assms(2) by (rule finalize_subscription_frame)
  have d: "frame m (upd_em k mark_as_dead m)" by (rule upd_em_frame) (rule em_frames)
  show ?thesis using assms(1)
    by (auto simp: finalize_conn_def Let_def res_iffs s d split: conn_type.splits if_split_asm
        dest: finalize_reduce_groups_frame)
qed

lemma process_resp_inv:
  assumes "process_resp net now info (b, m) = Inr (i, b', m')" "manager_inv m"
  shows "manager_inv m'"
proof -
  have fail: "fail_conn info' (b, m) = Inr (i, b', m') \<Longrightarrow> manager_inv m'" for info'
    using assms(2) fail_conn_frame frame_inv by blast
  have good: "manager_inv m2"
    if "finalize_conn info' (gr_from g) (greet now c g m) = Inr (ok, m1)"
      "m2 = m1 \<or> find_publishers_for_pending_tags False now (notify_of_new_neighbor (gr_from g) m1) = Inr m2"
    for info' g c ok m1 m2
  proof -
    have "manager_inv m1"
      by (rule frame_inv [OF finalize_conn_frame [OF that(1) greet_inv(2) [OF assms(2)]] greet_inv(1) [OF assms(2)]])
    then show ?thesis using that(2)
      by (auto intro: frame_inv [OF find_publishers_frame] frame_inv [OF notify_of_new_neighbor_frame])
  qed
  have nc: "manager_inv (m\<lparr>m_notify_conn := x\<rparr>) = manager_inv m" for m x
    by (simp add: manager_inv_def tables_ok_def pointers_def neighbor_keys_def)
  obtain r c where rc: "read_network_size (nt_little net) (pi_conn info) = Inr (r, c)"
    using assms(1) by (auto simp: process_resp_def rbind_eq_Inr_iff)
  show ?thesis
  proof (cases r)
    case (Inr err)
    then show ?thesis using assms rc by (auto simp: process_resp_def dest: fail split: if_split_asm)
  next
    case (Inl n)
    obtain buf c' where rd: "read_chunked (unat n) c = (buf, c')" by fastforce
    let ?info = "info\<lparr>pi_conn := c'\<rparr>"
    consider "buf = []" | "buf \<noteq> []" "fail_conn ?info (b, m) = Inr (i, b', m')"
      | msg g where "buf \<noteq> []" "try_to_create (nt_dec net) buf = Some msg" "greeting_of msg = Some g"
      using assms(1) rc rd Inl by (auto simp: process_resp_def Let_def split: option.splits if_split_asm)
    then show ?thesis
    proof cases
      case 1
      then show ?thesis using assms rc rd Inl by (simp add: process_resp_def)
    next
      case 2
      then show ?thesis by (auto dest: fail)
    next
      case 3
      then obtain ok m1 where f: "finalize_conn ?info (gr_from g) (greet now c' g m) = Inr (ok, m1)"
        "if ok then \<exists>m2. find_publishers_for_pending_tags False now (notify_of_new_neighbor (gr_from g) m1) = Inr m2
            \<and> m' = m2\<lparr>m_notify_conn := True\<rparr> else m' = m1"
        using assms(1) rc rd Inl by (auto simp: process_resp_def rbind_eq_Inr_iff split: if_split_asm)
      then show ?thesis using good [OF f(1)] by (auto simp: nc split: if_split_asm)
    qed
  qed
qed

lemma process_pending_inv:
  assumes "process_pending net now info (b, m) = Inr (i, b', m')" "manager_inv m"
  shows "manager_inv m'"
proof -
  have nc: "manager_inv (m\<lparr>m_notify_conn := x\<rparr>) = manager_inv m" for m x
    by (simp add: manager_inv_def tables_ok_def pointers_def neighbor_keys_def)
  have "fail_conn info (b, m) = Inr (i, b', m') \<Longrightarrow> manager_inv m'"
    using assms(2) fail_conn_frame frame_inv by blast
  then show ?thesis using assms
    by (auto simp: process_pending_def Let_def case_prod_unfold nc split: conn_status.splits if_split_asm
        dest: process_resp_inv)
qed

lemma process_pending_conns_inv:
  assumes "process_pending_conns net now m = Inr m'" "manager_inv m"
  shows "manager_inv m'"
proof -
  obtain b m1 where l: "rfold (\<lambda>(key, info) s. rbind (process_pending net now info s)
      (\<lambda>(info', b, m'). Inr (b, update_pending key info' m'))) (m_pending m) (False, m) = Inr (b, m1)"
    and r: "if b then \<exists>m2. find_publishers_for_pending_tags False now m1 = Inr m2
        \<and> init_connections_for_pending_tags net m2 = Inr m' else m' = m1"
    using assms(1) by (auto simp: process_pending_conns_def rbind_eq_Inr_iff split: if_splits)
  have u: "frame m2 (update_pending key i m2)" for m2 key i
    by (auto simp: update_pending_def intro!: frame_pending split: option.splits)
  have "(\<lambda>(b, u). manager_inv u) (b, m1)"
    by (rule rfold_inv [OF l])
      (use assms(2) in \<open>auto simp: rbind_eq_Inr_iff intro!: frame_inv [OF u] elim: process_pending_inv\<close>)
  then show ?thesis using r
    by (auto split: if_splits intro: frame_inv [OF init_connections_frame] frame_inv [OF find_publishers_frame])
qed

section \<open>Neighbours that are gone\<close>

lemma drop_from_list_frame:
  assumes "drop_from_list k gid get upd m = Inr m'" "\<And>f rd. rd_group (upd f rd) = rd_group rd"
  shows "frame m m'"
proof -
  obtain rd where rd: "map_of (m_reduce m) gid = Some rd"
    "(if k \<in> set (get rd) then group_result gid (report_disconnection (m_id m) (rd_group rd)) (set_reduce gid (upd (remove1 k)) m)
      else Inr m) = Inr m'"
    using assms(1) by (auto simp: drop_from_list_def find_group_def rbind_eq_Inr_iff split: option.splits)
  have 1: "frame m (set_reduce gid (upd (remove1 k)) m)"
    by (rule set_reduce_frame) (simp add: group_ok_def assms(2))
  have 2: "map_of (m_reduce (set_reduce gid (upd (remove1 k)) m)) gid = Some (upd (remove1 k) rd)"
    using rd(1) by (simp add: set_reduce_def map_of_map_entry)
  have 3: "group_result gid (report_disconnection (m_id m) (rd_group (upd (remove1 k) rd))) (set_reduce gid (upd (remove1 k)) m) = Inr m'
      \<Longrightarrow> frame m m'"
    using 1 report_frame [OF 2] frame_trans by blast
  show ?thesis using rd(2) 3 by (auto simp: assms(2) split: if_split_asm)
qed

lemma leave_group_frame: "leave_group k gid m = Inr m' \<Longrightarrow> frame m m'"
proof -
  assume "leave_group k gid m = Inr m'"
  then obtain m1 m2 where "drop_from_list k gid rd_parents rd_parents_update m = Inr m1"
    "drop_from_list k gid rd_left rd_left_update m1 = Inr m2" "drop_from_list k gid rd_right rd_right_update m2 = Inr m'"
    by (auto simp: leave_group_def rbind_eq_Inr_iff)
  then have "frame m m1" "frame m1 m2" "frame m2 m'" by (auto elim!: drop_from_list_frame)
  then show ?thesis by (blast intro: frame_trans)
qed

lemma report_dead_tag_ok:
  "map fst (fold report_dead_tag tags js) = map fst js"
  "map_all (\<lambda>_. job_inv) js \<Longrightarrow> map_all (\<lambda>_. job_inv) (fold report_dead_tag tags js)"
proof -
  have 1: "map fst (report_dead_tag tag js) = map fst js" for tag js
    by (simp add: report_dead_tag_def comp_def case_prod_unfold)
  show "map fst (fold report_dead_tag tags js) = map fst js"
    by (induction tags arbitrary: js) (simp_all add: 1)
  have 2: "map_all (\<lambda>_. job_inv) js \<Longrightarrow> map_all (\<lambda>_. job_inv) (report_dead_tag tag js)" for tag js
    by (auto simp: report_dead_tag_def map_all_def intro: mark_tag_as_dead_inv)
  show "map_all (\<lambda>_. job_inv) js \<Longrightarrow> map_all (\<lambda>_. job_inv) (fold report_dead_tag tags js)"
    by (induction tags arbitrary: js) (simp_all add: 2)
qed

lemma remove_if_dead_inv:
  assumes "remove_if_dead k (b, m) = Inr (b', m')" "manager_inv m"
  shows "manager_inv m'"
proof -
  obtain em where em: "deref k m = Inr em" using assms(1) by (auto simp: remove_if_dead_def rbind_eq_Inr_iff)
  show ?thesis
  proof (cases "em_dead em")
    case False
    then show ?thesis using assms em by (simp add: remove_if_dead_def)
  next
    case True
    let ?m0 = "send_to_neighbors (make_remove_neighbor k) (m\<lparr>m_notify_sub := True\<rparr>)"
    obtain m1 where m1: "rfold (leave_group k) (keys (m_reduce m)) ?m0 = Inr m1"
      and m': "m' = m1\<lparr>m_addrs := filter (\<lambda>(_, k'). k' \<noteq> k) (m_addrs m1),
                 m_tags := filter (\<lambda>(_, k'). k' \<noteq> k) (m_tags m1),
                 m_jobs := fold report_dead_tag (map fst (filter (\<lambda>(_, k'). k' = k) (m_tags m1))) (m_jobs m1),
                 m_pending_tags := m_pending_tags m1 @ map fst (filter (\<lambda>(_, k'). k' = k) (m_tags m1)),
                 m_neighbors := AList.delete k (m_neighbors m1)\<rparr>"
      using assms(1) em True by (auto simp: remove_if_dead_def rbind_eq_Inr_iff Let_def)
    have "frame ?m0 m1" using m1 by (rule rfold_frame) (rule leave_group_frame)
    moreover have "manager_inv ?m0"
    proof (rule frame_inv [OF send_to_neighbors_frame])
      show "manager_inv (m\<lparr>m_notify_sub := True\<rparr>)"
        using assms(2) by (simp add: manager_inv_def tables_ok_def pointers_def neighbor_keys_def)
    qed
    ultimately have i: "manager_inv m1" by (rule frame_inv)
    have "fst ` set (AList.delete k ns) = fst ` set ns - {k}" for ns :: "(machine_id \<times> ext_manager) list"
      by (auto simp: AList.delete_eq)
    with i show ?thesis
      by (auto simp: m' manager_inv_def tables_ok_def pointers_def neighbor_keys_def
          report_dead_tag_ok intro: map_all_intros distinct_keys_filter)
  qed
qed

lemma remove_dead_neighbors_inv:
  assumes "remove_dead_neighbors now m = Inr m'" "manager_inv m"
  shows "manager_inv m'"
proof -
  obtain b m1 where l: "rfold remove_if_dead (keys (m_neighbors m)) (False, m) = Inr (b, m1)"
    and r: "if b then find_publishers_for_pending_tags True now m1 = Inr m' else m' = m1"
    using assms(1) by (auto simp: remove_dead_neighbors_def rbind_eq_Inr_iff split: if_splits)
  have "(\<lambda>(b, u). manager_inv u) (b, m1)"
    by (rule rfold_inv [OF l]) (use assms(2) in \<open>auto intro: remove_if_dead_inv\<close>)
  then show ?thesis using r by (auto split: if_splits intro: frame_inv [OF find_publishers_frame])
qed

lemma notify_cvs_inv [simp]: "manager_inv (notify_cvs m) = manager_inv m"
  by (simp add: notify_cvs_def Let_def case_prod_unfold manager_inv_def tables_ok_def pointers_def neighbor_keys_def)

lemma run_pass_inv:
  assumes "run_pass net now free accepted m = Inr m'" "manager_inv m"
  shows "manager_inv m'"
proof -
  let ?m0 = "m\<lparr>m_jobs := filter (\<lambda>(name, j). \<not> (free name \<and> is_finished j)) (m_jobs m)\<rparr>"
  obtain m1 m2 m3 m4 m5 where s: "process_pending_conns net now ?m0 = Inr m1"
    "accept_pending_connections accepted m1 = Inr m2" "handle_neighbor_messages net now m2 = Inr m3"
    "remove_dead_neighbors now m3 = Inr m4" "find_publishers_for_pending_tags False now m4 = Inr m5"
    "m' = notify_cvs (all_em (send_heartbeat_if_past_interval (m_heartbeat m5) now) m5)"
    using assms(1) by (auto simp: run_pass_def rbind_eq_Inr_iff)
  have "frame m ?m0" by (rule frame_jobs) (auto simp: tables_ok_def intro: map_all_filter)
  then have "manager_inv ?m0" using assms(2) by (rule frame_inv)
  then have "manager_inv m1" by (rule process_pending_conns_inv [OF s(1)])
  then have "manager_inv m2" by (rule frame_inv [OF accept_frame [OF s(2)]])
  then have "manager_inv m3" by (rule handle_neighbor_messages_inv [OF s(3)])
  then have "manager_inv m4" by (rule remove_dead_neighbors_inv [OF s(4)])
  then have "manager_inv m5" by (rule frame_inv [OF find_publishers_frame [OF s(5)]])
  then show ?thesis by (simp add: s(6)) (auto intro: frame_inv all_em_frame em_frames)
qed

section \<open>Runs\<close>

text \<open>What happens to a manager, under its mutex: a pass of its loop, the calls of its jobs through
  \<^verbatim>\<open>ManagerHandle\<close>, and what its jobs and groups do on their own state (operations on values make a group
  send its requests).\<close>

datatype manager_event =
    ME_Pass net nat "job_id \<Rightarrow> bool" "status_message sock list"
  | ME_Submit job_id
  | ME_Connect net addr_port
  | ME_Subscribe nat "tag_id list"
  | ME_IP_Subscribe net addr_port "tag_id list"
  | ME_Publish version_id tag_id "publish_value list"
  | ME_Report_Tags "tag_id list"
  | ME_Create_Group nat reduce_group
  | ME_Rebuild_Group nat tag_id
  | ME_Job job_id job_event
  | ME_Group tag_id rg_event

definition job_event_in :: "job_id \<Rightarrow> job_event \<Rightarrow> manager \<Rightarrow> manager res" where
  "job_event_in name e m =
     (case map_of (m_jobs m) name of
        None \<Rightarrow> Inl Undefined_Behaviour
      | Some j \<Rightarrow> rbind (job_step e j) (\<lambda>j'. Inr (m\<lparr>m_jobs := AList.update name j' (m_jobs m)\<rparr>)))"

definition group_event_in :: "tag_id \<Rightarrow> rg_event \<Rightarrow> manager \<Rightarrow> manager res" where
  "group_event_in gid e m =
     rbind (find_group gid m) (\<lambda>rd. rbind (rg_step e ([], rd_group rd)) (\<lambda>r. group_result gid r m))"

fun manager_step :: "manager_event \<Rightarrow> manager \<Rightarrow> manager res" where
  "manager_step (ME_Pass net now free accepted) m = run_pass net now free accepted m"
| "manager_step (ME_Submit name) m = rbind (submit_job name m) (\<lambda>(_, m'). Inr m')"
| "manager_step (ME_Connect net addr) m = rbind (connect_to_server net addr m) (\<lambda>(_, m'). Inr m')"
| "manager_step (ME_Subscribe now tags) m = subscribe now tags m"
| "manager_step (ME_IP_Subscribe net addr tags) m = rbind (ip_subscribe net addr tags m) (\<lambda>(_, m'). Inr m')"
| "manager_step (ME_Publish version tag value) m = publish version tag value m"
| "manager_step (ME_Report_Tags tags) m = report_new_publish_tags tags m"
| "manager_step (ME_Create_Group now grp) m = rbind (create_reduce_group now grp m) (\<lambda>(_, m'). Inr m')"
| "manager_step (ME_Rebuild_Group now gid) m = rebuild_reduce_group now gid m"
| "manager_step (ME_Job name e) m = job_event_in name e m"
| "manager_step (ME_Group gid e) m = group_event_in gid e m"

text \<open>What the types of the code say of the arguments.\<close>

fun manager_event_typed :: "manager_event \<Rightarrow> manager \<Rightarrow> bool" where
  "manager_event_typed (ME_Create_Group now grp) m \<longleftrightarrow> rg_inv grp"
| "manager_event_typed (ME_Job name e) m \<longleftrightarrow> event_typed e"
| "manager_event_typed (ME_Group gid e) m \<longleftrightarrow>
     (case map_of (m_reduce m) gid of None \<Rightarrow> True | Some rd \<Rightarrow> rg_event_typed (rg_types (rd_group rd)) e)"
| "manager_event_typed _ m \<longleftrightarrow> True"

lemma rg_step_id:
  assumes "rg_inv g" "rg_event_typed (rg_types g) e" "rg_step e (out, g) = Inr (out', g')"
  shows "rg_inv g' \<and> rg_id g' = rg_id g"
proof -
  have "rg_inv g'" using rg_step_ok [OF assms(1) refl assms(2), of out] assms(3) by auto
  moreover have "rg_id g' = rg_id g"
  proof (cases e)
    case (RE_Data tag v n)
    then show ?thesis using assms rg_add_data_ok [OF assms(1), of tag v n] by (auto simp: rg_frame_def)
  next
    case (RE_Reduce b f v)
    then show ?thesis using assms reduce_impl_ok [OF assms(1), of v f b]
      by (auto simp: rg_frame_def rg_event_typed_def)
  next
    case (RE_Get b w)
    then show ?thesis using assms reduce_waiter_get_ok [OF assms(1), of b w] by (auto simp: rg_frame_def)
  qed (use assms in \<open>auto simp: propagate_disconnection_def report_disconnection_def rg_rebuild_def rg_notify_def
      Let_def split: if_splits\<close>)
  ultimately show ?thesis ..
qed

lemma job_event_in_frame:
  assumes "job_event_in name e m = Inr m'" "event_typed e"
  shows "frame m m'"
proof -
  obtain j j' where j: "map_of (m_jobs m) name = Some j" "job_step e j = Inr j'"
    "m' = m\<lparr>m_jobs := AList.update name j' (m_jobs m)\<rparr>"
    using assms(1) by (auto simp: job_event_in_def rbind_eq_Inr_iff split: option.splits)
  show ?thesis unfolding j(3)
  proof (rule frame_jobs)
    assume t: "tables_ok m"
    then have "job_inv j" using j(1) by (auto simp: tables_ok_def dest: map_allD)
    then have "job_inv j'" using assms(2) j(2) by (rule job_step_inv)
    then show "distinct (map fst (AList.update name j' (m_jobs m)))
        \<and> map_all (\<lambda>_. job_inv) (AList.update name j' (m_jobs m))"
      using t by (auto simp: tables_ok_def intro: map_all_update)
  qed
qed

lemma group_event_in_frame:
  assumes "group_event_in gid e m = Inr m'" "manager_event_typed (ME_Group gid e) m"
  shows "frame m m'"
proof -
  obtain rd out g where r: "map_of (m_reduce m) gid = Some rd" "rg_step e ([], rd_group rd) = Inr (out, g)"
    "group_result gid (out, g) m = Inr m'"
    using assms(1) by (auto simp: group_event_in_def find_group_def rbind_eq_Inr_iff split: option.splits)
  show ?thesis
  proof (rule group_result_frame [OF r(3)])
    fix rd' assume "group_ok gid rd'" "map_of (m_reduce m) gid = Some rd'"
    then have "rg_inv (rd_group rd)" "rg_id (rd_group rd) = gid" using r(1) by (simp_all add: group_ok_def)
    then show "rg_id (snd (out, g)) = gid \<and> rg_inv (snd (out, g))"
      using rg_step_id [OF _ _ r(2)] assms(2) r(1) by simp
  qed
qed

lemma manager_step_inv:
  assumes "manager_inv m" "manager_event_typed e m" "manager_step e m = Inr m'"
  shows "manager_inv m'"
proof (cases e)
  case (ME_Pass net now free accepted)
  then show ?thesis using assms by (auto intro: run_pass_inv)
next
  case (ME_Submit name)
  then have "frame m m'" using assms(3)
    by (auto simp: submit_job_def rbind_eq_Inr_iff tables_ok_def split: if_splits dest: new_job_inv
        intro!: frame_jobs map_all_try_emplace)
  then show ?thesis using assms(1) by (rule frame_inv)
next
  case (ME_Create_Group now grp)
  then have "frame m m'" using assms(2,3) by (auto simp: rbind_eq_Inr_iff intro: create_reduce_group_frame)
  then show ?thesis using assms(1) by (rule frame_inv)
next
  case (ME_Job name ev)
  then have "frame m m'" using assms(2,3) by (auto intro: job_event_in_frame)
  then show ?thesis using assms(1) by (rule frame_inv)
next
  case (ME_Group gid ev)
  then have "frame m m'" using assms(2,3) by (intro group_event_in_frame) auto
  then show ?thesis using assms(1) by (rule frame_inv)
qed (use assms in \<open>auto simp: rbind_eq_Inr_iff intro: frame_inv frames\<close>)

interpretation mgr: invariant_run "\<lambda>e m. rassert (manager_event_typed e m) (manager_step e m)" manager_inv
  by unfold_locales (auto simp: res_iffs intro: manager_step_inv)

lemma new_manager_inv: "new_manager port i heartbeat listening = Inr m \<Longrightarrow> manager_inv m"
  by (auto simp: new_manager_def manager_inv_def tables_ok_def pointers_def neighbor_keys_def split: if_splits)

end
