(* ===== verification/Sky_Manager_Props.thy ===== *)
theory Sky_Manager_Props
  imports Sky_Manager_Runs
begin

text \<open>
  What the manager of \<open>Sky_Manager\<close> does: the facts about every run, the removal of neighbours that are
  gone, the spreading of publishers, and the behaviours that leave a subscription or a reduce group
  without its connection.
\<close>

section \<open>Every run\<close>

definition run_manager :: "manager_event list \<Rightarrow> manager \<Rightarrow> manager res" where
  "run_manager = rfold (\<lambda>e m. rassert (manager_event_typed e m) (manager_step e m))"

lemma run_manager_inv:
  "new_manager port i heartbeat listening = Inr m0 \<Longrightarrow> run_manager es m0 = Inr m \<Longrightarrow> manager_inv m"
  unfolding run_manager_def using mgr.run_inv [OF new_manager_inv] by blast

text \<open>C1: In every run of a manager, whatever its jobs call and whatever arrives from other machines, no pointer
  to a neighbour dangles: each address and each tag that is bound leads to a neighbour that is still there,
  under its own identifier and with a socket. Jobs, groups, tags and neighbours stay unique, and every job and
  every reduce group keeps its own invariant.\<close>

theorem manager_no_dangling:
  assumes "new_manager port i heartbeat True = Inr m0" "run_manager es m0 = Inr m"
  shows "(\<forall>k. (\<exists>a. map_of (m_addrs m) a = Some k) \<or> (\<exists>tag. map_of (m_tags m) tag = Some k) \<longrightarrow>
             (\<exists>em. map_of (m_neighbors m) k = Some em \<and> em_id em = k \<and> em_conns em \<noteq> []))
    \<and> distinct (keys (m_neighbors m)) \<and> distinct (keys (m_tags m)) \<and> distinct (keys (m_jobs m))
    \<and> (\<forall>name j. map_of (m_jobs m) name = Some j \<longrightarrow> job_inv j)
    \<and> (\<forall>gid rd. map_of (m_reduce m) gid = Some rd \<longrightarrow> rg_id (rd_group rd) = gid \<and> rg_inv (rd_group rd))"
proof -
  have inv: "manager_inv m" using assms by (rule run_manager_inv)
  have "\<exists>em. map_of (m_neighbors m) k = Some em \<and> em_ok k em" if "k \<in> pointers m" for k
  proof -
    have "k \<in> neighbor_keys m" using inv that by (auto simp: manager_inv_def)
    then obtain em where "map_of (m_neighbors m) k = Some em"
      by (metis domD dom_map_of_conv_image_fst neighbor_keys_def)
    then show ?thesis using inv by (auto simp: manager_inv_def dest: map_allD)
  qed
  moreover have "k \<in> pointers m" if "(\<exists>a. map_of (m_addrs m) a = Some k) \<or> (\<exists>tag. map_of (m_tags m) tag = Some k)" for k
    using that map_of_SomeD [of "m_addrs m" _ k] map_of_SomeD [of "m_tags m" _ k]
    by (force simp: pointers_def)
  ultimately show ?thesis using inv
    by (auto simp: manager_inv_def tables_ok_def keys_def em_ok_def group_ok_def dest: map_allD)
qed

text \<open>A run for the witnesses: a job, a connection to a machine whose greeting is waiting, two passes of the
  loop.\<close>

definition greeting_bytes :: "byte list" where
  "greeting_bytes = to_network_bytes True 8 @ [1, 2, 3, 4, 5, 6, 7, 8]"

definition greeting_net :: net where
  "greeting_net = sample_net\<lparr>nt_dec := (\<lambda>bs. if bs = [1, 2, 3, 4, 5, 6, 7, 8] then Some (SM_Greeting ''m2'' [] 5000) else None),
     nt_socket := (\<lambda>a. sample_sock\<lparr>so_rx := greeting_bytes, so_peer := a\<rparr>)\<rparr>"

definition sample_manager :: manager where
  "sample_manager = \<lparr>m_jobs = [], m_neighbors = [], m_publishers = [], m_pending_tags = [], m_reduce = [],
     m_id = ''m1'', m_heartbeat = 1000, m_send_info = [], m_self_subs = [], m_port = 4000, m_addrs = [],
     m_tags = [], m_pending = [], m_notify_sub = False, m_notify_reduce = False, m_notify_conn = False,
     m_cvs = (0, 0, 0)\<rparr>"

lemma sample_manager_new: "new_manager 4000 ''m1'' 1000 True = Inr sample_manager"
  by (simp add: new_manager_def sample_manager_def)

lemma sample_canonical: "to_canonical (nt_resolve greeting_net) (''10.0.0.2'', 5000) = Inr (''127.0.0.1'', 5000)"
  by (simp add: to_canonical_def greeting_net_def sample_net_def dotted_def to_dec.simps) code_simp

lemma greeting_read:
  assumes "so_rx s = greeting_bytes"
  shows "read_network_size little s = Inr (Inl 8, s\<lparr>so_rx := [1, 2, 3, 4, 5, 6, 7, 8]\<rparr>)"
    and "read_chunked (unat (8 :: network_size)) (s\<lparr>so_rx := [1, 2, 3, 4, 5, 6, 7, 8]\<rparr>)
      = ([1, 2, 3, 4, 5, 6, 7, 8], s\<lparr>so_rx := []\<rparr>)"
proof -
  have g: "greeting_bytes = finalize_message True (\<lambda>_. [1, 2, 3, 4, 5, 6, 7, 8]) SM_Heartbeat @ []"
    by (simp add: greeting_bytes_def finalize_message_def)
  have "\<not> read_step_size dvd length [1 :: byte, 2, 3, 4, 5, 6, 7, 8]"
    by (auto simp: step_sizes dest: dvd_imp_le)
  from read_frame [where s = s and enc = "\<lambda>_. [1, 2, 3, 4, 5, 6, 7, 8]" and m = SM_Heartbeat
      and little = True and rest = "[]", folded g, OF assms this]
  show "read_network_size little s = Inr (Inl 8, s\<lparr>so_rx := [1, 2, 3, 4, 5, 6, 7, 8]\<rparr>)"
    "read_chunked (unat (8 :: network_size)) (s\<lparr>so_rx := [1, 2, 3, 4, 5, 6, 7, 8]\<rparr>)
      = ([1, 2, 3, 4, 5, 6, 7, 8], s\<lparr>so_rx := []\<rparr>)"
    by simp_all
qed

lemma nothing_read:
  "so_rx s = [] \<Longrightarrow> so_rx_state s = Rx_Open \<Longrightarrow> read_network_size little s = Inr (Inr Would_Block, s)"
  by (simp add: read_network_size_def read_message_def)

lemmas pass_defs = run_pass_def process_pending_conns_def process_pending_def new_pending_def
  connection_progress_status_def accept_pending_connections_def handle_neighbor_messages_def
  remove_dead_neighbors_def keys_def update_pending_def sock_send_def find_publishers_for_pending_tags_def
  notify_cvs_def all_em_def

definition sample_pending :: "pending_info \<Rightarrow> manager" where
  "sample_pending info = sample_manager\<lparr>m_pending := [((''127.0.0.1'', 5000), info)]\<rparr>"

lemma sample_connect:
  "connect_to_server greeting_net (''10.0.0.2'', 5000) sample_manager
    = Inr ((''127.0.0.1'', 5000), sample_pending (new_pending greeting_net (''127.0.0.1'', 5000) User_Requested []))"
  by (simp add: connect_to_server_def sample_canonical connect_non_blocking_def sample_manager_def
      sample_pending_def try_emplace_def) (simp add: greeting_net_def sample_net_def)

lemma sample_pass1:
  "\<exists>c. so_rx c = greeting_bytes \<and> so_rx_state c = Rx_Open \<and> so_peer c = (''127.0.0.1'', 5000)
     \<and> run_pass greeting_net 10 (\<lambda>_. False) []
         (sample_pending (new_pending greeting_net (''127.0.0.1'', 5000) User_Requested []))
       = Inr (sample_pending \<lparr>pi_conn = c, pi_status = Waiting_For_Resp, pi_type = User_Requested, pi_tag = []\<rparr>)"
  by (simp add: pass_defs sample_pending_def sample_manager_def greeting_net_def sample_net_def sample_sock_def Let_def)

lemma sample_pass2:
  assumes "so_rx c = greeting_bytes" "so_rx_state c = Rx_Open" "so_peer c = (''127.0.0.1'', 5000)"
  shows "\<exists>m. run_pass greeting_net 20 (\<lambda>_. False) []
      (sample_pending \<lparr>pi_conn = c, pi_status = Waiting_For_Resp, pi_type = User_Requested, pi_tag = []\<rparr>) = Inr m
    \<and> map_of (m_addrs m) (''127.0.0.1'', 5000) = Some ''m2''"
  using assms
  by (simp add: pass_defs process_resp_def sample_pending_def sample_manager_def greeting_read [OF assms(1), simplified]
      nothing_read try_to_get_message_def set_conn_def
      greeting_net_def sample_net_def try_to_create_def greeting_of_def finalize_conn_def greet_def
      try_emplace_def em_address_pair_def new_ext_manager_def notify_of_new_neighbor_def send_to_neighbors_if_def
      get_and_handle_messages_def deref_def read_all_def upd_em_def remove_if_dead_def
      send_heartbeat_if_past_interval_def Let_def)

definition sample_run :: "manager_event list" where
  "sample_run = [ME_Connect greeting_net (''10.0.0.2'', 5000), ME_Pass greeting_net 10 (\<lambda>_. False) [],
     ME_Pass greeting_net 20 (\<lambda>_. False) []]"

lemma sample_run_ok: "\<exists>m. run_manager sample_run sample_manager = Inr m \<and> map_of (m_addrs m) (''127.0.0.1'', 5000) = Some ''m2''"
proof -
  obtain c where c: "so_rx c = greeting_bytes" "so_rx_state c = Rx_Open" "so_peer c = (''127.0.0.1'', 5000)"
    "run_pass greeting_net 10 (\<lambda>_. False) []
         (sample_pending (new_pending greeting_net (''127.0.0.1'', 5000) User_Requested []))
       = Inr (sample_pending \<lparr>pi_conn = c, pi_status = Waiting_For_Resp, pi_type = User_Requested, pi_tag = []\<rparr>)"
    using sample_pass1 by blast
  from sample_pass2 [OF c(1-3)] obtain m where
    "run_pass greeting_net 20 (\<lambda>_. False) [] (sample_pending
       \<lparr>pi_conn = c, pi_status = Waiting_For_Resp, pi_type = User_Requested, pi_tag = []\<rparr>) = Inr m"
    "map_of (m_addrs m) (''127.0.0.1'', 5000) = Some ''m2''" by blast
  then show ?thesis
    by (simp add: run_manager_def sample_run_def sample_connect c(4))
qed

lemma manager_no_dangling_witness:
  "\<exists>m. run_manager sample_run sample_manager = Inr m \<and> map_of (m_neighbors m) ''m2'' \<noteq> None"
proof -
  obtain m where m: "run_manager sample_run sample_manager = Inr m"
    "map_of (m_addrs m) (''127.0.0.1'', 5000) = Some ''m2''"
    using sample_run_ok by blast
  from manager_no_dangling [OF sample_manager_new m(1)] m show ?thesis by fastforce
qed

text \<open>C16: A job takes only values of its tag's types: in every run, whatever data other machines send, what a
  waiter gets for a tag has exactly the types that the tag was subscribed with, which are also those that
  arriving data is checked against.\<close>

theorem run_values_typed:
  assumes "new_manager port i heartbeat True = Inr m0" "run_manager es m0 = Inr m"
    and "map_of (m_jobs m) name = Some j" "map_of (job_bufs j) tag = Some ti" "ti_buffer ti = Some b"
    and "value_waiter_get tag j = Inr (Some v, j')"
  shows "map value_type v = db_types b \<and> ti_expected ti = expected_type_for (db_types b)"
proof -
  have "manager_inv m" using assms(1,2) by (rule run_manager_inv)
  then have "job_inv j" using assms(3) by (auto simp: manager_inv_def tables_ok_def dest: map_allD)
  then have ok: "info_ok tag ti" using assms(4) by (rule job_invD)
  obtain b' where g: "db_has_data b" "db_get b = Inr (v, b')"
    using assms(4-6) by (auto simp: value_waiter_get_def rbind_eq_Inr_iff split: if_splits)
  have "span_is_valid (db_types b) v"
    using ok g assms(5) by (auto simp: info_ok_def db_inv_def db_has_data_def db_get_def rassert_def split: if_splits)
  then show ?thesis using ok assms(5) by (simp add: span_is_valid_iff info_ok_def)
qed

definition value_run :: "manager_event list" where
  "value_run = [ME_Submit ''j'', ME_Job ''j'' (Ev_Subscribe [(\<lparr>tag_name = ''pa'', tag_types = expected_type_for [T_int32]\<rparr>, [T_int32])]),
     ME_Publish 3 ''pa'' [V_int32 7]]"

lemma value_run_ok:
  "\<exists>m j ti b j'. run_manager value_run sample_manager = Inr m \<and> map_of (m_jobs m) ''j'' = Some j
     \<and> map_of (job_bufs j) ''pa'' = Some ti \<and> ti_buffer ti = Some b
     \<and> value_waiter_get ''pa'' j = Inr (Some [V_int32 7], j')"
  by (simp add: run_manager_def value_run_def sample_manager_def submit_job_def new_job_def try_emplace_def
      job_event_in_def job_subscribe_def subscribe_range_def init_or_update_subscribe_def init_or_update_one_def
      publish_def process_data_def typed_tag_ok_def types_match_expected set_tag_info_def notify_update_def
      db_defs tag_no_data_def span_is_valid_iff send_to_neighbors_if_def all_em_def value_waiter_get_def
      make_value_def)

lemma run_values_typed_witness:
  "\<exists>m j ti b. run_manager value_run sample_manager = Inr m \<and> map_of (m_jobs m) ''j'' = Some j
     \<and> map_of (job_bufs j) ''pa'' = Some ti \<and> ti_buffer ti = Some b \<and> db_types b = [T_int32]"
proof -
  obtain m j ti b j' where h: "run_manager value_run sample_manager = Inr m" "map_of (m_jobs m) ''j'' = Some j"
    "map_of (job_bufs j) ''pa'' = Some ti" "ti_buffer ti = Some b"
    "value_waiter_get ''pa'' j = Inr (Some [V_int32 7], j')"
    using value_run_ok by blast
  from run_values_typed [OF sample_manager_new h] have "db_types b = [T_int32]" by simp
  with h(1-4) show ?thesis by blast
qed

definition sample_neighbor :: "machine_id \<Rightarrow> manager" where
  "sample_neighbor k = sample_manager\<lparr>m_neighbors := [(k, sample_em k [])],
     m_addrs := [((''10.0.0.2'', 4000), k)]\<rparr>"

section \<open>Neighbours that are gone\<close>

text \<open>What operations on neighbours and groups leave alone.\<close>

definition same_bindings :: "manager \<Rightarrow> manager \<Rightarrow> bool" where
  "same_bindings m m' \<longleftrightarrow> m_tags m' = m_tags m \<and> m_addrs m' = m_addrs m \<and> m_jobs m' = m_jobs m
     \<and> m_pending_tags m' = m_pending_tags m \<and> m_publishers m' = m_publishers m \<and> m_self_subs m' = m_self_subs m"

lemma same_bindings_refl [simp]: "same_bindings m m"
  by (simp add: same_bindings_def)

lemma same_bindings_trans: "same_bindings a b \<Longrightarrow> same_bindings b c \<Longrightarrow> same_bindings a c"
  by (simp add: same_bindings_def)

lemma same_bindings_simps [simp]:
  "same_bindings m (upd_em k f m') = same_bindings m m'" "same_bindings m (all_em g m') = same_bindings m m'"
  "same_bindings m (send_to k msg m') = same_bindings m m'"
  "same_bindings m (send_to_neighbors msg m') = same_bindings m m'"
  "same_bindings m (set_reduce gid h m') = same_bindings m m'"
  "same_bindings m (m'\<lparr>m_notify_sub := b\<rparr>) = same_bindings m m'"
  by (simp_all add: same_bindings_def upd_em_def all_em_def send_to_def send_to_neighbors_def
      send_to_neighbors_if_def set_reduce_def)

lemma same_bindings_fold_send [simp]: "same_bindings m (fold (\<lambda>k. send_to k msg) ks m') = same_bindings m m'"
  by (induction ks arbitrary: m') simp_all

lemma same_bindings_missing [simp]: "same_bindings m (snd (send_and_remove_missing ks msg m')) = same_bindings m m'"
  by (simp add: send_and_remove_missing_def Let_def)

lemma exec_request_bindings: "exec_request gid r m = Inr m' \<Longrightarrow> same_bindings m m'"
  by (cases r) (auto simp: send_reduce_data_to_parent_def send_reduce_data_to_children_def
      send_report_disconnection_def rbind_eq_Inr_iff Let_def case_prod_unfold)

lemma rfold_bindings:
  assumes "rfold f xs m = Inr m'" "\<And>x u v. f x u = Inr v \<Longrightarrow> same_bindings u v"
  shows "same_bindings m m'"
  by (rule rfold_inv [where P = "same_bindings m", OF assms(1)]) (auto intro: same_bindings_trans assms(2))

lemma group_result_bindings:
  assumes "group_result gid r m = Inr m'"
  shows "same_bindings m m'"
proof -
  have "rfold (exec_request (rg_id (snd r))) (fst r) (set_reduce gid (\<lambda>rd. rd\<lparr>rd_group := snd r\<rparr>) m) = Inr m'"
    using assms by (simp add: group_result_def case_prod_unfold)
  then have "same_bindings (set_reduce gid (\<lambda>rd. rd\<lparr>rd_group := snd r\<rparr>) m) m'"
    by (rule rfold_bindings) (rule exec_request_bindings)
  then show ?thesis by (rule same_bindings_trans [rotated]) simp
qed

lemma drop_from_list_bindings: "drop_from_list k gid get upd m = Inr m' \<Longrightarrow> same_bindings m m'"
  by (auto simp: drop_from_list_def rbind_eq_Inr_iff split: if_split_asm dest!: group_result_bindings)
    (rule same_bindings_trans [rotated], assumption, simp)

lemma leave_group_bindings: "leave_group k gid m = Inr m' \<Longrightarrow> same_bindings m m'"
  by (auto simp: leave_group_def rbind_eq_Inr_iff dest!: drop_from_list_bindings intro: same_bindings_trans)

lemma find_publishers_bindings: "find_publishers_for_pending_tags b now m = Inr m' \<Longrightarrow> same_bindings m m'"
  by (auto simp: find_publishers_for_pending_tags_def ask_all_def rbind_eq_Inr_iff same_bindings_def Let_def
      split: if_split_asm)

definition lost_tags :: "machine_id \<Rightarrow> manager \<Rightarrow> tag_id list" where
  "lost_tags k m = map fst (filter (\<lambda>(_, k'). k' = k) (m_tags m))"

lemma remove_if_dead_cases:
  assumes "remove_if_dead k (b, m) = Inr (b', m')"
  obtains em where "map_of (m_neighbors m) k = Some em" "\<not> em_dead em" "m' = m"
  | em m1 where "map_of (m_neighbors m) k = Some em" "em_dead em" "frame m m1" "same_bindings m m1"
      "m_addrs m' = filter (\<lambda>(_, k'). k' \<noteq> k) (m_addrs m)" "m_tags m' = filter (\<lambda>(_, k'). k' \<noteq> k) (m_tags m)"
      "m_jobs m' = fold report_dead_tag (lost_tags k m) (m_jobs m)"
      "m_pending_tags m' = m_pending_tags m @ lost_tags k m" "m_neighbors m' = AList.delete k (m_neighbors m1)"
proof -
  obtain em where em: "deref k m = Inr em" using assms by (auto simp: remove_if_dead_def rbind_eq_Inr_iff)
  then have n: "map_of (m_neighbors m) k = Some em" by (simp add: deref_eq)
  show ?thesis
  proof (cases "em_dead em")
    case False
    then show ?thesis using that(1) [OF n] assms em by (simp add: remove_if_dead_def)
  next
    case True
    let ?m0 = "send_to_neighbors (make_remove_neighbor k) (m\<lparr>m_notify_sub := True\<rparr>)"
    obtain m1 where m1: "rfold (leave_group k) (keys (m_reduce m)) ?m0 = Inr m1"
      and m': "m' = m1\<lparr>m_addrs := filter (\<lambda>(_, k'). k' \<noteq> k) (m_addrs m1),
                 m_tags := filter (\<lambda>(_, k'). k' \<noteq> k) (m_tags m1),
                 m_jobs := fold report_dead_tag (map fst (filter (\<lambda>(_, k'). k' = k) (m_tags m1))) (m_jobs m1),
                 m_pending_tags := m_pending_tags m1 @ map fst (filter (\<lambda>(_, k'). k' = k) (m_tags m1)),
                 m_neighbors := AList.delete k (m_neighbors m1)\<rparr>"
      using assms em True by (auto simp: remove_if_dead_def rbind_eq_Inr_iff Let_def)
    have "same_bindings ?m0 m1" using m1 by (rule rfold_bindings) (rule leave_group_bindings)
    then have "same_bindings m m1" by (rule same_bindings_trans [rotated]) simp
    moreover have "frame m m1"
    proof -
      have "frame m ?m0" by (rule frame_trans [OF _ send_to_neighbors_frame]) simp
      moreover have "frame ?m0 m1" using m1 by (rule rfold_frame) (rule leave_group_frame)
      ultimately show ?thesis by (rule frame_trans)
    qed
    ultimately show ?thesis
      by (intro that(2) [OF n True]) (auto simp: m' same_bindings_def lost_tags_def)
  qed
qed

text \<open>A neighbour that is gone, with the tags that were bound to it.\<close>

definition tag_dead :: "tag_id \<Rightarrow> job \<Rightarrow> bool" where
  "tag_dead tag j \<longleftrightarrow> (\<forall>ti. map_of (job_bufs j) tag = Some ti \<longrightarrow> ti_error ti = Disconnected)"

definition gone :: "machine_id \<Rightarrow> tag_id set \<Rightarrow> manager \<Rightarrow> bool" where
  "gone k tags m \<longleftrightarrow> k \<notin> neighbor_keys m \<and> k \<notin> pointers m
     \<and> (\<forall>tag \<in> tags. \<not> has_key tag (m_tags m) \<and> tag \<in> set (m_pending_tags m)
          \<and> (\<forall>(name, j) \<in> set (m_jobs m). tag_dead tag j))"

lemma mark_tag_dead: "tag_dead tag (mark_tag_as_dead tag j)" "tag_dead tag j \<Longrightarrow> tag_dead tag (mark_tag_as_dead t j)"
  by (auto simp: tag_dead_def mark_tag_as_dead_def map_of_set_tag_info split: option.splits if_splits)

lemma report_dead_tags_dead:
  "\<forall>(name, j) \<in> set js. tag_dead tag j \<Longrightarrow> \<forall>(name, j) \<in> set (fold report_dead_tag tags js). tag_dead tag j"
  "tag \<in> set tags \<Longrightarrow> \<forall>(name, j) \<in> set (fold report_dead_tag tags js). tag_dead tag j"
proof -
  have keep: "\<forall>(name, j) \<in> set js. tag_dead tag j \<Longrightarrow> \<forall>(name, j) \<in> set (fold report_dead_tag tags js). tag_dead tag j"
    for js tags
  proof (induction tags arbitrary: js)
    case (Cons t tags)
    show ?case unfolding fold_simps
      by (rule Cons.IH) (use Cons.prems in \<open>fastforce simp: report_dead_tag_def intro: mark_tag_dead\<close>)
  qed simp
  show "\<forall>(name, j) \<in> set js. tag_dead tag j \<Longrightarrow> \<forall>(name, j) \<in> set (fold report_dead_tag tags js). tag_dead tag j"
    by (rule keep)
  show "tag \<in> set tags \<Longrightarrow> \<forall>(name, j) \<in> set (fold report_dead_tag tags js). tag_dead tag j"
  proof (induction tags arbitrary: js)
    case (Cons t tags)
    show ?case
    proof (cases "tag = t")
      case True
      then have "\<forall>(name, j) \<in> set (report_dead_tag t js). tag_dead tag j"
        by (auto simp: report_dead_tag_def intro: mark_tag_dead)
      then show ?thesis by (simp add: keep)
    next
      case False
      then show ?thesis using Cons by simp
    qed
  qed simp
qed

lemma remove_if_dead_gone:
  assumes "remove_if_dead x (b, m) = Inr (b', m')" "gone k tags m"
  shows "gone k tags m'"
  using assms(1)
proof (cases rule: remove_if_dead_cases)
  case 1
  then show ?thesis using assms(2) by simp
next
  case (2 em m1)
  have "neighbor_keys m1 = neighbor_keys m" using 2(3) by (rule frame_keys)
  then have "neighbor_keys m' \<subseteq> neighbor_keys m"
    using dom_delete_subset [of x "m_neighbors m1"] by (simp add: neighbor_keys_def 2)
  moreover have "pointers m' \<subseteq> pointers m" by (auto simp: pointers_def 2)
  moreover have "has_key tag (m_tags m') \<Longrightarrow> has_key tag (m_tags m)" for tag by (auto simp: has_key_iff 2)
  moreover have "\<forall>(name, j) \<in> set (m_jobs m'). tag_dead tag j" if "tag \<in> tags" for tag
    unfolding 2 by (rule report_dead_tags_dead(1)) (use assms(2) that in \<open>simp add: gone_def\<close>)
  ultimately show ?thesis using assms(2) by (fastforce simp: gone_def 2)
qed

lemma remove_if_dead_now_gone:
  assumes "remove_if_dead k (b, m) = Inr (b', m')" "map_of (m_neighbors m) k = Some em" "em_dead em" "manager_inv m"
  shows "gone k {tag. map_of (m_tags m) tag = Some k} m'"
  using assms(1)
proof (cases rule: remove_if_dead_cases)
  case 1
  then show ?thesis using assms(2,3) by simp
next
  case (2 em' m1)
  have "k \<notin> neighbor_keys m'" using delete_notin_dom [of k "m_neighbors m1"] by (simp add: neighbor_keys_def 2)
  moreover have "k \<notin> pointers m'" by (auto simp: pointers_def 2)
  moreover have "tag \<in> set (lost_tags k m)" "\<not> has_key tag (m_tags m')" if "map_of (m_tags m) tag = Some k" for tag
  proof -
    show "tag \<in> set (lost_tags k m)" using map_of_SomeD [OF that] by (force simp: lost_tags_def)
    have "distinct (map fst (m_tags m))" using assms(4) by (simp add: manager_inv_def tables_ok_def)
    then have "(tag, k') \<in> set (m_tags m) \<Longrightarrow> k' = k" for k' using that by simp
    then show "\<not> has_key tag (m_tags m')" by (auto simp: has_key_iff 2)
  qed
  moreover have "\<forall>(name, j) \<in> set (m_jobs m'). tag_dead tag j" if "map_of (m_tags m) tag = Some k" for tag
    unfolding 2 by (rule report_dead_tags_dead(2)) (rule calculation(3) [OF that])
  ultimately show ?thesis by (auto simp: gone_def 2)
qed

lemma remove_if_dead_other:
  assumes "remove_if_dead x (b, m) = Inr (b', m')" "map_of (m_neighbors m) k = Some em" "em_dead em" "x \<noteq> k"
  shows "\<exists>em'. map_of (m_neighbors m') k = Some em' \<and> em_dead em'"
    and "map_of (m_tags m) tag = Some k \<Longrightarrow> distinct (map fst (m_tags m)) \<Longrightarrow> map_of (m_tags m') tag = Some k"
proof -
  show "\<exists>em'. map_of (m_neighbors m') k = Some em' \<and> em_dead em'"
    using assms(1)
  proof (cases rule: remove_if_dead_cases)
    case 1
    then show ?thesis using assms(2,3) by simp
  next
    case (2 em1 m1)
    obtain em' where "map_of (m_neighbors m1) k = Some em'" "em_frame em em'"
      using 2(3) assms(2) ns_frame_map_of by (force simp: frame_def)
    then show ?thesis using assms(3,4) by (auto simp: 2 em_frame_def)
  qed
  show "map_of (m_tags m) tag = Some k \<Longrightarrow> distinct (map fst (m_tags m)) \<Longrightarrow> map_of (m_tags m') tag = Some k"
    using assms(1)
  proof (cases rule: remove_if_dead_cases)
    case (2 em1 m1)
    assume "map_of (m_tags m) tag = Some k" "distinct (map fst (m_tags m))"
    then show ?thesis using assms(4) by (auto simp: 2 map_of_eq_Some_iff distinct_keys_filter)
  qed simp
qed

lemma remove_if_dead_keys: "remove_if_dead x (b, m) = Inr (b', m') \<Longrightarrow> neighbor_keys m' \<subseteq> neighbor_keys m"
proof (erule remove_if_dead_cases)
  fix em m1 assume "frame m m1" "m_neighbors m' = AList.delete x (m_neighbors m1)"
  then show ?thesis using frame_keys [of m m1] dom_delete_subset [of x "m_neighbors m1"]
    by (simp add: neighbor_keys_def)
qed simp

lemma remove_loop_gone:
  assumes "rfold remove_if_dead xs (b, m) = Inr (b', m')" "manager_inv m" "k \<in> set xs" "distinct xs"
    and "map_of (m_neighbors m) k = Some em" "em_dead em"
  shows "gone k {tag. map_of (m_tags m) tag = Some k} m' \<and> neighbor_keys m' \<subseteq> neighbor_keys m"
  using assms
proof (induction xs arbitrary: b m em)
  case (Cons x xs)
  obtain c u where u: "remove_if_dead x (b, m) = Inr (c, u)" "rfold remove_if_dead xs (c, u) = Inr (b', m')"
    using Cons.prems(1) by (auto simp: rbind_eq_Inr_iff)
  have inv: "manager_inv u" using remove_if_dead_inv [OF u(1)] Cons.prems(2) .
  have keys: "neighbor_keys u \<subseteq> neighbor_keys m" using u(1) by (rule remove_if_dead_keys)
  show ?case
  proof (cases "x = k")
    case True
    have "gone k {tag. map_of (m_tags m) tag = Some k} u"
      using remove_if_dead_now_gone u(1) Cons.prems(2,5,6) True by blast
    then have "gone k {tag. map_of (m_tags m) tag = Some k} (snd (b', m')) \<and> neighbor_keys (snd (b', m')) \<subseteq> neighbor_keys m"
    proof (intro rfold_inv [OF u(2), where P = "\<lambda>s. gone k {tag. map_of (m_tags m) tag = Some k} (snd s)
        \<and> neighbor_keys (snd s) \<subseteq> neighbor_keys m"])
      fix y and s t :: "bool \<times> manager"
      assume P: "gone k {tag. map_of (m_tags m) tag = Some k} (snd s) \<and> neighbor_keys (snd s) \<subseteq> neighbor_keys m"
        and "remove_if_dead y s = Inr t"
      then have y: "remove_if_dead y (fst s, snd s) = Inr (fst t, snd t)" by simp
      show "gone k {tag. map_of (m_tags m) tag = Some k} (snd t) \<and> neighbor_keys (snd t) \<subseteq> neighbor_keys m"
        using remove_if_dead_gone [OF y] remove_if_dead_keys [OF y] P by blast
    qed (use keys in simp)
    then show ?thesis by simp
  next
    case False
    obtain em' where em': "map_of (m_neighbors u) k = Some em'" "em_dead em'"
      using remove_if_dead_other(1) [OF u(1) Cons.prems(5,6) False] by blast
    have "gone k {tag. map_of (m_tags u) tag = Some k} m' \<and> neighbor_keys m' \<subseteq> neighbor_keys u"
      using Cons.IH [OF u(2) inv _ _ em'] Cons.prems(3,4) False by simp
    moreover have "map_of (m_tags m) tag = Some k \<Longrightarrow> map_of (m_tags u) tag = Some k" for tag
      using remove_if_dead_other(2) [OF u(1) Cons.prems(5,6) False] Cons.prems(2)
      by (simp add: manager_inv_def tables_ok_def)
    ultimately show ?thesis using keys by (auto simp: gone_def)
  qed
qed simp

text \<open>C6: After the removal of dead neighbours a neighbour that was dead is gone for good: nothing points to it,
  and every tag that was bound to it is unbound, pending, so that its publishers are searched for again, and
  marked as disconnected in every job. The neighbours that are left were there before, and the invariant
  holds.\<close>

theorem dead_neighbors_removed:
  assumes "manager_inv m" "remove_dead_neighbors now m = Inr m'"
    and "map_of (m_neighbors m) k = Some em" "em_dead em"
  shows "k \<notin> neighbor_keys m' \<and> k \<notin> pointers m' \<and> neighbor_keys m' \<subseteq> neighbor_keys m \<and> manager_inv m'
    \<and> (\<forall>tag. map_of (m_tags m) tag = Some k \<longrightarrow> \<not> has_key tag (m_tags m') \<and> tag \<in> set (m_pending_tags m')
          \<and> (\<forall>name j ti. map_of (m_jobs m') name = Some j \<longrightarrow> map_of (job_bufs j) tag = Some ti
                \<longrightarrow> ti_error ti = Disconnected))"
proof -
  let ?tags = "{tag. map_of (m_tags m) tag = Some k}"
  obtain b m1 where l: "rfold remove_if_dead (keys (m_neighbors m)) (False, m) = Inr (b, m1)"
    and r: "if b then find_publishers_for_pending_tags True now m1 = Inr m' else m' = m1"
    using assms(2) by (auto simp: remove_dead_neighbors_def rbind_eq_Inr_iff split: if_splits)
  have rest: "frame m1 m'" "same_bindings m1 m'"
    using r by (auto split: if_splits intro: find_publishers_frame find_publishers_bindings)
  have d: "distinct (keys (m_neighbors m))" and k: "k \<in> set (keys (m_neighbors m))"
    using assms(1) map_of_SomeD [OF assms(3)] by (force simp: manager_inv_def keys_def)+
  have "gone k ?tags m1 \<and> neighbor_keys m1 \<subseteq> neighbor_keys m"
    by (rule remove_loop_gone [OF l assms(1) k d assms(3,4)])
  moreover have "neighbor_keys m' = neighbor_keys m1" by (rule frame_keys [OF rest(1)])
  moreover have "pointers m' = pointers m1" using rest(2) by (simp add: pointers_def same_bindings_def)
  moreover have "tag_dead tag j" if "map_of (m_jobs m') name = Some j" "tag \<in> ?tags" for name j tag
    using calculation(1) that map_of_SomeD [OF that(1)] rest(2) by (auto simp: gone_def same_bindings_def)
  ultimately show ?thesis using rest(2) remove_dead_neighbors_inv [OF assms(2,1)]
    by (auto simp: gone_def same_bindings_def tag_dead_def)
qed

definition sample_dead :: manager where
  "sample_dead = sample_manager\<lparr>m_neighbors := [(''m2'', mark_as_dead (sample_em ''m2'' []))],
     m_addrs := [((''10.0.0.2'', 4000), ''m2'')], m_tags := [(''pa'', ''m2'')], m_jobs := [(''j'', sample_job)]\<rparr>"

lemma sample_dead_inv: "manager_inv sample_dead"
  by (simp add: manager_inv_def tables_ok_def pointers_def neighbor_keys_def sample_dead_def sample_manager_def
      sample_job_inv em_ok_def sample_em_def new_ext_manager_def mark_as_dead_def)

lemma dead_neighbors_removed_witness:
  "\<exists>m. remove_dead_neighbors 5 sample_dead = Inr m \<and> m_neighbors m = [] \<and> ''pa'' \<in> set (m_pending_tags m)
     \<and> \<not> has_key ''pa'' (m_tags m)"
proof -
  obtain m where m: "remove_dead_neighbors 5 sample_dead = Inr m" "m_neighbors m = []"
    by (simp add: remove_dead_neighbors_def remove_if_dead_def deref_def sample_dead_def sample_manager_def keys_def
        find_publishers_for_pending_tags_def ask_all_def send_to_neighbors_def send_to_neighbors_if_def all_em_def
        sample_em_def new_ext_manager_def mark_as_dead_def em_send_def Let_def)
  have "map_of (m_neighbors sample_dead) ''m2'' = Some (mark_as_dead (sample_em ''m2'' []))"
    "em_dead (mark_as_dead (sample_em ''m2'' []))" "map_of (m_tags sample_dead) ''pa'' = Some ''m2''"
    by (simp_all add: sample_dead_def sample_manager_def mark_as_dead_def)
  with dead_neighbors_removed [OF sample_dead_inv m(1)] m show ?thesis by blast
qed

end
