(* ===== verification/Sky_Message_Loop.thy ===== *)
theory Sky_Message_Loop
  imports Sky_Manager_Props
begin

text \<open>
  The loop over the messages of a socket (\<^verbatim>\<open>ExternalManager::get_and_handle_messages\<close>) ends. It ends by itself, since
  a message takes its bytes from the socket; and no handler runs forever: the only loop of a handler that could is
  the search for a free port (\<open>free_key\<close>), which finds one while fewer than 65536 connections are pending. A handler
  starts at most one connection for each tag that was pending and is so no longer, so the number of both together
  does not grow.
\<close>

section \<open>Operations that come to an end\<close>

definition returns :: "('a \<Rightarrow> bool) \<Rightarrow> 'a res \<Rightarrow> bool" where
  "returns P r \<longleftrightarrow> (case r of Inl e \<Rightarrow> e \<noteq> Runs_Forever | Inr x \<Rightarrow> P x)"

lemma returns_simps [simp]:
  "returns P (Inl e) \<longleftrightarrow> e \<noteq> Runs_Forever" "returns P (Inr x) \<longleftrightarrow> P x"
  "returns P (rassert b r) \<longleftrightarrow> (b \<longrightarrow> returns P r)"
  by (auto simp: returns_def rassert_def)

lemma returns_bind: "returns P (rbind r f) \<longleftrightarrow> returns (\<lambda>x. returns P (f x)) r"
  by (cases r) simp_all

lemma returns_then:
  "returns (\<lambda>_. True) r \<Longrightarrow> (\<And>x. r = Inr x \<Longrightarrow> returns P (f x)) \<Longrightarrow> returns P (rbind r f)"
  by (cases r) simp_all

lemma returns_mono: "returns Q r \<Longrightarrow> (\<And>x. r = Inr x \<Longrightarrow> Q x \<Longrightarrow> P x) \<Longrightarrow> returns P r"
  by (cases r) auto

lemma returns_rfold:
  assumes "P [] s" "\<And>before x s. P before s \<Longrightarrow> x \<in> set xs \<Longrightarrow> returns (P (before @ [x])) (f x s)"
  shows "returns (P xs) (rfold f xs s)"
proof -
  have "returns (P (before @ ys)) (rfold f ys s)" if "P before s" "set ys \<subseteq> set xs" for before ys s
    using that
  proof (induction ys arbitrary: before s)
    case (Cons y ys)
    show ?case unfolding rfold.simps returns_bind
      by (rule returns_mono [OF assms(2) [OF Cons.prems(1), of y]])
        (use Cons.prems(2) Cons.IH [of "before @ [y]"] in auto)
  qed simp
  from this [of "[]" s xs] assms(1) show ?thesis by simp
qed

lemma returns_rfold_any:
  assumes "P s" "\<And>x s. x \<in> set xs \<Longrightarrow> P s \<Longrightarrow> returns P (f x s)"
  shows "returns P (rfold f xs s)"
  using returns_rfold [where P = "\<lambda>_. P"] assms by metis

lemma returns_rmap: "(\<And>k em. returns (\<lambda>_. True) (f k em)) \<Longrightarrow> returns (\<lambda>_. True) (rmap_em f ns)"
proof (induction f ns rule: rmap_em.induct)
  case (2 f k em xs)
  then show ?case by (auto simp: returns_bind intro: returns_mono)
qed simp

text \<open>The number of pending connections and of pending tags.\<close>

definition sizes :: "manager \<Rightarrow> nat \<times> nat" where
  "sizes m = (length (m_pending m), length (m_pending_tags m))"

definition load :: "manager \<Rightarrow> nat" where
  "load m = length (m_pending m) + length (m_pending_tags m)"

lemma sizes_load: "sizes m' = sizes m \<Longrightarrow> load m' = load m"
  by (simp add: sizes_def load_def)

lemma sizes_simps [simp]:
  "sizes (upd_em k f m) = sizes m" "sizes (send_to k msg m) = sizes m" "sizes (set_reduce gid h m) = sizes m"
  "sizes (m\<lparr>m_neighbors := ns\<rparr>) = sizes m" "sizes (m\<lparr>m_jobs := js\<rparr>) = sizes m" "sizes (m\<lparr>m_publishers := ps\<rparr>) = sizes m"
  "sizes (m\<lparr>m_send_info := si\<rparr>) = sizes m" "sizes (m\<lparr>m_self_subs := ss\<rparr>) = sizes m" "sizes (m\<lparr>m_tags := ts\<rparr>) = sizes m"
  "sizes (m\<lparr>m_notify_sub := b\<rparr>) = sizes m" "sizes (m\<lparr>m_notify_reduce := b\<rparr>) = sizes m"
  by (simp_all add: sizes_def upd_em_def send_to_def set_reduce_def)

lemma sizes_fold_send [simp]: "sizes (fold (\<lambda>k. send_to k msg) ks m) = sizes m"
  by (induction ks arbitrary: m) simp_all

lemma sizes_missing: "send_and_remove_missing ks msg m = (ks', m') \<Longrightarrow> sizes m' = sizes m"
  by (auto simp: send_and_remove_missing_def Let_def)

section \<open>The parts of the handlers\<close>

lemma returns_deref [simp]: "returns (\<lambda>_. True) (deref k m)"
  by (simp add: deref_def split: option.splits)

lemma returns_buffers [simp]:
  "returns (\<lambda>_. True) (db_add v n d)" "returns (\<lambda>_. True) (fifo_add v n b)" "returns (\<lambda>_. True) (fifo_get n b)"
proof -
  have "returns (\<lambda>_. True) (fifo_loop n l)" for l
    by (induction n l rule: fifo_loop.induct) auto
  then show "returns (\<lambda>_. True) (fifo_get n b)" by (auto simp: fifo_get_def intro!: returns_then)
qed (simp_all add: db_add_def fifo_add_def make_value_def returns_bind)

lemma returns_deliver: "returns (\<lambda>_. True) (deliver tag v n js)"
proof (induction tag v n js rule: deliver.induct)
  case (2 tag v n name j js)
  have "returns (\<lambda>_. True) (process_data tag v n j)"
    by (auto simp: process_data_def split: option.splits intro!: returns_then)
  then show ?case using 2 by (auto intro!: returns_then)
qed simp

lemma returns_add_index: "returns (\<lambda>_. True) (add_data_index i v n g)"
  by (auto simp: add_data_index_def intro!: returns_then)

lemma returns_take_children: "returns (\<lambda>_. True) (take_children n g)"
  by (auto simp: take_children_def Let_def intro!: returns_then)

lemma returns_pending: "returns (\<lambda>_. True) (pending_loop ps g)"
proof (induction ps arbitrary: g)
  case (Cons p ps)
  then show ?case
    by (auto simp: Let_def intro!: returns_then returns_take_children returns_add_index Cons.IH)
qed simp

lemma returns_rg_add_data: "returns (\<lambda>_. True) (rg_add_data tag v n g)"
  by (auto simp: rg_add_data_def Let_def process_pending_reduce_ops_def
      intro!: returns_then returns_add_index returns_pending)

lemma returns_find_group [simp]: "returns (\<lambda>_. True) (find_group gid m)"
  by (simp add: find_group_def split: option.splits)

lemma returns_exec: "returns (\<lambda>m'. sizes m' = sizes m) (exec_request gid q m)"
  by (cases q)
    (auto simp: send_reduce_data_to_parent_def send_reduce_data_to_children_def send_report_disconnection_def
      Let_def case_prod_unfold send_and_remove_missing_def intro!: returns_then)

lemma returns_group_result: "returns (\<lambda>m'. sizes m' = sizes m) (group_result gid r m)"
  unfolding group_result_def case_prod_unfold
  by (rule returns_rfold_any) (auto intro: returns_mono [OF returns_exec])

lemma returns_known: "returns (\<lambda>_. True) (make_known_tag_publisher_message m)"
  by (simp add: make_known_tag_publisher_message_def make_report_publishers_def Let_def)

lemma returns_find_publishers: "returns (\<lambda>_. True) (find_publishers_for_tags tags n em)"
  by (simp add: find_publishers_for_tags_def make_get_publishers_def returns_bind)

lemma returns_get_publishers: "returns (\<lambda>m'. sizes m' = sizes m) (handle_get_publishers now tags wanted ig k m)"
proof -
  have "returns (\<lambda>_. True) (rmap_em (\<lambda>k em. if k \<noteq> src then find_publishers_for_tags ts n
      (reset_backoff_counter now em) else Inr em) ns)" for src ts n ns
    by (rule returns_rmap) (simp add: returns_find_publishers)
  then show ?thesis
    by (auto simp: handle_get_publishers_def remove_tags_with_enough_publishers_def zip_remove_if_def Let_def
        intro!: returns_then returns_known)
qed

section \<open>Connections for pending tags\<close>

lemma returns_init_one:
  "returns (\<lambda>(kept', to_conn', m'). sizes m' = sizes m
     \<and> length kept' + length to_conn' \<le> Suc (length kept + length to_conn)) (init_one tag (kept, to_conn, m))"
proof -
  have g: "returns (\<lambda>m'. sizes m' = sizes u) (finalize_reduce_groups k t u)" for k t u
  proof -
    have "returns (\<lambda>m'. sizes m' = sizes u) (finalize_reduce_group k gid v)" if "sizes v = sizes u" for v gid
      using that by (auto simp: finalize_reduce_group_def Let_def intro!: returns_then)
    then show ?thesis
      unfolding finalize_reduce_groups_def
      by (intro returns_rfold_any) (auto simp: returns_bind group_from_parent_tag_def split: option.splits)
  qed
  have l: "length (AList.map_entry k h xs) = length xs" for k :: string and h :: "string \<Rightarrow> string" and xs
    by (induction xs) auto
  show ?thesis
    by (auto simp: init_one_def add_to_conn_def finalize_subscription_def deref_def Let_def returns_bind l
        split: option.splits list.splits intro!: returns_mono [OF g])
qed

lemma free_key_found:
  assumes "length pending < 65536"
  shows "\<exists>key. free_key ap pending = Inr key"
proof (rule ccontr)
  assume c: "\<not> ?thesis"
  define f :: "nat \<Rightarrow> addr_port" where "f = (\<lambda>k. (fst ap, snd ap + of_nat k))"
  have "find (\<lambda>k. \<not> has_key (f k) pending) [0..<65536] = None"
    using c by (auto simp: free_key_def f_def split: option.splits)
  then have "f ` {..<65536} \<subseteq> fst ` set pending" by (auto simp: find_None_iff has_key_iff)
  then have "card (f ` {..<65536}) \<le> card (fst ` set pending)" by (rule card_mono [rotated]) simp
  also have "\<dots> \<le> length pending" by (metis card_length length_map set_map)
  finally have "card (f ` {..<65536}) \<le> length pending" .
  moreover have "inj_on f {..<65536}"
  proof (rule inj_onI)
    fix x y :: nat
    assume "x \<in> {..<65536}" "y \<in> {..<65536}" "f x = f y"
    then have "(of_nat x :: 16 word) = of_nat y" "x < 2 ^ 16" "y < 2 ^ 16" by (simp_all add: f_def)
    then show "x = y" by (simp add: word_of_nat_eq_iff take_bit_nat_eq_self)
  qed
  ultimately show False using assms by (simp add: card_image)
qed

lemma returns_start_conn:
  assumes "length (m_pending m) < 65536"
  shows "returns (\<lambda>m'. length (m_pending m') \<le> Suc (length (m_pending m)) \<and> m_pending_tags m' = m_pending_tags m)
    (start_conn net p m)"
proof -
  obtain key where "free_key (split_address (fst p)) (m_pending m) = Inr key" using free_key_found [OF assms] by blast
  then show ?thesis
    by (auto simp: start_conn_def case_prod_unfold returns_bind connect_non_blocking_str_def connect_non_blocking_def
        Let_def try_emplace_def)
qed

lemma returns_init_connections:
  assumes "load m < 65536"
  shows "returns (\<lambda>m'. load m' \<le> load m) (init_connections_for_pending_tags net m)"
  unfolding init_connections_for_pending_tags_def returns_bind
proof (rule returns_mono [where Q = "\<lambda>(kept, to_conn, m'). sizes m' = sizes m
    \<and> length kept + length to_conn \<le> length (m_pending_tags m)"])
  show "returns (\<lambda>(kept, to_conn, m'). sizes m' = sizes m \<and> length kept + length to_conn \<le> length (m_pending_tags m))
      (rfold init_one (m_pending_tags m) ([], [], m))"
    by (rule returns_rfold [where P = "\<lambda>before (kept, to_conn, m'). sizes m' = sizes m
          \<and> length kept + length to_conn \<le> length before"])
      (auto intro!: returns_mono [OF returns_init_one])
next
  fix r :: "tag_id list \<times> (string \<times> string) list \<times> manager"
  assume q: "case r of (kept, to_conn, m') \<Rightarrow> sizes m' = sizes m \<and> length kept + length to_conn \<le> length (m_pending_tags m)"
  obtain kept to_conn m1 where r: "r = (kept, to_conn, m1)" by (cases r) auto
  have s: "length (m_pending m1) = length (m_pending m)" "length kept + length to_conn \<le> length (m_pending_tags m)"
    using q r by (simp_all add: sizes_def)
  have "returns (\<lambda>m2. length (m_pending m2) \<le> length (m_pending m) + length to_conn) (rfold (start_conn net) to_conn m1)"
  proof -
    have step: "returns (\<lambda>m2. length (m_pending m2) \<le> length (m_pending m) + length (before @ [x]) \<and> length (before @ [x]) \<le> length to_conn)
        (start_conn net x u)"
      if "length (m_pending u) \<le> length (m_pending m) + length before" "length before < length to_conn" for before x u
    proof -
      have "length (m_pending u) < 65536" using that s assms by (simp add: load_def)
      from returns_start_conn [OF this] show ?thesis by (rule returns_mono) (use that in auto)
    qed
    have "returns (\<lambda>m2. length (m_pending m2) \<le> length (m_pending m) + length (before @ ys)) (rfold (start_conn net) ys u)"
      if "length (m_pending u) \<le> length (m_pending m) + length before" "length before + length ys \<le> length to_conn" for before ys u
      using that
    proof (induction ys arbitrary: before u)
      case (Cons y ys)
      show ?case unfolding rfold.simps returns_bind
        by (rule returns_mono [OF step [OF Cons.prems(1)]]) (use Cons.prems(2) Cons.IH [of _ "before @ [y]"] in auto)
    qed simp
    from this [of m1 "[]" to_conn] s(1) show ?thesis by simp
  qed
  then show "returns (\<lambda>m'. load m' \<le> load m)
      (case r of (kept, to_conn, m1) \<Rightarrow> rbind (rfold (start_conn net) to_conn m1) (\<lambda>m2. Inr (m2\<lparr>m_pending_tags := kept\<rparr>)))"
    using s(2) by (auto simp: r returns_bind load_def elim!: returns_mono)
qed

lemma returns_add_publishers:
  assumes "load m < 65536"
  shows "returns (\<lambda>m'. load m' \<le> load m) (add_publishers_and_propagate net tags ps ms ext k m)"
proof -
  have i: "returns (\<lambda>m'. load m' \<le> load m) (init_connections_for_pending_tags net u)" if "sizes u = sizes m" for u
    using returns_init_connections [of u net] assms sizes_load [OF that] by simp
  have f: "returns (\<lambda>_. True) (rfold (\<lambda>p. insert_publisher_infos (fst p) (fst (snd p)) (snd (snd p))) zs qs)" for zs qs
    by (rule returns_rfold_any) (auto simp: insert_publisher_infos_def)
  show ?thesis
    by (auto simp: add_publishers_and_propagate_def Let_def case_prod_unfold
        rbind_eq_Inr_iff intro!: returns_then f returns_known i split: if_split_asm)
qed

section \<open>The handlers and the loop\<close>

lemma returns_handle_message:
  assumes "load m < 65536"
  shows "returns (\<lambda>m'. load m' \<le> load m) (handle_message net now k msg m)"
proof -
  have d: "returns (\<lambda>r. load (snd r) \<le> load m) (handle_publish_data d m)" for d
    by (auto simp: handle_publish_data_def returns_bind load_def split: option.splits intro!: returns_mono [OF returns_deliver])
  have v: "returns (\<lambda>r. load (snd r) \<le> load m) (handle_reduce_value t d m)" for t d
    by (auto simp: handle_reduce_value_def returns_bind case_prod_unfold split: option.splits
        intro!: returns_mono [OF returns_rg_add_data] returns_mono [OF returns_group_result] dest!: sizes_load)
  have x: "returns (\<lambda>r. load (snd r) \<le> load m) (handle_report_reduce_disconnection t c i m)" for t c i
    by (auto simp: handle_report_reduce_disconnection_def returns_bind split: option.splits
        intro!: returns_mono [OF returns_group_result] dest!: sizes_load)
  have j: "load (snd (handle_join_reduce_group t p k m)) \<le> load m" for t p
    by (auto simp: handle_join_reduce_group_def Let_def case_prod_unfold load_def set_reduce_def split: option.splits)
  have n: "returns (\<lambda>r. load (snd r) \<le> load m) (handle_subscription_notice tags k m)" for tags
    by (auto simp: handle_subscription_notice_def returns_bind Let_def case_prod_unfold load_def upd_em_def
        intro!: returns_mono [OF returns_deref])
  have p: "returns (\<lambda>r. load (snd r) \<le> load m) (handle_report_publishers net now tags as ms l k m)" for tags as ms l
    by (auto simp: handle_report_publishers_def returns_bind intro!: returns_mono [OF returns_add_publishers [OF assms]])
      (simp add: load_def upd_em_def)
  have g: "returns (\<lambda>r. load (snd r) \<le> load m) (rbind (handle_get_publishers now tags wanted ig k m) (\<lambda>m'. Inr (True, m')))"
    for tags wanted ig
    by (auto simp: returns_bind intro!: returns_mono [OF returns_get_publishers] dest!: sizes_load)
  have u: "load (upd_em k f w) = load w" for f w by (simp add: load_def upd_em_def)
  have c: "returns (\<lambda>r. load (snd r) \<le> load m) (message_callback net now k cb m)" for cb
    by (cases cb) (simp_all add: d v x j n p g u)
  have "returns (\<lambda>r. load (snd r) \<le> load m) (do_callback (message_callback net now k) msg m)"
    by (simp add: do_callback_def c split: option.splits)
  then show ?thesis by (auto simp: handle_message_def returns_bind u elim!: returns_mono)
qed

lemma returns_loop:
  assumes "map_of (m_neighbors m) k = Some em" "i < length (em_conns em)" "length (so_rx (em_conns em ! i)) < n"
    and "load m < 65536"
  shows "returns (\<lambda>m'. load m' \<le> load m) (message_loop n net now k i m)"
  using assms
proof (induction n arbitrary: m em)
  case (Suc n)
  have t: "returns (\<lambda>_. True) (try_to_get_message net i em)"
    by (auto simp: try_to_get_message_def read_network_size_def returns_bind Let_def case_prod_unfold split: sum.splits)
  have d: "deref k m = Inr em" using Suc.prems(1) by (simp add: deref_def)
  have "returns (\<lambda>m'. load m' \<le> load m) (message_loop n net now k i m2)"
    if r: "try_to_get_message net i em = Inr (Some msg, em')"
      and h: "handle_message net now k msg (upd_em k (\<lambda>_. em'\<lparr>em_last_heard := now\<rparr>) m) = Inr m2" "load m2 \<le> load m"
    for msg em' m2
  proof -
    obtain em2 where "map_of (m_neighbors m2) k = Some em2" "i < length (em_conns em2)"
        "length (so_rx (em_conns em2 ! i)) < n"
      using message_taken [OF Suc.prems(1,2) r h(1)] Suc.prems(3) by fastforce
    from Suc.IH [OF this] Suc.prems(4) h(2) show ?thesis by (auto elim!: returns_mono)
  qed
  moreover have "load (upd_em k f m) = load m" for f by (simp add: load_def upd_em_def)
  ultimately show ?case
    using Suc.prems(4)
    by (auto simp: d returns_bind split: option.splits intro!: returns_mono [OF t] returns_mono [OF returns_handle_message])
qed simp

text \<open>C31: The loop over the messages of a socket ends. While fewer than 65536 connections and tags are pending
  together, \<open>read_all\<close> comes to an end: it does not run forever, neither in the loop nor in a handler, and afterwards
  not more connections and tags are pending than before. And the fuel of the model is only a bound: a message takes
  its bytes from what has arrived, and no handler puts any back, so that every number of rounds above the number of
  bytes gives the same result.\<close>

theorem message_loop_ends:
  assumes "map_of (m_neighbors m) k = Some em" "i < length (em_conns em)" "length (so_rx (em_conns em ! i)) < n"
  shows "message_loop n net now k i m = read_all net now k i m
    \<and> (length (m_pending m) + length (m_pending_tags m) < 65536 \<longrightarrow>
        read_all net now k i m \<noteq> Inl Runs_Forever
        \<and> (\<forall>m'. read_all net now k i m = Inr m' \<longrightarrow>
             length (m_pending m') + length (m_pending_tags m') \<le> length (m_pending m) + length (m_pending_tags m)))"
proof -
  have "read_all net now k i m = message_loop (Suc (length (so_rx (em_conns em ! i)))) net now k i m"
    using assms(1) by (simp add: read_all_def deref_def)
  also have "\<dots> = message_loop n net now k i m"
    by (rule message_loop_fuel [OF assms(1,2)]) (use assms(3) in simp_all)
  finally have e: "read_all net now k i m = message_loop n net now k i m" .
  have "returns (\<lambda>m'. load m' \<le> load m) (read_all net now k i m)" if "load m < 65536"
    unfolding e using returns_loop [OF assms that] .
  then show ?thesis using e by (auto simp: load_def)
qed

lemma message_loop_ends_witness:
  "message_loop 7 sample_net 5 ''m2'' 0 (sample_neighbor ''m2'') = read_all sample_net 5 ''m2'' 0 (sample_neighbor ''m2'')
   \<and> read_all sample_net 5 ''m2'' 0 (sample_neighbor ''m2'') \<noteq> Inl Runs_Forever"
proof -
  have n: "map_of (m_neighbors (sample_neighbor ''m2'')) ''m2'' = Some (sample_em ''m2'' [])"
    by (simp add: sample_neighbor_def sample_manager_def)
  have c: "0 < length (em_conns (sample_em ''m2'' []))" "length (so_rx (em_conns (sample_em ''m2'' []) ! 0)) < 7"
    by (simp_all add: sample_em_def new_ext_manager_def sample_sock_def)
  have "length (m_pending (sample_neighbor ''m2'')) + length (m_pending_tags (sample_neighbor ''m2'')) < 65536"
    by (simp add: sample_neighbor_def sample_manager_def)
  with message_loop_ends [OF n c] show ?thesis by blast
qed

end
