(* ===== verification/Sky_Admm.thy ===== *)
theory Sky_Admm
  imports Sky_Reduce_Group Complex_Main
begin

text \<open>
  \<^verbatim>\<open>examples/admm/admm.cpp\<close>: five machines that solve a system of linear equations together, by a hill climb of
  each and an average of all, with real numbers for \<^verbatim>\<open>double\<close>. What the program expects of the average is a
  locale; with real numbers, the \<^verbatim>\<open>allreduce\<close> of a reduce group and the shared arrays of \<^verbatim>\<open>run_locally\<close> provide it. The random starting
  points are arguments; the output of the status is left out.
\<close>

section \<open>The problem\<close>

type_synonym vec = "real list"

definition num_machines :: nat where "num_machines = 5"

definition linear_problems :: "vec list" where
  "linear_problems =
     [[1, 2, 3, 4, 5, 1114], [11, 18, 5, 20, 80, 12491], [8, 1, 4, 1, 2, 3009], [10, 45, 19, 10, 3, 5816], [2, 8, 20, 49, 88, 18502]]"

definition real_solution :: vec where
  "real_solution = [274244569 / 219675, 74157917 / 219675, - 458561492 / 219675, 420005392 / 219675, - 32145303 / 73225]"

definition target_function :: "vec \<Rightarrow> vec \<Rightarrow> real" where
  "target_function problem solution =
     (fold (\<lambda>i s. s + problem ! i * solution ! i) [0..<length solution] 0 - last problem) ^ 2"

definition evaluate_solution :: "vec \<Rightarrow> vec \<Rightarrow> vec \<Rightarrow> vec \<Rightarrow> real \<Rightarrow> real" where
  "evaluate_solution problem solution global_solution y roe =
     (let f_x = target_function problem solution;
          local_minus_global = map (\<lambda>i. solution ! i - global_solution ! i) [0..<num_machines];
          y_scaled = fold (\<lambda>v s. s + v) (map (\<lambda>i. y ! i * local_minus_global ! i) [0..<num_machines]) 0;
          norm_squared = fold (\<lambda>v so_far. so_far + v * v) local_minus_global 0
      in f_x + y_scaled + roe / 2 * norm_squared)"

section \<open>The hill climb\<close>

text \<open>\<open>ev\<close> is the evaluation with everything but the solution fixed. A step that makes it worse is undone.\<close>

definition apply_step :: "(vec \<Rightarrow> real) \<Rightarrow> real \<Rightarrow> nat \<Rightarrow> real \<Rightarrow> vec \<Rightarrow> vec" where
  "apply_step ev start_distance i step solution =
     (let solution' = solution[i := solution ! i + step]
      in if ev solution' > start_distance then solution'[i := solution' ! i - step] else solution')"

fun try_steps :: "(vec \<Rightarrow> real) \<Rightarrow> real \<Rightarrow> real \<Rightarrow> nat \<Rightarrow> real list \<Rightarrow> vec \<Rightarrow> bool \<times> vec" where
  "try_steps ev start_distance start_value i [] solution = (False, solution)"
| "try_steps ev start_distance start_value i (step # steps) solution =
     (let solution' = apply_step ev start_distance i step solution
      in if start_value \<noteq> solution' ! i then (True, solution')
         else try_steps ev start_distance start_value i steps solution')"

definition climb_coordinate :: "(vec \<Rightarrow> real) \<Rightarrow> nat \<Rightarrow> vec \<times> vec \<Rightarrow> vec \<times> vec" where
  "climb_coordinate ev i = (\<lambda>(solution, step_sizes).
     let (improved, solution') = try_steps ev (ev solution) (solution ! i) i [step_sizes ! i, - step_sizes ! i] solution
     in (solution', if \<not> improved then step_sizes[i := step_sizes ! i * (3 / 4)] else step_sizes))"

text \<open>\<open>k\<close> is what is left of \<^verbatim>\<open>max_iters\<close>.\<close>

fun climb_loop :: "(vec \<Rightarrow> real) \<Rightarrow> real \<Rightarrow> nat \<Rightarrow> vec \<times> vec \<Rightarrow> vec" where
  "climb_loop ev error_threshold 0 s = fst s"
| "climb_loop ev error_threshold (Suc k) s =
     (if ev (fst s) \<ge> error_threshold
      then climb_loop ev error_threshold k (fold (climb_coordinate ev) [0..<length (fst s)] s)
      else fst s)"

definition hill_climb :: "vec \<Rightarrow> vec \<Rightarrow> vec \<Rightarrow> vec \<Rightarrow> real \<Rightarrow> real \<Rightarrow> real \<Rightarrow> vec" where
  "hill_climb problem initial_guess global_solution y roe initial_step_size error_threshold =
     climb_loop (\<lambda>solution. evaluate_solution problem solution global_solution y roe) error_threshold 1000
       (initial_guess, replicate (length initial_guess) initial_step_size)"

lemma apply_step_le:
  assumes "i < length solution"
  shows "ev (apply_step ev (ev solution) i step solution) \<le> ev solution"
    "length (apply_step ev d i step solution) = length solution"
    "\<not> ev (apply_step ev d i step solution) \<le> d \<Longrightarrow> apply_step ev d i step solution = solution"
  using assms by (auto simp: apply_step_def Let_def)

lemma apply_step_same:
  "apply_step ev d i step solution ! i = solution ! i \<Longrightarrow> apply_step ev d i step solution = solution"
  by (cases "i < length solution") (auto simp: apply_step_def Let_def list_update_beyond split: if_split_asm)

lemma try_steps_le:
  assumes "i < length solution" "v = solution ! i"
  shows "ev (snd (try_steps ev (ev solution) v i steps solution)) \<le> ev solution
    \<and> length (snd (try_steps ev (ev solution) v i steps solution)) = length solution"
proof (induction steps)
  case (Cons step steps)
  show ?case
  proof (cases "v = apply_step ev (ev solution) i step solution ! i")
    case True
    then have "apply_step ev (ev solution) i step solution = solution" using assms(2) apply_step_same by metis
    then show ?thesis using Cons assms(2) by (simp add: Let_def)
  next
    case False
    then show ?thesis using apply_step_le [OF assms(1)] by (simp add: Let_def)
  qed
qed simp

lemma climb_coordinate_le:
  assumes "i < length (fst s)"
  shows "ev (fst (climb_coordinate ev i s)) \<le> ev (fst s) \<and> length (fst (climb_coordinate ev i s)) = length (fst s)"
  using try_steps_le [OF assms refl, of ev "[snd s ! i, - snd s ! i]"]
  by (simp add: climb_coordinate_def case_prod_unfold Let_def)

lemma climb_fold_le:
  "\<forall>i \<in> set is. i < length (fst s) \<Longrightarrow>
    ev (fst (fold (climb_coordinate ev) is s)) \<le> ev (fst s) \<and> length (fst (fold (climb_coordinate ev) is s)) = length (fst s)"
proof (induction "is" arbitrary: s)
  case (Cons i "is")
  then show ?case using climb_coordinate_le [of i s ev] Cons.IH [of "climb_coordinate ev i s"] by fastforce
qed simp

lemma climb_loop_le: "ev (climb_loop ev t k s) \<le> ev (fst s) \<and> length (climb_loop ev t k s) = length (fst s)"
proof (induction k arbitrary: s)
  case (Suc k)
  have "ev (fst (fold (climb_coordinate ev) [0..<length (fst s)] s)) \<le> ev (fst s)
      \<and> length (fst (fold (climb_coordinate ev) [0..<length (fst s)] s)) = length (fst s)" by (rule climb_fold_le) simp
  then show ?case using Suc.IH [of "fold (climb_coordinate ev) [0..<length (fst s)] s"] by simp
qed simp

lemma hill_climb_le: "evaluate_solution p (hill_climb p x g y roe s t) g y roe \<le> evaluate_solution p x g y roe"
  using climb_loop_le [of "\<lambda>x. evaluate_solution p x g y roe" t 1000 "(x, replicate (length x) s)"] by (simp add: hill_climb_def)

lemma hill_climb_length [simp]: "length (hill_climb p x g y roe s t) = length x"
  by (simp add: hill_climb_def climb_loop_le)

section \<open>The work of a machine\<close>

record admm =
  am_local :: vec
  am_global :: vec
  am_y :: vec

definition start_machine :: "vec \<Rightarrow> admm" where
  "start_machine initial = \<lparr>am_local = initial, am_global = replicate num_machines 0, am_y = replicate num_machines 0\<rparr>"

definition is_locally_converged :: "vec \<Rightarrow> vec \<Rightarrow> bool" where
  "is_locally_converged global_solution local_solution \<longleftrightarrow>
     list_all (\<lambda>i. \<not> \<bar>global_solution ! i - local_solution ! i\<bar> \<ge> 1 / 10000) [0..<length global_solution]"

definition update_y :: "admm \<Rightarrow> vec \<Rightarrow> vec" where
  "update_y a global_solution =
     map (\<lambda>i. am_y a ! i + 5 * (am_local a ! i - global_solution ! i)) [0..<length (am_local a)]"

definition admm_update :: "vec \<Rightarrow> nat \<Rightarrow> admm \<Rightarrow> admm" where
  "admm_update global_solution index a =
     (let y = update_y a global_solution
      in \<lparr>am_local = hill_climb (linear_problems ! index) (am_local a) global_solution y 5 5 (1 / 1000000),
          am_global = global_solution, am_y = y\<rparr>)"

text \<open>One iteration of all machines, which wait for one another in \<^verbatim>\<open>get_global_and_converged\<close>, and whether it was the
  last.\<close>

definition contribution :: "admm \<Rightarrow> bool \<times> vec" where
  "contribution a = (is_locally_converged (am_global a) (am_local a), am_local a)"

definition admm_round :: "((bool \<times> vec) list \<Rightarrow> vec \<times> bool) \<Rightarrow> admm list \<Rightarrow> bool \<times> admm list" where
  "admm_round average machines =
     (let (global_solution, is_converged) = average (map contribution machines)
      in if is_converged then (True, map (am_global_update (\<lambda>_. global_solution)) machines)
         else (False, map2 (admm_update global_solution) [0..<length machines] machines))"

partial_function (option) admm_run :: "((bool \<times> vec) list \<Rightarrow> vec \<times> bool) \<Rightarrow> admm list \<Rightarrow> admm list option" where
  "admm_run average machines =
     (let (finished, machines') = admm_round average machines
      in if finished then Some machines' else admm_run average machines')"

section \<open>The average\<close>

text \<open>The numbers are of any type here and their addition and division are arguments, so that the sums can be taken
  both of real numbers and of the values that \<^verbatim>\<open>double\<close> has. \<^verbatim>\<open>machine_task\<close>: the operation of the reduction, and
  what is made of its result.\<close>

definition admm_op :: "('n \<Rightarrow> 'n \<Rightarrow> 'n) \<Rightarrow> bool \<times> 'n list \<Rightarrow> bool \<times> 'n list \<Rightarrow> bool \<times> 'n list" where
  "admm_op add = (\<lambda>(converged_lhs, lhs) (converged_rhs, rhs).
     (converged_lhs \<and> converged_rhs, map (\<lambda>i. add (lhs ! i) (rhs ! i)) [0..<length lhs]))"

definition allreduce_average :: "('n \<Rightarrow> 'n \<Rightarrow> 'n) \<Rightarrow> ('n \<Rightarrow> 'n) \<Rightarrow> (bool \<times> 'n list) list \<Rightarrow> 'n list \<times> bool" where
  "allreduce_average add per_machine vs =
     (let (is_converged, new_global) = tree_reduce (admm_op add) (\<lambda>i. vs ! i) num_machines 0
      in (map per_machine new_global, is_converged))"

text \<open>\<^verbatim>\<open>run_locally\<close>, from the arrays that all threads have written.\<close>

definition shared_average :: "'n \<Rightarrow> ('n \<Rightarrow> 'n \<Rightarrow> 'n) \<Rightarrow> ('n \<Rightarrow> 'n) \<Rightarrow> (bool \<times> 'n list) list \<Rightarrow> 'n list \<times> bool" where
  "shared_average zero add per_machine vs =
     (map (\<lambda>i. per_machine (fold (\<lambda>z s. add s (snd (vs ! z) ! i)) [0..<length vs] zero)) [0..<num_machines],
      fold (\<lambda>c r. r \<and> c) (map fst vs) True)"

text \<open>Both with real numbers. That a reduce group of the five machines computes \<open>allreduce_average\<close> is shown in
  \<open>Sky_Admm_Group\<close>.\<close>

definition average_by_allreduce :: "(bool \<times> vec) list \<Rightarrow> vec \<times> bool" where
  "average_by_allreduce = allreduce_average (+) (\<lambda>val. val / real num_machines)"

definition average_locally :: "(bool \<times> vec) list \<Rightarrow> vec \<times> bool" where
  "average_locally = shared_average 0 (+) (\<lambda>val. val / real num_machines)"

lemma average_locally_eq:
  "average_locally vs =
     (map (\<lambda>i. fold (\<lambda>z s. s + snd (vs ! z) ! i) [0..<length vs] 0 / real num_machines) [0..<num_machines],
      fold (\<lambda>c r. r \<and> c) (map fst vs) True)"
  by (simp add: average_locally_def shared_average_def)

definition values_ok :: "(bool \<times> vec) list \<Rightarrow> bool" where
  "values_ok vs \<longleftrightarrow> length vs = num_machines \<and> (\<forall>v \<in> set vs. length (snd v) = num_machines)"

definition mean_at :: "vec list \<Rightarrow> nat \<Rightarrow> real" where
  "mean_at vs k = (\<Sum>i < num_machines. vs ! i ! k) / real num_machines"

text \<open>Sums of the machines, written out for the five of them.\<close>

lemma less_machines: "i < num_machines \<longleftrightarrow> i = 0 \<or> i = 1 \<or> i = 2 \<or> i = 3 \<or> i = 4"
  by (auto simp: num_machines_def)

lemma upt_machines: "[0..<num_machines] = [0, 1, 2, 3, 4]"
  by (simp add: num_machines_def upt_conv_Cons)

lemma mean_at_eq: "mean_at vs k = (vs ! 0 ! k + vs ! 1 ! k + vs ! 2 ! k + vs ! 3 ! k + vs ! 4 ! k) / 5"
  by (simp add: mean_at_def num_machines_def eval_nat_numeral)

lemma five_values:
  assumes "length vs = num_machines"
  obtains a b c d e where "vs = [a, b, c, d, e]"
  using assms by (auto simp: num_machines_def length_Suc_conv eval_nat_numeral)

text \<open>What the program expects of the average: the mean of all solutions, and whether all machines have converged.\<close>

locale averaging =
  fixes average :: "(bool \<times> vec) list \<Rightarrow> vec \<times> bool"
  assumes average_spec: "values_ok vs \<Longrightarrow>
    average vs = (map (mean_at (map snd vs)) [0..<num_machines], list_all fst vs)"

lemma tree_of_five: "tree_reduce f v 5 0 = f (f (f (f (v 3) (v 1)) (v 4)) (v 0)) (v 2)"
  by (simp add: tree_reduce.simps reduce_node_def eval_nat_numeral)

lemma admm_op_length: "length (snd (admm_op add l r)) = length (snd l)"
  by (simp add: admm_op_def case_prod_unfold)

lemma admm_op_simps: "fst (admm_op add l r) \<longleftrightarrow> fst l \<and> fst r"
  "k < length (snd l) \<Longrightarrow> snd (admm_op add l r) ! k = add (snd l ! k) (snd r ! k)"
  by (simp_all add: admm_op_def case_prod_unfold)

interpretation by_allreduce: averaging average_by_allreduce
proof
  fix vs :: "(bool \<times> vec) list"
  assume ok: "values_ok vs"
  then obtain a b c d e where vs: "vs = [a, b, c, d, e]" unfolding values_ok_def by (auto elim: five_values)
  define t where "t = tree_reduce (admm_op (+)) (\<lambda>i. vs ! i) num_machines 0"
  let ?op = "admm_op ((+) :: real \<Rightarrow> real \<Rightarrow> real)"
  have t: "t = ?op (?op (?op (?op d b) e) a) c" by (simp add: t_def num_machines_def tree_of_five vs)
  have "length (snd v) = 5" if "v \<in> {a, b, c, d, e}" for v using ok that by (auto simp: values_ok_def num_machines_def vs)
  then have l: "length (snd t) = 5" "k < 5 \<Longrightarrow> snd t ! k = snd d ! k + snd b ! k + snd e ! k + snd a ! k + snd c ! k" for k
    by (simp_all add: t admm_op_length admm_op_simps)
  have "map (\<lambda>val. val / real num_machines) (snd t) = map (mean_at (map snd vs)) [0..<num_machines]"
    by (rule nth_equalityI) (simp_all add: l mean_at_eq num_machines_def vs)
  moreover have "fst t \<longleftrightarrow> list_all fst vs" by (auto simp: t admm_op_simps vs)
  ultimately show "average_by_allreduce vs = (map (mean_at (map snd vs)) [0..<num_machines], list_all fst vs)"
    by (simp add: average_by_allreduce_def allreduce_average_def t_def [symmetric] case_prod_unfold)
qed

lemma fold_conj: "fold (\<lambda>c r. r \<and> c) cs b \<longleftrightarrow> b \<and> list_all id cs"
  by (induction cs arbitrary: b) auto

lemma list_all_map_fst: "list_all id (map fst vs) = list_all fst vs"
  by (simp add: list_all_iff)

interpretation locally: averaging average_locally
proof
  fix vs :: "(bool \<times> vec) list"
  assume "values_ok vs"
  then obtain a b c d e where vs: "vs = [a, b, c, d, e]" unfolding values_ok_def by (auto elim: five_values)
  show "average_locally vs = (map (mean_at (map snd vs)) [0..<num_machines], list_all fst vs)"
    unfolding average_locally_eq fold_conj list_all_map_fst
    by (simp add: vs mean_at_eq num_machines_def upt_conv_Cons)
qed

section \<open>Every iteration\<close>

text \<open>All machines have the same average, and the multipliers of the machines cancel out.\<close>

definition admm_ok :: "admm list \<Rightarrow> bool" where
  "admm_ok machines \<longleftrightarrow> length machines = num_machines
    \<and> (\<forall>a \<in> set machines. length (am_local a) = num_machines \<and> length (am_y a) = num_machines \<and> length (am_global a) = num_machines
        \<and> am_global a = am_global (hd machines))
    \<and> (\<forall>k < num_machines. mean_at (map am_y machines) k = 0)"

lemma admm_okD:
  assumes "admm_ok machines"
  shows "length machines = num_machines" "values_ok (map contribution machines)"
    "a \<in> set machines \<Longrightarrow> length (am_local a) = num_machines \<and> length (am_y a) = num_machines \<and> length (am_global a) = num_machines"
    "a \<in> set machines \<Longrightarrow> b \<in> set machines \<Longrightarrow> am_global a = am_global b"
  using assms by (auto simp: admm_ok_def values_ok_def contribution_def)

definition all_converged :: "admm list \<Rightarrow> bool" where
  "all_converged machines \<longleftrightarrow> list_all (\<lambda>a. is_locally_converged (am_global a) (am_local a)) machines"

definition mean_solution :: "admm list \<Rightarrow> vec" where
  "mean_solution machines = map (mean_at (map am_local machines)) [0..<num_machines]"

definition start_ok :: "vec list \<Rightarrow> bool" where
  "start_ok starts \<longleftrightarrow> length starts = num_machines \<and> (\<forall>v \<in> set starts. length v = num_machines)"

lemma start_machines_ok: "start_ok starts \<Longrightarrow> admm_ok (map start_machine starts)"
  by (auto simp: start_ok_def admm_ok_def start_machine_def mean_at_def hd_map elim: five_values)

lemma mean_update_y:
  assumes "admm_ok machines" "k < num_machines"
  shows "mean_at (map (\<lambda>a. update_y a (mean_solution machines)) machines) k = 0"
proof -
  obtain a b c d e where m: "machines = [a, b, c, d, e]" using five_values [OF admm_okD(1) [OF assms(1)]] by blast
  have l: "length (am_local v) = 5" if "v \<in> set machines" for v using admm_okD(3) [OF assms(1) that] by (simp add: num_machines_def)
  have "mean_at (map am_y machines) k = 0" using assms by (simp add: admm_ok_def)
  then show ?thesis using assms(2) l by (simp add: m update_y_def mean_solution_def mean_at_eq num_machines_def field_simps)
qed

text \<open>Converged machines are close to the mean: each is close to the previous average, and so is the mean.\<close>

lemma mean_close:
  assumes "\<And>i. i < num_machines \<Longrightarrow> \<bar>g - vs ! i ! k\<bar> < d" "i < num_machines"
  shows "\<bar>vs ! i ! k - mean_at vs k\<bar> < 2 * d"
proof -
  have "\<bar>g - vs ! 0 ! k\<bar> < d" "\<bar>g - vs ! 1 ! k\<bar> < d" "\<bar>g - vs ! 2 ! k\<bar> < d" "\<bar>g - vs ! 3 ! k\<bar> < d" "\<bar>g - vs ! 4 ! k\<bar> < d"
    using assms(1) by (simp_all add: num_machines_def)
  then have "\<bar>g - mean_at vs k\<bar> < d"
    unfolding mean_at_eq abs_less_iff by (auto simp: field_simps)
  then show ?thesis using assms(1) [OF assms(2)] by linarith
qed

definition consensus :: "admm list \<Rightarrow> bool" where
  "consensus machines \<longleftrightarrow> (\<forall>i < num_machines. am_global (machines ! i) = mean_solution machines
     \<and> (\<forall>k < num_machines. \<bar>am_local (machines ! i) ! k - am_global (machines ! i) ! k\<bar> < 2 / 10000))"

lemma converged_consensus:
  assumes "admm_ok machines" "all_converged machines"
  shows "consensus (map (am_global_update (\<lambda>_. mean_solution machines)) machines)"
proof -
  let ?g = "am_global (hd machines)"
  have len: "length machines = num_machines" using assms(1) by (simp add: admm_ok_def)
  have "\<bar>?g ! k - map am_local machines ! i ! k\<bar> < 1 / 10000" if "i < num_machines" "k < num_machines" for i k
  proof -
    have m: "machines ! i \<in> set machines" using that len by simp
    then have e: "am_global (machines ! i) = ?g" "length ?g = num_machines" using assms(1) unfolding admm_ok_def by metis+
    have "is_locally_converged (am_global (machines ! i)) (am_local (machines ! i))" using assms(2) m by (simp add: all_converged_def list_all_iff)
    then show ?thesis using that len by (auto simp: is_locally_converged_def list_all_iff e not_le)
  qed
  then have "\<bar>am_local (machines ! i) ! k - mean_at (map am_local machines) k\<bar> < 2 / 10000" if "i < num_machines" "k < num_machines" for i k
    using mean_close [of "?g ! k" "map am_local machines" k "1 / 10000" i] that len by simp
  moreover have "mean_solution (map (am_global_update (\<lambda>_. mean_solution machines)) machines) = mean_solution machines"
    by (simp add: mean_solution_def comp_def)
  ultimately show ?thesis using len by (simp add: consensus_def mean_solution_def)
qed

context averaging
begin

lemma round_eq:
  assumes "admm_ok machines"
  shows "admm_round average machines =
    (if all_converged machines then (True, map (am_global_update (\<lambda>_. mean_solution machines)) machines)
     else (False, map2 (admm_update (mean_solution machines)) [0..<length machines] machines))"
  using average_spec [OF admm_okD(2) [OF assms]]
  by (simp add: admm_round_def mean_solution_def all_converged_def contribution_def list_all_iff comp_def)

lemma round_keeps_ok:
  assumes "admm_ok machines" "\<not> all_converged machines"
  shows "admm_ok (snd (admm_round average machines))"
proof -
  obtain a b c d e where m: "machines = [a, b, c, d, e]" using five_values [OF admm_okD(1) [OF assms(1)]] by blast
  have l: "length (am_local v) = 5" "length (am_y v) = 5" if "v \<in> set machines" for v
    using admm_okD(3) [OF assms(1) that] by (simp_all add: num_machines_def)
  have "map am_y (snd (admm_round average machines)) = map (\<lambda>a. update_y a (mean_solution machines)) machines"
    using assms by (simp add: round_eq m admm_update_def Let_def upt_conv_Cons)
  then have y: "\<forall>k < num_machines. mean_at (map am_y (snd (admm_round average machines))) k = 0"
    using mean_update_y [OF assms(1)] by simp
  moreover have "length (mean_solution machines) = 5" by (simp add: mean_solution_def num_machines_def)
  ultimately show ?thesis unfolding admm_ok_def using assms l
    by (simp add: round_eq m admm_update_def Let_def upt_conv_Cons num_machines_def update_y_def)
qed

lemma round_climbs:
  assumes "admm_ok machines" "\<not> all_converged machines" "i < num_machines"
  shows "evaluate_solution (linear_problems ! i) (am_local (snd (admm_round average machines) ! i)) (mean_solution machines)
      (am_y (snd (admm_round average machines) ! i)) 5
    \<le> evaluate_solution (linear_problems ! i) (am_local (machines ! i)) (mean_solution machines)
      (am_y (snd (admm_round average machines) ! i)) 5"
proof -
  have "length machines = num_machines" using assms(1) by (simp add: admm_ok_def)
  then show ?thesis using assms hill_climb_le by (simp add: round_eq admm_update_def Let_def)
qed

end

text \<open>The states of the machines between the iterations.\<close>

inductive admm_reach :: "((bool \<times> vec) list \<Rightarrow> vec \<times> bool) \<Rightarrow> vec list \<Rightarrow> admm list \<Rightarrow> bool" for average starts where
  Start: "admm_reach average starts (map start_machine starts)"
| Iterate: "admm_reach average starts machines \<Longrightarrow> admm_round average machines = (False, machines')
    \<Longrightarrow> admm_reach average starts machines'"

context averaging
begin

lemma reach_ok:
  assumes "admm_reach average starts machines" "start_ok starts"
  shows "admm_ok machines"
  using assms
proof (induction rule: admm_reach.induct)
  case Start
  then show ?case by (rule start_machines_ok)
next
  case (Iterate machines machines')
  then have ok: "admm_ok machines" by blast
  then have "\<not> all_converged machines" using Iterate(2) by (auto simp: round_eq)
  then show ?case using round_keeps_ok [OF ok] Iterate(2) by simp
qed

end

text \<open>C20: Between any two iterations the multipliers of the machines cancel out in every coordinate. An iteration that is not the last
  makes the solution of no machine worse for the machine's own problem with its new multipliers; in the last iteration all
  machines stop, with the same average, and the solution of each is within twice the criterion of it.\<close>

theorem admm_iterations:
  assumes "start_ok starts" "admm_reach average_by_allreduce starts machines"
    "admm_round average_by_allreduce machines = (finished, machines')"
  shows "(\<forall>k < num_machines. mean_at (map am_y machines) k = 0)
    \<and> (if finished then consensus machines'
       else \<forall>i < num_machines. evaluate_solution (linear_problems ! i) (am_local (machines' ! i)) (am_global (machines' ! i)) (am_y (machines' ! i)) 5
         \<le> evaluate_solution (linear_problems ! i) (am_local (machines ! i)) (am_global (machines' ! i)) (am_y (machines' ! i)) 5)"
proof -
  have ok: "admm_ok machines" using by_allreduce.reach_ok assms(1,2) by blast
  have len: "length machines = num_machines" using ok by (simp add: admm_ok_def)
  have r: "finished = all_converged machines" "machines' = snd (admm_round average_by_allreduce machines)"
    using assms(3) by_allreduce.round_eq [OF ok] by (auto split: if_split_asm)
  have "am_global (machines' ! i) = mean_solution machines" if "\<not> finished" "i < num_machines" for i
    using that r len by (simp add: by_allreduce.round_eq [OF ok] admm_update_def Let_def)
  then show ?thesis using ok r by_allreduce.round_climbs [OF ok] converged_consensus [OF ok] by_allreduce.round_eq [OF ok]
    by (auto simp: admm_ok_def)
qed

lemma run_agrees:
  assumes "averaging average" "averaging average'" "admm_run average machines = Some r" "admm_ok machines"
  shows "admm_run average' machines = Some r"
proof -
  have "average = A \<longrightarrow> admm_ok machines \<longrightarrow> admm_run average' machines = Some r" if "averaging A" for A
  proof (rule admm_run.raw_induct [OF _ assms(3)], intro impI)
    fix rec B ms r
    assume IH: "\<And>B ms r. rec B ms = Some r \<Longrightarrow> B = A \<longrightarrow> admm_ok ms \<longrightarrow> admm_run average' ms = Some r"
      and b: "(let (finished, ms') = admm_round B ms in if finished then Some ms' else rec B ms') = Some r" "B = A" "admm_ok ms"
    have e: "admm_round average' ms = admm_round A ms"
      using averaging.round_eq [OF that b(3)] averaging.round_eq [OF assms(2) b(3)] by simp
    show "admm_run average' ms = Some r"
    proof (cases "fst (admm_round A ms)")
      case True
      then show ?thesis using b(1,2) e by (subst admm_run.simps) (simp add: case_prod_unfold Let_def)
    next
      case False
      then have "rec A (snd (admm_round A ms)) = Some r" using b(1,2) by (simp add: case_prod_unfold Let_def)
      moreover have "admm_ok (snd (admm_round A ms))" using False averaging.round_keeps_ok [OF that b(3)] averaging.round_eq [OF that b(3)] by auto
      ultimately have "admm_run average' (snd (admm_round A ms)) = Some r" using IH by blast
      then show ?thesis using False e by (subst admm_run.simps) (simp add: case_prod_unfold Let_def)
    qed
  qed
  then show ?thesis using assms(1,4) by blast
qed

text \<open>With real numbers, from the same starting points both runs end with the same machines or neither ends.\<close>

lemma exact_runs_agree:
  assumes "start_ok starts"
  shows "admm_run average_by_allreduce (map start_machine starts) = admm_run average_locally (map start_machine starts)"
proof (rule option.expand)
  note ok = start_machines_ok [OF assms]
  note a = by_allreduce.averaging_axioms and l = locally.averaging_axioms
  show "admm_run average_by_allreduce (map start_machine starts) = None \<longleftrightarrow> admm_run average_locally (map start_machine starts) = None"
    using run_agrees [OF a l _ ok] run_agrees [OF l a _ ok] by (metis not_None_eq)
  show "the (admm_run average_by_allreduce (map start_machine starts)) = the (admm_run average_locally (map start_machine starts))"
    if "admm_run average_by_allreduce (map start_machine starts) \<noteq> None" using that run_agrees [OF a l _ ok] by fastforce
qed

text \<open>Machines that start in the origin agree at once.\<close>

lemma origin_ok: "start_ok (replicate 5 (replicate 5 0))"
  by (simp add: start_ok_def num_machines_def)

lemma origin_finished: "fst (admm_round average_locally (map start_machine (replicate 5 (replicate 5 0))))"
  by (simp add: admm_round_def average_locally_eq contribution_def start_machine_def num_machines_def is_locally_converged_def
      upt_conv_Cons eval_nat_numeral)

lemma admm_iterations_witness:
  "consensus (snd (admm_round average_by_allreduce (map start_machine (replicate 5 (replicate 5 0)))))"
proof -
  have "fst (admm_round average_by_allreduce (map start_machine (replicate 5 (replicate 5 0))))"
    using origin_finished start_machines_ok [OF origin_ok] by (simp add: by_allreduce.round_eq locally.round_eq)
  then show ?thesis
    using admm_iterations [OF origin_ok admm_reach.Start, of "fst (admm_round average_by_allreduce (map start_machine (replicate 5 (replicate 5 0))))"]
    by (simp add: prod_eq_iff)
qed

text \<open>The table of the solution is right, but the hill climb need not find the minimum: the function it makes smaller has no
  bound at 0, and it ends as soon as the value is below the threshold.\<close>

lemma real_solution_solves: "\<forall>p \<in> set linear_problems. target_function p real_solution = 0"
  by (simp add: linear_problems_def target_function_def real_solution_def upt_conv_Cons eval_nat_numeral)

lemma hill_climb_stops: "evaluate_solution p x g y roe < t \<Longrightarrow> hill_climb p x g y roe s t = x"
  by (simp add: hill_climb_def eval_nat_numeral)

end
