(* ===== verification/Sky_Publishers.thy ===== *)
theory Sky_Publishers
  imports Sky_Manager_Props
begin

text \<open>
  The search for publishers and the connections that come of it, in \<open>Sky_Manager\<close>: what a manager knows after
  a report, what a finished connection does for its tags, the delivery of published data to the other machine's
  jobs, and the cases in which a tag or a group is left without its connection.
\<close>

section \<open>What is known about publishers\<close>

definition known :: "(tag_id \<times> publisher_info list) list \<Rightarrow> tag_id \<Rightarrow> publisher_info set" where
  "known ps tag = (case map_of ps tag of None \<Rightarrow> {} | Some infos \<Rightarrow> set infos)"

lemma known_entry:
  "known (AList.map_entry t f (try_emplace t [] ps)) tag
    = (if tag = t then set (f (case map_of ps t of None \<Rightarrow> [] | Some infos \<Rightarrow> infos)) else known ps tag)"
  by (auto simp: known_def map_of_map_entry map_of_try_emplace has_key_def split: option.splits)

lemma known_insert_infos:
  assumes "insert_publisher_infos t as ms ps = Inr ps'"
  shows "known ps' tag = known ps tag \<union> (if tag = t then set (zip as ms) else {})"
proof -
  have "ps' = AList.map_entry t (fold set_insert (zip as ms)) (try_emplace t [] ps)"
    using assms by (simp add: insert_publisher_infos_def rassert_eq_Inr_iff)
  then show ?thesis by (simp add: known_entry) (auto simp: known_def split: option.splits)
qed

lemma known_insert_all:
  assumes "rfold (\<lambda>(t, as, ms). insert_publisher_infos t as ms) xs ps = Inr ps'"
  shows "known ps' tag = known ps tag \<union> (\<Union>(t, as, ms) \<in> set xs. if tag = t then set (zip as ms) else {})"
  using assms
proof (induction xs arbitrary: ps)
  case (Cons x xs)
  obtain t as ms where x: "x = (t, as, ms)" by (rule prod_cases3)
  from Cons.prems obtain u where u: "insert_publisher_infos t as ms ps = Inr u"
    "rfold (\<lambda>(t, as, ms). insert_publisher_infos t as ms) xs u = Inr ps'"
    by (auto simp: x rbind_eq_Inr_iff)
  show ?case using Cons.IH [OF u(2)] known_insert_infos [OF u(1), of tag] by (auto simp: x)
qed simp

lemma known_local:
  "known (fold (\<lambda>t ps. AList.map_entry t (set_insert p) (try_emplace t [] ps)) ts ps) tag
    = known ps tag \<union> (if tag \<in> set ts then {p} else {})"
proof (induction ts arbitrary: ps)
  case (Cons t ts)
  show ?case unfolding fold_simps comp_def Cons by (simp add: known_entry) (auto simp: known_def split: option.splits)
qed simp

text \<open>Connecting does not forget publishers.\<close>

lemma init_one_publishers: "init_one tag (kept, cs, m) = Inr (kept', cs', m') \<Longrightarrow> m_publishers m' = m_publishers m"
proof -
  have fs: "m_publishers (finalize_subscription t k m) = m_publishers m" for t k
    by (simp add: finalize_subscription_def Let_def send_to_def upd_em_def)
  have fg: "m_publishers m1 = m_publishers m" if "finalize_reduce_groups k t m = Inr m1" for k t m1
    using that unfolding finalize_reduce_groups_def
    by (rule rfold_inv [where P = "\<lambda>u. m_publishers u = m_publishers m"])
      (auto simp: rbind_eq_Inr_iff finalize_reduce_group_def rassert_eq_Inr_iff set_reduce_def send_to_def
        upd_em_def Let_def)
  show "init_one tag (kept, cs, m) = Inr (kept', cs', m') \<Longrightarrow> m_publishers m' = m_publishers m"
    by (auto simp: init_one_def rbind_eq_Inr_iff fs dest: fg split: if_split_asm option.splits list.splits)
qed

lemma init_connections_publishers:
  assumes "init_connections_for_pending_tags net m = Inr m'"
  shows "m_publishers m' = m_publishers m"
proof -
  obtain kept cs m1 m2 where *: "rfold init_one (m_pending_tags m) ([], [], m) = Inr (kept, cs, m1)"
    "rfold (start_conn net) cs m1 = Inr m2" "m' = m2\<lparr>m_pending_tags := kept\<rparr>"
    using assms by (auto simp: init_connections_for_pending_tags_def res_iffs)
  have "(\<lambda>(kept, cs, u). m_publishers u = m_publishers m) (kept, cs, m1)"
    by (rule rfold_inv [OF *(1)]) (auto dest: init_one_publishers)
  moreover have "m_publishers m2 = m_publishers m1"
    by (rule rfold_inv [where P = "\<lambda>u. m_publishers u = m_publishers m1", OF *(2)])
      (auto simp: start_conn_def rbind_eq_Inr_iff split: prod.splits if_split_asm)
  ultimately show ?thesis by (simp add: *(3))
qed

lemma add_publishers_known:
  assumes "add_publishers_and_propagate net tags pl ml ext k m = Inr m'" "length tags = length pl" "length tags = length ml"
    and "map_of (m_neighbors m) k = Some em"
  shows "known (m_publishers m') tag = known (m_publishers m) tag
     \<union> (\<Union>(t, as, ms) \<in> set (zip tags (zip pl ml)). if tag = t then set (zip as ms) else {})
     \<union> (if tag \<in> set ext then {(em_address em, em_id em)} else {})"
proof -
  let ?local = "\<lambda>ps. fold (\<lambda>t ps. AList.map_entry t (set_insert (em_address em, em_id em)) (try_emplace t [] ps)) ext ps"
  obtain ps where ps: "rfold (\<lambda>(t, as, ms). insert_publisher_infos t as ms) (zip tags (zip pl ml)) (m_publishers m) = Inr ps"
    using assms by (auto simp: add_publishers_and_propagate_def rbind_eq_Inr_iff)
  have send: "m_publishers (fold (\<lambda>k. send_to k msg) ks u) = m_publishers u" for msg ks u
    by (induction ks arbitrary: u) (simp_all add: send_to_def upd_em_def)
  have "m_publishers m' = ?local ps"
    using assms ps
    by (auto simp: add_publishers_and_propagate_def rbind_eq_Inr_iff deref_def Let_def case_prod_unfold send
        split: if_split_asm dest!: init_connections_publishers)
  then show ?thesis using known_insert_all [OF ps] known_local by simp
qed

lemma known_of_columns:
  "(\<Union>(t, as, ms) \<in> set (zip (map fst kn) (zip (map (map fst \<circ> snd) kn) (map (map snd \<circ> snd) kn))).
       if tag = t then set (zip as ms) else {})
    = (\<Union>(t, infos) \<in> set kn. if tag = t then set infos else {})"
  by (induction kn) (simp_all add: case_prod_unfold zip_map_fst_snd Int_insert_left, blast?)

text \<open>C5: What one manager knows about publishers reaches the other in full: after the report, the receiver knows
  what it knew, what the sender knows, and the sender itself, under the address it is connected at, for every
  tag that the sender produces; and nothing else.\<close>

theorem publishers_spread:
  assumes "make_known_tag_publisher_message mA = Inr msg" "distinct (keys (m_publishers mA))"
    and "\<forall>tag \<in> set (keys (m_publishers mA)) \<union> set (keys (m_self_subs mA)). tag_name_okay tag"
    and "map_of (m_neighbors mB) k = Some em" "handle_message net now k msg mB = Inr mB'"
  shows "known (m_publishers mB') tag = known (m_publishers mB) tag \<union> known (m_publishers mA) tag
     \<union> (if has_key tag (m_self_subs mA) then {(em_address em, em_id em)} else {})"
proof -
  define kn where "kn = filter (\<lambda>(tag, infos). infos \<noteq> []) (m_publishers mA)"
  let ?as = "map (map fst \<circ> snd) kn" and ?ms = "map (map snd \<circ> snd) kn"
  have msg: "msg = SM_Report_Publishers (map fst kn) ?as ?ms (local_tags mA)"
    using assms(1) by (simp add: make_known_tag_publisher_message_def kn_def [symmetric] Let_def make_report_publishers_ok)
  have okay: "\<forall>t \<in> set (map fst kn @ local_tags mA). tag_name_okay t"
    using assms(3) by (auto simp: kn_def local_tags_def)
  obtain m1 where m1: "add_publishers_and_propagate net (map fst kn) ?as ?ms (local_tags mA) k mB = Inr m1"
    "m_publishers mB' = m_publishers m1"
    using assms(5) okay
    by (auto simp: msg handle_message_def do_callback_def handle_report_publishers_def rbind_eq_Inr_iff upd_em_def
        simp del: set_append)
  have "(\<Union>(t, as, ms) \<in> set (zip (map fst kn) (zip ?as ?ms)). if tag = t then set (zip as ms) else {})
      = (\<Union>(t, infos) \<in> set kn. if tag = t then set infos else {})"
    by (rule known_of_columns)
  also have "\<dots> = known (m_publishers mA) tag"
  proof -
    have "(t, infos) \<in> set (m_publishers mA) \<longleftrightarrow> map_of (m_publishers mA) t = Some infos" for t infos
      using assms(2) by (simp add: keys_def)
    then show ?thesis by (auto simp: kn_def known_def split: option.splits if_split_asm)
  qed
  finally show ?thesis
    using add_publishers_known [OF m1(1) _ _ assms(4), of tag] by (simp add: m1(2) local_tags_def has_key_iff)
qed

definition sample_source :: manager where
  "sample_source = sample_manager\<lparr>m_id := ''m2'', m_publishers := [(''pc'', [(''10.0.0.9:4000'', ''m9'')])],
     m_self_subs := [(''pa'', 0)]\<rparr>"

lemma publishers_spread_witness:
  "\<exists>msg mB'. make_known_tag_publisher_message sample_source = Inr msg
     \<and> handle_message sample_net 5 ''m2'' msg (sample_neighbor ''m2'') = Inr mB'
     \<and> known (m_publishers mB') ''pc'' = {(''10.0.0.9:4000'', ''m9'')}"
proof -
  have msg: "make_known_tag_publisher_message sample_source
      = Inr (SM_Report_Publishers [''pc''] [[''10.0.0.9:4000'']] [[''m9'']] [''pa''])"
    by (simp add: make_known_tag_publisher_message_def sample_source_def sample_manager_def
        make_report_publishers_def local_tags_def keys_def)
  obtain mB' where m: "handle_message sample_net 5 ''m2''
      (SM_Report_Publishers [''pc''] [[''10.0.0.9:4000'']] [[''m9'']] [''pa'']) (sample_neighbor ''m2'') = Inr mB'"
    by (simp add: handle_message_def do_callback_def handle_report_publishers_def tag_name_okay_def markers
        add_publishers_and_propagate_def insert_publisher_infos_def deref_def sample_neighbor_def sample_manager_def
        init_connections_for_pending_tags_def Let_def case_prod_unfold try_emplace_def
        keys_def has_key_def)
  have "known (m_publishers mB') ''pc'' = known (m_publishers (sample_neighbor ''m2'')) ''pc''
      \<union> known (m_publishers sample_source) ''pc'' \<union> (if has_key ''pc'' (m_self_subs sample_source)
        then {(em_address (sample_em ''m2'' []), em_id (sample_em ''m2'' []))} else {})"
    by (rule publishers_spread [OF msg _ _ _ m])
      (auto simp: sample_source_def sample_manager_def sample_neighbor_def keys_def tag_name_okay_def markers)
  then have "known (m_publishers mB') ''pc'' = {(''10.0.0.9:4000'', ''m9'')}"
    by (simp add: known_def sample_source_def sample_manager_def sample_neighbor_def has_key_def)
  with msg m show ?thesis by blast
qed

section \<open>Data that is published\<close>

lemma em_send_tx:
  assumes "\<not> em_dead em" "em_conns em = c # cs" "so_tx_next c = [] \<or> hd (so_tx_next c) = Send_Ok"
  shows "so_tx (hd (em_conns (em_send msg em))) = so_tx c @ [msg] \<and> \<not> em_dead (em_send msg em)"
  using assms by (auto simp: em_send_def sock_send_def Let_def split: list.splits)

lemma set_publish_data_fields [simp]:
  "pd_tag (set_publish_data n tag v) = tag" "pd_version (set_publish_data n tag v) = n"
  by (simp_all add: set_publish_data_def)

lemma deliver_job:
  assumes "deliver tag v n js = Inr (ok, js')" "map_of js name = Some j"
  shows "\<exists>b j'. process_data tag v n j = Inr (b, j') \<and> map_of js' name = Some j'"
  using assms
proof (induction js arbitrary: ok js')
  case (Cons p js)
  obtain name' j' where p: "p = (name', j')" by fastforce
  from Cons.prems obtain b j1 oks js1 where d: "process_data tag v n j' = Inr (b, j1)" "deliver tag v n js = Inr (oks, js1)"
    "js' = (name', j1) # js1"
    by (auto simp: p rbind_eq_Inr_iff)
  show ?case
  proof (cases "name = name'")
    case True
    then show ?thesis using Cons.prems(2) d by (simp add: p)
  next
    case False
    then show ?thesis using Cons.prems(2) d Cons.IH [OF d(2)] by (simp add: p)
  qed
qed simp

text \<open>C3: Published data reaches the other machine's job: the publisher appends the message to the socket of every
  subscribed neighbour that is alive and can be written to, and when that message is handled by the
  subscriber, a job that waits for the tag's next value is ready and takes exactly the published values.\<close>

theorem publish_reaches_subscriber:
  assumes "publish n tag v mA = Inr mA'" "map_of (m_neighbors mA) kB = Some emB" "is_subscribed_to tag emB"
    and "\<not> em_dead emB" "em_conns emB = c # cs" "so_tx_next c = [] \<or> hd (so_tx_next c) = Send_Ok"
    and "handle_message net now kA (make_publish n tag v) mB = Inr mB'" "manager_inv mB" "tag_name_okay tag"
    and "map_of (m_jobs mB) name = Some j" "map_of (job_bufs j) tag = Some ti" "ti_buffer ti = Some b"
    and "map value_type v = db_types b" "n \<noteq> tag_no_data" "newer n (db_latest b)"
    and "\<forall>f. db_fetched b = Some f \<longrightarrow> f < n"
  shows "(\<exists>em c'. map_of (m_neighbors mA') kB = Some em \<and> hd (em_conns em) = c'
             \<and> so_tx c' = so_tx c @ [make_publish n tag v])
    \<and> (\<exists>j1 j2. map_of (m_jobs mB') name = Some j1 \<and> value_waiter_ready tag (ti_connection_id ti) j1 = Inr True
             \<and> value_waiter_get tag j1 = Inr (Some v, j2))"
proof (rule conjI)
  have "map_of (m_neighbors mA') kB = Some (em_send (make_publish n tag v) emB)"
    using assms(1-3) by (auto simp: publish_def rbind_eq_Inr_iff send_to_neighbors_if_def all_em_def map_of_map)
  then show "\<exists>em c'. map_of (m_neighbors mA') kB = Some em \<and> hd (em_conns em) = c'
      \<and> so_tx c' = so_tx c @ [make_publish n tag v]"
    using em_send_tx [OF assms(4-6)] by blast
next
  have inv: "job_inv j" using assms(8,10) by (auto simp: manager_inv_def tables_ok_def dest: map_allD)
  have ok: "info_ok tag ti" using inv assms(11) by (rule job_invD)
  have sv: "span_is_valid (db_types b) v" using assms(13) by (simp add: span_is_valid_iff)
  have t: "types_match (ti_expected ti) v" using types_match_buffer [OF ok assms(12)] sv by simp
  have "db_inv b" using ok assms(12) by (simp add: info_ok_def)
  from db.get_after_add [OF this sv assms(14,15)] assms(16) obtain b1 b2 where
    b: "db_add v n b = Inr b1" "db_has_data b1" "db_get b1 = Inr (v, b2)" by blast
  from process_data_known(2) [OF inv assms(11,12) t, of n] b(1) have p: "process_data tag v n j
      = Inr (True, notify_update (set_tag_info tag (ti\<lparr>ti_buffer := Some b1\<rparr>) j))" by auto
  obtain oks js where d: "deliver tag v n (m_jobs mB) = Inr (oks, js)" "m_jobs mB' = js"
    using assms(7,9) by (auto simp: handle_message_def do_callback_def make_publish_def handle_publish_data_def
        publish_data_value_set rbind_eq_Inr_iff upd_em_def split: if_split_asm)
  from deliver_job [OF d(1) assms(10)] p d(2) have
    "map_of (m_jobs mB') name = Some (notify_update (set_tag_info tag (ti\<lparr>ti_buffer := Some b1\<rparr>) j))" by auto
  then show "\<exists>j1 j2. map_of (m_jobs mB') name = Some j1 \<and> value_waiter_ready tag (ti_connection_id ti) j1 = Inr True
      \<and> value_waiter_get tag j1 = Inr (Some v, j2)"
    by (simp add: value_waiter_ready_def value_waiter_get_def map_of_set_tag_info b)
qed

definition sample_publisher :: manager where
  "sample_publisher = sample_manager\<lparr>m_neighbors := [(''m2'', (sample_em ''m2'' [])\<lparr>em_subs := [''pa'']\<rparr>)]\<rparr>"

definition sample_subscriber :: manager where
  "sample_subscriber = sample_manager\<lparr>m_jobs := [(''j'', sample_job)]\<rparr>"

lemma publish_reaches_subscriber_witness:
  "\<exists>mB' j1 j2. handle_message sample_net 5 ''m1'' (make_publish 3 ''pa'' [V_int32 7]) sample_subscriber = Inr mB'
     \<and> map_of (m_jobs mB') ''j'' = Some j1 \<and> value_waiter_get ''pa'' j1 = Inr (Some [V_int32 7], j2)"
proof -
  obtain mA' where A: "publish 3 ''pa'' [V_int32 7] sample_publisher = Inr mA'"
    by (simp add: publish_def sample_publisher_def sample_manager_def)
  obtain mB' where B: "handle_message sample_net 5 ''m1'' (make_publish 3 ''pa'' [V_int32 7]) sample_subscriber = Inr mB'"
    by (simp add: handle_message_def do_callback_def make_publish_def handle_publish_data_def publish_data_value_set
        sample_subscriber_def sample_manager_def tag_name_okay_def markers process_data_def sample_job_def
        sample_info_def types_match_expected notify_update_def set_tag_info_def db_defs make_value_def
        span_is_valid_iff tag_no_data_def)
  have "manager_inv sample_subscriber"
    by (simp add: manager_inv_def tables_ok_def pointers_def sample_subscriber_def sample_manager_def sample_job_inv)
  from publish_reaches_subscriber [OF A _ _ _ _ _ B this, of "''m2''" "(sample_em ''m2'' [])\<lparr>em_subs := [''pa'']\<rparr>"
      sample_sock "[]" "''j''" sample_job sample_info "new_discard_buffer [T_int32]"]
  have "\<exists>j1 j2. map_of (m_jobs mB') ''j'' = Some j1 \<and> value_waiter_get ''pa'' j1 = Inr (Some [V_int32 7], j2)"
    by (auto simp: sample_publisher_def sample_subscriber_def sample_manager_def is_subscribed_to_def sample_em_def
        new_ext_manager_def sample_sock_def tag_name_okay_def markers sample_job_def sample_info_def db_defs
        tag_no_data_def newer_def)
  with B show ?thesis by blast
qed

section \<open>A connection that is made for its tags\<close>

lemma rmap_em_total:
  "(\<And>k em. \<exists>em'. f k em = Inr em') \<Longrightarrow> \<exists>ns'. rmap_em f ns = Inr ns'"
proof (induction ns)
  case (Cons p ns)
  obtain k em where p: "p = (k, em)" by fastforce
  from Cons.prems obtain em' where "f k em = Inr em'" by blast
  moreover from Cons obtain ns' where "rmap_em f ns = Inr ns'" by blast
  ultimately show ?case by (simp add: p)
qed simp

lemma find_one_total: "length ps = length tags \<Longrightarrow> \<exists>em'. find_publishers_for_tags tags ps em = Inr em'"
  by (simp add: find_publishers_for_tags_def make_get_publishers_def)

lemma find_publishers_total: "\<exists>m'. find_publishers_for_pending_tags force now m = Inr m'"
proof -
  have "\<exists>ns. rmap_em (\<lambda>_ em. if should_ask_for_tags now em
      then find_publishers_for_tags ts (make_need_one_pub ts) (increase_backoff_counter now em) else Inr em)
      (m_neighbors m) = Inr ns" for ts
    by (rule rmap_em_total) (simp add: find_one_total make_need_one_pub_def)
  moreover have "\<exists>ns. rmap_em (\<lambda>_ em. find_publishers_for_tags ts (make_need_one_pub ts)
      (reset_backoff_counter now em)) (m_neighbors m) = Inr ns" for ts
    by (rule rmap_em_total) (simp add: find_one_total make_need_one_pub_def)
  ultimately show ?thesis
    by (simp add: find_publishers_for_pending_tags_def ask_all_def Let_def) (metis rbind_simps(2))
qed

lemma fold_update_bound:
  "tag \<in> set ts \<Longrightarrow> map_of (fold (\<lambda>tag. AList.update tag k) ts tags) tag = Some k"
proof -
  have keep: "map_of tags tag = Some k \<Longrightarrow> map_of (fold (\<lambda>tag. AList.update tag k) ts tags) tag = Some k" for ts tags
    by (induction ts arbitrary: tags) (simp_all add: update_conv')
  show "tag \<in> set ts \<Longrightarrow> map_of (fold (\<lambda>tag. AList.update tag k) ts tags) tag = Some k"
    by (induction ts arbitrary: tags) (auto simp: keep update_conv')
qed

lemma finalize_subscription_tags:
  "tag \<in> set (split tags CHR 0x00 0) \<Longrightarrow> map_of (m_tags (finalize_subscription tags k m)) tag = Some k"
  by (simp add: finalize_subscription_def Let_def send_to_def upd_em_def fold_update_bound)

lemma finalize_subscription_other [simp]:
  "neighbor_keys (finalize_subscription tags k m) = neighbor_keys m"
  "m_addrs (finalize_subscription tags k m) = m_addrs m"
  by (simp_all add: finalize_subscription_def Let_def send_to_def neighbor_keys_def upd_em_def)

text \<open>C15: A greeting that arrives in full on a connection that was made for tags, shorter than 4 GiB and one that
  the parser reads back from what the serialiser wrote: if its size is no multiple of 4096 the connection is
  finished: it leaves the list of pending ones, the machine is a neighbour under its own identifier, each of the
  tags is bound to it, so that a subscription that waits for them is done, and waiting threads are to be notified; if
  its size is a multiple of 4096 the greeting is lost, the connection stays pending and nothing else changes.\<close>

theorem greeting_completes_subscription:
  assumes "nt_dec net (enc (SM_Greeting k ns port)) = Some (SM_Greeting k ns port)"
    and "length (enc (SM_Greeting k ns port)) < 2 ^ 32"
    and "pi_status info = Waiting_For_Resp" "pi_type info = Subscription_Conn"
    and "so_rx (pi_conn info) = finalize_message little enc (SM_Greeting k ns port) @ rest"
  shows "(\<not> read_step_size dvd length (enc (SM_Greeting k ns port)) \<longrightarrow>
      (\<exists>m'. process_pending net now info (b, m) = Inr (None, b, m') \<and> k \<in> neighbor_keys m' \<and> m_notify_conn m'
       \<and> (\<forall>tag \<in> set (split (pi_tag info) CHR 0x00 0). map_of (m_tags m') tag = Some k)
       \<and> subscribe_is_done (split (pi_tag info) CHR 0x00 0) m'))
    \<and> (read_step_size dvd length (enc (SM_Greeting k ns port)) \<longrightarrow>
      (\<exists>c. process_pending net now info (b, m) = Inr (Some (info\<lparr>pi_conn := c\<rparr>), b, m)))"
proof (cases "read_step_size dvd length (enc (SM_Greeting k ns port))")
  case True
  from read_frame_multiple [OF assms(5) True assms(2), of "nt_little net"] show ?thesis
    using True assms(3) by (auto simp: process_pending_def process_resp_def)
next
  case False
  let ?msg = "SM_Greeting k ns port"
  let ?c = "(pi_conn info)\<lparr>so_rx := rest\<rparr>"
  let ?m1 = "finalize_subscription (pi_tag info) k (greet now ?c (Greeting k ns port) m)"
  obtain m2 where m2: "find_publishers_for_pending_tags False now (notify_of_new_neighbor k ?m1) = Inr m2"
    using find_publishers_total by blast
  have ne: "enc ?msg \<noteq> []" using False by auto
  have "process_pending net now info (b, m) = Inr (None, b, m2\<lparr>m_notify_conn := True\<rparr>)"
    using read_frame [OF assms(5) False assms(2)] assms(1,3,4) ne m2
    by (simp add: process_pending_def process_resp_def try_to_create_def greeting_of_def finalize_conn_def)
  moreover have s: "same_bindings ?m1 m2"
    using find_publishers_bindings [OF m2]
    by (simp add: same_bindings_def notify_of_new_neighbor_def send_to_neighbors_if_def all_em_def)
  moreover have "k \<in> neighbor_keys m2"
  proof -
    have "neighbor_keys m2 = neighbor_keys ?m1"
      using frame_keys [OF frame_trans [OF notify_of_new_neighbor_frame find_publishers_frame [OF m2]]] .
    moreover have "k \<in> neighbor_keys (greet now ?c (Greeting k ns port) m)"
      by (auto simp: greet_def Let_def neighbor_keys_def upd_em_def has_key_iff)
    ultimately show ?thesis by simp
  qed
  moreover have "map_of (m_tags m2) tag = Some k" if "tag \<in> set (split (pi_tag info) CHR 0x00 0)" for tag
    using finalize_subscription_tags [OF that] s by (simp add: same_bindings_def)
  ultimately show ?thesis
    using False by (auto simp: neighbor_keys_def subscribe_is_done_def has_key_def)
qed

definition sample_conn :: pending_info where
  "sample_conn = \<lparr>pi_conn = sample_sock\<lparr>so_rx := finalize_message True (\<lambda>_. [1, 2, 3, 4, 5, 6, 7, 8]) SM_Heartbeat @ []\<rparr>,
     pi_status = Waiting_For_Resp, pi_type = Subscription_Conn, pi_tag = ''pa''\<rparr>"

lemma split_single: "c \<notin> set s \<Longrightarrow> split s c 0 = [s]"
  by (simp add: split_unlimited pieces_no_sep)

lemma greeting_completes_subscription_witness:
  "\<exists>m'. process_pending greeting_net 5 sample_conn (False, sample_manager) = Inr (None, False, m')
     \<and> map_of (m_tags m') ''pa'' = Some ''m2''"
proof -
  define enc :: "status_message \<Rightarrow> byte list" where "enc = (\<lambda>_. [1, 2, 3, 4, 5, 6, 7, 8])"
  have p: "nt_dec greeting_net (enc (SM_Greeting ''m2'' [] 5000)) = Some (SM_Greeting ''m2'' [] 5000)"
    "length (enc (SM_Greeting ''m2'' [] 5000)) < 2 ^ 32"
    "so_rx (pi_conn sample_conn) = finalize_message True enc (SM_Greeting ''m2'' [] 5000) @ []"
    by (simp_all add: enc_def greeting_net_def sample_net_def sample_conn_def finalize_message_def)
  have "\<not> read_step_size dvd length (enc (SM_Greeting ''m2'' [] 5000))"
    by (auto simp: enc_def step_sizes dest: dvd_imp_le)
  moreover have "pi_status sample_conn = Waiting_For_Resp" "pi_type sample_conn = Subscription_Conn"
    by (simp_all add: sample_conn_def)
  ultimately obtain m' where "process_pending greeting_net 5 sample_conn (False, sample_manager) = Inr (None, False, m')"
    "\<forall>tag \<in> set (split (pi_tag sample_conn) CHR 0x00 0). map_of (m_tags m') tag = Some ''m2''"
    using greeting_completes_subscription [OF p(1,2) _ _ p(3), of 5 False sample_manager] by blast
  then show ?thesis by (auto simp: sample_conn_def split_single)
qed

section \<open>Connections and tags that are lost\<close>

text \<open>A subscription to a specific address that is already connected never reports success, unless all of its
  tags are known already: the machine is sent the notice, but no tag is bound to it, which is what the waiter's
  result asks for; the waiter is complete at once, so the caller is told that the subscription failed.\<close>

theorem ip_subscribe_connected_fails:
  assumes "to_canonical (nt_resolve net) addr = Inr c" "to_ip_port (nt_resolve net) c = Inr there"
    and "to_ip_port (nt_resolve net) (''localhost'', m_port m) = Inr here" "there \<noteq> here"
    and "map_of (m_addrs m) c = Some k" "map_of (m_neighbors m) k = Some em" "\<not> has_key c (m_pending m)"
    and "tag \<in> set tags" "\<not> has_key tag (m_self_subs m)" "\<not> has_key tag (m_tags m)"
  shows "\<exists>w m'. ip_subscribe net addr tags m = Inr (w, m') \<and> ip_subscribe_complete w m'
     \<and> ip_subscribe_success w m' = Inr False
     \<and> map_of (m_neighbors m') k = Some (em_send (make_subscription_notice tags False) em)"
proof -
  let ?m = "(send_to k (make_subscription_notice tags False) m)\<lparr>m_notify_sub := True\<rparr>"
  have "ip_subscribe net addr tags m = Inr ((c, tags, False), ?m)"
    using assms(1-6) by (simp add: ip_subscribe_def deref_def)
  moreover have "map_of (m_neighbors ?m) k = Some (em_send (make_subscription_notice tags False) em)"
    using assms(6) by (simp add: send_to_def upd_em_def map_of_map_entry)
  moreover have "ip_subscribe_success (c, tags, False) ?m = Inr False"
    using assms(5,6,8-10)
    by (auto simp: ip_subscribe_success_def addr_is_connected_def deref_def subscribe_is_done_def send_to_def
        upd_em_def map_of_map_entry rbind_def)
  moreover have "ip_subscribe_complete (c, tags, False) ?m"
    using assms(7) by (simp add: ip_subscribe_complete_def conn_is_complete_def send_to_def upd_em_def)
  ultimately show ?thesis by blast
qed

definition two_hosts :: net where
  "two_hosts = sample_net\<lparr>nt_resolve := (\<lambda>h. if h = ''localhost'' then Some 0x0100007F else Some 0x0200000A)\<rparr>"

lemma ip_subscribe_connected_fails_witness:
  "\<exists>w m'. ip_subscribe two_hosts (''10.0.0.2'', 4000) [''pa''] (sample_neighbor ''m2'') = Inr (w, m')
     \<and> ip_subscribe_success w m' = Inr False"
proof -
  have c: "to_canonical (nt_resolve two_hosts) (''10.0.0.2'', 4000) = Inr (''10.0.0.2'', 4000)"
    by (simp add: two_hosts_def to_canonical_def dotted_def to_dec.simps) code_simp
  have h: "to_ip_port (nt_resolve two_hosts) (''10.0.0.2'', 4000) = Inr ''10.0.0.2:4000''"
    by (simp add: two_hosts_def to_ip_port_def to_canonical_def address_string_def dotted_def to_dec.simps) code_simp
  have l: "to_ip_port (nt_resolve two_hosts) (''localhost'', m_port (sample_neighbor ''m2'')) = Inr ''127.0.0.1:4000''"
    by (simp add: two_hosts_def to_ip_port_def to_canonical_def address_string_def dotted_def to_dec.simps
        sample_neighbor_def sample_manager_def) code_simp
  from ip_subscribe_connected_fails [OF c h l, of "''m2''" "sample_em ''m2'' []" "''pa''" "[''pa'']"] show ?thesis
    by (auto simp: sample_neighbor_def sample_manager_def has_key_def)
qed

text \<open>A private tag never becomes pending by a subscription, but the loss of its machine makes it pending all
  the same; as soon as its publisher is found among the neighbours the tag is taken for the parent of a reduce
  group, and with no such group an assertion stops the process.\<close>

theorem lost_private_tag_aborts:
  assumes "is_private_tag tag" "CHR 0x00 \<notin> set tag" "m_pending_tags m = tag # rest" "\<not> has_key tag (m_self_subs m)"
    and "map_of (m_publishers m) tag = Some ((addr, em_id em) # ps)"
    and "map_of (m_addrs m) (split_address addr) = Some k" "map_of (m_neighbors m) k = Some em"
    and "\<forall>(gid, rd) \<in> set (m_reduce m). rn_parent (rg_neighbors (rd_group rd)) \<noteq> tag"
  shows "add_pending_tag tag m0 = m0 \<and> init_connections_for_pending_tags net m = Inl Assert_Failed"
proof -
  have "\<not> is_publish_tag tag" using assms(1) by (auto simp: is_private_tag_def is_publish_tag_def markers)
  moreover have "find (\<lambda>(gid, rd). rn_parent (rg_neighbors (rd_group rd)) = tag) (m_reduce m) = None"
    using assms(8) by (fastforce simp: find_None_iff)
  ultimately have "init_one tag ([], [], m) = Inl Assert_Failed"
    using assms by (simp add: init_one_def deref_def finalize_reduce_groups_def split_single group_from_parent_tag_def)
  then show ?thesis using assms(1,3) by (simp add: init_connections_for_pending_tags_def add_pending_tag_def)
qed

definition sample_lost :: manager where
  "sample_lost = (sample_neighbor ''m2'')\<lparr>m_pending_tags := [''xa''],
     m_publishers := [(''xa'', [(''10.0.0.2:4000'', ''m2'')])]\<rparr>"

lemma sample_address: "split_address ''10.0.0.2:4000'' = (''10.0.0.2'', 4000)"
  by code_simp

lemma lost_private_tag_aborts_witness: "init_connections_for_pending_tags sample_net sample_lost = Inl Assert_Failed"
  using lost_private_tag_aborts [of "''xa''" sample_lost "[]" "''10.0.0.2:4000''" "sample_em ''m2'' []" "[]" "''m2''"
      sample_lost sample_net]
  by (simp add: sample_lost_def sample_neighbor_def sample_manager_def sample_address is_private_tag_def markers)

text \<open>A publish tag and the parent tag of a reduce group that are found at one address share a connection of
  the type of the first: when it is finished both are bound as subscriptions, and the reduce group is never
  joined, although its tag is no longer pending.\<close>

theorem mixed_tags_one_connection:
  assumes "m_pending_tags m = [p, r]" "is_publish_tag p" "\<not> is_publish_tag r" "p \<noteq> r"
    and "CHR 0x00 \<notin> set p" "CHR 0x00 \<notin> set r" "\<not> has_key p (m_self_subs m)" "\<not> has_key r (m_self_subs m)"
    and "map_of (m_publishers m) p = Some ((addr, k) # ps)" "map_of (m_publishers m) r = Some ((addr, k) # rs)"
    and "map_of (m_addrs m) (split_address addr) = None" "\<not> has_key (split_address addr) (m_pending m)"
    and "connect_non_blocking_str (nt_valid net) (nt_connect net) addr = Inr Connection_In_Progress"
  shows "\<exists>m' info. init_connections_for_pending_tags net m = Inr m' \<and> m_pending_tags m' = []
     \<and> map_of (m_pending m') (split_address addr) = Some info \<and> pi_type info = Subscription_Conn
     \<and> finalize_conn info k u = Inr (True, finalize_subscription (pi_tag info) k u)
     \<and> map_of (m_tags (finalize_subscription (pi_tag info) k u)) r = Some k
     \<and> m_reduce (finalize_subscription (pi_tag info) k u) = m_reduce u"
proof -
  let ?tags = "p @ CHR 0x00 # r"
  have pub: "is_publish_tag ?tags" "p \<noteq> []" using assms(2) by (auto simp: is_publish_tag_def)
  have "split_address addr = (fst (split_address addr), snd (split_address addr) + of_nat 0)" by simp
  then have key: "free_key (split_address addr) (m_pending m) = Inr (split_address addr)"
    using assms(12) by (simp add: free_key_def upt_rec [of 0])
  have "init_connections_for_pending_tags net m = Inr (m\<lparr>m_pending_tags := [],
      m_pending := try_emplace (split_address addr) (new_pending net (split_address addr) Subscription_Conn ?tags) (m_pending m)\<rparr>)"
    using assms pub key
    by (simp add: init_connections_for_pending_tags_def init_one_def add_to_conn_def start_conn_def has_key_def)
  moreover have "split ?tags CHR 0x00 0 = [p, r]"
    using assms(5,6) by (simp add: split_unlimited pieces_append pieces_no_sep)
  then have "map_of (m_tags (finalize_subscription ?tags k u)) r = Some k"
    by (intro finalize_subscription_tags) simp
  moreover have "m_reduce (finalize_subscription ?tags k u) = m_reduce u"
    by (simp add: finalize_subscription_def Let_def send_to_def upd_em_def)
  ultimately show ?thesis using assms(12)
    by (auto simp: map_of_try_emplace new_pending_def finalize_conn_def)
qed

definition sample_mixed :: manager where
  "sample_mixed = sample_manager\<lparr>m_pending_tags := [''pa'', ''ra''],
     m_publishers := [(''pa'', [(''10.0.0.2:4000'', ''m2'')]), (''ra'', [(''10.0.0.2:4000'', ''m2'')])]\<rparr>"

lemma mixed_tags_one_connection_witness:
  "\<exists>m'. init_connections_for_pending_tags sample_net sample_mixed = Inr m' \<and> m_pending_tags m' = []"
proof -
  have "connect_non_blocking_str (nt_valid sample_net) (nt_connect sample_net) ''10.0.0.2:4000'' = Inr Connection_In_Progress"
    by (simp add: connect_non_blocking_str_def connect_non_blocking_def sample_address) (simp add: sample_net_def)
  then show ?thesis
    using mixed_tags_one_connection [of sample_mixed "''pa''" "''ra''" "''10.0.0.2:4000''" "''m2''" "[]" "[]" sample_net]
    by (auto simp: sample_mixed_def sample_manager_def is_publish_tag_def markers)
qed

text \<open>When the handshake cannot be sent on a connection that was made for tags, the connection is dropped
  together with its tags: they are neither pending nor bound afterwards, so the subscription that waits for
  them is never looked after again. (Any other failure makes the tags pending again.)\<close>

theorem failed_handshake_drops_tags:
  assumes "m_pending m = [(key, info)]" "pi_status info = Waiting_For_Conn" "pi_type info = Subscription_Conn"
    and "connection_progress_status (pi_conn info) = No_Error" "so_tx_next (pi_conn info) = r # rs" "r \<noteq> Send_Ok"
    and "tag \<in> set (split (pi_tag info) CHR 0x00 0)" "tag \<notin> set (m_pending_tags m)"
    and "\<not> has_key tag (m_self_subs m)" "\<not> has_key tag (m_tags m)"
  shows "\<exists>m'. process_pending_conns net now m = Inr m' \<and> m_pending m' = [] \<and> tag \<notin> set (m_pending_tags m')
     \<and> \<not> subscribe_is_done [tag] m'"
proof -
  obtain err c where c: "sock_send (make_handshake m) (pi_conn info) = (err, c)" by fastforce
  then have "err \<noteq> No_Error" using assms(5,6) by (auto simp: sock_send_def Let_def split: send_ret.splits)
  then have "process_pending net now info (False, m) = Inr (None, False, m\<lparr>m_notify_conn := True\<rparr>)"
    using assms(2,4) c by (simp add: process_pending_def)
  then have "process_pending_conns net now m = Inr (m\<lparr>m_notify_conn := True, m_pending := []\<rparr>)"
    using assms(1) by (simp add: process_pending_conns_def update_pending_def)
  then show ?thesis using assms(8-10) by (simp add: subscribe_is_done_def)
qed

definition sample_blocked :: manager where
  "sample_blocked = sample_manager\<lparr>m_pending := [((''10.0.0.2'', 4000),
     \<lparr>pi_conn = sample_sock\<lparr>so_tx_next := [Send_EAGAIN]\<rparr>, pi_status = Waiting_For_Conn, pi_type = Subscription_Conn,
      pi_tag = ''pa''\<rparr>)]\<rparr>"

lemma failed_handshake_drops_tags_witness:
  "\<exists>m'. process_pending_conns sample_net 5 sample_blocked = Inr m' \<and> \<not> subscribe_is_done [''pa''] m'"
  using failed_handshake_drops_tags [of sample_blocked "(''10.0.0.2'', 4000)"
      "\<lparr>pi_conn = sample_sock\<lparr>so_tx_next := [Send_EAGAIN]\<rparr>, pi_status = Waiting_For_Conn, pi_type = Subscription_Conn,
         pi_tag = ''pa''\<rparr>" Send_EAGAIN "[]" "''pa''" sample_net 5]
  by (auto simp: sample_blocked_def sample_manager_def sample_sock_def connection_progress_status_def split_single)

section \<open>Joining a reduce group\<close>

text \<open>A machine that joins a reduce group again, as it does after a reconnection, is entered once more: the test
  for a repetition looks for the tag among machine identifiers, so every later value goes to it twice.\<close>

theorem join_repeated_sends_twice:
  assumes "map_of (m_reduce m) gid = Some rd" "tag = rn_left (rg_neighbors (rd_group rd))"
    and "rd_left rd = []" "rd_right rd = []" "tag \<noteq> k"
    and "map_of (m_neighbors m) k = Some em" "\<not> em_dead em" "em_conns em = c # cs" "so_tx_next c = []"
  shows "\<exists>m1 m2 m3 em' c'. handle_join_reduce_group gid tag k m = (True, m1)
     \<and> handle_join_reduce_group gid tag k m1 = (True, m2)
     \<and> send_reduce_data_to_children gid n rtag v m2 = Inr m3
     \<and> map_of (m_neighbors m3) k = Some em' \<and> hd (em_conns em') = c'
     \<and> so_tx c' = so_tx c @ [make_submit_reduce_value gid n rtag v, make_submit_reduce_value gid n rtag v]"
proof -
  let ?m1 = "(set_reduce gid (\<lambda>rd. rd\<lparr>rd_left := [k]\<rparr>) m)\<lparr>m_notify_reduce := True\<rparr>"
  let ?m2 = "(set_reduce gid (\<lambda>rd. rd\<lparr>rd_left := [k, k]\<rparr>) ?m1)\<lparr>m_notify_reduce := True\<rparr>"
  let ?msg = "make_submit_reduce_value gid n rtag v"
  have 1: "handle_join_reduce_group gid tag k m = (True, ?m1)"
    using assms(1-3) by (simp add: handle_join_reduce_group_def join_child_def)
  have r1: "map_of (m_reduce ?m1) gid = Some (rd\<lparr>rd_left := [k]\<rparr>)"
    using assms(1) by (simp add: set_reduce_def map_of_map_entry)
  have 2: "handle_join_reduce_group gid tag k ?m1 = (True, ?m2)"
    using r1 assms(2,5) by (simp add: handle_join_reduce_group_def join_child_def)
  have r2: "map_of (m_reduce ?m2) gid = Some (rd\<lparr>rd_left := [k, k]\<rparr>)"
    using assms(1) by (simp add: set_reduce_def map_of_map_entry)
  have n2: "m_neighbors ?m2 = m_neighbors m" by (simp add: set_reduce_def)
  have hk: "has_key k (m_neighbors ?m2)" using assms(6) n2 by (simp add: has_key_def)
  have 3: "send_reduce_data_to_children gid n rtag v ?m2
      = Inr (set_reduce gid (\<lambda>rd. rd\<lparr>rd_left := [k, k], rd_right := []\<rparr>) (send_to k ?msg (send_to k ?msg ?m2)))"
    unfolding send_reduce_data_to_children_def find_group_def r2
    using assms(4) hk by (simp add: send_and_remove_missing_def Let_def)
  let ?m3 = "set_reduce gid (\<lambda>rd. rd\<lparr>rd_left := [k, k], rd_right := []\<rparr>) (send_to k ?msg (send_to k ?msg ?m2))"
  have "map_of (m_neighbors ?m3) k = Some (em_send ?msg (em_send ?msg em))"
    using assms(6) by (simp add: set_reduce_def send_to_def upd_em_def map_of_map_entry)
  moreover have "so_tx (hd (em_conns (em_send ?msg (em_send ?msg em)))) = so_tx c @ [?msg, ?msg]"
    using assms(7-9) by (simp add: em_send_def sock_send_def Let_def)
  ultimately show ?thesis using 1 2 3 by blast
qed

definition sample_reducer :: manager where
  "sample_reducer = (sample_neighbor ''m2'')\<lparr>m_reduce := [(rg_id sample_group,
     \<lparr>rd_group = sample_group, rd_parents = [], rd_left = [], rd_right = []\<rparr>)]\<rparr>"

lemma join_repeated_sends_twice_witness:
  "\<exists>m1 m2. handle_join_reduce_group (rg_id sample_group) (rn_left (rg_neighbors sample_group)) ''m2'' sample_reducer = (True, m1)
     \<and> handle_join_reduce_group (rg_id sample_group) (rn_left (rg_neighbors sample_group)) ''m2'' m1 = (True, m2)"
proof -
  have "rn_left (rg_neighbors sample_group) \<noteq> ''m2''"
    by (simp add: sample_group_def new_reduce_group_def sample_neighbors_def)
  then show ?thesis
    using join_repeated_sends_twice [of sample_reducer "rg_id sample_group"
        "\<lparr>rd_group = sample_group, rd_parents = [], rd_left = [], rd_right = []\<rparr>"
        "rn_left (rg_neighbors sample_group)" "''m2''" "sample_em ''m2'' []" sample_sock "[]" 0 "''ra''" "[]"]
    by (auto simp: sample_reducer_def sample_neighbor_def sample_manager_def sample_em_def new_ext_manager_def
        sample_sock_def)
qed

end
