(* ===== verification/Sky_Reduce_System.thy ===== *)
theory Sky_Reduce_System
  imports Sky_Publishers
begin

text \<open>
  A whole reduce group: its members, each with the state that \<^verbatim>\<open>ReduceGroup\<close> keeps, and the values that are
  on their way between them, delivered in any order. One reduction of all members refines the bottom-up
  evaluation of the tree, and where nothing is left to do every member's waiter has its answer.
\<close>

section \<open>Members and messages\<close>

text \<open>A reduction: the tags of the members, the types, the operation and every member's value. The members are
  numbered by their tags in order.\<close>

record reduction =
  red_members :: "tag_id list"
  red_types :: "cpp_type list"
  red_op :: reduce_op
  red_value :: "nat \<Rightarrow> value_span"
  red_all :: bool
  red_group :: tag_id
  red_seed :: "nat \<Rightarrow> nat"

definition members :: "reduction \<Rightarrow> nat" where
  "members R = length (red_members R)"

definition member_tag :: "reduction \<Rightarrow> nat \<Rightarrow> tag_id" where
  "member_tag R i = sort (red_members R) ! i"

definition subtree_value :: "reduction \<Rightarrow> nat \<Rightarrow> value_span" where
  "subtree_value R = tree_reduce (red_op R) (red_value R) (members R)"

type_synonym in_flight = "nat \<times> tag_id \<times> version_id \<times> value_span"

text \<open>\<open>rs_sent\<close> is what the members' groups have asked their managers to send so far.\<close>

record reduce_system =
  rs_group :: "nat \<Rightarrow> reduce_group"
  rs_called :: "nat \<Rightarrow> bool"
  rs_flight :: "in_flight list"
  rs_sent :: "(nat \<times> rg_request) list"

definition first_system :: "reduction \<Rightarrow> reduce_system" where
  "first_system R =
     \<lparr>rs_group = (\<lambda>i. new_reduce_group (red_types R) (reduce_neighbors_of (member_tag R i) (red_members R))
                       (red_group R) (member_tag R i) (red_seed R i)),
      rs_called = (\<lambda>i. False), rs_flight = [], rs_sent = []\<rparr>"

text \<open>Where the manager of member \<open>i\<close> sends what the group asks it to send.\<close>

fun route :: "reduction \<Rightarrow> nat \<Rightarrow> rg_request \<Rightarrow> in_flight list" where
  "route R i (To_Parent n tag v) = [((i - 1) div 2, tag, n, v)]"
| "route R i (To_Children n tag v) =
     (if 2 * i + 1 < members R then [(2 * i + 1, tag, n, v)] else [])
     @ (if 2 * i + 2 < members R then [(2 * i + 2, tag, n, v)] else [])"
| "route R i (Send_Disconnection m d) = []"

definition routes :: "reduction \<Rightarrow> nat \<Rightarrow> rg_request list \<Rightarrow> in_flight list" where
  "routes R i reqs = concat (map (route R i) reqs)"

text \<open>A member's job calls the reduction once; a value in flight arrives.\<close>

inductive sys_step :: "reduction \<Rightarrow> reduce_system \<Rightarrow> reduce_system \<Rightarrow> bool" for R where
  call: "sys_step R s (s\<lparr>rs_group := (rs_group s)(i := g), rs_called := (rs_called s)(i := True),
                         rs_flight := rs_flight s @ routes R i reqs, rs_sent := rs_sent s @ map (Pair i) reqs\<rparr>)"
    if "i < members R" "\<not> rs_called s i"
      "reduce_impl (red_all R) (red_op R) (red_value R i) (rs_group s i) = Inr (w, reqs, g)"
| arrive: "sys_step R s (s\<lparr>rs_group := (rs_group s)(i := g), rs_flight := before @ after @ routes R i reqs,
                           rs_sent := rs_sent s @ map (Pair i) reqs\<rparr>)"
    if "rs_flight s = before @ (i, tag, n, v) # after"
      "rg_add_data tag v n (rs_group s i) = Inr (ok, reqs, g)"

definition reduction_ok :: "reduction \<Rightarrow> bool" where
  "reduction_ok R \<longleftrightarrow> distinct (red_members R) \<and> [] \<notin> set (red_members R) \<and> op_typed (red_types R) (red_op R)
     \<and> (\<forall>i < members R. span_is_valid (red_types R) (red_value R i))"

section \<open>The specification\<close>

text \<open>Evaluation of the tree without messages: a member that has no value yet gets one as soon as its children
  have theirs, the operation applied from the left to the value of the left child, its own value and the value of
  the right child, as far as these children exist.\<close>

definition left_to_right :: "('v \<Rightarrow> 'v \<Rightarrow> 'v) \<Rightarrow> 'v option list \<Rightarrow> 'v" where
  "left_to_right f vs = (let present = map the (filter (\<lambda>v. v \<noteq> None) vs) in foldl f (hd present) (tl present))"

inductive tree_step :: "reduction \<Rightarrow> (nat \<Rightarrow> value_span option) \<Rightarrow> (nat \<Rightarrow> value_span option) \<Rightarrow> bool" for R where
  "tree_step R r (r(i := Some (left_to_right (red_op R) [r (2 * i + 1), Some (red_value R i), r (2 * i + 2)])))"
    if "i < members R" "r i = None" "\<forall>c \<in> {2 * i + 1, 2 * i + 2}. c < members R \<longrightarrow> r c \<noteq> None"

text \<open>The values that the members have come to, as the state shows them: the root keeps its value in the buffer that
  its waiter reads, every other member has sent its value to its parent.\<close>

fun sent_up :: "(nat \<times> rg_request) list \<Rightarrow> nat \<Rightarrow> value_span option" where
  "sent_up [] i = None"
| "sent_up ((j, To_Parent n tag v) # sent) i = (if j = i then Some v else sent_up sent i)"
| "sent_up (_ # sent) i = sent_up sent i"

definition values_of :: "reduce_system \<Rightarrow> nat \<Rightarrow> value_span option" where
  "values_of s i =
     (if i = 0 then (case fb_buffer (rg_buffer0 (rs_group s 0)) of [] \<Rightarrow> None | (v, n) # _ \<Rightarrow> Some v)
      else sent_up (rs_sent s) i)"

text \<open>For the proofs: what these values have to be.\<close>

definition done_values :: "reduction \<Rightarrow> reduce_system \<Rightarrow> nat \<Rightarrow> value_span option" where
  "done_values R s i =
     (if i < members R \<and> rg_last_sent (rs_group s i) = 0 then Some (subtree_value R i) else None)"

section \<open>One member\<close>

lemma subtree_value_unfold:
  "subtree_value R i = reduce_node (red_op R)
     (if 2 * i + 1 < members R then Some (subtree_value R (2 * i + 1)) else None) (red_value R i)
     (if 2 * i + 2 < members R then Some (subtree_value R (2 * i + 2)) else None)"
  unfolding subtree_value_def by (rule tree_reduce_node)

lemma subtree_value_valid:
  assumes "reduction_ok R"
  shows "i < members R \<Longrightarrow> span_is_valid (red_types R) (subtree_value R i)"
proof (induction "members R - i" arbitrary: i rule: less_induct)
  case less
  have "span_is_valid (red_types R) (subtree_value R (2 * i + 1))" if "2 * i + 1 < members R"
    using less.hyps [of "2 * i + 1"] that by simp
  moreover have "span_is_valid (red_types R) (subtree_value R (2 * i + 2))" if "2 * i + 2 < members R"
    using less.hyps [of "2 * i + 2"] that by simp
  ultimately show ?case using assms less.prems
    by (subst subtree_value_unfold) (auto simp: reduce_node_def reduction_ok_def op_typed_def)
qed

text \<open>A member is done when it was called and has heard from its children.\<close>

definition done_with :: "reduction \<Rightarrow> nat \<Rightarrow> bool \<Rightarrow> bool \<Rightarrow> bool \<Rightarrow> bool" where
  "done_with R i c l r \<longleftrightarrow> c \<and> (2 * i + 1 < members R \<longrightarrow> l) \<and> (2 * i + 2 < members R \<longrightarrow> r)"

definition fifo_is :: "cpp_type list \<Rightarrow> fifo_buffer \<Rightarrow> (value_span \<times> version_id) list \<Rightarrow> bool" where
  "fifo_is ts b vs \<longleftrightarrow> fb_types b = ts \<and> fb_last_stored b = tag_no_data \<and> fb_buffer b = vs"

definition member :: "reduction \<Rightarrow> nat \<Rightarrow> bool \<Rightarrow> bool \<Rightarrow> bool \<Rightarrow> bool \<Rightarrow> reduce_group \<Rightarrow> bool" where
  "member R i c l r h g \<longleftrightarrow>
     rg_types g = red_types R \<and> rg_neighbors g = reduce_neighbors_of (member_tag R i) (red_members R)
     \<and> rg_produced g = member_tag R i \<and> rg_expected g = expected_type_for (red_types R) \<and> rg_valid g
     \<and> rg_conn_counter g = 0
     \<and> rg_pending g = (if c \<and> \<not> done_with R i c l r
                       then [\<lparr>pr_required = 0, pr_value = red_value R i, pr_operation = red_op R, pr_all = red_all R\<rparr>]
                       else [])
     \<and> rg_last_sent g = (if done_with R i c l r then 0 else tag_no_data)
     \<and> fifo_is (red_types R) (rg_buffer0 g) (if h then [(subtree_value R 0, 0)] else [])
     \<and> fifo_is (red_types R) (rg_buffer1 g)
         (if l \<and> \<not> done_with R i c l r then [(subtree_value R (2 * i + 1), 0)] else [])
     \<and> fifo_is (red_types R) (rg_buffer2 g)
         (if r \<and> \<not> done_with R i c l r then [(subtree_value R (2 * i + 2), 0)] else [])"

text \<open>What a member asks its manager to send when it gets done.\<close>

definition done_requests :: "reduction \<Rightarrow> nat \<Rightarrow> rg_request list" where
  "done_requests R i =
     (if i = 0 then (if red_all R then [To_Children 0 (member_tag R 0) (subtree_value R 0)] else [])
      else [To_Parent 0 (member_tag R i) (subtree_value R i)])"

definition becomes :: "reduction \<Rightarrow> nat \<Rightarrow> bool \<Rightarrow> bool \<Rightarrow> bool \<Rightarrow> bool \<Rightarrow> rg_request list \<Rightarrow> reduce_group \<Rightarrow> bool" where
  "becomes R i c l r h reqs g \<longleftrightarrow>
     reqs = (if done_with R i c l r then done_requests R i else [])
     \<and> member R i c l r (h \<or> i = 0 \<and> done_with R i c l r) g"

lemma member_neighbors:
  assumes "reduction_ok R" "i < members R"
  shows "reduce_neighbors_of (member_tag R i) (red_members R) =
    \<lparr>rn_parent = (if i \<noteq> 0 then member_tag R ((i - 1) div 2) else []),
     rn_left = (if 2 * i + 1 < members R then member_tag R (2 * i + 1) else []),
     rn_right = (if 2 * i + 2 < members R then member_tag R (2 * i + 2) else [])\<rparr>"
  using assms neighbors_at [of "red_members R" i] by (simp add: reduction_ok_def members_def member_tag_def)

lemma member_tag_nonempty: "reduction_ok R \<Longrightarrow> i < members R \<Longrightarrow> member_tag R i \<noteq> []"
  using sort_nth_nonempty [of "red_members R" i] by (simp add: reduction_ok_def members_def member_tag_def)

lemma member_tag_eq:
  "reduction_ok R \<Longrightarrow> i < members R \<Longrightarrow> j < members R \<Longrightarrow> member_tag R i = member_tag R j \<longleftrightarrow> i = j"
  using sort_nth_eq [of "red_members R" i j] by (simp add: reduction_ok_def members_def member_tag_def)

lemma first_member: "member R i False False False False (rs_group (first_system R) i)"
  by (simp add: first_system_def member_def new_reduce_group_def done_with_def fifo_is_def new_fifo_buffer_def)

text \<open>A member between an arrival and the processing of its pending reduction.\<close>

definition unprocessed :: "reduction \<Rightarrow> nat \<Rightarrow> bool \<Rightarrow> bool \<Rightarrow> bool \<Rightarrow> bool \<Rightarrow> reduce_group \<Rightarrow> bool" where
  "unprocessed R i c l r h g \<longleftrightarrow>
     rg_types g = red_types R \<and> rg_neighbors g = reduce_neighbors_of (member_tag R i) (red_members R)
     \<and> rg_produced g = member_tag R i \<and> rg_expected g = expected_type_for (red_types R) \<and> rg_valid g
     \<and> rg_conn_counter g = 0
     \<and> rg_pending g = (if c then [\<lparr>pr_required = 0, pr_value = red_value R i, pr_operation = red_op R, pr_all = red_all R\<rparr>]
                       else [])
     \<and> rg_last_sent g = tag_no_data
     \<and> fifo_is (red_types R) (rg_buffer0 g) (if h then [(subtree_value R 0, 0)] else [])
     \<and> fifo_is (red_types R) (rg_buffer1 g) (if l then [(subtree_value R (2 * i + 1), 0)] else [])
     \<and> fifo_is (red_types R) (rg_buffer2 g) (if r then [(subtree_value R (2 * i + 2), 0)] else [])"

lemma fifo_is_get: "fifo_is ts b [(v, 0)] \<Longrightarrow> \<exists>b'. fifo_get 0 b = Inr (v, b') \<and> fifo_is ts b' []"
  by (simp add: fifo_is_def fifo_get_def)

lemma fifo_is_has: "fifo_is ts b vs \<Longrightarrow> fifo_has_data 0 b \<longleftrightarrow> vs \<noteq> []"
  by (simp add: fifo_is_def fifo_has_data_def)

lemma fifo_is_add:
  "fifo_is ts b vs \<Longrightarrow> span_is_valid ts v \<Longrightarrow> \<exists>b'. fifo_add v n b = Inr b' \<and> fifo_is ts b' (vs @ [(v, n)])"
  by (simp add: fifo_is_def fifo_add_def make_value_ok rassert_def rbind_def)

lemma take_children_member:
  assumes ok: "reduction_ok R" "i < members R" and u: "unprocessed R i True l r h g" and d: "done_with R i True l r"
    and only: "l \<longrightarrow> 2 * i + 1 < members R" "r \<longrightarrow> 2 * i + 2 < members R"
  shows "\<exists>g'. take_children 0 (g\<lparr>rg_last_sent := 0\<rparr>) = Inr
       (if l then Some (subtree_value R (2 * i + 1)) else None, if r then Some (subtree_value R (2 * i + 2)) else None, g')
     \<and> member R i True l r h (g'\<lparr>rg_pending := []\<rparr>) \<and> rg_neighbors g' = rg_neighbors g \<and> rg_valid g'"
proof -
  note nb = member_neighbors [OF ok]
  have tags: "2 * i + 1 < members R \<Longrightarrow> member_tag R (2 * i + 1) \<noteq> []"
    "2 * i + 2 < members R \<Longrightarrow> member_tag R (2 * i + 2) \<noteq> []"
    using member_tag_nonempty [OF ok(1)] by blast+
  have l: "l \<longleftrightarrow> 2 * i + 1 < members R" and r: "r \<longleftrightarrow> 2 * i + 2 < members R"
    using d only by (auto simp: done_with_def)
  show ?thesis
  proof (cases l)
    case False
    then have "\<not> r" using l r by simp
    with False show ?thesis using u d l nb
      by (simp add: take_children_def unprocessed_def member_def)
  next
    case True
    then obtain b1 where b1: "fifo_get 0 (rg_buffer1 g) = Inr (subtree_value R (2 * i + 1), b1)" "fifo_is (red_types R) b1 []"
      using u fifo_is_get [of "red_types R" "rg_buffer1 g"] by (auto simp: unprocessed_def)
    show ?thesis
    proof (cases r)
      case False
      with True b1 show ?thesis using u d l r nb tags
        by (simp add: take_children_def unprocessed_def member_def)
    next
      case right: True
      then obtain b2 where "fifo_get 0 (rg_buffer2 g) = Inr (subtree_value R (2 * i + 2), b2)" "fifo_is (red_types R) b2 []"
        using u fifo_is_get [of "red_types R" "rg_buffer2 g"] by (auto simp: unprocessed_def)
      with True right b1 show ?thesis using u d l r nb tags
        by (simp add: take_children_def unprocessed_def member_def)
    qed
  qed
qed

lemma process_member:
  assumes ok: "reduction_ok R" "i < members R" and u: "unprocessed R i c l r h g" and root: "i = 0 \<longrightarrow> \<not> h"
    and only: "l \<longrightarrow> 2 * i + 1 < members R" "r \<longrightarrow> 2 * i + 2 < members R"
  shows "\<exists>reqs g'. process_pending_reduce_ops g = Inr (reqs, g') \<and> becomes R i c l r h reqs g'"
proof (cases "done_with R i c l r")
  case False
  have "\<not> reduce_is_ready 0 g" if c
    using False that u member_neighbors [OF ok] member_tag_nonempty [OF ok(1)]
    by (auto simp: unprocessed_def reduce_is_ready_def done_with_def fifo_is_has)
  then show ?thesis using False u
    by (auto simp: process_pending_reduce_ops_def unprocessed_def becomes_def member_def)
next
  case True
  then have c: c by (simp add: done_with_def)
  note nb = member_neighbors [OF ok]
  have u': "unprocessed R i True l r h g" and d: "done_with R i True l r" using u True c by simp_all
  have ready: "reduce_is_ready 0 g"
    using True u nb only by (auto simp: unprocessed_def reduce_is_ready_def done_with_def fifo_is_has)
  obtain g' where g': "take_children 0 (g\<lparr>rg_last_sent := 0\<rparr>) = Inr
       (if l then Some (subtree_value R (2 * i + 1)) else None, if r then Some (subtree_value R (2 * i + 2)) else None, g')"
     "member R i True l r h (g'\<lparr>rg_pending := []\<rparr>)" "rg_neighbors g' = rg_neighbors g" "rg_valid g'"
    using take_children_member [OF ok u' d only] by blast
  have v: "reduce_node (red_op R) (if l then Some (subtree_value R (2 * i + 1)) else None) (red_value R i)
      (if r then Some (subtree_value R (2 * i + 2)) else None) = subtree_value R i"
    using True only by (subst subtree_value_unfold) (auto simp: done_with_def)
  show ?thesis
  proof (cases "i = 0")
    case root': True
    then have "rn_parent (rg_neighbors g) = []" using u nb by (simp add: unprocessed_def)
    moreover have "fifo_is (red_types R) (rg_buffer0 g') []" using g'(2) root root' by (simp add: member_def)
    from fifo_is_add [OF this subtree_value_valid [OF ok(1), of 0], of 0] obtain b where
      "fifo_add (subtree_value R 0) 0 (rg_buffer0 g') = Inr b" "fifo_is (red_types R) b [(subtree_value R 0, 0)]"
      using ok root' by auto
    ultimately show ?thesis using u' g' v ready root' c True
      by (simp add: process_pending_reduce_ops_def unprocessed_def becomes_def member_def Let_def
          returns_value_on_reduce_def add_data_index_def done_requests_def)
  next
    case False
    then have "rn_parent (rg_neighbors g) \<noteq> []" using u nb ok member_tag_nonempty [OF ok(1), of "(i - 1) div 2"]
      by (simp add: unprocessed_def)
    then show ?thesis using u' g' v ready False c True
      by (simp add: process_pending_reduce_ops_def unprocessed_def becomes_def member_def Let_def
          returns_value_on_reduce_def done_requests_def)
  qed
qed

lemma becomes_notify [simp]: "becomes R i c l r h reqs (rg_notify g) = becomes R i c l r h reqs g"
  by (simp add: becomes_def member_def rg_notify_def)

lemma call_member:
  assumes ok: "reduction_ok R" "i < members R" and m: "member R i False l r h g" and root: "i = 0 \<longrightarrow> \<not> h"
    and only: "l \<longrightarrow> 2 * i + 1 < members R" "r \<longrightarrow> 2 * i + 2 < members R"
  shows "\<exists>reqs g'. reduce_impl (red_all R) (red_op R) (red_value R i) g = Inr ((0, 0), reqs, g')
    \<and> becomes R i True l r h reqs g'"
proof -
  let ?p = "\<lparr>pr_required = 0, pr_value = red_value R i, pr_operation = red_op R, pr_all = red_all R\<rparr>"
  have "unprocessed R i True l r h (g\<lparr>rg_pending := rg_pending g @ [?p]\<rparr>)"
    using m by (simp add: unprocessed_def member_def done_with_def)
  from process_member [OF ok this root only] obtain reqs g' where
    p: "process_pending_reduce_ops (g\<lparr>rg_pending := rg_pending g @ [?p]\<rparr>) = Inr (reqs, g')"
       "becomes R i True l r h reqs g'" by blast
  then have "rg_conn_counter g' = 0" by (simp add: becomes_def member_def)
  then show ?thesis using m p by (simp add: reduce_impl_def member_def done_with_def tag_no_data_def)
qed

lemma add_data_member:
  assumes ok: "reduction_ok R" "i < members R" and k: "k < 3" "rn_tags (reduce_neighbors_of (member_tag R i) (red_members R)) ! k = tag"
      "\<forall>k' < k. rn_tags (reduce_neighbors_of (member_tag R i) (red_members R)) ! k' \<noteq> tag"
    and g: "rg_neighbors g = reduce_neighbors_of (member_tag R i) (red_members R)" "rg_types g = red_types R"
      "rg_expected g = expected_type_for (red_types R)" "span_is_valid (red_types R) v"
    and add: "add_data_index k v n g = Inr g1" and p: "process_pending_reduce_ops g1 = Inr (reqs, g2)"
  shows "rg_add_data tag v n g = Inr (True, (if k = 0 then [To_Children n (rg_produced g) v] else []) @ reqs, rg_notify g2)"
proof -
  let ?ts = "rn_tags (rg_neighbors g)"
  have "length ?ts = 3" by (simp add: rn_tags_def)
  then have "tag \<in> set ?ts" "index_of tag ?ts = k"
    using k g(1) by (auto simp: in_set_conv_nth rn_tags_def numeral_3_eq_3 less_Suc_eq)
  then show ?thesis using g add p
    by (simp add: rg_add_data_def Let_def span_is_valid_types_match [symmetric])
qed

lemma arrive_left:
  assumes ok: "reduction_ok R" "2 * i + 1 < members R" and m: "member R i c False r h g" and root: "i = 0 \<longrightarrow> \<not> h"
    and only: "r \<longrightarrow> 2 * i + 2 < members R"
  shows "\<exists>reqs g'. rg_add_data (member_tag R (2 * i + 1)) (subtree_value R (2 * i + 1)) 0 g = Inr (True, reqs, g')
    \<and> becomes R i c True r h reqs g'"
proof -
  have i: "i < members R" using ok by simp
  obtain b where b: "fifo_add (subtree_value R (2 * i + 1)) 0 (rg_buffer1 g) = Inr b"
      "fifo_is (red_types R) b [(subtree_value R (2 * i + 1), 0)]"
    using m fifo_is_add [of "red_types R" "rg_buffer1 g" "[]" _ 0, OF _ subtree_value_valid [OF ok]]
    by (auto simp: member_def)
  then have "unprocessed R i c True r h (g\<lparr>rg_buffer1 := b\<rparr>)"
    using m ok(2) by (auto simp: unprocessed_def member_def done_with_def)
  from process_member [OF ok(1) i this root _ only] ok(2) obtain reqs g' where
    p: "process_pending_reduce_ops (g\<lparr>rg_buffer1 := b\<rparr>) = Inr (reqs, g')" "becomes R i c True r h reqs g'" by blast
  have "rg_add_data (member_tag R (2 * i + 1)) (subtree_value R (2 * i + 1)) 0 g
      = Inr (True, (if (1::nat) = 0 then [To_Children 0 (rg_produced g) (subtree_value R (2 * i + 1))] else []) @ reqs, rg_notify g')"
    by (rule add_data_member [OF ok(1) i, of 1])
      (use m b(1) p(1) ok i subtree_value_valid [OF ok] member_tag_nonempty [OF ok] member_tag_eq [OF ok(1)] in
        \<open>auto simp: member_def add_data_index_def rn_tags_def member_neighbors less_Suc_eq\<close>)
  with p(2) show ?thesis by simp
qed

lemma arrive_right:
  assumes ok: "reduction_ok R" "2 * i + 2 < members R" and m: "member R i c l False h g" and root: "i = 0 \<longrightarrow> \<not> h"
  shows "\<exists>reqs g'. rg_add_data (member_tag R (2 * i + 2)) (subtree_value R (2 * i + 2)) 0 g = Inr (True, reqs, g')
    \<and> becomes R i c l True h reqs g'"
proof -
  have i: "i < members R" using ok by simp
  obtain b where b: "fifo_add (subtree_value R (2 * i + 2)) 0 (rg_buffer2 g) = Inr b"
      "fifo_is (red_types R) b [(subtree_value R (2 * i + 2), 0)]"
    using m fifo_is_add [of "red_types R" "rg_buffer2 g" "[]" _ 0, OF _ subtree_value_valid [OF ok]]
    by (auto simp: member_def)
  then have "unprocessed R i c l True h (g\<lparr>rg_buffer2 := b\<rparr>)"
    using m ok(2) by (auto simp: unprocessed_def member_def done_with_def)
  from process_member [OF ok(1) i this root] ok(2) obtain reqs g' where
    p: "process_pending_reduce_ops (g\<lparr>rg_buffer2 := b\<rparr>) = Inr (reqs, g')" "becomes R i c l True h reqs g'" by auto
  have "rg_add_data (member_tag R (2 * i + 2)) (subtree_value R (2 * i + 2)) 0 g
      = Inr (True, (if (2::nat) = 0 then [To_Children 0 (rg_produced g) (subtree_value R (2 * i + 2))] else []) @ reqs, rg_notify g')"
    by (rule add_data_member [OF ok(1) i, of 2])
      (use m b(1) p(1) ok i subtree_value_valid [OF ok] member_tag_nonempty [OF ok] member_tag_eq [OF ok(1)] in
        \<open>auto simp: member_def add_data_index_def rn_tags_def member_neighbors less_2_cases_iff\<close>)
  with p(2) show ?thesis by simp
qed

lemma arrive_down:
  assumes ok: "reduction_ok R" "i < members R" "i \<noteq> 0" and m: "member R i c l r False g" and d: "done_with R i c l r"
  shows "\<exists>g'. rg_add_data (member_tag R ((i - 1) div 2)) (subtree_value R 0) 0 g
      = Inr (True, [To_Children 0 (member_tag R i) (subtree_value R 0)], g') \<and> member R i c l r True g'"
proof -
  have v: "span_is_valid (red_types R) (subtree_value R 0)" using ok by (intro subtree_value_valid) auto
  from m fifo_is_add [of "red_types R" "rg_buffer0 g" "[]", OF _ v, of 0] obtain b where
    b: "fifo_add (subtree_value R 0) 0 (rg_buffer0 g) = Inr b" "fifo_is (red_types R) b [(subtree_value R 0, 0)]"
    by (auto simp: member_def)
  have p: "process_pending_reduce_ops (g\<lparr>rg_buffer0 := b\<rparr>) = Inr ([], (g\<lparr>rg_buffer0 := b\<rparr>)\<lparr>rg_pending := []\<rparr>)"
    using m d by (simp add: process_pending_reduce_ops_def member_def)
  have "rg_add_data (member_tag R ((i - 1) div 2)) (subtree_value R 0) 0 g
      = Inr (True, (if (0::nat) = 0 then [To_Children 0 (rg_produced g) (subtree_value R 0)] else []) @ [],
          rg_notify ((g\<lparr>rg_buffer0 := b\<rparr>)\<lparr>rg_pending := []\<rparr>))"
    by (rule add_data_member [OF ok(1,2), of 0])
      (use m b(1) p ok v in \<open>auto simp: member_def add_data_index_def rn_tags_def member_neighbors\<close>)
  with m b(2) d show ?thesis by (simp add: member_def rg_notify_def)
qed

section \<open>The invariant of the system\<close>

text \<open>The value that member \<open>c\<close> sends to its parent, and the result that it receives from it.\<close>

definition up :: "reduction \<Rightarrow> nat \<Rightarrow> in_flight" where
  "up R c = ((c - 1) div 2, member_tag R c, 0, subtree_value R c)"

definition down :: "reduction \<Rightarrow> nat \<Rightarrow> in_flight" where
  "down R c = (c, member_tag R ((c - 1) div 2), 0, subtree_value R 0)"

text \<open>\<open>U\<close> are the members whose value their parent has received, \<open>H\<close> those that have the result.\<close>

definition is_done :: "reduction \<Rightarrow> (nat \<Rightarrow> bool) \<Rightarrow> nat set \<Rightarrow> nat \<Rightarrow> bool" where
  "is_done R called U i \<longleftrightarrow> done_with R i (called i) (2 * i + 1 \<in> U) (2 * i + 2 \<in> U)"

definition going_up :: "reduction \<Rightarrow> (nat \<Rightarrow> bool) \<Rightarrow> nat set \<Rightarrow> nat set" where
  "going_up R called U = {c. 0 < c \<and> c < members R \<and> is_done R called U c \<and> c \<notin> U}"

definition going_down :: "reduction \<Rightarrow> nat set \<Rightarrow> nat set" where
  "going_down R H = {c. 0 < c \<and> c < members R \<and> red_all R \<and> (c - 1) div 2 \<in> H \<and> c \<notin> H}"

definition system_inv :: "reduction \<Rightarrow> nat set \<Rightarrow> nat set \<Rightarrow> reduce_system \<Rightarrow> bool" where
  "system_inv R U H s \<longleftrightarrow>
     U \<subseteq> {0<..<members R} \<and> H \<subseteq> {..<members R}
     \<and> (\<forall>i < members R. member R i (rs_called s i) (2 * i + 1 \<in> U) (2 * i + 2 \<in> U) (i \<in> H) (rs_group s i))
     \<and> (0 < members R \<longrightarrow> (0 \<in> H \<longleftrightarrow> is_done R (rs_called s) U 0)) \<and> (\<forall>c \<in> U. is_done R (rs_called s) U c)
     \<and> (\<forall>c \<in> H. 0 < c \<longrightarrow> red_all R \<and> (c - 1) div 2 \<in> H)
     \<and> distinct (rs_flight s)
     \<and> set (rs_flight s) = up R ` going_up R (rs_called s) U \<union> down R ` going_down R H"

definition steps_done :: "reduction \<Rightarrow> nat set \<Rightarrow> nat set \<Rightarrow> reduce_system \<Rightarrow> nat" where
  "steps_done R U H s = card {i. i < members R \<and> rs_called s i} + card U + card (H - {0})"

lemma first_system_inv: "system_inv R {} {} (first_system R)"
proof -
  have "\<not> rs_called (first_system R) i" "rs_flight (first_system R) = []" for i
    by (simp_all add: first_system_def)
  then show ?thesis using first_member
    by (auto simp: system_inv_def is_done_def done_with_def going_up_def going_down_def)
qed

lemma up_eq: "reduction_ok R \<Longrightarrow> c < members R \<Longrightarrow> d < members R \<Longrightarrow> up R c = up R d \<longleftrightarrow> c = d"
  by (auto simp: up_def member_tag_eq)

lemma down_eq: "down R c = down R d \<longleftrightarrow> c = d"
  by (auto simp: down_def)

lemma up_down: "reduction_ok R \<Longrightarrow> 0 < c \<Longrightarrow> c < members R \<Longrightarrow> d < members R \<Longrightarrow> up R c \<noteq> down R d"
  using member_tag_eq [of R c "(d - 1) div 2"] by (auto simp: up_def down_def)

lemma routes_done:
  "i < members R \<Longrightarrow> routes R i (done_requests R i)
     = (if i = 0 then map (down R) (filter (\<lambda>c. c < members R \<and> red_all R) [1, 2]) else [up R i])"
  by (auto simp: routes_def done_requests_def up_def down_def)

lemma set_remove_distinct:
  "distinct (before @ x # after) \<Longrightarrow> set (before @ x # after) = insert x S \<Longrightarrow> x \<notin> S \<Longrightarrow> set (before @ after) = S"
  by auto

lemma inv_member: "system_inv R U H s \<Longrightarrow> i < members R \<Longrightarrow>
    member R i (rs_called s i) (2 * i + 1 \<in> U) (2 * i + 2 \<in> U) (i \<in> H) (rs_group s i)"
  by (simp add: system_inv_def)

lemma member_last_sent: "member R i c l r h g \<Longrightarrow> rg_last_sent g = 0 \<longleftrightarrow> done_with R i c l r"
  by (simp add: member_def tag_no_data_def)

lemma done_values_inv:
  "system_inv R U H s \<Longrightarrow> done_values R s i =
     (if i < members R \<and> is_done R (rs_called s) U i then Some (subtree_value R i) else None)"
  using member_last_sent [OF inv_member [of R U H s i]] by (auto simp: done_values_def is_done_def)

text \<open>What a member that gets done adds to the flight.\<close>

lemma going_up_done:
  assumes "\<And>j. j \<noteq> i \<Longrightarrow> is_done R called' U' j = is_done R called U j" "\<not> is_done R called U i" "i \<notin> U'" "U \<subseteq> U'"
    and "i < members R"
  shows "going_up R called' U' = (going_up R called U - U') \<union> (if 0 < i \<and> is_done R called' U' i then {i} else {})"
proof -
  have "c \<in> going_up R called' U' \<longleftrightarrow> c \<in> (going_up R called U - U') \<union> (if 0 < i \<and> is_done R called' U' i then {i} else {})" for c
    using assms by (cases "c = i") (auto simp: going_up_def)
  then show ?thesis by blast
qed

lemma parent_root: "0 < c \<Longrightarrow> (c - 1) div 2 = 0 \<longleftrightarrow> c \<in> {1, 2 :: nat}"
  by auto

lemma going_down_done:
  assumes "0 \<notin> H" "\<forall>c \<in> H. 0 < c \<longrightarrow> (c - 1) div 2 \<in> H"
  shows "going_down R (insert 0 H) = going_down R H \<union> set (filter (\<lambda>c. c < members R \<and> red_all R) [1, 2])"
proof -
  have "1 \<notin> H" "2 \<notin> H" using assms by (metis parent_root insertI1 insertI2 zero_less_one zero_less_numeral)+
  then have "c \<in> going_down R (insert 0 H) \<longleftrightarrow> c \<in> going_down R H \<union> set (filter (\<lambda>c. c < members R \<and> red_all R) [1, 2])" for c
    using parent_root [of c] assms(1) by (cases "c \<in> {1, 2}") (auto simp: going_down_def)
  then show ?thesis by blast
qed

lemma not_in_flight:
  assumes "reduction_ok R" "A \<subseteq> {0<..<members R}" "B \<subseteq> {0<..<members R}" "0 < c" "c < members R"
  shows "c \<notin> B \<Longrightarrow> down R c \<notin> up R ` A \<union> down R ` B" "c \<notin> A \<Longrightarrow> up R c \<notin> up R ` A \<union> down R ` B"
proof -
  have "x \<in> A \<Longrightarrow> up R x \<noteq> down R c" for x using up_down [OF assms(1), of x c] assms(2,5) by auto
  then show "c \<notin> B \<Longrightarrow> down R c \<notin> up R ` A \<union> down R ` B" by (auto simp: down_eq) metis
  have "x \<in> B \<Longrightarrow> up R c \<noteq> down R x" for x using up_down [OF assms(1,4,5)] assms(3)
    by (metis greaterThanLessThan_iff subsetD)
  moreover have "x \<in> A \<Longrightarrow> up R c = up R x \<Longrightarrow> c = x" for x using up_eq [OF assms(1,5)] assms(2)
    by (metis greaterThanLessThan_iff subsetD)
  ultimately show "c \<notin> A \<Longrightarrow> up R c \<notin> up R ` A \<union> down R ` B" by (auto; metis)
qed

text \<open>A member that was not done is called or hears from a child.\<close>

text \<open>What is on its way after a member has answered: its own value goes up, or from the root down to the members below.\<close>

lemma flight_after:
  assumes ok: "reduction_ok R" "i < members R" and G: "G \<subseteq> {0<..<members R}" "i \<notin> G"
    and H0: "i = 0 \<Longrightarrow> 0 \<notin> H" and Hp: "\<forall>c \<in> H. 0 < c \<longrightarrow> red_all R \<and> (c - 1) div 2 \<in> H"
    and F: "distinct F" "set F = up R ` G \<union> down R ` going_down R H"
    and reqs: "rq = (if d then (if i = 0 then map (down R) (filter (\<lambda>c. c < members R \<and> red_all R) [1, 2]) else [up R i]) else [])"
  shows "distinct (F @ rq) \<and> set (F @ rq) = up R ` (G \<union> (if 0 < i \<and> d then {i} else {}))
    \<union> down R ` going_down R (if i = 0 \<and> d then insert 0 H else H)"
proof -
  have going: "going_down R H \<subseteq> {0<..<members R}" by (auto simp: going_down_def)
  consider "\<not> d" | "d" "i = 0" | "d" "0 < i" by blast
  then show ?thesis
  proof cases
    case 1
    then show ?thesis using F reqs by simp
  next
    case 2
    have "c \<notin> going_down R H" if "c \<in> {1, 2}" for c using that H0 [OF 2(2)] by (auto simp: going_down_def)
    then have "down R c \<notin> set F" if "c \<in> {1, 2}" "c < members R" for c
      using not_in_flight(1) [OF ok(1) G(1) going, of c] that F(2) by auto
    moreover have "set (F @ rq) = up R ` G \<union> down R ` going_down R (insert 0 H)"
      using F(2) reqs 2 going_down_done [OF H0 [OF 2(2)]] Hp by auto
    ultimately show ?thesis using F(1) reqs 2 by (auto simp: down_eq)
  next
    case 3
    have "up R i \<notin> set F" using not_in_flight(2) [OF ok(1) G(1) going, of i] 3 ok(2) F(2) G(2) by auto
    then show ?thesis using F reqs 3 by simp
  qed
qed

lemma left_to_right_node: "(l = None \<longrightarrow> r = None) \<Longrightarrow> left_to_right f [l, Some v, r] = reduce_node f l v r"
  by (cases l; cases r) (simp_all add: left_to_right_def reduce_node_def)

text \<open>The step of the specification that a member makes when it is done.\<close>

lemma values_progress:
  assumes inv: "system_inv R U H s" and inv': "system_inv R U' H' s'" and i: "i < members R" and nd: "\<not> is_done R (rs_called s) U i"
    and other: "\<And>j. j \<noteq> i \<Longrightarrow> is_done R (rs_called s') U' j = is_done R (rs_called s) U j"
    and U': "\<And>c. c \<in> U' \<Longrightarrow> is_done R (rs_called s) U c"
  shows "done_values R s' = done_values R s \<or> tree_step R (done_values R s) (done_values R s')"
proof (cases "is_done R (rs_called s') U' i")
  case False
  then have "done_values R s' j = done_values R s j" for j
    using done_values_inv [OF inv', of j] done_values_inv [OF inv, of j] other [of j] nd by (cases "j = i") simp_all
  then show ?thesis by blast
next
  case d: True
  have c: "is_done R (rs_called s) U c" if "c \<in> {2 * i + 1, 2 * i + 2}" "c < members R" for c
    using d that U' by (auto simp: is_done_def [of R "rs_called s'"] done_with_def)
  then have v: "done_values R s c = (if c < members R then Some (subtree_value R c) else None)"
    if "c \<in> {2 * i + 1, 2 * i + 2}" for c
    using that done_values_inv [OF inv, of c] by auto
  have "done_values R s' j = ((done_values R s)(i := Some (subtree_value R i))) j" for j
    using done_values_inv [OF inv', of j] done_values_inv [OF inv, of j] other [of j] i d by auto
  then have "done_values R s' = (done_values R s)(i := Some (subtree_value R i))" by blast
  moreover have "subtree_value R i
      = left_to_right (red_op R) [done_values R s (2 * i + 1), Some (red_value R i), done_values R s (2 * i + 2)]"
    by (subst subtree_value_unfold) (simp add: v left_to_right_node)
  ultimately show ?thesis
    using tree_step.intros [of i R "done_values R s"] i nd v done_values_inv [OF inv, of i] by auto
qed

lemma member_progress:
  assumes ok: "reduction_ok R" "i < members R" and inv: "system_inv R U H s" and nd: "\<not> is_done R (rs_called s) U i"
    and other: "\<And>j. j \<noteq> i \<Longrightarrow> is_done R called' U' j = is_done R (rs_called s) U j
        \<and> called' j = rs_called s j \<and> (2 * j + 1 \<in> U' \<longleftrightarrow> 2 * j + 1 \<in> U) \<and> (2 * j + 2 \<in> U' \<longleftrightarrow> 2 * j + 2 \<in> U)"
    and U': "U \<subseteq> U'" "U' \<subseteq> {0<..<members R}" "\<And>c. c \<in> U' \<Longrightarrow> is_done R (rs_called s) U c"
    and b: "becomes R i (called' i) (2 * i + 1 \<in> U') (2 * i + 2 \<in> U') (i \<in> H) reqs g"
    and F: "distinct F" "set F = up R ` (going_up R (rs_called s) U - U') \<union> down R ` going_down R H"
    and s': "s' = s\<lparr>rs_group := (rs_group s)(i := g), rs_called := called', rs_flight := F @ routes R i reqs\<rparr>"
  shows "\<exists>H'. system_inv R U' H' s' \<and> H' - {0} = H - {0}
    \<and> (done_values R s' = done_values R s \<or> tree_step R (done_values R s) (done_values R s'))"
proof -
  let ?d = "is_done R called' U' i"
  define H' where "H' = (if i = 0 \<and> ?d then insert 0 H else H)"
  have H0: "i = 0 \<Longrightarrow> 0 \<notin> H" using inv nd ok by (auto simp: system_inv_def)
  have Hp: "\<forall>c \<in> H. 0 < c \<longrightarrow> red_all R \<and> (c - 1) div 2 \<in> H" using inv by (simp add: system_inv_def)
  have iU: "i \<notin> U'" using U'(3) nd by blast
  have dn: "is_done R called' U' c" if "c \<in> U'" for c using U'(3) [OF that] other [of c] nd that by (cases "c = i") auto
  have up: "going_up R called' U' = (going_up R (rs_called s) U - U') \<union> (if 0 < i \<and> ?d then {i} else {})"
    using going_up_done [of i R called' U' "rs_called s" U] other nd iU U'(1) ok(2) by blast
  have reqs: "routes R i reqs = (if ?d then (if i = 0 then map (down R) (filter (\<lambda>c. c < members R \<and> red_all R) [1, 2])
      else [up R i]) else [])"
    using b routes_done [OF ok(2)] by (auto simp: becomes_def is_done_def routes_def)
  have mem: "member R j (called' j) (2 * j + 1 \<in> U') (2 * j + 2 \<in> U') (j \<in> H') (rs_group s' j)" if "j < members R" for j
  proof (cases "j = i")
    case True
    then show ?thesis using b H0 by (auto simp: becomes_def is_done_def H'_def s')
  next
    case False
    then show ?thesis using inv that other [OF False] by (auto simp: system_inv_def H'_def s')
  qed
  have flight: "distinct (F @ routes R i reqs)
      \<and> set (F @ routes R i reqs) = up R ` going_up R called' U' \<union> down R ` going_down R H'"
    unfolding H'_def up using nd by (intro flight_after [OF ok _ _ H0 Hp F reqs]) (auto simp: going_up_def)
  have root: "0 \<in> H' \<longleftrightarrow> is_done R called' U' 0" if "0 < members R"
    using inv that other [of 0] H0 nd by (cases "i = 0") (auto simp: system_inv_def H'_def)
  have inv': "system_inv R U' H' s'"
    unfolding system_inv_def using U'(2) mem flight root dn Hp inv ok(2)
    by (auto simp: system_inv_def H'_def s')
  then have "done_values R s' = done_values R s \<or> tree_step R (done_values R s) (done_values R s')"
    using other nd U'(3) ok by (intro values_progress [OF inv]) (auto simp: s')
  moreover have "H' - {0} = H - {0}" by (auto simp: H'_def)
  ultimately show ?thesis using inv' by blast
qed

section \<open>Every step\<close>

definition step_result :: "reduction \<Rightarrow> nat set \<Rightarrow> nat set \<Rightarrow> reduce_system \<Rightarrow> reduce_system \<Rightarrow> bool" where
  "step_result R U H s s' \<longleftrightarrow>
     (\<exists>U' H'. system_inv R U' H' s' \<and> steps_done R U' H' s' = Suc (steps_done R U H s))
     \<and> (done_values R s' = done_values R s \<or> tree_step R (done_values R s) (done_values R s'))"

lemma inv_children:
  assumes "system_inv R U H s" "i < members R" "\<not> is_done R (rs_called s) U i"
  shows "i = 0 \<longrightarrow> i \<notin> H" "2 * i + 1 \<in> U \<longrightarrow> 2 * i + 1 < members R" "2 * i + 2 \<in> U \<longrightarrow> 2 * i + 2 < members R" "i \<notin> U"
  using assms by (auto simp: system_inv_def)

lemma inv_finite: "system_inv R U H s \<Longrightarrow> finite U \<and> finite H"
  by (auto simp: system_inv_def intro: finite_subset)

lemma call_enabled:
  assumes ok: "reduction_ok R" "i < members R" and inv: "system_inv R U H s" and nc: "\<not> rs_called s i"
  shows "\<exists>reqs g. reduce_impl (red_all R) (red_op R) (red_value R i) (rs_group s i) = Inr ((0, 0), reqs, g)
    \<and> becomes R i True (2 * i + 1 \<in> U) (2 * i + 2 \<in> U) (i \<in> H) reqs g"
proof -
  have nd: "\<not> is_done R (rs_called s) U i" using nc by (simp add: is_done_def done_with_def)
  have "member R i False (2 * i + 1 \<in> U) (2 * i + 2 \<in> U) (i \<in> H) (rs_group s i)"
    using inv_member [OF inv ok(2)] nc by simp
  from call_member [OF ok this inv_children(1-3) [OF inv ok(2) nd]] show ?thesis .
qed

lemma call_step:
  assumes ok: "reduction_ok R" "i < members R" and inv: "system_inv R U H s" and nc: "\<not> rs_called s i"
    and c: "reduce_impl (red_all R) (red_op R) (red_value R i) (rs_group s i) = Inr (w, reqs, g)"
  shows "step_result R U H s (s\<lparr>rs_group := (rs_group s)(i := g), rs_called := (rs_called s)(i := True),
                         rs_flight := rs_flight s @ routes R i reqs\<rparr>)" (is "step_result R U H s ?s'")
proof -
  have nd: "\<not> is_done R (rs_called s) U i" using nc by (simp add: is_done_def done_with_def)
  have b: "becomes R i (((rs_called s)(i := True)) i) (2 * i + 1 \<in> U) (2 * i + 2 \<in> U) (i \<in> H) reqs g"
    using call_enabled [OF ok inv nc] c by auto
  have "going_up R (rs_called s) U - U = going_up R (rs_called s) U" by (auto simp: going_up_def)
  then obtain H' where H': "system_inv R U H' ?s'" "H' - {0} = H - {0}"
      "done_values R ?s' = done_values R s \<or> tree_step R (done_values R s) (done_values R ?s')"
    using member_progress [OF ok inv nd, of "(rs_called s)(i := True)" U reqs g "rs_flight s" ?s'] b inv
    by (auto simp: system_inv_def is_done_def)
  have "{j. j < members R \<and> rs_called ?s' j} = insert i {j. j < members R \<and> rs_called s j}" using ok(2) by auto
  then have "steps_done R U H' ?s' = Suc (steps_done R U H s)" using nc H'(2) by (simp add: steps_done_def)
  with H' show ?thesis unfolding step_result_def by blast
qed

lemma child_of: "0 < c \<Longrightarrow> c = 2 * ((c - 1) div 2) + 1 \<or> c = 2 * ((c - 1) div 2) + (2 :: nat)"
  by presburger

lemma up_enabled:
  assumes ok: "reduction_ok R" and inv: "system_inv R U H s" and c: "c \<in> going_up R (rs_called s) U"
  defines "i \<equiv> (c - 1) div 2"
  shows "i < members R \<and> \<not> is_done R (rs_called s) U i \<and>
    (\<exists>reqs g. rg_add_data (member_tag R c) (subtree_value R c) 0 (rs_group s i) = Inr (True, reqs, g)
      \<and> becomes R i (rs_called s i) (2 * i + 1 \<in> insert c U) (2 * i + 2 \<in> insert c U) (i \<in> H) reqs g)"
proof -
  have c': "0 < c" "c < members R" "c \<notin> U" using c by (auto simp: going_up_def)
  have i: "i < members R" using c' by (auto simp: i_def)
  have nd: "\<not> is_done R (rs_called s) U i" using child_of [OF c'(1)] c' by (auto simp: is_done_def done_with_def i_def)
  note m = inv_member [OF inv i] and ch = inv_children [OF inv i nd]
  from child_of [OF c'(1)] consider (left) "c = 2 * i + 1" | (right) "c = 2 * i + 2" by (auto simp: i_def)
  then have "\<exists>reqs g. rg_add_data (member_tag R c) (subtree_value R c) 0 (rs_group s i) = Inr (True, reqs, g)
      \<and> becomes R i (rs_called s i) (2 * i + 1 \<in> insert c U) (2 * i + 2 \<in> insert c U) (i \<in> H) reqs g"
  proof cases
    case left
    then show ?thesis using arrive_left [OF ok, of i "rs_called s i" "2 * i + 2 \<in> U" "i \<in> H" "rs_group s i"] m ch c' by simp
  next
    case right
    then show ?thesis using arrive_right [OF ok, of i "rs_called s i" "2 * i + 1 \<in> U" "i \<in> H" "rs_group s i"] m ch c' by simp
  qed
  with i nd show ?thesis by blast
qed

lemma up_step:
  assumes ok: "reduction_ok R" and inv: "system_inv R U H s" and c: "c \<in> going_up R (rs_called s) U"
    and fl: "rs_flight s = before @ up R c # after" and i: "i = (c - 1) div 2"
    and a: "rg_add_data (member_tag R c) (subtree_value R c) 0 (rs_group s i) = Inr (okay, reqs, g)"
  shows "step_result R U H s (s\<lparr>rs_group := (rs_group s)(i := g), rs_flight := before @ after @ routes R i reqs\<rparr>)"
    (is "step_result R U H s ?s'")
proof -
  have c': "0 < c" "c < members R" "c \<notin> U" "is_done R (rs_called s) U c" using c by (auto simp: going_up_def)
  note e = up_enabled [OF ok inv c, folded i]
  have b: "becomes R i (rs_called s i) (2 * i + 1 \<in> insert c U) (2 * i + 2 \<in> insert c U) (i \<in> H) reqs g"
    using e a by auto
  have other: "j \<noteq> i \<Longrightarrow> (2 * j + 1 \<in> insert c U \<longleftrightarrow> 2 * j + 1 \<in> U) \<and> (2 * j + 2 \<in> insert c U \<longleftrightarrow> 2 * j + 2 \<in> U)" for j
    using child_of [OF c'(1)] by (auto simp: i)
  have F: "distinct (before @ after)" "set (before @ after) = up R ` (going_up R (rs_called s) U - insert c U) \<union> down R ` going_down R H"
  proof -
    have fl': "distinct (before @ up R c # after)"
      "set (before @ up R c # after) = up R ` going_up R (rs_called s) U \<union> down R ` going_down R H"
      using inv fl by (simp_all add: system_inv_def)
    have "up R c \<notin> up R ` (going_up R (rs_called s) U - insert c U) \<union> down R ` going_down R H"
      by (rule not_in_flight(2) [OF ok]) (use c' in \<open>auto simp: going_up_def going_down_def\<close>)
    moreover have "up R ` going_up R (rs_called s) U = insert (up R c) (up R ` (going_up R (rs_called s) U - insert c U))"
      using c by (auto simp: going_up_def)
    ultimately show "set (before @ after) = up R ` (going_up R (rs_called s) U - insert c U) \<union> down R ` going_down R H"
      using fl'(2) by (intro set_remove_distinct [OF fl'(1)]) simp_all
    show "distinct (before @ after)" using fl'(1) by simp
  qed
  have same: "is_done R (rs_called s) (insert c U) j = is_done R (rs_called s) U j \<and> rs_called s j = rs_called s j
      \<and> (2 * j + 1 \<in> insert c U \<longleftrightarrow> 2 * j + 1 \<in> U) \<and> (2 * j + 2 \<in> insert c U \<longleftrightarrow> 2 * j + 2 \<in> U)" if "j \<noteq> i" for j
    using other [OF that] by (simp add: is_done_def)
  have U: "U \<subseteq> insert c U" "insert c U \<subseteq> {0<..<members R}" "\<And>j. j \<in> insert c U \<Longrightarrow> is_done R (rs_called s) U j"
    using inv c' by (auto simp: system_inv_def)
  have s': "?s' = s\<lparr>rs_group := (rs_group s)(i := g), rs_called := rs_called s, rs_flight := (before @ after) @ routes R i reqs\<rparr>"
    by simp
  obtain H' where H': "system_inv R (insert c U) H' ?s'" "H' - {0} = H - {0}"
      "done_values R ?s' = done_values R s \<or> tree_step R (done_values R s) (done_values R ?s')"
    using member_progress [OF ok conjunct1 [OF e] inv conjunct1 [OF conjunct2 [OF e]] same U b F s'] by blast
  have "steps_done R (insert c U) H' ?s' = Suc (steps_done R U H s)"
    using H'(2) c'(3) inv_finite [OF inv] by (simp add: steps_done_def)
  with H' show ?thesis unfolding step_result_def by blast
qed

lemma all_done:
  assumes inv: "system_inv R U H s" and h: "h \<in> H" "i < members R" "is_done R (rs_called s) U 0"
  shows "is_done R (rs_called s) U i"
  using h(2)
proof (induction i rule: less_induct)
  case (less i)
  show ?case
  proof (cases "i = 0")
    case False
    then have "is_done R (rs_called s) U ((i - 1) div 2)" using less by simp
    then have "i \<in> U" using child_of [of i] False less.prems by (auto simp: is_done_def done_with_def)
    then show ?thesis using inv by (simp add: system_inv_def)
  qed (use h(3) in simp)
qed

lemma root_heard: "system_inv R U H s \<Longrightarrow> h \<in> H \<Longrightarrow> 0 \<in> H"
proof (induction h rule: less_induct)
  case (less h)
  show ?case
  proof (cases "h = 0")
    case False
    then have "(h - 1) div 2 \<in> H" using less.prems by (simp add: system_inv_def)
    moreover have "(h - 1) div 2 < h" using False by simp
    ultimately show ?thesis using less by blast
  qed (use less.prems in simp)
qed

lemma down_enabled:
  assumes ok: "reduction_ok R" and inv: "system_inv R U H s" and c: "c \<in> going_down R H"
  shows "\<exists>g. rg_add_data (member_tag R ((c - 1) div 2)) (subtree_value R 0) 0 (rs_group s c)
      = Inr (True, [To_Children 0 (member_tag R c) (subtree_value R 0)], g)
    \<and> member R c (rs_called s c) (2 * c + 1 \<in> U) (2 * c + 2 \<in> U) True g"
proof -
  have c': "0 < c" "c < members R" "(c - 1) div 2 \<in> H" "c \<notin> H" using c by (auto simp: going_down_def)
  have "0 \<in> H" using root_heard [OF inv c'(3)] .
  then have d: "is_done R (rs_called s) U c" using all_done [OF inv c'(3,2)] inv c'(2) by (auto simp: system_inv_def)
  have m: "member R c (rs_called s c) (2 * c + 1 \<in> U) (2 * c + 2 \<in> U) False (rs_group s c)"
    using inv_member [OF inv c'(2)] c'(4) by simp
  show ?thesis by (rule arrive_down [OF ok c'(2) _ m]) (use c'(1) d in \<open>simp_all add: is_done_def\<close>)
qed

lemma routes_result:
  "routes R c [To_Children 0 (member_tag R c) (subtree_value R 0)]
     = map (down R) (filter (\<lambda>j. j < members R) [2 * c + 1, 2 * c + 2])"
  by (simp add: routes_def down_def)

lemma going_down_heard:
  assumes c: "c \<in> going_down R H" and H: "\<forall>j \<in> H. 0 < j \<longrightarrow> (j - 1) div 2 \<in> H"
  shows "going_down R (insert c H) = (going_down R H - {c}) \<union> set (filter (\<lambda>j. j < members R) [2 * c + 1, 2 * c + 2])"
proof -
  have "2 * c + 1 \<notin> H" "2 * c + 2 \<notin> H" using c H by (auto simp: going_down_def)
  then have "j \<in> going_down R (insert c H) \<longleftrightarrow>
      j \<in> (going_down R H - {c}) \<union> set (filter (\<lambda>j. j < members R) [2 * c + 1, 2 * c + 2])" for j
    using c child_of [of j] by (cases "(j - 1) div 2 = c") (auto simp: going_down_def)
  then show ?thesis by blast
qed

lemma down_step:
  assumes ok: "reduction_ok R" and inv: "system_inv R U H s" and c: "c \<in> going_down R H"
    and fl: "rs_flight s = before @ down R c # after"
    and a: "rg_add_data (member_tag R ((c - 1) div 2)) (subtree_value R 0) 0 (rs_group s c) = Inr (okay, reqs, g)"
  shows "step_result R U H s (s\<lparr>rs_group := (rs_group s)(c := g), rs_flight := before @ after @ routes R c reqs\<rparr>)"
    (is "step_result R U H s ?s'")
proof -
  have c': "0 < c" "c < members R" "red_all R" "(c - 1) div 2 \<in> H" "c \<notin> H" using c by (auto simp: going_down_def)
  have Hp: "\<forall>j \<in> H. 0 < j \<longrightarrow> red_all R \<and> (j - 1) div 2 \<in> H" using inv by (simp add: system_inv_def)
  have g: "member R c (rs_called s c) (2 * c + 1 \<in> U) (2 * c + 2 \<in> U) True g"
    and reqs: "routes R c reqs = map (down R) (filter (\<lambda>j. j < members R) [2 * c + 1, 2 * c + 2])"
    using down_enabled [OF ok inv c] a routes_result [of R c] by auto
  have fl': "distinct (before @ down R c # after)"
    "set (before @ down R c # after) = up R ` going_up R (rs_called s) U \<union> down R ` going_down R H"
    using inv fl by (simp_all add: system_inv_def)
  have sub: "going_up R (rs_called s) U \<subseteq> {0<..<members R}" "going_down R H - {c} \<subseteq> {0<..<members R}"
    by (auto simp: going_up_def going_down_def)
  have F: "set (before @ after) = up R ` going_up R (rs_called s) U \<union> down R ` (going_down R H - {c})"
  proof (rule set_remove_distinct [OF fl'(1)])
    show "set (before @ down R c # after) = insert (down R c) (up R ` going_up R (rs_called s) U \<union> down R ` (going_down R H - {c}))"
      unfolding fl'(2) using c by auto
    show "down R c \<notin> up R ` going_up R (rs_called s) U \<union> down R ` (going_down R H - {c})"
      by (rule not_in_flight(1) [OF ok sub c'(1,2)]) simp
  qed
  have new: "down R j \<notin> set (before @ after)" if "j \<in> {2 * c + 1, 2 * c + 2}" "j < members R" for j
  proof -
    have "j \<notin> going_down R H" using that c'(5) by (auto simp: going_down_def)
    then show ?thesis unfolding F using not_in_flight(1) [OF ok sub, of j] that by auto
  qed
  have flight: "distinct (before @ after @ routes R c reqs)"
    "set (before @ after @ routes R c reqs) = up R ` going_up R (rs_called s) U \<union> down R ` going_down R (insert c H)"
    using fl'(1) new F reqs going_down_heard [OF c] Hp by (auto simp: down_eq)
  have mem: "\<forall>i < members R. member R i (rs_called s i) (2 * i + 1 \<in> U) (2 * i + 2 \<in> U) (i \<in> insert c H) (((rs_group s)(c := g)) i)"
    using g inv_member [OF inv] by auto
  have inv': "system_inv R U (insert c H) ?s'"
    using inv mem flight c' by (auto simp: system_inv_def)
  moreover have "steps_done R U (insert c H) ?s' = Suc (steps_done R U H s)"
  proof -
    have "insert c H - {0} = insert c (H - {0})" using c'(1) by auto
    then show ?thesis using c'(5) inv_finite [OF inv] by (simp add: steps_done_def)
  qed
  moreover have "done_values R ?s' = done_values R s"
    using done_values_inv [OF inv'] done_values_inv [OF inv] by (simp add: fun_eq_iff)
  ultimately show ?thesis unfolding step_result_def by blast
qed

lemma step_result_sent: "step_result R U H s (s'\<lparr>rs_sent := sent\<rparr>) = step_result R U H s s'"
  by (simp add: step_result_def system_inv_def steps_done_def done_values_def [abs_def])

lemma sys_step_result:
  assumes ok: "reduction_ok R" and inv: "system_inv R U H s" and step: "sys_step R s s'"
  shows "step_result R U H s s'"
  using step
proof cases
  case (call i w reqs g)
  then show ?thesis
    using call_step [OF ok call(2) inv call(3,4)] by (simp only: call(1) step_result_sent)
next
  case (arrive before i tag n v after okay reqs g)
  then have "(i, tag, n, v) \<in> up R ` going_up R (rs_called s) U \<union> down R ` going_down R H"
    using inv by (auto simp: system_inv_def)
  then show ?thesis
  proof
    assume "(i, tag, n, v) \<in> up R ` going_up R (rs_called s) U"
    then obtain c where c: "c \<in> going_up R (rs_called s) U" "(i, tag, n, v) = up R c" by blast
    then show ?thesis using arrive up_step [OF ok inv c(1)] by (auto simp: up_def step_result_sent)
  next
    assume "(i, tag, n, v) \<in> down R ` going_down R H"
    then obtain c where c: "c \<in> going_down R H" "(i, tag, n, v) = down R c" by blast
    then show ?thesis using arrive down_step [OF ok inv c(1)] by (auto simp: down_def step_result_sent)
  qed
qed

section \<open>Refinement and completion\<close>

lemma reachable_inv:
  assumes ok: "reduction_ok R"
  shows "(sys_step R ^^ k) (first_system R) s \<Longrightarrow> \<exists>U H. system_inv R U H s \<and> steps_done R U H s = k"
proof (induction k arbitrary: s)
  case 0
  then show ?case using first_system_inv [of R]
    by (auto simp: steps_done_def first_system_def intro!: exI [of _ "{}"])
next
  case (Suc k)
  then obtain u where u: "(sys_step R ^^ k) (first_system R) u" "sys_step R u s" by auto
  then obtain U H where "system_inv R U H u" "steps_done R U H u = k" using Suc.IH by blast
  with sys_step_result [OF ok _ u(2)] show ?case unfolding step_result_def by auto
qed

lemma steps_bound:
  assumes "reduction_ok R" "(sys_step R ^^ k) (first_system R) s"
  shows "k \<le> 3 * members R"
proof -
  from reachable_inv [OF assms] obtain U H where inv: "system_inv R U H s" and k: "steps_done R U H s = k" by blast
  have "card {i. i < members R \<and> rs_called s i} \<le> card {..<members R}" by (rule card_mono) auto
  moreover have "card U \<le> card {..<members R}" using inv by (intro card_mono) (auto simp: system_inv_def)
  moreover have "card (H - {0}) \<le> card {..<members R}" using inv by (intro card_mono) (auto simp: system_inv_def)
  ultimately show "k \<le> 3 * members R" using k by (simp add: steps_done_def)
qed

lemma runs_end:
  assumes ok: "reduction_ok R"
  shows "\<exists>k s. (sys_step R ^^ k) (first_system R) s \<and> \<not> (\<exists>s'. sys_step R s s')"
proof (rule ccontr)
  assume c: "\<not> ?thesis"
  have "\<exists>s. (sys_step R ^^ k) (first_system R) s" for k
  proof (induction k)
    case (Suc k)
    then show ?case using c by (auto intro!: relcomppI)
  qed auto
  then obtain s where "(sys_step R ^^ Suc (3 * members R)) (first_system R) s" by blast
  from steps_bound [OF ok this] show False by simp
qed

text \<open>What the members have sent and stored are the values that they have to have.\<close>

lemma sent_up_append: "sent_up (sent @ new) j = (case sent_up sent j of None \<Rightarrow> sent_up new j | Some v \<Rightarrow> Some v)"
  by (induction sent j rule: sent_up.induct) auto

lemma sent_up_other: "j \<noteq> i \<Longrightarrow> sent_up (map (Pair i) reqs) j = None"
proof (induction reqs)
  case (Cons q reqs)
  then show ?case by (cases q) auto
qed simp

lemma becomes_sent:
  "becomes R i c l r h reqs g \<Longrightarrow> i \<noteq> 0 \<Longrightarrow>
     sent_up (map (Pair i) reqs) i = (if rg_last_sent g = 0 then Some (subtree_value R i) else None)"
  using member_last_sent [of R i c l r h g] by (auto simp: becomes_def done_requests_def)

lemma sent_step:
  assumes ok: "reduction_ok R" and inv: "system_inv R U H s" and step: "sys_step R s s'" and j: "j \<noteq> 0"
    and old: "sent_up (rs_sent s) j = done_values R s j"
  shows "sent_up (rs_sent s') j = done_values R s' j"
proof -
  have undone: "done_values R s i = None" if "\<not> is_done R (rs_called s) U i" for i
    using done_values_inv [OF inv] that by simp
  have "\<exists>i reqs g. i < members R \<and> rs_sent s' = rs_sent s @ map (Pair i) reqs \<and> rs_group s' = (rs_group s)(i := g)
      \<and> (\<not> is_done R (rs_called s) U i \<and> (\<exists>c l r h. becomes R i c l r h reqs g)
         \<or> done_values R s i = Some (subtree_value R i) \<and> rg_last_sent g = 0)"
    using step
  proof cases
    case (call i w reqs g)
    then have "\<not> is_done R (rs_called s) U i" by (simp add: is_done_def done_with_def)
    moreover from call have "\<exists>c l r h. becomes R i c l r h reqs g" using call_enabled [OF ok call(2) inv call(3)] by auto
    ultimately show ?thesis using call by (intro exI [of _ i] exI [of _ reqs] exI [of _ g]) simp
  next
    case (arrive before i tag n v after okay reqs g)
    then have "(i, tag, n, v) \<in> up R ` going_up R (rs_called s) U \<union> down R ` going_down R H"
      using inv by (auto simp: system_inv_def)
    then consider (up) c where "c \<in> going_up R (rs_called s) U" "(i, tag, n, v) = up R c"
      | (down) c where "c \<in> going_down R H" "(i, tag, n, v) = down R c" by blast
    then show ?thesis
    proof cases
      case up
      then have x: "i = (c - 1) div 2" "tag = member_tag R c" "n = 0" "v = subtree_value R c" by (simp_all add: up_def)
      note e = up_enabled [OF ok inv up(1), folded x(1)]
      then have "\<exists>c l r h. becomes R i c l r h reqs g" using arrive(3) x by auto
      then show ?thesis using arrive e by (intro exI [of _ i] exI [of _ reqs] exI [of _ g]) simp
    next
      case down
      then have x: "i = c" "tag = member_tag R ((c - 1) div 2)" "n = 0" "v = subtree_value R 0" by (simp_all add: down_def)
      have i: "i < members R" using down(1) x(1) by (simp add: going_down_def)
      obtain g' where g': "rg_add_data tag v n (rs_group s i) = Inr (True, [To_Children 0 (member_tag R c) (subtree_value R 0)], g')"
        "member R c (rs_called s c) (2 * c + 1 \<in> U) (2 * c + 2 \<in> U) True g'"
        using down_enabled [OF ok inv down(1)] x by auto
      have "0 \<in> H" using root_heard [OF inv, of "(c - 1) div 2"] down(1) by (simp add: going_down_def)
      then have "is_done R (rs_called s) U 0" using inv i by (auto simp: system_inv_def)
      then have d: "is_done R (rs_called s) U c"
        using all_done [OF inv, of "(c - 1) div 2" c] down(1) by (simp add: going_down_def)
      then have "rg_last_sent g = 0" using member_last_sent [OF g'(2)] g'(1) arrive(3) by (simp add: is_done_def)
      moreover have "done_values R s i = Some (subtree_value R i)" using done_values_inv [OF inv, of i] d i x(1) by simp
      ultimately show ?thesis using arrive i by (intro exI [of _ i] exI [of _ reqs] exI [of _ g]) simp
    qed
  qed
  then obtain i reqs g where i: "i < members R" and s': "rs_sent s' = rs_sent s @ map (Pair i) reqs"
      "rs_group s' = (rs_group s)(i := g)"
    and g: "\<not> is_done R (rs_called s) U i \<and> (\<exists>c l r h. becomes R i c l r h reqs g)
      \<or> done_values R s i = Some (subtree_value R i) \<and> rg_last_sent g = 0" by blast
  show ?thesis
  proof (cases "j = i")
    case False
    then have "done_values R s' j = done_values R s j" by (simp add: done_values_def s'(2))
    then show ?thesis using old False by (simp add: s'(1) sent_up_append sent_up_other split: option.splits)
  next
    case True
    then have d: "done_values R s' j = (if rg_last_sent g = 0 then Some (subtree_value R j) else None)"
      using i by (simp add: done_values_def s'(2))
    from g show ?thesis
    proof
      assume "\<not> is_done R (rs_called s) U i \<and> (\<exists>c l r h. becomes R i c l r h reqs g)"
      then have "sent_up (rs_sent s) j = None" "sent_up (map (Pair j) reqs) j = done_values R s' j"
        using undone [of i] old True becomes_sent [of R i _ _ _ _ reqs g] j d by auto
      then show ?thesis by (simp add: s'(1) sent_up_append True)
    next
      assume "done_values R s i = Some (subtree_value R i) \<and> rg_last_sent g = 0"
      then show ?thesis using old True d by (simp add: s'(1) sent_up_append)
    qed
  qed
qed

lemma reachable_sent:
  assumes ok: "reduction_ok R"
  shows "(sys_step R ^^ k) (first_system R) s \<Longrightarrow> j \<noteq> 0 \<Longrightarrow> sent_up (rs_sent s) j = done_values R s j"
proof (induction k arbitrary: s)
  case 0
  then have "s = first_system R" by simp
  then show ?case using done_values_inv [OF first_system_inv [of R], of j]
    by (auto simp: first_system_def is_done_def done_with_def)
next
  case (Suc k)
  then obtain u where u: "(sys_step R ^^ k) (first_system R) u" "sys_step R u s" by auto
  then show ?case using reachable_inv [OF ok u(1)] sent_step [OF ok _ u(2) Suc.prems(2)] Suc.IH Suc.prems(2) by blast
qed

lemma root_stored:
  assumes ok: "reduction_ok R" and inv: "system_inv R U H s" and run: "(sys_step R ^^ k) (first_system R) s"
  shows "values_of s 0 = done_values R s 0"
proof (cases "0 < members R")
  case True
  have "fifo_is (red_types R) (rg_buffer0 (rs_group s 0)) (if 0 \<in> H then [(subtree_value R 0, 0)] else [])"
    using inv_member [OF inv True] by (simp add: member_def)
  moreover have "0 \<in> H \<longleftrightarrow> is_done R (rs_called s) U 0" using inv True by (simp add: system_inv_def)
  ultimately show ?thesis using done_values_inv [OF inv, of 0] True by (simp add: values_of_def fifo_is_def)
next
  case False
  have "k \<le> 0" using steps_bound [OF ok run] False by simp
  then have "s = first_system R" using run by simp
  then show ?thesis using False
    by (simp add: values_of_def done_values_def first_system_def new_reduce_group_def new_fifo_buffer_def)
qed

lemma values_reachable:
  assumes ok: "reduction_ok R" and run: "(sys_step R ^^ k) (first_system R) s"
  shows "values_of s = done_values R s"
proof
  fix j
  obtain U H where "system_inv R U H s" using reachable_inv [OF assms] by blast
  then show "values_of s j = done_values R s j"
    using root_stored [OF ok _ run] reachable_sent [OF ok run, of j] by (cases "j = 0") (auto simp: values_of_def)
qed

text \<open>C2: A reduction of a whole group refines the evaluation of the tree. The values of the members are read from
  the state: at the root what it stored for its waiter, elsewhere what the member asked its manager to send to its
  parent. Nobody has one at first; and whatever the members' calls and the deliveries of values are interleaved
  like, each step either leaves these values as they are, or gives one more member the value that the operation
  makes, from left to right, of the value of its left child, its own and that of its right child, once the children
  that exist have theirs.\<close>

theorem reduction_refines_tree:
  assumes "reduction_ok R" "(sys_step R)\<^sup>*\<^sup>* (first_system R) s" "sys_step R s s'"
  shows "values_of (first_system R) = (\<lambda>i. None)
    \<and> (values_of s' = values_of s \<or> tree_step R (values_of s) (values_of s'))"
proof -
  from assms(2) obtain k where k: "(sys_step R ^^ k) (first_system R) s" by (auto simp: rtranclp_power)
  then have k': "(sys_step R ^^ Suc k) (first_system R) s'" using assms(3) by auto
  from reachable_inv [OF assms(1) k] obtain U H where "system_inv R U H s" by blast
  from sys_step_result [OF assms(1) this assms(3)]
  have "values_of s' = values_of s \<or> tree_step R (values_of s) (values_of s')"
    by (simp add: step_result_def values_reachable [OF assms(1) k] values_reachable [OF assms(1) k'])
  moreover have "values_of (first_system R) i = None" for i
    by (simp add: values_of_def first_system_def new_reduce_group_def new_fifo_buffer_def)
  ultimately show ?thesis by blast
qed

lemma flight_accepted:
  assumes ok: "reduction_ok R" and inv: "system_inv R U H s" and x: "(i, tag, n, v) \<in> set (rs_flight s)"
  shows "\<exists>reqs g. rg_add_data tag v n (rs_group s i) = Inr (True, reqs, g)"
proof -
  have "(i, tag, n, v) \<in> up R ` going_up R (rs_called s) U \<union> down R ` going_down R H"
    using inv x by (simp add: system_inv_def)
  then show ?thesis
    using up_enabled [OF ok inv] down_enabled [OF ok inv] by (fastforce simp: up_def down_def)
qed

text \<open>Where no step is left, every member was called, is done, and has the result if all are to have it.\<close>

lemma no_step_left:
  assumes ok: "reduction_ok R" and inv: "system_inv R U H s" and stuck: "\<not> (\<exists>s'. sys_step R s s')" and i: "i < members R"
  shows "is_done R (rs_called s) U i \<and> (i = 0 \<or> red_all R \<longrightarrow> i \<in> H)"
proof -
  have called: "rs_called s j" if "j < members R" for j
    using call_enabled [OF ok that inv] sys_step.call [OF that] stuck by blast
  have "rs_flight s = []"
  proof (rule ccontr)
    assume "rs_flight s \<noteq> []"
    then obtain j tag n v rest where r: "rs_flight s = [] @ (j, tag, n, v) # rest" by (cases "rs_flight s") auto
    then obtain reqs g where "rg_add_data tag v n (rs_group s j) = Inr (True, reqs, g)"
      using flight_accepted [OF ok inv, of j tag n v] by auto
    with sys_step.arrive [OF r] stuck show False by blast
  qed
  then have none: "going_up R (rs_called s) U = {}" "going_down R H = {}" using inv by (auto simp: system_inv_def)
  have d: "is_done R (rs_called s) U j" if "j < members R" for j
    using that
  proof (induction "members R - j" arbitrary: j rule: less_induct)
    case less
    have "c \<in> U" if "c \<in> {2 * j + 1, 2 * j + 2}" "c < members R" for c
    proof -
      have "members R - c < members R - j" "0 < c" using that less.prems by auto
      then have "is_done R (rs_called s) U c" using less.hyps that(2) by blast
      then show ?thesis using none(1) that \<open>0 < c\<close> by (auto simp: going_up_def)
    qed
    then show ?case using called [OF less.prems] by (auto simp: is_done_def done_with_def)
  qed
  have h: "j \<in> H" if "j < members R" "j = 0 \<or> red_all R" for j
    using that
  proof (induction j rule: less_induct)
    case (less j)
    show ?case
    proof (cases "j = 0")
      case True
      then show ?thesis using d inv less.prems by (simp add: system_inv_def)
    next
      case False
      then have "(j - 1) div 2 \<in> H" using less by simp
      then show ?thesis using none(2) False less.prems by (auto simp: going_down_def)
    qed
  qed
  show ?thesis using d h i by blast
qed

text \<open>What the waiters answer then.\<close>

lemma answers_at_end:
  assumes ok: "reduction_ok R" and inv: "system_inv R U H s" and stuck: "\<not> (\<exists>s'. sys_step R s s')" and i: "i < members R"
  shows "reduce_waiter_ready (red_all R) (0, 0) (rs_group s i)
     \<and> (\<exists>g. reduce_waiter_get (red_all R) (0, 0) (rs_group s i) =
           Inr (if i = 0 \<or> red_all R then Reduce_Value (tree_reduce (red_op R) (red_value R) (members R) 0)
                else Reduce_No_Value, g))"
proof -
  note st = no_step_left [OF ok inv stuck i]
  have m: "member R i (rs_called s i) (2 * i + 1 \<in> U) (2 * i + 2 \<in> U) (i \<in> H) (rs_group s i)"
    by (rule inv_member [OF inv i])
  have "returns_value_on_reduce (rs_group s i) \<longleftrightarrow> i = 0"
    using m member_neighbors [OF ok i] member_tag_nonempty [OF ok, of "(i - 1) div 2"] i
    by (auto simp: member_def returns_value_on_reduce_def)
  then show ?thesis using m st fifo_is_get [of "red_types R" "rg_buffer0 (rs_group s i)" "subtree_value R 0"]
    by (cases "i = 0 \<or> red_all R")
      (auto simp: member_def is_done_def reduce_waiter_ready_def reduce_waiter_get_def fifo_is_has Let_def
        tag_no_data_def subtree_value_def)
qed

text \<open>C7: A reduction of a whole group ends after at most three steps per member and no value is ever refused; and
  when nothing more can happen, every member's waiter is ready: at the root it gets the combination of all
  values along the tree, elsewhere it gets the same value after an allreduce, and no value after a reduce.\<close>

theorem reduction_completes:
  assumes "reduction_ok R" "(sys_step R ^^ k) (first_system R) s"
  shows "k \<le> 3 * members R
    \<and> (\<forall>(i, tag, n, v) \<in> set (rs_flight s). \<exists>reqs g. rg_add_data tag v n (rs_group s i) = Inr (True, reqs, g))
    \<and> (\<not> (\<exists>s'. sys_step R s s') \<longrightarrow> (\<forall>i < members R. reduce_waiter_ready (red_all R) (0, 0) (rs_group s i)
         \<and> (\<exists>g. reduce_waiter_get (red_all R) (0, 0) (rs_group s i) =
               Inr (if i = 0 \<or> red_all R then Reduce_Value (tree_reduce (red_op R) (red_value R) (members R) 0)
                    else Reduce_No_Value, g))))"
proof -
  from reachable_inv [OF assms] obtain U H where inv: "system_inv R U H s" by blast
  then show ?thesis
    using flight_accepted [OF assms(1) inv] steps_bound [OF assms] answers_at_end [OF assms(1) inv] by blast
qed

definition sample_reduction :: reduction where
  "sample_reduction = \<lparr>red_members = [''rb'', ''ra'', ''rc''], red_types = [T_int32], red_op = sum_op,
     red_value = (\<lambda>i. [V_int32 (of_nat i + 1)]), red_all = True, red_group = ''gx'', red_seed = (\<lambda>i. 5)\<rparr>"

lemma sample_reduction_ok: "reduction_ok sample_reduction" "members sample_reduction = 3"
  by (simp_all add: sample_reduction_def reduction_ok_def members_def sum_op_typed span_is_valid_iff)

lemma reduction_refines_tree_witness:
  "\<exists>s'. sys_step sample_reduction (first_system sample_reduction) s' \<and> values_of s' 1 = Some [V_int32 2]
     \<and> tree_step sample_reduction (values_of (first_system sample_reduction)) (values_of s')"
proof -
  let ?R = sample_reduction and ?s = "first_system sample_reduction"
  have i: "1 < members ?R" "\<not> rs_called ?s 1" by (simp_all add: sample_reduction_ok first_system_def)
  from call_enabled [OF sample_reduction_ok(1) i(1) first_system_inv i(2)] obtain reqs g where
    c: "reduce_impl (red_all ?R) (red_op ?R) (red_value ?R 1) (rs_group ?s 1) = Inr ((0, 0), reqs, g)"
       "becomes ?R 1 True False False False reqs g" by auto
  define s' where "s' = ?s\<lparr>rs_group := (rs_group ?s)(1 := g), rs_called := (rs_called ?s)(1 := True),
      rs_flight := rs_flight ?s @ routes ?R 1 reqs, rs_sent := rs_sent ?s @ map (Pair 1) reqs\<rparr>"
  have step: "sys_step ?R ?s s'" unfolding s'_def by (rule sys_step.call [OF i c(1)])
  have "subtree_value ?R 1 = [V_int32 2]"
    by (simp add: subtree_value_unfold sample_reduction_ok reduce_node_def) (simp add: sample_reduction_def)
  then have v: "values_of s' 1 = Some [V_int32 2]"
    using c(2) by (simp add: values_of_def s'_def first_system_def becomes_def done_with_def sample_reduction_ok done_requests_def)
  from reduction_refines_tree [OF sample_reduction_ok(1) rtranclp.rtrancl_refl step]
  have "values_of ?s 1 = None" "values_of s' = values_of ?s \<or> tree_step ?R (values_of ?s) (values_of s')" by auto
  with v have "tree_step ?R (values_of ?s) (values_of s')" by auto
  with step v show ?thesis by blast
qed

lemma reduction_completes_witness:
  "\<exists>s. (sys_step sample_reduction)\<^sup>*\<^sup>* (first_system sample_reduction) s
     \<and> (\<forall>i < 3. \<exists>g. reduce_waiter_get True (0, 0) (rs_group s i) = Inr (Reduce_Value [V_int32 6], g))"
proof -
  obtain k s where s: "(sys_step sample_reduction ^^ k) (first_system sample_reduction) s"
    "\<not> (\<exists>s'. sys_step sample_reduction s s')"
    using runs_end [OF sample_reduction_ok(1)] by blast
  have "tree_reduce sum_op (\<lambda>i. [V_int32 (of_nat i + 1)]) 3 0 = [V_int32 6]"
    by (simp add: tree_reduce.simps [of _ _ 3 0] tree_reduce.simps [of _ _ 3 "Suc 0"] tree_reduce.simps [of _ _ 3 "Suc (Suc 0)"]
        reduce_node_def sum_op_def)
  then have "\<forall>i < 3. \<exists>g. reduce_waiter_get True (0, 0) (rs_group s i) = Inr (Reduce_Value [V_int32 6], g)"
    using reduction_completes [OF sample_reduction_ok(1) s(1)] s(2) sample_reduction_ok(2)
    by (simp add: sample_reduction_def)
  moreover have "(sys_step sample_reduction)\<^sup>*\<^sup>* (first_system sample_reduction) s"
    using s(1) by (auto simp: rtranclp_power)
  ultimately show ?thesis by blast
qed

end
