(* ===== verification/Sky_Admm_Group.thy ===== *)
theory Sky_Admm_Group
  imports Sky_Admm Sky_Reduce_System
begin

text \<open>
  The average of \<^verbatim>\<open>examples/admm/admm.cpp\<close> by the reduce group of its five machines: what \<^verbatim>\<open>machine_task\<close> sends, combines
  and makes of the answer, in a run of the group with its calls and messages in any order. A \<^verbatim>\<open>double\<close> is the 64 bits
  that are sent; how two of them are added and one is divided by 5 is an argument, so that nothing is said of
  rounding: what holds for every addition holds for the one of the machine.
\<close>

section \<open>The values of the reduction\<close>

type_synonym double = "64 word"

definition admm_span :: "bool \<times> double list \<Rightarrow> value_span" where
  "admm_span = (\<lambda>(converged, solution). [V_bool converged, V_vec_double solution])"

definition admm_unspan :: "value_span \<Rightarrow> (bool \<times> double list) option" where
  "admm_unspan v = (case v of [V_bool converged, V_vec_double solution] \<Rightarrow> Some (converged, solution) | _ \<Rightarrow> None)"

text \<open>The callable of \<^verbatim>\<open>allreduce\<close> on the values as the group holds them; values of other types do not reach it.\<close>

definition admm_span_op :: "(double \<Rightarrow> double \<Rightarrow> double) \<Rightarrow> reduce_op" where
  "admm_span_op add a b =
     (case (admm_unspan a, admm_unspan b) of (Some l, Some r) \<Rightarrow> admm_span (admm_op add l r) | _ \<Rightarrow> a)"

definition admm_tags :: "tag_id list" where
  "admm_tags = [''rx0'', ''rx1'', ''rx2'', ''rx3'', ''rx4'']"

definition admm_reduction :: "(double \<Rightarrow> double \<Rightarrow> double) \<Rightarrow> (nat \<Rightarrow> bool \<times> double list) \<Rightarrow> (nat \<Rightarrow> nat) \<Rightarrow> reduction" where
  "admm_reduction add vs seed =
     \<lparr>red_members = admm_tags, red_types = [T_bool, T_vec_double], red_op = admm_span_op add,
      red_value = (\<lambda>i. admm_span (vs i)), red_all = True, red_group = ''gADMM average x'', red_seed = seed\<rparr>"

text \<open>What a machine makes of the answer: \<^verbatim>\<open>value()\<close> throws where there is none, after a disconnection.\<close>

definition allreduce_answer :: "(double \<Rightarrow> double) \<Rightarrow> value_span reduce_result \<Rightarrow> (double list \<times> bool) res" where
  "allreduce_answer per_machine answer =
     (case answer of
        Reduce_Value v \<Rightarrow> (case admm_unspan v of
            Some (is_converged, new_global) \<Rightarrow> Inr (map per_machine new_global, is_converged)
          | None \<Rightarrow> Inl Undefined_Behaviour)
      | _ \<Rightarrow> Inl Exception_Thrown)"

lemma unspan_span [simp]: "admm_unspan (admm_span v) = Some v"
  by (simp add: admm_unspan_def admm_span_def case_prod_unfold)

lemma span_op_span [simp]: "admm_span_op add (admm_span l) (admm_span r) = admm_span (admm_op add l r)"
  by (simp add: admm_span_op_def)

lemma span_valid: "span_is_valid [T_bool, T_vec_double] (admm_span v)"
  by (simp add: span_is_valid_iff admm_span_def case_prod_unfold)

lemma admm_reduction_ok: "reduction_ok (admm_reduction add vs seed)" "members (admm_reduction add vs seed) = num_machines"
proof -
  have "op_typed [T_bool, T_vec_double] (admm_span_op add)"
    by (auto simp: op_typed_def admm_span_op_def span_valid split: option.splits)
  then show "reduction_ok (admm_reduction add vs seed)"
    by (simp add: reduction_ok_def admm_reduction_def admm_tags_def span_valid)
  show "members (admm_reduction add vs seed) = num_machines"
    by (simp add: members_def admm_reduction_def admm_tags_def num_machines_def)
qed

text \<open>The machines are the members in the order of their tags.\<close>

lemma admm_member_tag: "i < num_machines \<Longrightarrow> member_tag (admm_reduction add vs seed) i = admm_tags ! i"
  by (simp add: member_tag_def admm_reduction_def admm_tags_def)

lemma five_of: "map f [0..<num_machines] = [f 0, f 1, f 2, f 3, f 4]"
  by (simp add: upt_machines)

lemma tree_of_machines: "tree_reduce f v num_machines 0 = f (f (f (f (v 3) (v 1)) (v 4)) (v 0)) (v 2)"
  by (simp add: num_machines_def tree_of_five)

lemma tree_of_spans:
  "tree_reduce (admm_span_op add) (\<lambda>i. admm_span (vs i)) num_machines 0
     = admm_span (tree_reduce (admm_op add) (\<lambda>i. map vs [0..<num_machines] ! i) num_machines 0)"
  by (simp add: tree_of_machines five_of)

section \<open>Both averages\<close>

text \<open>The sums of the two ways, each in its order.\<close>

lemma allreduce_average_of_five:
  assumes "\<And>j. j < num_machines \<Longrightarrow> length (snd (vs j)) = num_machines"
  shows "allreduce_average add per_machine (map vs [0..<num_machines])
    = (map (\<lambda>k. let x = (\<lambda>j. snd (vs j) ! k) in per_machine (add (add (add (add (x 3) (x 1)) (x 4)) (x 0)) (x 2))) [0..<num_machines],
       \<forall>j < num_machines. fst (vs j))"
proof -
  define t where "t = tree_reduce (admm_op add) (\<lambda>i. map vs [0..<num_machines] ! i) num_machines 0"
  have t: "t = admm_op add (admm_op add (admm_op add (admm_op add (vs 3) (vs 1)) (vs 4)) (vs 0)) (vs 2)"
    by (simp add: t_def tree_of_machines five_of)
  have l: "length (snd (vs j)) = num_machines" if "j \<in> {0, 1, 2, 3, 4}" for j
    using assms that by (auto simp: num_machines_def)
  have "length (snd t) = num_machines" using l by (simp add: t admm_op_length)
  moreover have "snd t ! k = add (add (add (add (snd (vs 3) ! k) (snd (vs 1) ! k)) (snd (vs 4) ! k))
      (snd (vs 0) ! k)) (snd (vs 2) ! k)" if "k < num_machines" for k
    using that l by (simp add: t admm_op_length admm_op_simps)
  ultimately have "map per_machine (snd t) = map (\<lambda>k. let x = (\<lambda>j. snd (vs j) ! k)
      in per_machine (add (add (add (add (x 3) (x 1)) (x 4)) (x 0)) (x 2))) [0..<num_machines]"
    by (intro nth_equalityI) (auto simp: num_machines_def Let_def)
  moreover have "fst t \<longleftrightarrow> (\<forall>j < num_machines. fst (vs j))"
    by (auto simp: t admm_op_simps less_machines)
  ultimately show ?thesis by (simp add: allreduce_average_def t_def [symmetric] case_prod_unfold)
qed

lemma shared_average_of_five:
  "shared_average zero add per_machine (map vs [0..<num_machines])
    = (map (\<lambda>k. let x = (\<lambda>j. snd (vs j) ! k) in per_machine (add (add (add (add (add zero (x 0)) (x 1)) (x 2)) (x 3)) (x 4))) [0..<num_machines],
       \<forall>j < num_machines. fst (vs j))"
proof -
  have "fold (\<lambda>c r. r \<and> c) (map fst (map vs [0..<num_machines])) True \<longleftrightarrow> (\<forall>j < num_machines. fst (vs j))"
    by (auto simp: fold_conj list_all_iff)
  moreover have "length (map vs [0..<num_machines]) = 5" by (simp add: num_machines_def)
  ultimately show ?thesis
    unfolding shared_average_def by (simp only: five_of) (simp add: upt_conv_Cons)
qed

text \<open>C19: The two ways in which the five machines of the example take their average, over the reduce group and from shared
  arrays. When nothing more can happen in a reduction over their new group, in whatever order the machines called it and the
  values arrived, every machine is answered, and takes from the answer the same average as all others, bit for bit: the
  solutions added in the order of the tree (3, 1, 4, 0, 2), whatever the addition and division of two numbers are; and the
  verdict that all machines have converged. The shared arrays give the same verdict, and the solutions added from 0 on
  in the order of the machines. So the averages may differ by rounding; where addition and division are those of the real
  numbers, both programs compute the same: from the same starting points both end with the same machines or neither ends.\<close>

theorem admm_ways_agree:
  assumes "(sys_step (admm_reduction add vs seed))\<^sup>*\<^sup>* (first_system (admm_reduction add vs seed)) s"
    and "\<not> (\<exists>s'. sys_step (admm_reduction add vs seed) s s')"
    and "\<And>j. j < num_machines \<Longrightarrow> length (snd (vs j)) = num_machines" and "i < num_machines" "start_ok starts"
  shows "(\<exists>answer g. reduce_waiter_get True (0, 0) (rs_group s i) = Inr (answer, g)
       \<and> allreduce_answer per_machine answer = Inr (allreduce_average add per_machine (map vs [0..<num_machines])))
    \<and> allreduce_average add per_machine (map vs [0..<num_machines])
       = (map (\<lambda>k. let x = (\<lambda>j. snd (vs j) ! k) in per_machine (add (add (add (add (x 3) (x 1)) (x 4)) (x 0)) (x 2))) [0..<num_machines],
          \<forall>j < num_machines. fst (vs j))
    \<and> shared_average zero add per_machine (map vs [0..<num_machines])
       = (map (\<lambda>k. let x = (\<lambda>j. snd (vs j) ! k) in per_machine (add (add (add (add (add zero (x 0)) (x 1)) (x 2)) (x 3)) (x 4))) [0..<num_machines],
          \<forall>j < num_machines. fst (vs j))
    \<and> admm_run average_by_allreduce (map start_machine starts) = admm_run average_locally (map start_machine starts)"
proof -
  let ?R = "admm_reduction add vs seed"
  let ?t = "tree_reduce (admm_op add) (\<lambda>i. map vs [0..<num_machines] ! i) num_machines 0"
  note ok = admm_reduction_ok(1) [of add vs seed]
  from assms(1) obtain k where "(sys_step ?R ^^ k) (first_system ?R) s" by (auto simp: rtranclp_power)
  from reachable_inv [OF ok this] obtain U H where inv: "system_inv ?R U H s" by blast
  have fields: "red_all ?R" "red_op ?R = admm_span_op add" "red_value ?R = (\<lambda>i. admm_span (vs i))"
    by (simp_all add: admm_reduction_def)
  have "i < members ?R" using assms(4) by (simp add: admm_reduction_ok)
  from answers_at_end [OF ok inv assms(2) this] obtain g where
    g: "reduce_waiter_get True (0, 0) (rs_group s i) = Inr (Reduce_Value (admm_span ?t), g)"
    by (auto simp: fields admm_reduction_ok tree_of_spans)
  moreover have "allreduce_answer per_machine (Reduce_Value (admm_span ?t)) = Inr (allreduce_average add per_machine (map vs [0..<num_machines]))"
    unfolding allreduce_average_def by (cases ?t) (simp add: allreduce_answer_def)
  ultimately have answered: "\<exists>answer g. reduce_waiter_get True (0, 0) (rs_group s i) = Inr (answer, g)
      \<and> allreduce_answer per_machine answer = Inr (allreduce_average add per_machine (map vs [0..<num_machines]))" by blast
  show ?thesis
    by (intro conjI answered allreduce_average_of_five [OF assms(3)] shared_average_of_five exact_runs_agree [OF assms(5)])
qed

text \<open>Five machines that send \<open>j\<close> as all their numbers, with words for \<^verbatim>\<open>double\<close>s whose addition is that of the machine
  words.\<close>

definition sample_values :: "nat \<Rightarrow> bool \<times> double list" where
  "sample_values j = (j \<noteq> 2, replicate 5 (of_nat j))"

lemma admm_ways_agree_witness:
  "\<exists>s answer g. (sys_step (admm_reduction (+) sample_values (\<lambda>_. 5)))\<^sup>*\<^sup>* (first_system (admm_reduction (+) sample_values (\<lambda>_. 5))) s
     \<and> reduce_waiter_get True (0, 0) (rs_group s 4) = Inr (answer, g)
     \<and> allreduce_answer (\<lambda>x. x div 5) answer = Inr ([2, 2, 2, 2, 2], False)"
proof -
  let ?R = "admm_reduction (+) sample_values (\<lambda>_. 5)"
  obtain k s where "(sys_step ?R ^^ k) (first_system ?R) s" and stuck: "\<not> (\<exists>s'. sys_step ?R s s')"
    using runs_end [OF admm_reduction_ok(1)] by blast
  then have run: "(sys_step ?R)\<^sup>*\<^sup>* (first_system ?R) s" by (auto simp: rtranclp_power)
  have l: "length (snd (sample_values j)) = num_machines" for j by (simp add: sample_values_def num_machines_def)
  have i: "4 < num_machines" by (simp add: num_machines_def)
  from admm_ways_agree [OF run stuck l i origin_ok, of "\<lambda>x. x div 5" 0] obtain answer g where
    g: "reduce_waiter_get True (0, 0) (rs_group s 4) = Inr (answer, g)"
       "allreduce_answer (\<lambda>x. x div 5) answer = Inr (allreduce_average (+) (\<lambda>x. x div 5) (map sample_values [0..<num_machines]))"
    "allreduce_average (+) (\<lambda>x. x div 5) (map sample_values [0..<num_machines])
       = (map (\<lambda>k. let x = (\<lambda>j. snd (sample_values j) ! k) in (x 3 + x 1 + x 4 + x 0 + x 2) div 5) [0..<num_machines],
          \<forall>j < num_machines. fst (sample_values j))" by blast
  have v: "(\<forall>j < num_machines. fst (sample_values j)) = False"
    by (auto simp: sample_values_def num_machines_def intro!: exI [of _ 2])
  have w: "map (\<lambda>k. let x = (\<lambda>j. snd (sample_values j) ! k) in (x 3 + x 1 + x 4 + x 0 + x 2) div 5) [0..<num_machines] = [2, 2, 2, 2, 2]"
    by (simp add: num_machines_def sample_values_def upt_conv_Cons Let_def)
  have "allreduce_answer (\<lambda>x. x div 5) answer = Inr ([2, 2, 2, 2, 2], False)" using g(2) unfolding g(3) v w .
  with run g(1) show ?thesis by blast
qed

end
