(* ===== verification/Sky_Pubsub_Converter.thy ===== *)
theory Sky_Pubsub_Converter
  imports Sky_Types
begin

text \<open>
  \<^verbatim>\<open>skywing_mid/pubsub_converter.hpp\<close> and \<^verbatim>\<open>internal/pubsub_converter_helpers.hpp\<close>: the conversion of data to the
  values that can be published and back. The templates choose by the type, here a datatype of the types for
  which they can be instantiated; the type that a converted value has is a flat list of native types. A single
  native value and a tuple of one are both a list of one, as \<^verbatim>\<open>remove_tuple_if_single\<close> and \<^verbatim>\<open>TupleIfNotAlready\<close>
  go back and forth between them. The converter of \<^verbatim>\<open>char*\<close> hands out a pointer into a string of its caller and
  is not modelled.
\<close>

section \<open>Types and values\<close>

text \<open>\<open>PT_Native\<close> is a native type that is not the vector of another; \<^verbatim>\<open>vector<byte>\<close> is one.\<close>

datatype ps_type = PT_Native cpp_type | PT_Tuple "ps_type list" | PT_Map ps_type ps_type | PT_Vec ps_type

datatype ps_value = PV_Native publish_value | PV_Tuple "ps_value list" | PV_Map "(ps_value \<times> ps_value) list" | PV_Vec "ps_value list"

text \<open>The native vector of a native type. Other types have none; the value for them is never used.\<close>

fun vec_type :: "cpp_type \<Rightarrow> cpp_type" where
  "vec_type T_float = T_vec_float" | "vec_type T_double = T_vec_double"
| "vec_type T_int8 = T_vec_int8" | "vec_type T_int16 = T_vec_int16" | "vec_type T_int32 = T_vec_int32" | "vec_type T_int64 = T_vec_int64"
| "vec_type T_uint8 = T_vec_uint8" | "vec_type T_uint16 = T_vec_uint16" | "vec_type T_uint32 = T_vec_uint32" | "vec_type T_uint64 = T_vec_uint64"
| "vec_type T_string = T_vec_string" | "vec_type T_bool = T_vec_bool"
| "vec_type t = T_other ''vector''"

definition scalars :: "cpp_type list" where
  "scalars = [T_float, T_double, T_int8, T_int16, T_int32, T_int64, T_uint8, T_uint16, T_uint32, T_uint64, T_string, T_bool]"

fun pack :: "cpp_type \<Rightarrow> publish_value list \<Rightarrow> publish_value" where
  "pack T_float vs = V_vec_float (map (\<lambda>v. case v of V_float x \<Rightarrow> x) vs)"
| "pack T_double vs = V_vec_double (map (\<lambda>v. case v of V_double x \<Rightarrow> x) vs)"
| "pack T_int8 vs = V_vec_int8 (map (\<lambda>v. case v of V_int8 x \<Rightarrow> x) vs)"
| "pack T_int16 vs = V_vec_int16 (map (\<lambda>v. case v of V_int16 x \<Rightarrow> x) vs)"
| "pack T_int32 vs = V_vec_int32 (map (\<lambda>v. case v of V_int32 x \<Rightarrow> x) vs)"
| "pack T_int64 vs = V_vec_int64 (map (\<lambda>v. case v of V_int64 x \<Rightarrow> x) vs)"
| "pack T_uint8 vs = V_vec_uint8 (map (\<lambda>v. case v of V_uint8 x \<Rightarrow> x) vs)"
| "pack T_uint16 vs = V_vec_uint16 (map (\<lambda>v. case v of V_uint16 x \<Rightarrow> x) vs)"
| "pack T_uint32 vs = V_vec_uint32 (map (\<lambda>v. case v of V_uint32 x \<Rightarrow> x) vs)"
| "pack T_uint64 vs = V_vec_uint64 (map (\<lambda>v. case v of V_uint64 x \<Rightarrow> x) vs)"
| "pack T_string vs = V_vec_string (map (\<lambda>v. case v of V_string x \<Rightarrow> x) vs)"
| "pack _ vs = V_vec_bool (map (\<lambda>v. case v of V_bool x \<Rightarrow> x) vs)"

text \<open>The elements of a native vector.\<close>

fun unpack :: "publish_value \<Rightarrow> publish_value list" where
  "unpack (V_vec_float xs) = map V_float xs" | "unpack (V_vec_double xs) = map V_double xs"
| "unpack (V_vec_int8 xs) = map V_int8 xs" | "unpack (V_vec_int16 xs) = map V_int16 xs"
| "unpack (V_vec_int32 xs) = map V_int32 xs" | "unpack (V_vec_int64 xs) = map V_int64 xs"
| "unpack (V_vec_uint8 xs) = map V_uint8 xs" | "unpack (V_vec_uint16 xs) = map V_uint16 xs"
| "unpack (V_vec_uint32 xs) = map V_uint32 xs" | "unpack (V_vec_uint64 xs) = map V_uint64 xs"
| "unpack (V_vec_string xs) = map V_string xs" | "unpack (V_vec_bool xs) = map V_bool xs"
| "unpack _ = []"

fun elem_type :: "cpp_type \<Rightarrow> cpp_type" where
  "elem_type T_vec_float = T_float" | "elem_type T_vec_double = T_double"
| "elem_type T_vec_int8 = T_int8" | "elem_type T_vec_int16 = T_int16" | "elem_type T_vec_int32 = T_int32" | "elem_type T_vec_int64 = T_int64"
| "elem_type T_vec_uint8 = T_uint8" | "elem_type T_vec_uint16 = T_uint16" | "elem_type T_vec_uint32 = T_uint32" | "elem_type T_vec_uint64 = T_uint64"
| "elem_type T_vec_string = T_string" | "elem_type T_vec_bool = T_bool"
| "elem_type t = t"

section \<open>The type of a converted value\<close>

fun tsize :: "ps_type \<Rightarrow> nat" where
  "tsize (PT_Native s) = 1"
| "tsize (PT_Tuple ts) = 1 + sum_list (map tsize ts)"
| "tsize (PT_Map k s) = 2 + tsize k + tsize s"
| "tsize (PT_Vec t) = 1 + tsize t"

lemma tsize_elem: "t \<in> set ts \<Longrightarrow> tsize t \<le> sum_list (map tsize ts)"
  by (induction ts) auto

text \<open>\<^verbatim>\<open>PubSub_t\<close> of the vector of a native type: itself a native vector, or the lengths and the elements of a vector
  of vectors.\<close>

definition vec_of :: "cpp_type \<Rightarrow> cpp_type list" where
  "vec_of n = (if n \<in> set scalars then [vec_type n] else [T_vec_uint32, n])"

function pst :: "ps_type \<Rightarrow> cpp_type list" where
  "pst (PT_Native s) = [s]"
| "pst (PT_Tuple ts) = concat (map pst ts)"
| "pst (PT_Map k s) = pst (PT_Vec k) @ pst (PT_Vec s)"
| "pst (PT_Vec (PT_Native s)) = vec_of s"
| "pst (PT_Vec (PT_Tuple ts)) = concat (map (\<lambda>t. pst (PT_Vec t)) ts)"
| "pst (PT_Vec (PT_Vec t)) = T_vec_uint32 # concat (map vec_of (pst t))"
| "pst (PT_Vec (PT_Map k s)) = concat (map vec_of (pst (PT_Map k s)))"
  by pat_completeness auto
termination by (relation "measure tsize") (auto dest: tsize_elem)

section \<open>Converting\<close>

fun native_of :: "ps_value \<Rightarrow> publish_value" where
  "native_of (PV_Native p) = p" | "native_of _ = V_bool False"

fun elems :: "ps_value \<Rightarrow> ps_value list" where
  "elems (PV_Vec vs) = vs" | "elems (PV_Tuple vs) = vs" | "elems _ = []"

fun entries :: "ps_value \<Rightarrow> (ps_value \<times> ps_value) list" where
  "entries (PV_Map m) = m" | "entries _ = []"

text \<open>The converter of a vector of flat tuples of native values, column by column: a column of vectors becomes their
  lengths and their elements in a row.\<close>

definition vec_one :: "cpp_type \<Rightarrow> publish_value list \<Rightarrow> publish_value list" where
  "vec_one n col =
     (if n \<in> set scalars then [pack n col]
      else [V_vec_uint32 (map (\<lambda>p. of_nat (length (unpack p))) col), pack (elem_type n) (concat (map unpack col))])"

definition vec_native :: "cpp_type list \<Rightarrow> publish_value list list \<Rightarrow> publish_value list" where
  "vec_native ns rows = concat (map (\<lambda>i. vec_one (ns ! i) (map (\<lambda>r. r ! i) rows)) [0..<length ns])"

function conv :: "ps_type \<Rightarrow> ps_value \<Rightarrow> publish_value list" where
  "conv (PT_Native s) v = [native_of v]"
| "conv (PT_Tuple ts) v = concat (map (\<lambda>(t, x). conv t x) (zip ts (elems v)))"
| "conv (PT_Map k s) v = conv (PT_Vec k) (PV_Vec (map fst (entries v))) @ conv (PT_Vec s) (PV_Vec (map snd (entries v)))"
| "conv (PT_Vec (PT_Native s)) v = [pack s (map native_of (elems v))]"
| "conv (PT_Vec (PT_Tuple ts)) v =
     concat (map (\<lambda>i. conv (PT_Vec (ts ! i)) (PV_Vec (map (\<lambda>row. elems row ! i) (elems v)))) [0..<length ts])"
| "conv (PT_Vec (PT_Vec t)) v =
     V_vec_uint32 (map (\<lambda>inner. of_nat (length (elems inner))) (elems v))
       # vec_native (pst t) (map (conv t) (concat (map elems (elems v))))"
| "conv (PT_Vec (PT_Map k s)) v = vec_native (pst (PT_Map k s)) (map (conv (PT_Map k s)) (elems v))"
  by pat_completeness auto
termination
  by (relation "measure (\<lambda>(t, v). tsize t)") (auto dest!: set_zip_leftD simp: less_Suc_eq_le intro: tsize_elem nth_mem)

section \<open>Converting back\<close>

text \<open>Data from another machine may have columns of different lengths: \<^verbatim>\<open>vector::at\<close> throws, running past the end of the
  elements or of the values of a map is undefined.\<close>

fun rseq :: "'a res list \<Rightarrow> 'a list res" where
  "rseq [] = Inr []"
| "rseq (m # ms) = rbind m (\<lambda>x. rbind (rseq ms) (\<lambda>xs. Inr (x # xs)))"

text \<open>\<^verbatim>\<open>extract_Nth_tuple\<close> for all positions: the parts of the flat tuple.\<close>

fun parts :: "nat list \<Rightarrow> 'a list \<Rightarrow> 'a list list" where
  "parts [] ps = []"
| "parts (n # ns) ps = take n ps # parts ns (drop n ps)"

fun split_lens :: "nat list \<Rightarrow> 'a list \<Rightarrow> 'a list list res" where
  "split_lens [] xs = Inr []"
| "split_lens (n # ns) xs =
     (if length xs < n then Inl Undefined_Behaviour else rbind (split_lens ns (drop n xs)) (\<lambda>gs. Inr (take n xs # gs)))"

fun sizes_of :: "publish_value \<Rightarrow> nat list" where
  "sizes_of (V_vec_uint32 xs) = map unat xs" | "sizes_of _ = []"

definition col_at :: "'a list \<Rightarrow> nat \<Rightarrow> 'a res" where
  "col_at col i = (if i < length col then Inr (col ! i) else Inl Exception_Thrown)"

text \<open>The rows, as many as the first column has elements.\<close>

definition rows_of :: "'a list list \<Rightarrow> 'a list list res" where
  "rows_of cols = rseq (map (\<lambda>i. rseq (map (\<lambda>col. col_at col i) cols)) [0..<length (hd cols)])"

definition unvec_one :: "cpp_type \<Rightarrow> publish_value list \<Rightarrow> publish_value list res" where
  "unvec_one n ps =
     (if n \<in> set scalars then Inr (unpack (hd ps))
      else rbind (split_lens (sizes_of (hd ps)) (unpack (hd (tl ps)))) (\<lambda>groups. Inr (map (pack (elem_type n)) groups)))"

definition unvec_native :: "cpp_type list \<Rightarrow> publish_value list \<Rightarrow> publish_value list list res" where
  "unvec_native ns ps =
     rbind (rseq (map (\<lambda>(n, part). unvec_one n part) (zip ns (parts (map (length \<circ> vec_of) ns) ps)))) rows_of"

fun build_map :: "ps_value list \<Rightarrow> ps_value list \<Rightarrow> (ps_value \<times> ps_value) list \<Rightarrow> ps_value res" where
  "build_map [] vs m = Inr (PV_Map m)"
| "build_map (k # ks) [] m = Inl Undefined_Behaviour"
| "build_map (k # ks) (v # vs) m = build_map ks vs (AList.update k v m)"

function deconv :: "ps_type \<Rightarrow> publish_value list \<Rightarrow> ps_value res" where
  "deconv (PT_Native s) ps = Inr (PV_Native (hd ps))"
| "deconv (PT_Tuple ts) ps =
     rbind (rseq (map (\<lambda>(t, part). deconv t part) (zip ts (parts (map (length \<circ> pst) ts) ps)))) (\<lambda>vs. Inr (PV_Tuple vs))"
| "deconv (PT_Map k s) ps =
     rbind (deconv (PT_Vec k) (take (length (pst (PT_Vec k))) ps)) (\<lambda>ks.
     rbind (deconv (PT_Vec s) (drop (length (pst (PT_Vec k))) ps)) (\<lambda>vs. build_map (elems ks) (elems vs) []))"
| "deconv (PT_Vec (PT_Native s)) ps = Inr (PV_Vec (map PV_Native (unpack (hd ps))))"
| "deconv (PT_Vec (PT_Tuple ts)) ps =
     rbind (rseq (map (\<lambda>(t, part). deconv (PT_Vec t) part) (zip ts (parts (map (\<lambda>t. length (pst (PT_Vec t))) ts) ps)))) (\<lambda>cols.
     rbind (rows_of (map elems cols)) (\<lambda>rows. Inr (PV_Vec (map PV_Tuple rows))))"
| "deconv (PT_Vec (PT_Vec t)) ps =
     rbind (unvec_native (pst t) (tl ps)) (\<lambda>flat.
     rbind (split_lens (sizes_of (hd ps)) flat) (\<lambda>groups.
     rbind (rseq (map (\<lambda>g. rseq (map (deconv t) g)) groups)) (\<lambda>rows. Inr (PV_Vec (map PV_Vec rows)))))"
| "deconv (PT_Vec (PT_Map k s)) ps =
     rbind (unvec_native (pst (PT_Map k s)) ps) (\<lambda>rows.
     rbind (rseq (map (deconv (PT_Map k s)) rows)) (\<lambda>vs. Inr (PV_Vec vs)))"
  by pat_completeness auto
termination
  by (relation "measure (\<lambda>(t, v). tsize t)") (auto dest!: set_zip_leftD simp: less_Suc_eq_le intro: tsize_elem)

section \<open>Native vectors\<close>

definition vecable :: "cpp_type \<Rightarrow> bool" where
  "vecable n \<longleftrightarrow> n \<in> set scalars \<or> (elem_type n \<in> set scalars \<and> n = vec_type (elem_type n))"

lemma vec_type_scalar:
  assumes "n \<in> set scalars"
  shows "elem_type (vec_type n) = n" "vec_type n \<notin> set scalars" "value_type (pack n col) = vec_type n"
  using assms by (auto simp: scalars_def)

lemma unpack_pack: "n \<in> set scalars \<Longrightarrow> \<forall>p \<in> set col. value_type p = n \<Longrightarrow> unpack (pack n col) = col"
proof (induction col)
  case Nil
  then show ?case by (auto simp: scalars_def)
next
  case (Cons p col)
  then have "unpack (pack n col) = col" "value_type p = n" by simp_all
  then show ?case using Cons.prems(1) by (cases p) (auto simp: scalars_def)
qed

lemma pack_unpack: "n \<in> set scalars \<Longrightarrow> value_type p = vec_type n \<Longrightarrow> pack n (unpack p) = p"
  by (cases p) (auto simp: scalars_def o_def)

lemma unpack_types: "n \<in> set scalars \<Longrightarrow> value_type p = vec_type n \<Longrightarrow> \<forall>x \<in> set (unpack p). value_type x = n"
  by (cases p) (auto simp: scalars_def)

lemma length_unpack_pack: "length (unpack (pack n col)) = length col"
  by (cases n) auto

lemma length_vec_one: "length (vec_one n col) = length (vec_of n)"
  by (simp add: vec_one_def vec_of_def)

lemma vecable_vec_of: "vecable n \<Longrightarrow> m \<in> set (vec_of n) \<Longrightarrow> vecable m"
  using vec_type_scalar [of n] by (auto simp: vecable_def vec_of_def scalars_def split: if_splits)

lemma vec_one_types: "vecable n \<Longrightarrow> map value_type (vec_one n col) = vec_of n"
  by (auto simp: vecable_def vec_one_def vec_of_def vec_type_scalar)

lemma rseq_Inr: "(\<And>x. x \<in> set xs \<Longrightarrow> f x = Inr (g x)) \<Longrightarrow> rseq (map f xs) = Inr (map g xs)"
  by (induction xs) auto

lemma split_lens_concat: "split_lens (map length xss) (concat xss) = Inr xss"
  by (induction xss) auto

lemma parts_concat: "map length xss = ns \<Longrightarrow> parts ns (concat xss) = xss"
  by (induction xss arbitrary: ns) auto

lemma unvec_one_vec_one:
  assumes "vecable n" "\<forall>p \<in> set col. value_type p = n \<and> length (unpack p) < 2 ^ 32"
  shows "unvec_one n (vec_one n col) = Inr col"
proof (cases "n \<in> set scalars")
  case True
  then show ?thesis using assms by (simp add: unvec_one_def vec_one_def unpack_pack)
next
  case False
  define m where "m = elem_type n"
  have n: "m \<in> set scalars" "n = vec_type m" using False assms(1) by (auto simp: vecable_def m_def)
  have "sizes_of (V_vec_uint32 (map (\<lambda>p. of_nat (length (unpack p))) col)) = map length (map unpack col)"
    using assms(2) by (simp add: o_def unat_of_nat take_bit_nat_eq_self)
  moreover have "unpack (pack m (concat (map unpack col))) = concat (map unpack col)"
    using assms(2) n unpack_types [OF n(1)] by (intro unpack_pack) auto
  moreover have "map (pack m) (map unpack col) = col"
    using assms(2) n pack_unpack [OF n(1)] by (simp add: map_idI)
  ultimately show ?thesis using False by (simp add: unvec_one_def vec_one_def m_def [symmetric] split_lens_concat del: map_map)
qed

lemma rows_of_columns:
  assumes "0 < k" "\<forall>r \<in> set rows. length r = k"
  shows "rows_of (map (\<lambda>i. map (\<lambda>r. r ! i) rows) [0..<k]) = Inr rows"
proof -
  let ?cols = "map (\<lambda>i. map (\<lambda>r. r ! i) rows) [0..<k]"
  have "hd ?cols = map (\<lambda>r. r ! 0) rows" using assms(1) by (simp add: hd_map upt_conv_Cons)
  then have "length (hd ?cols) = length rows" by simp
  moreover have "rseq (map (\<lambda>j. rseq (map (\<lambda>col. col_at col j) ?cols)) [0..<length rows]) = Inr (map (\<lambda>j. rows ! j) [0..<length rows])"
  proof (rule rseq_Inr)
    fix j
    assume j: "j \<in> set [0..<length rows]"
    then have "rseq (map (\<lambda>col. col_at col j) ?cols) = Inr (map (\<lambda>col. col ! j) ?cols)"
      by (intro rseq_Inr) (auto simp: col_at_def)
    also have "map (\<lambda>col. col ! j) ?cols = map (\<lambda>i. rows ! j ! i) [0..<k]" using j by simp
    also have "\<dots> = rows ! j" using j assms(2) by (intro nth_equalityI) auto
    finally show "rseq (map (\<lambda>col. col_at col j) ?cols) = Inr (rows ! j)" .
  qed
  ultimately show ?thesis by (simp add: rows_of_def map_nth)
qed

lemma unvec_native_vec_native:
  assumes "ns \<noteq> []" "\<forall>n \<in> set ns. vecable n"
    and "\<forall>r \<in> set rows. map value_type r = ns \<and> (\<forall>p \<in> set r. length (unpack p) < 2 ^ 32)"
  shows "unvec_native ns (vec_native ns rows) = Inr rows"
proof -
  let ?col = "\<lambda>i. map (\<lambda>r. r ! i) rows"
  let ?f = "\<lambda>i. vec_one (ns ! i) (?col i)"
  have len: "\<forall>r \<in> set rows. length r = length ns" using assms(3) by (metis length_map)
  have "map length (map ?f [0..<length ns]) = map (length \<circ> vec_of) ns"
    by (intro nth_equalityI) (auto simp: length_vec_one)
  then have p: "parts (map (length \<circ> vec_of) ns) (vec_native ns rows) = map ?f [0..<length ns]"
    unfolding vec_native_def by (rule parts_concat)
  have z: "zip ns (map ?f [0..<length ns]) = map (\<lambda>i. (ns ! i, ?f i)) [0..<length ns]"
    by (intro nth_equalityI) auto
  have "rseq (map (\<lambda>(n, part). unvec_one n part) (zip ns (map ?f [0..<length ns]))) = Inr (map ?col [0..<length ns])"
    unfolding z map_map
  proof (rule rseq_Inr)
    fix i
    assume i: "i \<in> set [0..<length ns]"
    have "value_type (r ! i) = ns ! i \<and> length (unpack (r ! i)) < 2 ^ 32" if "r \<in> set rows" for r
      using assms(3) that i len by (metis atLeastLessThan_iff nth_map nth_mem set_upt)
    then have "unvec_one (ns ! i) (?f i) = Inr (?col i)" using assms(2) i by (intro unvec_one_vec_one) auto
    then show "((\<lambda>(n, part). unvec_one n part) \<circ> (\<lambda>i. (ns ! i, ?f i))) i = Inr (?col i)" by simp
  qed
  then show ?thesis using assms(1) len by (simp add: unvec_native_def p rows_of_columns)
qed

section \<open>Typed values\<close>

function has_type :: "ps_type \<Rightarrow> ps_value \<Rightarrow> bool" where
  "has_type (PT_Native s) v = (case v of PV_Native p \<Rightarrow> value_type p = s | _ \<Rightarrow> False)"
| "has_type (PT_Tuple ts) v = (case v of PV_Tuple vs \<Rightarrow> length vs = length ts \<and> (\<forall>i \<in> set [0..<length ts]. has_type (ts ! i) (vs ! i)) | _ \<Rightarrow> False)"
| "has_type (PT_Map k s) v = (case v of PV_Map m \<Rightarrow> distinct (map fst m) \<and> (\<forall>x \<in> set m. has_type k (fst x) \<and> has_type s (snd x)) | _ \<Rightarrow> False)"
| "has_type (PT_Vec t) v = (case v of PV_Vec vs \<Rightarrow> \<forall>x \<in> set vs. has_type t x | _ \<Rightarrow> False)"
  by pat_completeness auto
termination by (relation "measure (\<lambda>(t, v). tsize t)") (auto simp: less_Suc_eq_le intro: tsize_elem nth_mem)

text \<open>Types that can be elements of vectors, and those that have a converter: an empty tuple or a \<^verbatim>\<open>vector<byte>\<close>
  is not the element of a vector.\<close>

fun vec_ok :: "ps_type \<Rightarrow> bool" where
  "vec_ok (PT_Native s) \<longleftrightarrow> s \<in> set scalars"
| "vec_ok (PT_Tuple ts) \<longleftrightarrow> ts \<noteq> [] \<and> (\<forall>t \<in> set ts. vec_ok t)"
| "vec_ok (PT_Map k s) \<longleftrightarrow> vec_ok k \<and> vec_ok s"
| "vec_ok (PT_Vec t) \<longleftrightarrow> vec_ok t"

fun convertible :: "ps_type \<Rightarrow> bool" where
  "convertible (PT_Native s) \<longleftrightarrow> s \<in> set scalars \<or> s = T_vec_byte"
| "convertible (PT_Tuple ts) \<longleftrightarrow> (\<forall>t \<in> set ts. convertible t)"
| "convertible (PT_Map k s) \<longleftrightarrow> vec_ok k \<and> vec_ok s"
| "convertible (PT_Vec t) \<longleftrightarrow> vec_ok t"

fun weight :: "ps_value \<Rightarrow> nat" where
  "weight (PV_Native p) = 1"
| "weight (PV_Tuple vs) = 1 + sum_list (map weight vs)"
| "weight (PV_Map m) = 1 + sum_list (map (\<lambda>(a, b). weight a + weight b) m)"
| "weight (PV_Vec vs) = 1 + sum_list (map weight vs)"

lemma vec_ok_convertible: "vec_ok t \<Longrightarrow> convertible t"
  by (induction t) auto

lemma weight_pos: "1 \<le> weight v"
  by (cases v) auto

lemma weight_elem: "x \<in> set vs \<Longrightarrow> weight x \<le> sum_list (map weight vs)"
  by (induction vs) auto

lemma length_weights: "length vs \<le> sum_list (map weight vs)"
proof (induction vs)
  case (Cons v vs)
  then show ?case using weight_pos [of v] by simp
qed simp

lemma has_typeD:
  "has_type (PT_Native n) v \<Longrightarrow> \<exists>p. v = PV_Native p \<and> value_type p = n"
  "has_type (PT_Tuple ts) v \<Longrightarrow> \<exists>vs. v = PV_Tuple vs \<and> length vs = length ts \<and> (\<forall>i < length ts. has_type (ts ! i) (vs ! i))"
  "has_type (PT_Map k s) v \<Longrightarrow> \<exists>m. v = PV_Map m \<and> distinct (map fst m) \<and> (\<forall>x \<in> set m. has_type k (fst x) \<and> has_type s (snd x))"
  "has_type (PT_Vec t) v \<Longrightarrow> \<exists>vs. v = PV_Vec vs \<and> (\<forall>x \<in> set vs. has_type t x)"
  by (cases v; auto)+

lemma vecable_scalar: "n \<in> set scalars \<Longrightarrow> vecable n" "n \<in> set scalars \<Longrightarrow> vecable (vec_type n)" "vecable T_vec_uint32"
  by (auto simp: vecable_def scalars_def)

lemma vec_of_nonempty: "vec_of n \<noteq> []"
  by (simp add: vec_of_def)

lemma pst_vecable: "vec_ok t \<Longrightarrow> pst t \<noteq> [] \<and> (\<forall>n \<in> set (pst t). vecable n)"
proof (induction t rule: pst.induct)
  case (1 n)
  then show ?case by (simp add: vecable_scalar)
next
  case (2 ts)
  then obtain t where "t \<in> set ts" by (cases ts) auto
  with 2 show ?case by auto
next
  case (3 k n)
  then show ?case by auto
next
  case (4 n)
  then show ?case by (simp add: vec_of_def vecable_scalar)
next
  case (5 ts)
  then obtain t where "t \<in> set ts" by (cases ts) auto
  with 5 show ?case by auto
next
  case (6 t)
  then show ?case by (auto simp: vecable_scalar intro: vecable_vec_of)
next
  case (7 k n)
  then have "pst (PT_Map k n) \<noteq> []" "\<forall>m \<in> set (pst (PT_Map k n)). vecable m" by (simp_all del: pst.simps)
  then show ?case unfolding pst.simps(7) using vec_of_nonempty by (auto simp del: pst.simps intro: vecable_vec_of)
qed

lemma vec_native_types:
  assumes "\<forall>n \<in> set ns. vecable n"
  shows "map value_type (vec_native ns rows) = concat (map vec_of ns)"
proof -
  have "map (\<lambda>i. map value_type (vec_one (ns ! i) (map (\<lambda>r. r ! i) rows))) [0..<length ns] = map vec_of ns"
    using assms by (intro nth_equalityI) (auto simp: vec_one_types)
  then show ?thesis by (simp add: vec_native_def map_concat o_def)
qed

lemma conv_types: "convertible t \<Longrightarrow> has_type t v \<Longrightarrow> map value_type (conv t v) = pst t"
proof (induction t v rule: conv.induct)
  case (1 s v)
  then show ?case using has_typeD(1) by fastforce
next
  case (2 ts v)
  then obtain vs where v: "v = PV_Tuple vs" "length vs = length ts" "\<forall>i < length ts. has_type (ts ! i) (vs ! i)"
    using has_typeD(2) by blast
  have "map (\<lambda>(t, x). map value_type (conv t x)) (zip ts vs) = map pst ts"
  proof (rule nth_equalityI)
    fix i
    assume i: "i < length (map (\<lambda>(t, x). map value_type (conv t x)) (zip ts vs))"
    then have "(ts ! i, vs ! i) \<in> set (zip ts (elems v))" using v by (auto simp: set_zip)
    then show "map (\<lambda>(t, x). map value_type (conv t x)) (zip ts vs) ! i = map pst ts ! i"
      using 2 v i by auto
  qed (simp add: v)
  then show ?case by (simp add: v map_concat o_def case_prod_unfold)
next
  case (3 k s v)
  then show ?case using has_typeD(3) [OF 3(4)] by auto
next
  case (4 s v)
  then show ?case by (simp add: vec_of_def vec_type_scalar)
next
  case (5 ts v)
  then obtain vs where v: "v = PV_Vec vs" "\<forall>x \<in> set vs. has_type (PT_Tuple ts) x" using has_typeD(4) by blast
  have "map (\<lambda>i. map value_type (conv (PT_Vec (ts ! i)) (PV_Vec (map (\<lambda>row. elems row ! i) (elems v))))) [0..<length ts]
      = map (\<lambda>i. pst (PT_Vec (ts ! i))) [0..<length ts]"
  proof (intro map_cong refl)
    fix i
    assume i: "i \<in> set [0..<length ts]"
    have "has_type (PT_Vec (ts ! i)) (PV_Vec (map (\<lambda>row. elems row ! i) (elems v)))"
    proof -
      have "has_type (ts ! i) (elems row ! i)" if "row \<in> set vs" for row
        using v(2) that i has_typeD(2) [of ts row] by auto
      then show ?thesis using v(1) by simp
    qed
    then show "map value_type (conv (PT_Vec (ts ! i)) (PV_Vec (map (\<lambda>row. elems row ! i) (elems v)))) = pst (PT_Vec (ts ! i))"
      using 5 i by simp
  qed
  also have "\<dots> = map (\<lambda>t. pst (PT_Vec t)) ts" by (intro nth_equalityI) auto
  finally show ?case by (simp add: map_concat o_def)
next
  case (6 t v)
  then show ?case using pst_vecable [of t] by (simp add: vec_native_types)
next
  case (7 k s v)
  then show ?case using pst_vecable [of "PT_Map k s"] by (simp add: vec_native_types)
qed

lemma length_conv: "convertible t \<Longrightarrow> has_type t v \<Longrightarrow> length (conv t v) = length (pst t)"
  using conv_types by (metis length_map)

text \<open>No vector in a converted value is longer than the weight of the value.\<close>

lemma vec_native_bound:
  assumes "\<forall>x \<in> set xs. length (f x) = length ns \<and> (\<forall>p \<in> set (f x). length (unpack p) \<le> weight x)"
  shows "\<forall>p \<in> set (vec_native ns (map f xs)). length (unpack p) \<le> sum_list (map weight xs)"
proof
  fix p
  assume "p \<in> set (vec_native ns (map f xs))"
  then obtain i where i: "i < length ns" "p \<in> set (vec_one (ns ! i) (map (\<lambda>x. f x ! i) xs))"
    by (auto simp: vec_native_def o_def)
  have "sum_list (map (\<lambda>x. length (unpack (f x ! i))) xs) \<le> sum_list (map weight xs)"
    using assms i(1) by (intro sum_list_mono) (metis nth_mem)
  then have "length (concat (map (\<lambda>x. unpack (f x ! i)) xs)) \<le> sum_list (map weight xs)"
    by (simp add: length_concat o_def)
  then show "length (unpack p) \<le> sum_list (map weight xs)" using i(2) length_weights [of xs]
    by (auto simp: vec_one_def length_unpack_pack o_def split: if_splits)
qed

lemma weight_map: "sum_list (map weight (map fst m)) \<le> sum_list (map (\<lambda>(a, b). weight a + weight b) m)"
  "sum_list (map weight (map snd m)) \<le> sum_list (map (\<lambda>(a, b). weight a + weight b) m)"
  by (induction m) auto

lemma weight_concat:
  "\<forall>v \<in> set vs. \<exists>ws. v = PV_Vec ws \<Longrightarrow> sum_list (map weight (concat (map elems vs))) \<le> sum_list (map weight vs)"
  by (induction vs) auto

lemma weight_column:
  assumes "\<forall>v \<in> set vs. \<exists>ws. v = PV_Tuple ws \<and> i < length ws"
  shows "sum_list (map weight (map (\<lambda>v. elems v ! i) vs)) \<le> sum_list (map weight vs)"
  unfolding map_map o_def
proof (rule sum_list_mono)
  fix v
  assume "v \<in> set vs"
  then obtain ws where "v = PV_Tuple ws" "i < length ws" using assms by blast
  then show "weight (elems v ! i) \<le> weight v" using weight_elem [of "ws ! i" ws] by simp
qed

lemma columns_bound:
  assumes "\<And>i. i < length ts \<Longrightarrow> convertible (PT_Vec (ts ! i)) \<Longrightarrow> has_type (PT_Vec (ts ! i)) (PV_Vec (map (\<lambda>row. elems row ! i) (elems v))) \<Longrightarrow> \<forall>p \<in> set (conv (PT_Vec (ts ! i)) (PV_Vec (map (\<lambda>row. elems row ! i) (elems v)))). length (unpack p) \<le> weight (PV_Vec (map (\<lambda>row. elems row ! i) (elems v)))"
    and "convertible (PT_Vec (PT_Tuple ts))" "has_type (PT_Vec (PT_Tuple ts)) v"
  shows "\<forall>p \<in> set (conv (PT_Vec (PT_Tuple ts)) v). length (unpack p) \<le> weight v"
proof -
  from assms obtain vs where v: "v = PV_Vec vs" "\<forall>x \<in> set vs. has_type (PT_Tuple ts) x" using has_typeD(4) by blast
  show ?thesis
  proof
    fix p
    assume "p \<in> set (conv (PT_Vec (PT_Tuple ts)) v)"
    then obtain i where i: "i < length ts" "p \<in> set (conv (PT_Vec (ts ! i)) (PV_Vec (map (\<lambda>row. elems row ! i) vs)))"
      by (auto simp: v)
    have row: "\<exists>ws. x = PV_Tuple ws \<and> i < length ws \<and> has_type (ts ! i) (ws ! i)" if "x \<in> set vs" for x
      using v(2) that i(1) has_typeD(2) [of ts x] by auto
    then have "has_type (PT_Vec (ts ! i)) (PV_Vec (map (\<lambda>row. elems row ! i) vs))" by force
    then have "length (unpack p) \<le> weight (PV_Vec (map (\<lambda>row. elems row ! i) vs))" using assms i by (simp add: v)
    then show "length (unpack p) \<le> weight v" using weight_column [of vs i] row by (fastforce simp: v)
  qed
qed

lemma vectors_bound:
  assumes "\<And>x. x \<in> set (concat (map elems (elems v))) \<Longrightarrow> convertible t \<Longrightarrow> has_type t x \<Longrightarrow> \<forall>p \<in> set (conv t x). length (unpack p) \<le> weight x"
    and "convertible (PT_Vec (PT_Vec t))" "has_type (PT_Vec (PT_Vec t)) v"
  shows "\<forall>p \<in> set (conv (PT_Vec (PT_Vec t)) v). length (unpack p) \<le> weight v"
proof -
  from assms obtain vs where v: "v = PV_Vec vs" "\<forall>x \<in> set vs. has_type (PT_Vec t) x" using has_typeD(4) by blast
  have inner: "\<exists>ws. x = PV_Vec ws \<and> (\<forall>y \<in> set ws. has_type t y)" if "x \<in> set vs" for x
    using v(2) that has_typeD(4) by blast
  let ?xs = "concat (map elems vs)"
  have t: "convertible t" using assms(2) by (simp add: vec_ok_convertible del: has_type.simps)
  have "length (conv t x) = length (pst t) \<and> (\<forall>p \<in> set (conv t x). length (unpack p) \<le> weight x)" if x: "x \<in> set ?xs" for x
  proof -
    have "has_type t x" using x inner by fastforce
    then show ?thesis using assms(1) [of x] x t length_conv [OF t, of x] by (simp add: v(1))
  qed
  then have "\<forall>x \<in> set ?xs. length (conv t x) = length (pst t) \<and> (\<forall>p \<in> set (conv t x). length (unpack p) \<le> weight x)" by blast
  from vec_native_bound [OF this]
  have "\<forall>p \<in> set (vec_native (pst t) (map (conv t) ?xs)). length (unpack p) \<le> sum_list (map weight ?xs)" .
  moreover have "sum_list (map weight ?xs) \<le> sum_list (map weight vs)" using inner by (intro weight_concat) blast
  ultimately show ?thesis using length_weights [of vs] by (fastforce simp: v(1))
qed

lemma maps_bound:
  assumes "\<And>x. x \<in> set (elems v) \<Longrightarrow> convertible (PT_Map k n) \<Longrightarrow> has_type (PT_Map k n) x \<Longrightarrow> \<forall>p \<in> set (conv (PT_Map k n) x). length (unpack p) \<le> weight x"
    and "convertible (PT_Vec (PT_Map k n))" "has_type (PT_Vec (PT_Map k n)) v"
  shows "\<forall>p \<in> set (conv (PT_Vec (PT_Map k n)) v). length (unpack p) \<le> weight v"
proof -
  from assms obtain vs where v: "v = PV_Vec vs" "\<forall>x \<in> set vs. has_type (PT_Map k n) x" using has_typeD(4) by blast
  have c: "convertible (PT_Map k n)" using assms(2) by simp
  have "\<forall>x \<in> set vs. length (conv (PT_Map k n) x) = length (pst (PT_Map k n))
      \<and> (\<forall>p \<in> set (conv (PT_Map k n) x). length (unpack p) \<le> weight x)"
    using assms(1) v c length_conv [OF c] by (simp del: conv.simps pst.simps has_type.simps)
  from vec_native_bound [OF this]
  have b: "\<forall>p \<in> set (conv (PT_Vec (PT_Map k n)) v). length (unpack p) \<le> sum_list (map weight vs)"
    unfolding conv.simps(7) v(1) elems.simps .
  show ?thesis
  proof
    fix p
    assume "p \<in> set (conv (PT_Vec (PT_Map k n)) v)"
    then show "length (unpack p) \<le> weight v" using b by (simp only: v(1) weight.simps) force
  qed
qed

lemma conv_bound: "convertible t \<Longrightarrow> has_type t v \<Longrightarrow> \<forall>p \<in> set (conv t v). length (unpack p) \<le> weight v"
proof (induction t v rule: conv.induct)
  case (1 n v)
  then obtain p where "v = PV_Native p" "value_type p = n" using has_typeD(1) by blast
  then show ?case using 1 by (cases p) (auto simp: scalars_def)
next
  case (2 ts v)
  then obtain vs where v: "v = PV_Tuple vs" "length vs = length ts" "\<forall>i < length ts. has_type (ts ! i) (vs ! i)"
    using has_typeD(2) by blast
  show ?case
  proof
    fix p
    assume "p \<in> set (conv (PT_Tuple ts) v)"
    then obtain t x where tx: "(t, x) \<in> set (zip ts vs)" "p \<in> set (conv t x)" by (auto simp: v)
    then obtain i where "i < length ts" "t = ts ! i" "x = vs ! i" using v(2) by (auto simp: set_zip)
    then have "length (unpack p) \<le> weight x" "x \<in> set vs" using 2 tx v by auto
    then show "length (unpack p) \<le> weight v" using weight_elem [of x vs] v by simp
  qed
next
  case (3 k n v)
  then obtain m where v: "v = PV_Map m" "\<forall>x \<in> set m. has_type k (fst x) \<and> has_type n (snd x)" using has_typeD(3) by blast
  have "\<forall>p \<in> set (conv (PT_Vec k) (PV_Vec (map fst m))). length (unpack p) \<le> weight (PV_Vec (map fst m))"
    "\<forall>p \<in> set (conv (PT_Vec n) (PV_Vec (map snd m))). length (unpack p) \<le> weight (PV_Vec (map snd m))"
    using 3 v by auto
  then show ?case using weight_map [of m] by (fastforce simp: v)
next
  case (4 n v)
  then obtain vs where v: "v = PV_Vec vs" using has_typeD(4) by blast
  then show ?case using length_weights [of vs] by (simp add: length_unpack_pack)
next
  case (5 ts v)
  show ?case by (rule columns_bound) (use 5 in simp_all)
next
  case (6 t v)
  show ?case by (rule vectors_bound) (use 6 in simp_all)
next
  case (7 k n v)
  show ?case by (rule maps_bound [OF 7])
qed

section \<open>The round trip\<close>

lemma build_map_all:
  "distinct (map fst (acc @ m)) \<Longrightarrow> build_map (map fst m) (map snd m) acc = Inr (PV_Map (acc @ m))"
proof (induction m arbitrary: acc)
  case (Cons x m)
  have "fst x \<notin> fst ` set acc" using Cons.prems by auto
  then have "AList.update (fst x) (snd x) acc = acc @ [x]" by (induction acc) auto
  then show ?case using Cons.IH [of "acc @ [x]"] Cons.prems by simp
qed simp

lemma weight_less: "x \<in> set vs \<Longrightarrow> sum_list (map weight vs) < n \<Longrightarrow> weight x < n"
  using weight_elem [of x vs] by simp

text \<open>One case of the round trip for each specialization, with what the recursive calls give as premises.\<close>

lemma tuple_back:
  assumes "\<And>t x. (t, x) \<in> set (zip ts (elems v)) \<Longrightarrow> convertible t \<Longrightarrow> has_type t x \<Longrightarrow> weight x < 2 ^ 32 \<Longrightarrow> deconv t (conv t x) = Inr x"
    and "convertible (PT_Tuple ts)" "has_type (PT_Tuple ts) v" "weight v < 2 ^ 32"
  shows "deconv (PT_Tuple ts) (conv (PT_Tuple ts) v) = Inr v"
proof -
  from assms obtain vs where v: "v = PV_Tuple vs" "length vs = length ts" "\<forall>i < length ts. has_type (ts ! i) (vs ! i)"
    using has_typeD(2) by blast
  have w: "sum_list (map weight vs) < 2 ^ 32" using assms v by simp
  have at: "convertible t \<and> has_type t x \<and> x \<in> set vs" if "(t, x) \<in> set (zip ts vs)" for t x
    using that v assms(2) by (auto simp: set_zip)
  have "map length (map (\<lambda>(t, x). conv t x) (zip ts vs)) = map (length \<circ> pst) ts"
  proof (rule nth_equalityI)
    fix i
    assume "i < length (map length (map (\<lambda>(t, x). conv t x) (zip ts vs)))"
    then have i: "i < length ts" using v(2) by simp
    then have "(ts ! i, vs ! i) \<in> set (zip ts vs)" using v(2) by (auto simp: set_zip)
    from at [OF this] have "length (conv (ts ! i) (vs ! i)) = length (pst (ts ! i))" by (intro length_conv) auto
    then show "map length (map (\<lambda>(t, x). conv t x) (zip ts vs)) ! i = map (length \<circ> pst) ts ! i" using i v(2) by simp
  qed (simp add: v(2))
  then have p: "parts (map (length \<circ> pst) ts) (conv (PT_Tuple ts) v) = map (\<lambda>(t, x). conv t x) (zip ts vs)"
    by (simp add: v(1) parts_concat del: map_map)
  have z: "zip ts (map (\<lambda>(t, x). conv t x) (zip ts vs)) = map (\<lambda>(t, x). (t, conv t x)) (zip ts vs)"
    using v(2) by (intro nth_equalityI) auto
  have "rseq (map ((\<lambda>(t, part). deconv t part) \<circ> (\<lambda>(t, x). (t, conv t x))) (zip ts vs)) = Inr (map snd (zip ts vs))"
  proof (rule rseq_Inr)
    fix y
    assume "y \<in> set (zip ts vs)"
    moreover obtain t x where y: "y = (t, x)" by fastforce
    ultimately have "deconv t (conv t x) = Inr x" using assms(1) at [of t x] weight_less [OF _ w, of x] v by auto
    then show "((\<lambda>(t, part). deconv t part) \<circ> (\<lambda>(t, x). (t, conv t x))) y = Inr (snd y)" by (simp add: y)
  qed
  then have "rseq (map (\<lambda>(t, part). deconv t part) (zip ts (parts (map (length \<circ> pst) ts) (conv (PT_Tuple ts) v)))) = Inr vs"
    unfolding p z map_map using v(2) by simp
  then show ?thesis by (simp only: deconv.simps rbind_simps v(1))
qed

lemma map_back:
  assumes "convertible (PT_Vec k) \<Longrightarrow> has_type (PT_Vec k) (PV_Vec (map fst (entries v))) \<Longrightarrow> weight (PV_Vec (map fst (entries v))) < 2 ^ 32 \<Longrightarrow> deconv (PT_Vec k) (conv (PT_Vec k) (PV_Vec (map fst (entries v)))) = Inr (PV_Vec (map fst (entries v)))"
    "convertible (PT_Vec n) \<Longrightarrow> has_type (PT_Vec n) (PV_Vec (map snd (entries v))) \<Longrightarrow> weight (PV_Vec (map snd (entries v))) < 2 ^ 32 \<Longrightarrow> deconv (PT_Vec n) (conv (PT_Vec n) (PV_Vec (map snd (entries v)))) = Inr (PV_Vec (map snd (entries v)))"
    and "convertible (PT_Map k n)" "has_type (PT_Map k n) v" "weight v < 2 ^ 32"
  shows "deconv (PT_Map k n) (conv (PT_Map k n) v) = Inr v"
proof -
  from assms obtain m where v: "v = PV_Map m" "distinct (map fst m)" "\<forall>x \<in> set m. has_type k (fst x) \<and> has_type n (snd x)"
    using has_typeD(3) by blast
  have w: "weight (PV_Vec (map fst m)) < 2 ^ 32" "weight (PV_Vec (map snd m)) < 2 ^ 32"
    using assms(5) weight_map [of m] by (auto simp: v(1))
  have ty: "has_type (PT_Vec k) (PV_Vec (map fst m))" "has_type (PT_Vec n) (PV_Vec (map snd m))"
    "convertible (PT_Vec k)" "convertible (PT_Vec n)" using v(3) assms(3) by auto
  have "deconv (PT_Vec k) (conv (PT_Vec k) (PV_Vec (map fst m))) = Inr (PV_Vec (map fst m))"
    "deconv (PT_Vec n) (conv (PT_Vec n) (PV_Vec (map snd m))) = Inr (PV_Vec (map snd m))"
    using assms(1,2) ty w by (auto simp: v(1))
  then show ?thesis using length_conv [OF ty(3,1)] build_map_all [of "[]" m] v(2) by (simp add: v(1))
qed

lemma columns_back:
  assumes "\<And>i. i < length ts \<Longrightarrow> convertible (PT_Vec (ts ! i)) \<Longrightarrow> has_type (PT_Vec (ts ! i)) (PV_Vec (map (\<lambda>row. elems row ! i) (elems v))) \<Longrightarrow> weight (PV_Vec (map (\<lambda>row. elems row ! i) (elems v))) < 2 ^ 32 \<Longrightarrow> deconv (PT_Vec (ts ! i)) (conv (PT_Vec (ts ! i)) (PV_Vec (map (\<lambda>row. elems row ! i) (elems v)))) = Inr (PV_Vec (map (\<lambda>row. elems row ! i) (elems v)))"
    and "convertible (PT_Vec (PT_Tuple ts))" "has_type (PT_Vec (PT_Tuple ts)) v" "weight v < 2 ^ 32"
  shows "deconv (PT_Vec (PT_Tuple ts)) (conv (PT_Vec (PT_Tuple ts)) v) = Inr v"
proof -
  from assms obtain vs where v: "v = PV_Vec vs" "\<forall>x \<in> set vs. has_type (PT_Tuple ts) x" using has_typeD(4) by blast
  have ts: "0 < length ts" "\<And>t. t \<in> set ts \<Longrightarrow> vec_ok t" using assms(2) by auto
  have row: "\<exists>ws. x = PV_Tuple ws \<and> length ws = length ts \<and> (\<forall>i < length ts. has_type (ts ! i) (ws ! i))" if "x \<in> set vs" for x
    using v(2) that has_typeD(2) by blast
  let ?col = "\<lambda>i. map (\<lambda>row. elems row ! i) vs"
  let ?f = "\<lambda>i. conv (PT_Vec (ts ! i)) (PV_Vec (?col i))"
  have ty: "convertible (PT_Vec (ts ! i)) \<and> has_type (PT_Vec (ts ! i)) (PV_Vec (?col i))" if "i < length ts" for i
    using row that ts(2) by force
  have undo: "deconv (PT_Vec (ts ! i)) (?f i) = Inr (PV_Vec (?col i))" if i: "i < length ts" for i
  proof -
    have "weight (PV_Vec (?col i)) \<le> weight v" using weight_column [of vs i] row i by (fastforce simp: v(1))
    then show ?thesis using assms(1) [of i] assms(4) ty [OF i] i by (simp add: v(1))
  qed
  have "map length (map ?f [0..<length ts]) = map (\<lambda>t. length (pst (PT_Vec t))) ts"
    using length_conv ty by (intro nth_equalityI) auto
  then have p: "parts (map (\<lambda>t. length (pst (PT_Vec t))) ts) (conv (PT_Vec (PT_Tuple ts)) v) = map ?f [0..<length ts]"
    by (simp add: v(1) parts_concat del: map_map)
  have z: "zip ts (map ?f [0..<length ts]) = map (\<lambda>i. (ts ! i, ?f i)) [0..<length ts]"
    by (intro nth_equalityI) auto
  have r: "rseq (map ((\<lambda>(t, part). deconv (PT_Vec t) part) \<circ> (\<lambda>i. (ts ! i, ?f i))) [0..<length ts])
    = Inr (map (\<lambda>i. PV_Vec (?col i)) [0..<length ts])"
    by (rule rseq_Inr) (simp add: undo)
  have "map elems (map (\<lambda>i. PV_Vec (?col i)) [0..<length ts]) = map (\<lambda>i. map (\<lambda>r. r ! i) (map elems vs)) [0..<length ts]"
    by (simp add: o_def)
  moreover have "\<forall>r \<in> set (map elems vs). length r = length ts" using row by force
  ultimately have rows: "rows_of (map elems (map (\<lambda>i. PV_Vec (?col i)) [0..<length ts])) = Inr (map elems vs)"
    using rows_of_columns [OF ts(1), of "map elems vs"] by (simp only:)
  have "map PV_Tuple (map elems vs) = vs" unfolding map_map using row by (intro map_idI) force
  moreover have "rseq (map (\<lambda>(t, part). deconv (PT_Vec t) part)
      (zip ts (parts (map (\<lambda>t. length (pst (PT_Vec t))) ts) (conv (PT_Vec (PT_Tuple ts)) v)))) = Inr (map (\<lambda>i. PV_Vec (?col i)) [0..<length ts])"
    unfolding p z map_map by (rule r)
  ultimately show ?thesis unfolding deconv.simps by (simp only: rbind_simps rows v(1))
qed

lemma vectors_back:
  assumes "\<And>x. x \<in> set (concat (map elems (elems v))) \<Longrightarrow> convertible t \<Longrightarrow> has_type t x \<Longrightarrow> weight x < 2 ^ 32 \<Longrightarrow> deconv t (conv t x) = Inr x"
    and "convertible (PT_Vec (PT_Vec t))" "has_type (PT_Vec (PT_Vec t)) v" "weight v < 2 ^ 32"
  shows "deconv (PT_Vec (PT_Vec t)) (conv (PT_Vec (PT_Vec t)) v) = Inr v"
proof -
  from assms obtain vs where v: "v = PV_Vec vs" "\<forall>x \<in> set vs. has_type (PT_Vec t) x" using has_typeD(4) by blast
  have inner: "\<exists>ws. x = PV_Vec ws \<and> (\<forall>y \<in> set ws. has_type t y)" if "x \<in> set vs" for x
    using v(2) that has_typeD(4) by blast
  let ?xs = "concat (map elems vs)"
  have t: "convertible t" "vec_ok t" using assms(2) by (simp_all add: vec_ok_convertible)
  have w: "sum_list (map weight vs) < 2 ^ 32" using assms(4) by (simp add: v(1))
  have wx: "sum_list (map weight ?xs) < 2 ^ 32" using weight_concat [of vs] inner w by (meson le_less_trans)
  have tx: "has_type t x \<and> weight x < 2 ^ 32" if "x \<in> set ?xs" for x
    using that inner weight_less [OF that wx] by fastforce
  have "\<forall>r \<in> set (map (conv t) ?xs). map value_type r = pst t \<and> (\<forall>p \<in> set r. length (unpack p) < 2 ^ 32)"
    using conv_types [OF t(1)] conv_bound [OF t(1)] tx by (fastforce intro: le_less_trans)
  then have u: "unvec_native (pst t) (vec_native (pst t) (map (conv t) ?xs)) = Inr (map (conv t) ?xs)"
    using pst_vecable [OF t(2)] by (intro unvec_native_vec_native) auto
  have len: "length (elems x) < 2 ^ 32" if x: "x \<in> set vs" for x
  proof -
    obtain ws where "x = PV_Vec ws" using inner [OF x] by blast
    then show ?thesis using weight_less [OF x w] length_weights [of ws] by simp
  qed
  let ?groups = "map (\<lambda>x. map (conv t) (elems x)) vs"
  have "sizes_of (V_vec_uint32 (map (\<lambda>inner. of_nat (length (elems inner))) vs)) = map length ?groups"
    using len by (simp add: o_def unat_of_nat take_bit_nat_eq_self)
  moreover have "map (conv t) ?xs = concat ?groups" by (simp add: map_concat o_def)
  ultimately have g: "split_lens (sizes_of (V_vec_uint32 (map (\<lambda>inner. of_nat (length (elems inner))) vs))) (map (conv t) ?xs) = Inr ?groups"
    by (simp only: split_lens_concat)
  have "rseq (map (\<lambda>x. rseq (map (deconv t) (map (conv t) (elems x)))) vs) = Inr (map elems vs)"
  proof (rule rseq_Inr)
    fix x
    assume x: "x \<in> set vs"
    have "rseq (map (\<lambda>y. deconv t (conv t y)) (elems x)) = Inr (map (\<lambda>y. y) (elems x))"
    proof (rule rseq_Inr)
      fix y
      assume "y \<in> set (elems x)"
      then have "y \<in> set ?xs" using x by auto
      then show "deconv t (conv t y) = Inr y" using assms(1) t(1) tx by (simp add: v(1))
    qed
    then show "rseq (map (deconv t) (map (conv t) (elems x))) = Inr (elems x)" by (simp add: o_def)
  qed
  then have r: "rseq (map (\<lambda>g. rseq (map (deconv t) g)) ?groups) = Inr (map elems vs)" by (simp add: o_def)
  have "map PV_Vec (map elems vs) = vs" unfolding map_map using inner by (intro map_idI) force
  then show ?thesis
    by (simp only: conv.simps deconv.simps v(1) elems.simps list.sel u rbind_simps g r)
qed

lemma maps_back:
  assumes "\<And>x. x \<in> set (elems v) \<Longrightarrow> convertible (PT_Map k n) \<Longrightarrow> has_type (PT_Map k n) x \<Longrightarrow> weight x < 2 ^ 32 \<Longrightarrow> deconv (PT_Map k n) (conv (PT_Map k n) x) = Inr x"
    and "convertible (PT_Vec (PT_Map k n))" "has_type (PT_Vec (PT_Map k n)) v" "weight v < 2 ^ 32"
  shows "deconv (PT_Vec (PT_Map k n)) (conv (PT_Vec (PT_Map k n)) v) = Inr v"
proof -
  from assms obtain vs where v: "v = PV_Vec vs" "\<forall>x \<in> set vs. has_type (PT_Map k n) x" using has_typeD(4) by blast
  have c: "convertible (PT_Map k n)" "vec_ok (PT_Map k n)" using assms(2) by simp_all
  have w: "sum_list (map weight vs) < 2 ^ 32" using assms(4) by (simp add: v(1))
  have "\<forall>r \<in> set (map (conv (PT_Map k n)) vs). map value_type r = pst (PT_Map k n) \<and> (\<forall>p \<in> set r. length (unpack p) < 2 ^ 32)"
    using conv_types [OF c(1)] conv_bound [OF c(1)] v(2) weight_less [OF _ w]
    by (fastforce intro: le_less_trans simp del: conv.simps pst.simps has_type.simps)
  then have u: "unvec_native (pst (PT_Map k n)) (vec_native (pst (PT_Map k n)) (map (conv (PT_Map k n)) vs)) = Inr (map (conv (PT_Map k n)) vs)"
    using pst_vecable [OF c(2)] by (intro unvec_native_vec_native) auto
  have "rseq (map (\<lambda>x. deconv (PT_Map k n) (conv (PT_Map k n) x)) vs) = Inr (map (\<lambda>x. x) vs)"
    using assms(1) c(1) v weight_less [OF _ w] by (intro rseq_Inr) (simp del: conv.simps deconv.simps has_type.simps)
  then have r: "rseq (map (deconv (PT_Map k n)) (map (conv (PT_Map k n)) vs)) = Inr vs" by (simp add: o_def del: conv.simps deconv.simps)
  show ?thesis by (simp only: conv.simps(7) deconv.simps(7) v(1) elems.simps u rbind_simps r)
qed

lemma deconv_conv: "convertible t \<Longrightarrow> has_type t v \<Longrightarrow> weight v < 2 ^ 32 \<Longrightarrow> deconv t (conv t v) = Inr v"
proof (induction t v rule: conv.induct)
  case (1 n v)
  then show ?case using has_typeD(1) by fastforce
next
  case (2 ts v)
  show ?case by (rule tuple_back) (use 2 in auto)
next
  case (3 k n v)
  show ?case by (rule map_back) (use 3 in simp_all)
next
  case (4 n v)
  then obtain vs where v: "v = PV_Vec vs" "\<forall>x \<in> set vs. has_type (PT_Native n) x" using has_typeD(4) by blast
  have nat: "\<exists>p. x = PV_Native p \<and> value_type p = n" if "x \<in> set vs" for x using v(2) that has_typeD(1) by blast
  then have "\<forall>p \<in> set (map native_of vs). value_type p = n" by force
  then have "unpack (pack n (map native_of vs)) = map native_of vs" using 4(1) by (intro unpack_pack) simp_all
  moreover have "map PV_Native (map native_of vs) = vs" unfolding map_map using nat by (intro map_idI) force
  ultimately show ?case by (simp add: v(1) del: map_map)
next
  case (5 ts v)
  show ?case by (rule columns_back) (use 5 in simp_all)
next
  case (6 t v)
  show ?case by (rule vectors_back) (use 6 in simp_all)
next
  case (7 k n v)
  show ?case by (rule maps_back) (use 7 in \<open>simp_all only:\<close>)
qed

section \<open>The interface of a converter\<close>

text \<open>What the iterative methods expect of \<^verbatim>\<open>PubSubConverter<T>\<close>: a value that can be sent comes back.\<close>

locale converter =
  fixes convert :: "'v \<Rightarrow> 'p" and deconvert :: "'p \<Rightarrow> 'v res" and sendable :: "'v \<Rightarrow> bool"
  assumes round_trip: "sendable v \<Longrightarrow> deconvert (convert v) = Inr v"
begin

lemma convert_inj: "sendable v \<Longrightarrow> sendable w \<Longrightarrow> convert v = convert w \<Longrightarrow> v = w"
  by (metis round_trip sum.inject(2))

lemma received: "\<forall>v \<in> set vs. sendable v \<Longrightarrow> rseq (map deconvert (map convert vs)) = Inr vs"
  by (induction vs) (simp_all add: round_trip)

end

definition can_send :: "ps_type \<Rightarrow> ps_value \<Rightarrow> bool" where
  "can_send t v \<longleftrightarrow> convertible t \<and> has_type t v \<and> weight v < 2 ^ 32"

interpretation pubsub: converter "conv t" "deconv t" "can_send t" for t
  by unfold_locales (simp add: can_send_def deconv_conv)

text \<open>C33: A value of a type that has a converter becomes a list of native values of exactly the types of its
  \<^verbatim>\<open>pubsub_type\<close>, from which the converter back gets the same value, and different values never become the same
  list: tuples, maps and vectors in any nesting, as long as all lengths fit into the 32 bits they are sent with.\<close>

theorem pubsub_round_trip:
  assumes "convertible t" "has_type t v" "has_type t w" "weight v < 2 ^ 32" "weight w < 2 ^ 32"
  shows "deconv t (conv t v) = Inr v \<and> map value_type (conv t v) = pst t \<and> (conv t v = conv t w \<longrightarrow> v = w)"
proof -
  have s: "can_send t v" "can_send t w" using assms by (simp_all only: can_send_def)
  show ?thesis using pubsub.round_trip [OF s(1)] conv_types [OF assms(1,2)] pubsub.convert_inj [OF s] by blast
qed

text \<open>A map from strings to vectors, as the processors send, beside a number.\<close>

definition sample_ps_type :: ps_type where
  "sample_ps_type = PT_Tuple [PT_Native T_bool, PT_Map (PT_Native T_string) (PT_Vec (PT_Native T_uint8))]"

definition sample_ps_value :: ps_value where
  "sample_ps_value = PV_Tuple [PV_Native (V_bool True),
     PV_Map [(PV_Native (V_string ''a''), PV_Vec [PV_Native (V_uint8 1), PV_Native (V_uint8 2)]), (PV_Native (V_string ''b''), PV_Vec [])]]"

lemma pubsub_round_trip_witness: "deconv sample_ps_type (conv sample_ps_type sample_ps_value) = Inr sample_ps_value"
proof -
  have "convertible sample_ps_type" by (simp add: sample_ps_type_def scalars_def)
  moreover have "has_type sample_ps_type sample_ps_value"
    by (simp add: sample_ps_type_def sample_ps_value_def nth_Cons split: nat.split)
  moreover have "weight sample_ps_value < 2 ^ 32" by (simp add: sample_ps_value_def)
  ultimately show ?thesis using pubsub_round_trip by blast
qed

end
