(* ===== verification/Sky_Neighbor_Data.thy ===== *)
theory Sky_Neighbor_Data
  imports Sky_Job
begin

text \<open>
  \<^verbatim>\<open>skywing_mid/neighbor_data_handler.hpp\<close>: the view of the neighbours' values that an iterative method
  works with. The handler holds references; the model holds what they refer to while the handler is used.
  The members \<^verbatim>\<open>f_sum\<close>, \<^verbatim>\<open>weighted_sum\<close> and \<^verbatim>\<open>weighted_average\<close> are no functions of the program: they call
  their helpers with arguments that no overload takes, so that they cannot be instantiated.
\<close>

section \<open>The handler\<close>

text \<open>\<^verbatim>\<open>updated_tags_\<close> holds pointers into the vector of the tags, here positions in it.\<close>

record ('b, 'd) handler =
  nd_transformer :: "'b \<Rightarrow> 'd"
  nd_tags :: "tag_id list"
  nd_values :: "(tag_id \<times> 'b) list"
  nd_updated :: "nat list"

definition get_sub_handler :: "('d \<Rightarrow> 's) \<Rightarrow> ('b, 'd) handler \<Rightarrow> ('b, 's) handler" where
  "get_sub_handler sub_transformer h =
     \<lparr>nd_transformer = (\<lambda>v. sub_transformer (nd_transformer h v)), nd_tags = nd_tags h, nd_values = nd_values h,
      nd_updated = nd_updated h\<rparr>"

text \<open>The search for the first tag with a value; behind the last tag it goes on, which is undefined.\<close>

fun skip_absent :: "(tag_id \<times> 'b) list \<Rightarrow> tag_id list \<Rightarrow> (tag_id \<times> tag_id list) res" where
  "skip_absent vals [] = Inl Undefined_Behaviour"
| "skip_absent vals (tag # tags) = (if has_key tag vals then Inr (tag, tags) else skip_absent vals tags)"

text \<open>\<^verbatim>\<open>unordered_map::at\<close> throws.\<close>

definition value_at :: "tag_id \<Rightarrow> (tag_id \<times> 'b) list \<Rightarrow> 'b res" where
  "value_at tag vals = (case map_of vals tag of None \<Rightarrow> Inl Exception_Thrown | Some v \<Rightarrow> Inr v)"

text \<open>The loops are the same but for what they make of a tag and its value.\<close>

definition accumulate_one :: "(tag_id \<times> 'b) list \<Rightarrow> (tag_id \<Rightarrow> 'b \<Rightarrow> 'r) \<Rightarrow> ('r \<Rightarrow> 'r \<Rightarrow> 'r) \<Rightarrow> tag_id \<Rightarrow> 'r \<Rightarrow> 'r res" where
  "accumulate_one vals g binary_op tag val =
     (if \<not> has_key tag vals then Inr val
      else rbind (value_at tag vals) (\<lambda>v. Inr (binary_op val (g tag v))))"

definition accumulate :: "(tag_id \<Rightarrow> 'b \<Rightarrow> 'r) \<Rightarrow> ('r \<Rightarrow> 'r \<Rightarrow> 'r) \<Rightarrow> ('b, 'd) handler \<Rightarrow> 'r res" where
  "accumulate g binary_op h =
     rbind (skip_absent (nd_values h) (nd_tags h)) (\<lambda>(tag, tags).
     rbind (value_at tag (nd_values h)) (\<lambda>v.
       rfold (accumulate_one (nd_values h) g binary_op) tags (g tag v)))"

definition f_accumulate_impl :: "('b \<Rightarrow> 'r) \<Rightarrow> ('r \<Rightarrow> 'r \<Rightarrow> 'r) \<Rightarrow> ('b, 'd) handler \<Rightarrow> 'r res" where
  "f_accumulate_impl f = accumulate (\<lambda>tag v. f v)"

definition weighted_f_accumulate :: "('b \<Rightarrow> 'r :: times) \<Rightarrow> (tag_id \<Rightarrow> 'r) \<Rightarrow> ('r \<Rightarrow> 'r \<Rightarrow> 'r) \<Rightarrow> ('b, 'd) handler \<Rightarrow> 'r res" where
  "weighted_f_accumulate f coef = accumulate (\<lambda>tag v. coef tag * f v)"

definition coef_accumulate :: "(tag_id \<Rightarrow> 'r) \<Rightarrow> ('r \<Rightarrow> 'r \<Rightarrow> 'r) \<Rightarrow> ('b, 'd) handler \<Rightarrow> 'r res" where
  "coef_accumulate coef = accumulate (\<lambda>tag v. coef tag)"

definition f_accumulate :: "('d \<Rightarrow> 'r) \<Rightarrow> ('r \<Rightarrow> 'r \<Rightarrow> 'r) \<Rightarrow> ('b, 'd) handler \<Rightarrow> 'r res" where
  "f_accumulate f binary_op h = f_accumulate_impl (\<lambda>v. f (nd_transformer h v)) binary_op h"

definition nd_sum :: "('b, 'd :: plus) handler \<Rightarrow> 'd res" where
  "nd_sum h = f_accumulate_impl (nd_transformer h) (+) h"

definition nd_average :: "('b, 'd :: field) handler \<Rightarrow> 'd res" where
  "nd_average h = rbind (nd_sum h) (\<lambda>num. rbind (f_accumulate_impl (\<lambda>_. 1) (+) h) (\<lambda>denom. Inr (num / denom)))"

definition num_neighbors :: "('b, 'd) handler \<Rightarrow> nat" where
  "num_neighbors h = length (nd_tags h)"

definition get_data_unsafe :: "tag_id \<Rightarrow> ('b, 'd) handler \<Rightarrow> 'd res" where
  "get_data_unsafe tag h = rbind (value_at tag (nd_values h)) (\<lambda>v. Inr (nd_transformer h v))"

text \<open>The pointers of \<^verbatim>\<open>get_updated_tags\<close> are followed by its callers.\<close>

definition deref_tag :: "nat \<Rightarrow> ('b, 'd) handler \<Rightarrow> tag_id res" where
  "deref_tag i h = (if i < length (nd_tags h) then Inr (nd_tags h ! i) else Inl Undefined_Behaviour)"

definition get_updated_tags :: "('b, 'd) handler \<Rightarrow> tag_id list res" where
  "get_updated_tags h = rfold (\<lambda>i ts. rbind (deref_tag i h) (\<lambda>t. Inr (ts @ [t]))) (nd_updated h) []"

section \<open>What the loops compute\<close>

text \<open>The values that are there, in the order of the tags.\<close>

definition present :: "('b, 'd) handler \<Rightarrow> (tag_id \<times> 'b) list" where
  "present h = map (\<lambda>tag. (tag, the (map_of (nd_values h) tag))) (filter (\<lambda>tag. has_key tag (nd_values h)) (nd_tags h))"

lemma skip_absent_filter:
  "skip_absent vals tags = (case filter (\<lambda>tag. has_key tag vals) tags of [] \<Rightarrow> Inl Undefined_Behaviour
     | tag # _ \<Rightarrow> Inr (tag, tl (dropWhile (\<lambda>tag. \<not> has_key tag vals) tags)))"
  by (induction tags) (auto split: list.split)

lemma filter_tl_dropWhile:
  "filter P xs = y # ys \<Longrightarrow> filter P (tl (dropWhile (\<lambda>x. \<not> P x) xs)) = ys"
  by (induction xs) (auto split: if_splits)

lemma value_at_present: "has_key tag vals \<Longrightarrow> value_at tag vals = Inr (the (map_of vals tag))"
  by (auto simp: value_at_def has_key_def)

lemma accumulate_rest:
  "rfold (accumulate_one vals g binary_op) tags val =
     Inr (fold (\<lambda>tag val. binary_op val (g tag (the (map_of vals tag)))) (filter (\<lambda>tag. has_key tag vals) tags) val)"
  by (induction tags arbitrary: val) (auto simp: accumulate_one_def value_at_present)

lemma accumulate_present:
  "accumulate g binary_op h = (case present h of [] \<Rightarrow> Inl Undefined_Behaviour
     | (tag, v) # vs \<Rightarrow> Inr (fold (\<lambda>(tag, v) val. binary_op val (g tag v)) vs (g tag v)))"
proof (cases "filter (\<lambda>tag. has_key tag (nd_values h)) (nd_tags h)")
  case Nil
  then show ?thesis by (simp add: accumulate_def present_def skip_absent_filter)
next
  case (Cons tag tags)
  then have "has_key tag (nd_values h)" by (auto simp: filter_eq_Cons_iff)
  then show ?thesis using Cons filter_tl_dropWhile [OF Cons]
    by (simp add: accumulate_def present_def skip_absent_filter value_at_present accumulate_rest fold_map o_def)
qed

lemma f_accumulate_present:
  "f_accumulate_impl f binary_op h = (case map (f \<circ> snd) (present h) of [] \<Rightarrow> Inl Undefined_Behaviour
     | x # xs \<Rightarrow> Inr (foldl binary_op x xs))"
  by (auto simp: f_accumulate_impl_def accumulate_present foldl_conv_fold fold_map o_def case_prod_unfold split: list.splits)

lemma foldl_plus_sum: "foldl (+) (x :: 'd :: comm_monoid_add) xs = sum_list (x # xs)"
  by (induction xs arbitrary: x) (simp_all add: add.assoc)

lemma nd_sum_present:
  "nd_sum h = (if present h = [] then Inl Undefined_Behaviour
     else Inr (sum_list (map (nd_transformer h \<circ> snd) (present h))))" for h :: "('b, 'd :: field) handler"
  by (auto simp: nd_sum_def f_accumulate_present foldl_plus_sum split: list.split)

text \<open>The average over the neighbours is the sum of the values of exactly the live neighbours that have sent one,
  divided by their number; a neighbour without a value is left out of both. When no neighbour has a value yet
  the search for the first runs past the end of the tags.\<close>

theorem average_of_present:
  "nd_average (h :: ('b, 'd :: field) handler) =
    (if filter (\<lambda>tag. has_key tag (nd_values h)) (nd_tags h) = [] then Inl Undefined_Behaviour
     else Inr (sum_list (map (\<lambda>tag. nd_transformer h (the (map_of (nd_values h) tag)))
                          (filter (\<lambda>tag. has_key tag (nd_values h)) (nd_tags h)))
               / of_nat (length (filter (\<lambda>tag. has_key tag (nd_values h)) (nd_tags h)))))"
proof -
  have "f_accumulate_impl (\<lambda>_. 1 :: 'd) (+) h = (if present h = [] then Inl Undefined_Behaviour
      else Inr (of_nat (length (present h))))"
    by (auto simp: f_accumulate_present foldl_plus_sum o_def sum_list_triv split: list.split)
  moreover have "(filter (\<lambda>tag. has_key tag (nd_values h)) (nd_tags h) = []) = (present h = [])"
    by (simp add: present_def)
  moreover have "map (nd_transformer h \<circ> snd) (present h)
      = map (\<lambda>tag. nd_transformer h (the (map_of (nd_values h) tag))) (filter (\<lambda>tag. has_key tag (nd_values h)) (nd_tags h))"
    "length (present h) = length (filter (\<lambda>tag. has_key tag (nd_values h)) (nd_tags h))"
    by (simp_all add: present_def o_def)
  ultimately show ?thesis by (simp only: nd_average_def nd_sum_present) simp
qed

end
