(* ===== verification/Sky_Mean_Processors.thy ===== *)
theory Sky_Mean_Processors
  imports Sky_Neighbor_Data Complex_Main
begin

text \<open>
  \<^verbatim>\<open>skywing_mid/push_sum_processor.hpp\<close> and \<^verbatim>\<open>push_flow_processor.hpp\<close>: the two processors that compute
  averages. The scalar type is a template argument of the code; here it is any field, so that the rounding of
  \<^verbatim>\<open>double\<close> is not modelled.
\<close>

section \<open>Push Sum\<close>

record 'a push_sum =
  ps_count :: "32 word"
  ps_x :: 'a
  ps_y :: 'a
  ps_in :: 'a                    \<comment> \<open>\<^verbatim>\<open>in_nodes_plus_one_\<close>\<close>
  ps_sigma_x :: 'a
  ps_sigma_y :: 'a
  ps_rho_x :: "(tag_id \<times> 'a) list"
  ps_rho_y :: "(tag_id \<times> 'a) list"
  ps_rho_x_previous :: "(tag_id \<times> 'a) list"
  ps_rho_y_previous :: "(tag_id \<times> 'a) list"

text \<open>The constructor adds to \<^verbatim>\<open>sigma_x_\<close> and \<^verbatim>\<open>sigma_y_\<close>, which nothing has initialised: what they hold
  is a pair of arguments.\<close>

definition new_push_sum :: "'a \<times> 'a \<Rightarrow> 'a :: field \<Rightarrow> nat \<Rightarrow> 'a push_sum" where
  "new_push_sum = (\<lambda>(garbage_x, garbage_y) starting_value number_of_neighbors.
     let n = of_nat number_of_neighbors + 1
     in \<lparr>ps_count = 0, ps_x = starting_value, ps_y = 1, ps_in = n,
         ps_sigma_x = garbage_x + starting_value / n, ps_sigma_y = garbage_y + 1 / n,
         ps_rho_x = [], ps_rho_y = [], ps_rho_x_previous = [], ps_rho_y_previous = []\<rparr>)"

type_synonym 'a push_sum_value = "'a \<times> 'a \<times> 32 word"

definition ps_get_init_publish_values :: "'a push_sum \<Rightarrow> 'a push_sum_value" where
  "ps_get_init_publish_values p = (ps_sigma_x p, ps_sigma_y p, ps_count p)"

definition ps_prepare_for_publication :: "'a push_sum_value \<Rightarrow> 'a push_sum \<Rightarrow> 'a push_sum_value" where
  "ps_prepare_for_publication vals p = (ps_sigma_x p, ps_sigma_y p, ps_count p)"

text \<open>\<^verbatim>\<open>operator[]\<close> on a map: a missing entry is zero.\<close>

definition entry :: "tag_id \<Rightarrow> (tag_id \<times> 'a :: zero) list \<Rightarrow> 'a" where
  "entry k m = (case map_of m k of None \<Rightarrow> 0 | Some v \<Rightarrow> v)"

definition ps_update_one :: "tag_id \<Rightarrow> 'a push_sum_value \<Rightarrow> 'a :: field push_sum \<Rightarrow> 'a push_sum" where
  "ps_update_one tag = (\<lambda>(nbr_x, nbr_y, _) p.
     let previous_x = entry tag (ps_rho_x p); previous_y = entry tag (ps_rho_y p);
         x = ps_x p + nbr_x - previous_x; y = ps_y p + nbr_y - previous_y
     in p\<lparr>ps_rho_x_previous := AList.update tag previous_x (ps_rho_x_previous p),
          ps_rho_y_previous := AList.update tag previous_y (ps_rho_y_previous p),
          ps_rho_x := AList.update tag nbr_x (ps_rho_x p), ps_rho_y := AList.update tag nbr_y (ps_rho_y p),
          ps_sigma_x := ps_sigma_x p + x / ps_in p, ps_sigma_y := ps_sigma_y p + y / ps_in p,
          ps_x := x / ps_in p, ps_y := y / ps_in p, ps_count := ps_count p + 1\<rparr>)"

definition ps_process_update :: "('b, 'a push_sum_value) handler \<Rightarrow> tag_id \<Rightarrow> 'a :: field push_sum \<Rightarrow> 'a push_sum res" where
  "ps_process_update h my_tag p =
     rbind (get_updated_tags h) (\<lambda>tags.
       rfold (\<lambda>tag p. if tag = my_tag then Inr p
                      else rbind (get_data_unsafe tag h) (\<lambda>v. Inr (ps_update_one tag v p))) tags p)"

definition ps_get_value :: "'a :: field push_sum \<Rightarrow> 'a" where
  "ps_get_value p = ps_x p / ps_y p"

text \<open>What a machine holds, has offered to each of its neighbours, and has taken from them.\<close>

definition total :: "(tag_id \<times> 'a :: comm_monoid_add) list \<Rightarrow> 'a" where
  "total m = sum_list (map snd m)"

definition balance_x :: "nat \<Rightarrow> 'a :: field push_sum \<Rightarrow> 'a" where
  "balance_x d p = ps_x p + of_nat d * ps_sigma_x p - total (ps_rho_x p)"

definition balance_y :: "nat \<Rightarrow> 'a :: field push_sum \<Rightarrow> 'a" where
  "balance_y d p = ps_y p + of_nat d * ps_sigma_y p - total (ps_rho_y p)"

definition push_sum_ok :: "nat \<Rightarrow> 'a :: field push_sum \<Rightarrow> bool" where
  "push_sum_ok d p \<longleftrightarrow> ps_in p = of_nat d + 1 \<and> distinct (keys (ps_rho_x p)) \<and> distinct (keys (ps_rho_y p))"

lemma entry_absent: "k \<notin> set (keys m) \<Longrightarrow> entry k m = 0"
  by (simp add: entry_def keys_def map_of_eq_None_iff [THEN iffD2])

lemma total_update:
  "distinct (keys m) \<Longrightarrow> total (AList.update k v m) = total m + v - entry k m" for m :: "(tag_id \<times> 'a :: ab_group_add) list"
proof (induction m)
  case (Cons p m)
  obtain j w where p: "p = (j, w)" by fastforce
  have "k \<notin> set (keys m) \<Longrightarrow> entry k m = 0" by (rule entry_absent)
  with Cons show ?case by (auto simp: p total_def entry_def keys_def algebra_simps)
qed (simp add: total_def entry_def)

lemma total_entries:
  fixes m :: "(tag_id \<times> 'a :: ab_group_add) list"
  assumes "distinct (keys m)" "set (keys m) = tag ` S" "inj_on tag S" "finite S"
  shows "total m = (\<Sum>k \<in> S. entry (tag k) m)"
proof -
  have e: "entry k m = v" if "(k, v) \<in> set m" for k v
    using that assms(1) by (simp add: entry_def keys_def map_of_is_SomeI)
  have "total m = sum_list (map (\<lambda>k. entry k m) (keys m))"
    unfolding total_def keys_def map_map by (intro arg_cong [of _ _ sum_list] map_cong) (auto simp: e)
  also have "\<dots> = (\<Sum>k \<in> set (keys m). entry k m)" using assms(1) by (rule sum_list_distinct_conv_sum_set)
  also have "\<dots> = (\<Sum>k \<in> S. entry (tag k) m)" using assms(2,3) by (simp add: sum.reindex)
  finally show ?thesis .
qed

lemma keys_update: "distinct (keys m) \<Longrightarrow> distinct (keys (AList.update k v m))"
  by (simp add: keys_def distinct_update)

lemma ps_update_one_balance:
  fixes p :: "'a :: field_char_0 push_sum"
  assumes "push_sum_ok d p"
  shows "push_sum_ok d (ps_update_one tag v p) \<and> balance_x d (ps_update_one tag v p) = balance_x d p
    \<and> balance_y d (ps_update_one tag v p) = balance_y d p"
proof -
  obtain nx ny c where v: "v = (nx, ny, c)" by (cases v) auto
  have "(of_nat (Suc d) :: 'a) \<noteq> 0" by (simp only: of_nat_eq_0_iff)
  then have n: "(of_nat d + 1 :: 'a) \<noteq> 0" by (simp add: add.commute)
  have "x / m + (m - 1) * (s + x / m) = x + (m - 1) * s" if "m \<noteq> 0" for m x s :: 'a
    using that by (simp add: field_simps)
  from this [OF n] have x: "x / (of_nat d + 1) + of_nat d * (s + x / (of_nat d + 1)) = x + of_nat d * s" for x s :: 'a
    by simp
  show ?thesis using assms x
    by (simp add: ps_update_one_def v push_sum_ok_def balance_x_def balance_y_def total_update keys_update Let_def)
qed

lemma ps_process_update_balance:
  fixes p :: "'a :: field_char_0 push_sum"
  assumes "ps_process_update h my_tag p = Inr p'" "push_sum_ok d p"
  shows "push_sum_ok d p' \<and> balance_x d p' = balance_x d p \<and> balance_y d p' = balance_y d p"
proof -
  obtain tags where r: "rfold (\<lambda>tag p. if tag = my_tag then Inr p
                      else rbind (get_data_unsafe tag h) (\<lambda>v. Inr (ps_update_one tag v p))) tags p = Inr p'"
    using assms(1) by (auto simp: ps_process_update_def rbind_eq_Inr_iff)
  show ?thesis
    by (rule rfold_inv [OF r, where P = "\<lambda>q. push_sum_ok d q \<and> balance_x d q = balance_x d p \<and> balance_y d q = balance_y d p"])
      (use assms(2) in \<open>auto simp: rbind_eq_Inr_iff ps_update_one_balance split: if_split_asm\<close>)
qed

lemma new_push_sum_balance:
  "push_sum_ok d (new_push_sum (gx, gy) x d)
    \<and> balance_x d (new_push_sum (gx, gy) x d) = x * (1 + of_nat d / (of_nat d + 1)) + of_nat d * gx
    \<and> balance_y d (new_push_sum (gx, gy) x d) = 1 + of_nat d / (of_nat d + 1) + of_nat d * gy"
  by (simp add: new_push_sum_def push_sum_ok_def balance_x_def balance_y_def total_def keys_def Let_def algebra_simps)

lemma push_sum_run_balance:
  assumes "rfold (\<lambda>h. ps_process_update h my_tag) hs (new_push_sum (gx, gy) x d) = Inr (p :: 'a :: field_char_0 push_sum)"
  shows "push_sum_ok d p \<and> balance_x d p = x * (1 + of_nat d / (of_nat d + 1)) + of_nat d * gx
    \<and> balance_y d p = 1 + of_nat d / (of_nat d + 1) + of_nat d * gy"
proof -
  define p0 where "p0 = new_push_sum (gx, gy) x d"
  have p0: "push_sum_ok d p0" "rfold (\<lambda>h. ps_process_update h my_tag) hs p0 = Inr p"
    using assms new_push_sum_balance [of d gx gy x] by (simp_all add: p0_def)
  have "push_sum_ok d p \<and> balance_x d p = balance_x d p0 \<and> balance_y d p = balance_y d p0"
    by (rule rfold_inv [OF p0(2), where P = "\<lambda>q. push_sum_ok d q \<and> balance_x d q = balance_x d p0 \<and> balance_y d q = balance_y d p0"])
      (use p0(1) in \<open>auto dest: ps_process_update_balance\<close>)
  then show ?thesis using new_push_sum_balance [of d gx gy x] by (simp add: p0_def)
qed

text \<open>Sums over the neighbours of all nodes of a network.\<close>

definition network :: "nat \<Rightarrow> (nat \<Rightarrow> nat set) \<Rightarrow> (nat \<Rightarrow> tag_id) \<Rightarrow> bool" where
  "network N nbrs tag \<longleftrightarrow> (\<forall>i < N. nbrs i \<subseteq> {..<N} \<and> i \<notin> nbrs i \<and> (\<forall>k \<in> nbrs i. i \<in> nbrs k)) \<and> inj_on tag {..<N}"

lemma network_finite: "network N nbrs tag \<Longrightarrow> i < N \<Longrightarrow> finite (nbrs i) \<and> inj_on tag (nbrs i)"
  by (auto simp: network_def intro: finite_subset inj_on_subset)

lemma sum_neighbors_swap:
  fixes f :: "nat \<Rightarrow> nat \<Rightarrow> 'a :: comm_monoid_add"
  assumes "network N nbrs tag"
  shows "(\<Sum>i < N. \<Sum>k \<in> nbrs i. f i k) = (\<Sum>i < N. \<Sum>k \<in> nbrs i. f k i)"
proof -
  have r: "(\<Sum>k \<in> nbrs i. g k) = (\<Sum>k < N. if k \<in> nbrs i then g k else 0)" if "i < N" for i and g :: "nat \<Rightarrow> 'a"
  proof -
    have "nbrs i = {..<N} \<inter> nbrs i" using assms that by (auto simp: network_def)
    then show ?thesis using sum.inter_restrict [of "{..<N}" g "nbrs i"] by simp
  qed
  have "(\<Sum>i < N. \<Sum>k \<in> nbrs i. f i k) = (\<Sum>i < N. \<Sum>k < N. if k \<in> nbrs i then f i k else 0)"
    by (rule sum.cong) (simp_all add: r)
  also have "\<dots> = (\<Sum>k < N. \<Sum>i < N. if k \<in> nbrs i then f i k else 0)" by (rule sum.swap)
  also have "\<dots> = (\<Sum>k < N. \<Sum>i < N. if i \<in> nbrs k then f i k else 0)"
    using assms by (intro sum.cong refl if_cong) (auto simp: network_def)
  also have "\<dots> = (\<Sum>i < N. \<Sum>k \<in> nbrs i. f k i)" by (rule sum.cong) (simp_all add: r)
  finally show ?thesis .
qed

text \<open>What machine \<open>i\<close> holds and is still offered by its neighbours.\<close>

definition holds_x :: "(nat \<Rightarrow> nat set) \<Rightarrow> (nat \<Rightarrow> tag_id) \<Rightarrow> (nat \<Rightarrow> 'a :: field push_sum) \<Rightarrow> nat \<Rightarrow> 'a" where
  "holds_x nbrs tag p i = ps_x (p i) + (\<Sum>k \<in> nbrs i. ps_sigma_x (p k) - entry (tag k) (ps_rho_x (p i)))"

definition holds_y :: "(nat \<Rightarrow> nat set) \<Rightarrow> (nat \<Rightarrow> tag_id) \<Rightarrow> (nat \<Rightarrow> 'a :: field push_sum) \<Rightarrow> nat \<Rightarrow> 'a" where
  "holds_y nbrs tag p i = ps_y (p i) + (\<Sum>k \<in> nbrs i. ps_sigma_y (p k) - entry (tag k) (ps_rho_y (p i)))"

lemma total_neighbors:
  fixes m :: "(tag_id \<times> 'a :: ab_group_add) list"
  assumes "distinct (keys m)" "set (keys m) \<subseteq> tag ` S" "inj_on tag S" "finite S"
  shows "total m = (\<Sum>k \<in> S. entry (tag k) m)"
proof -
  let ?T = "{k \<in> S. tag k \<in> set (keys m)}"
  have "set (keys m) = tag ` ?T" using assms(2) by (auto simp del: set_keys)
  then have "total m = (\<Sum>k \<in> ?T. entry (tag k) m)"
    using assms by (intro total_entries) (auto intro: inj_on_subset)
  also have "\<dots> = (\<Sum>k \<in> S. entry (tag k) m)"
    using assms(4) entry_absent by (intro sum.mono_neutral_left) auto
  finally show ?thesis .
qed

text \<open>C18: Push Sum loses nothing: whatever the machines have taken from each other and in whatever order, the sum of
  what they hold and are still offered is what it was in the beginning, for the values and for the weights.
  But a starting value counts \<open>1 + d / (d + 1)\<close> times in it on a machine with \<open>d\<close> neighbours, since the
  constructor offers shares of it without giving them away, and \<open>d\<close> times what the uninitialised fields held
  is added. So the estimates, whose common limit is the quotient of the two sums, do not tend to the average of
  the starting values unless all machines have equally many neighbours.\<close>

theorem push_sum_conserves:
  assumes "network N nbrs tag"
    and "\<And>i. i < N \<Longrightarrow> rfold (\<lambda>h. ps_process_update h (tag i)) (hs i)
           (new_push_sum (gx i, gy i) (x0 i :: 'a :: field_char_0) (card (nbrs i))) = Inr (p i)"
    and "\<And>i. i < N \<Longrightarrow> set (keys (ps_rho_x (p i))) \<subseteq> tag ` nbrs i \<and> set (keys (ps_rho_y (p i))) \<subseteq> tag ` nbrs i"
  shows "(\<Sum>i < N. holds_x nbrs tag p i)
      = (\<Sum>i < N. x0 i * (1 + of_nat (card (nbrs i)) / (of_nat (card (nbrs i)) + 1)) + of_nat (card (nbrs i)) * gx i)
    \<and> (\<Sum>i < N. holds_y nbrs tag p i)
      = (\<Sum>i < N. 1 + of_nat (card (nbrs i)) / (of_nat (card (nbrs i)) + 1) + of_nat (card (nbrs i)) * gy i)"
proof -
  let ?d = "\<lambda>i. card (nbrs i)"
  note bal = push_sum_run_balance [OF assms(2)]
  have tot: "total (ps_rho_x (p i)) = (\<Sum>k \<in> nbrs i. entry (tag k) (ps_rho_x (p i)))"
    "total (ps_rho_y (p i)) = (\<Sum>k \<in> nbrs i. entry (tag k) (ps_rho_y (p i)))" if i: "i < N" for i
    using total_neighbors [of "ps_rho_x (p i)" tag "nbrs i"] total_neighbors [of "ps_rho_y (p i)" tag "nbrs i"]
      bal [OF i] assms(3) [OF i] network_finite [OF assms(1) i] by (auto simp: push_sum_ok_def)
  have swap: "(\<Sum>i < N. \<Sum>k \<in> nbrs i. f k) = (\<Sum>i < N. of_nat (?d i) * f i)" for f :: "nat \<Rightarrow> 'a"
    using sum_neighbors_swap [OF assms(1), of "\<lambda>i k. f k"] by simp
  have "(\<Sum>i < N. holds_x nbrs tag p i) = (\<Sum>i < N. balance_x (?d i) (p i))"
    "(\<Sum>i < N. holds_y nbrs tag p i) = (\<Sum>i < N. balance_y (?d i) (p i))"
    using swap by (simp_all add: holds_x_def holds_y_def balance_x_def balance_y_def sum.distrib sum_subtractf tot)
  then show ?thesis using bal by simp
qed

definition path_nbrs :: "nat \<Rightarrow> nat set" where
  "path_nbrs i = (if i = 1 then {0, 2} else {1})"

definition path_tag :: "nat \<Rightarrow> tag_id" where
  "path_tag i = (if i = 0 then ''pa'' else if i = 1 then ''pb'' else ''pc'')"

lemma path_card: "card (path_nbrs 0) = 1" "card (path_nbrs (Suc 0)) = 2" "card (path_nbrs (Suc (Suc 0))) = 1"
  by (simp_all add: path_nbrs_def)

lemma path_network: "network 3 path_nbrs path_tag"
  by (auto simp: network_def path_nbrs_def path_tag_def inj_on_def numeral_3_eq_3 less_Suc_eq)

text \<open>Three machines in a row, of which the first starts with 1 and has already taken what the second offers: the
  estimates tend to \<open>9 / 28\<close>.\<close>

definition path_handler :: "(rat push_sum_value, rat push_sum_value) handler" where
  "path_handler = \<lparr>nd_transformer = (\<lambda>v. v), nd_tags = [''pb''], nd_values = [(''pb'', (0, 1 / 3, 0))], nd_updated = [0]\<rparr>"

lemma push_sum_conserves_witness:
  "\<exists>p0. ps_process_update path_handler ''pa'' (new_push_sum (0, 0) 1 1) = Inr p0
    \<and> (let p = (\<lambda>i. if i = 0 then p0 else new_push_sum (0, 0) 0 (card (path_nbrs i)))
       in (\<Sum>i < 3. holds_x path_nbrs path_tag p i) / (\<Sum>i < 3. holds_y path_nbrs path_tag p i) = (9 / 28 :: rat))"
proof -
  let ?new = "\<lambda>i :: nat. new_push_sum (0, 0) (if i = 0 then 1 else 0 :: rat) (card (path_nbrs i))"
  obtain p0 where p0: "ps_process_update path_handler ''pa'' (new_push_sum (0, 0) 1 1) = Inr p0"
    "keys (ps_rho_x p0) = [''pb'']" "keys (ps_rho_y p0) = [''pb'']"
    by (simp add: ps_process_update_def path_handler_def get_updated_tags_def deref_tag_def get_data_unsafe_def
        value_at_def ps_update_one_def new_push_sum_def Let_def keys_def)
  define p where "p = (\<lambda>i :: nat. if i = 0 then p0 else new_push_sum (0, 0) 0 (card (path_nbrs i)))"
  have run: "rfold (\<lambda>h. ps_process_update h (path_tag i)) (if i = 0 then [path_handler] else []) (?new i) = Inr (p i)" for i
    using p0(1) by (simp add: p_def path_tag_def path_nbrs_def)
  have "set (keys (ps_rho_x (p i))) \<subseteq> path_tag ` path_nbrs i \<and> set (keys (ps_rho_y (p i))) \<subseteq> path_tag ` path_nbrs i" for i
    using p0 by (auto simp: p_def path_tag_def path_nbrs_def new_push_sum_def keys_def)
  from push_sum_conserves [OF path_network run this]
  have sums: "(\<Sum>i < 3. holds_x path_nbrs path_tag p i) = 3 / 2" "(\<Sum>i < 3. holds_y path_nbrs path_tag p i) = 14 / 3"
    by (simp_all add: path_card numeral_3_eq_3 lessThan_Suc)
  have "(\<Sum>i < 3. holds_x path_nbrs path_tag p i) / (\<Sum>i < 3. holds_y path_nbrs path_tag p i) = (9 / 28 :: rat)"
    unfolding sums by simp
  with p0(1) show ?thesis unfolding p_def Let_def by blast
qed

section \<open>Push Flow\<close>

record 'a push_flow =
  pf_val :: 'a
  pf_weight :: 'a
  pf_num :: 'a
  pf_denom :: 'a
  pf_f_num :: "(tag_id \<times> 'a) list"
  pf_f_denom :: "(tag_id \<times> 'a) list"
  pf_count :: "64 word"

type_synonym 'a push_flow_value = "(tag_id \<times> 'a) list \<times> (tag_id \<times> 'a) list"

definition new_push_flow :: "'a \<Rightarrow> 'a \<Rightarrow> 'a push_flow" where
  "new_push_flow my_val my_weight =
     \<lparr>pf_val = my_val, pf_weight = my_weight, pf_num = my_val, pf_denom = my_weight, pf_f_num = [], pf_f_denom = [],
      pf_count = 0\<rparr>"

definition pf_get_init_publish_values :: "'a push_flow \<Rightarrow> 'a push_flow_value" where
  "pf_get_init_publish_values p = (pf_f_num p, pf_f_denom p)"

definition pf_update_one :: "tag_id \<Rightarrow> tag_id \<Rightarrow> 'a push_flow_value \<Rightarrow> 'a :: field push_flow \<Rightarrow> 'a push_flow" where
  "pf_update_one my_id tag = (\<lambda>(nbr_num, nbr_denom) p.
     p\<lparr>pf_f_num := AList.update tag (- entry my_id nbr_num) (pf_f_num p),
       pf_f_denom := AList.update tag (- entry my_id nbr_denom) (pf_f_denom p), pf_count := pf_count p + 1\<rparr>)"

definition pf_current :: "'a :: field push_flow \<Rightarrow> 'a push_flow" where
  "pf_current p = p\<lparr>pf_num := fold (\<lambda>(_, f) c. c - f) (pf_f_num p) (pf_weight p * pf_val p),
                    pf_denom := fold (\<lambda>(_, f) c. c - f) (pf_f_denom p) (pf_weight p)\<rparr>"

definition pf_process_update :: "('b, 'a push_flow_value) handler \<Rightarrow> tag_id \<Rightarrow> 'a :: field push_flow \<Rightarrow> 'a push_flow res" where
  "pf_process_update h my_tag p =
     rbind (get_updated_tags h) (\<lambda>tags.
     rbind (rfold (\<lambda>tag p. if tag = my_tag then Inr p
                      else rbind (get_data_unsafe tag h) (\<lambda>v. Inr (pf_update_one my_tag tag v p))) tags p)
       (\<lambda>p1. Inr (pf_current p1)))"

text \<open>\<^verbatim>\<open>update_fij_to_send\<close> for all neighbours, and for the one with the number that was drawn.\<close>

definition pf_update_all :: "'a :: field push_flow \<Rightarrow> 'a push_flow" where
  "pf_update_all p =
     (if pf_f_num p = [] then p
      else p\<lparr>pf_f_num := map (\<lambda>(k, f). (k, f + pf_num p / of_nat (1 + length (pf_f_num p)))) (pf_f_num p),
             pf_f_denom := map (\<lambda>(k, f). (k, f + pf_denom p / of_nat (1 + length (pf_f_denom p)))) (pf_f_denom p)\<rparr>)"

definition pf_update_original :: "nat \<Rightarrow> 'a :: field push_flow \<Rightarrow> 'a push_flow" where
  "pf_update_original drawn p =
     (if pf_f_num p = [] then p
      else let k = fst (pf_f_num p ! drawn)
           in p\<lparr>pf_f_num := AList.update k (entry k (pf_f_num p) + pf_num p / 2) (pf_f_num p),
                pf_f_denom := AList.update k (entry k (pf_f_denom p) + pf_denom p / 2) (pf_f_denom p)\<rparr>)"

definition pf_prepare_for_publication :: "'a :: field push_flow \<Rightarrow> 'a push_flow_value \<times> 'a push_flow" where
  "pf_prepare_for_publication p = (let p' = pf_update_all p in ((pf_f_num p', pf_f_denom p'), p'))"

definition pf_get_value :: "'a :: field push_flow \<Rightarrow> 'a" where
  "pf_get_value p = pf_num p / pf_denom p"

definition pf_set_value :: "'a \<Rightarrow> 'a push_flow \<Rightarrow> 'a push_flow" where
  "pf_set_value v p = p\<lparr>pf_val := v\<rparr>"

definition pf_set_weight :: "'a \<Rightarrow> 'a push_flow \<Rightarrow> 'a push_flow" where
  "pf_set_weight w p = p\<lparr>pf_weight := w\<rparr>"

lemma fold_minus_total: "fold (\<lambda>(_, f) c. c - f) m c = c - total m" for m :: "(tag_id \<times> 'a :: field) list"
  by (induction m arbitrary: c) (auto simp: total_def)

text \<open>What the loop over the updated tags leaves: the flow to each of them is the opposite of what it has published
  as its flow to this machine.\<close>

lemma entry_update: "entry k (AList.update j v m) = (if k = j then v else entry k m)"
  by (simp add: entry_def update_conv')

lemma entry_shift: "k \<in> set (keys m) \<Longrightarrow> entry k (map (\<lambda>(k, f). (k, f + a)) m) = entry k m + (a :: 'a :: field)"
  by (induction m) (auto simp: entry_def)

lemma pf_loop:
  assumes "rfold (\<lambda>tag p. if tag = my_tag then Inr p
                      else rbind (get_data_unsafe tag h) (\<lambda>v. Inr (pf_update_one my_tag tag v p))) ts q = Inr u"
    and "my_tag \<notin> set ts" "\<And>t. t \<in> set ts \<Longrightarrow> get_data_unsafe t h = Inr (v t)"
  shows "pf_val u = pf_val q \<and> pf_weight u = pf_weight q
    \<and> (\<forall>t \<in> set ts. entry t (pf_f_num u) = - entry my_tag (fst (v t)) \<and> entry t (pf_f_denom u) = - entry my_tag (snd (v t)))
    \<and> (\<forall>t. t \<notin> set ts \<longrightarrow> entry t (pf_f_num u) = entry t (pf_f_num q) \<and> entry t (pf_f_denom u) = entry t (pf_f_denom q))"
  using assms
proof (induction ts arbitrary: q)
  case (Cons t ts)
  have "rfold (\<lambda>tag p. if tag = my_tag then Inr p
                      else rbind (get_data_unsafe tag h) (\<lambda>v. Inr (pf_update_one my_tag tag v p))) ts (pf_update_one my_tag t (v t) q) = Inr u"
    using Cons.prems by (auto simp: rbind_eq_Inr_iff split: if_split_asm)
  from Cons.IH [OF this] Cons.prems(2,3) show ?case
    by (cases "t \<in> set ts") (auto simp: pf_update_one_def entry_update split: prod.splits)
qed simp

text \<open>The equations that hold where a round changes nothing determine what every machine has.\<close>

definition connected :: "nat \<Rightarrow> (nat \<Rightarrow> nat set) \<Rightarrow> bool" where
  "connected N nbrs \<longleftrightarrow> (\<forall>i < N. (0, i) \<in> {(j, k). j < N \<and> k \<in> nbrs j}\<^sup>*)"

definition share :: "nat \<Rightarrow> (nat \<Rightarrow> nat set) \<Rightarrow> 'a :: field_char_0 \<Rightarrow> 'a" where
  "share N nbrs whole = whole / (of_nat N + (\<Sum>i < N. of_nat (card (nbrs i))) / 2)"

lemma share_divisor: "0 < N \<Longrightarrow> (of_nat N + (\<Sum>i < N. of_nat (card (nbrs i))) / 2 :: 'a :: field_char_0) \<noteq> 0"
proof -
  assume n: "0 < N"
  have e: "(of_nat N + (\<Sum>i < N. of_nat (card (nbrs i))) / 2 :: 'a) = of_nat (2 * N + (\<Sum>i < N. card (nbrs i))) / 2"
    by (simp add: add_divide_distrib)
  have "(of_nat (2 * N + (\<Sum>i < N. card (nbrs i))) :: 'a) \<noteq> 0"
    using n by (simp only: of_nat_eq_0_iff)
  then show ?thesis by (simp only: e divide_eq_0_iff) simp
qed

lemma steady_flow:
  fixes c w :: "nat \<Rightarrow> 'a :: field_char_0" and f :: "nat \<Rightarrow> nat \<Rightarrow> 'a"
  assumes net: "network N nbrs tag" "connected N nbrs"
    and c: "\<And>i. i < N \<Longrightarrow> c i = w i - (\<Sum>k \<in> nbrs i. f i k)"
    and f: "\<And>i k. i < N \<Longrightarrow> k \<in> nbrs i \<Longrightarrow> f i k = - (f k i + c k / (1 + of_nat (card (nbrs k))))"
    and i: "i < N"
  shows "c i = (1 + of_nat (card (nbrs i))) * share N nbrs (\<Sum>i < N. w i)"
proof -
  define d :: "nat \<Rightarrow> 'a" where "d = (\<lambda>i. of_nat (card (nbrs i)))"
  define g where "g = (\<lambda>i. c i / (1 + d i))"
  have pos: "1 + d j \<noteq> 0" for j
  proof -
    have "1 + d j = of_nat (Suc (card (nbrs j)))" by (simp add: d_def)
    then show ?thesis by (simp only: of_nat_eq_0_iff)
  qed
  have flow: "f i k = - (f k i + g k)" if "i < N" "k \<in> nbrs i" for i k
    using f [OF that] by (simp add: g_def d_def)
  have same: "g k = g i" if "i < N" "k \<in> nbrs i" for i k
  proof -
    have "k < N" "i \<in> nbrs k" using that net(1) by (auto simp: network_def)
    from flow [OF that] flow [OF this] show ?thesis by (simp add: algebra_simps)
  qed
  have all: "g j = g 0" if "j < N" for j
  proof -
    have "(0, j) \<in> {(j, k). j < N \<and> k \<in> nbrs j}\<^sup>*" using net(2) that by (simp add: connected_def)
    then show ?thesis by (induction rule: rtrancl_induct) (auto dest: same)
  qed
  define D where "D = (\<Sum>i < N. d i)"
  have "2 * (\<Sum>i < N. \<Sum>k \<in> nbrs i. f i k) = (\<Sum>i < N. \<Sum>k \<in> nbrs i. f i k + f k i)"
    using sum_neighbors_swap [OF net(1), of f] by (simp add: sum.distrib)
  also have "\<dots> = (\<Sum>i < N. \<Sum>k \<in> nbrs i. - g 0)"
  proof (intro sum.cong refl)
    fix i k assume "i \<in> {..<N}" "k \<in> nbrs i"
    then have "f i k + f k i = - g k" "k < N" using flow [of i k] net(1) by (auto simp: network_def)
    then show "f i k + f k i = - g 0" using all [of k] by simp
  qed
  also have "\<dots> = - (D * g 0)" by (simp add: D_def d_def sum_distrib_right sum_negf)
  finally have flows: "(\<Sum>i < N. \<Sum>k \<in> nbrs i. f i k) = - (D * g 0) / 2" by (simp add: field_simps)
  have ci: "c j = (1 + d j) * g 0" if "j < N" for j
    using all [OF that] pos [of j] by (simp add: g_def field_simps)
  have "(\<Sum>i < N. c i) = (\<Sum>i < N. w i) + D * g 0 / 2"
    using c flows by (simp add: sum_subtractf)
  moreover have "(\<Sum>i < N. c i) = (of_nat N + D) * g 0"
    by (simp add: ci sum_distrib_right [symmetric] sum.distrib D_def)
  ultimately have g0: "(of_nat N + D / 2) * g 0 = (\<Sum>i < N. w i)" by (simp add: field_simps)
  have "(of_nat N + D / 2 :: 'a) \<noteq> 0" unfolding D_def d_def by (rule share_divisor) (use i in simp)
  then have "g 0 = (\<Sum>i < N. w i) / (of_nat N + D / 2)" using g0 by (simp add: field_simps)
  with ci [OF i] show ?thesis by (simp add: D_def d_def share_def)
qed

text \<open>C17: Push Flow settles only on the weighted average. Take the machines of a connected network; each adds its
  share to its flows and publishes them (\<open>pf_prepare_for_publication\<close>), and then processes what all its neighbours
  have published. If such a round changes nothing but the counters, then every machine with \<open>d\<close> neighbours has
  \<open>1 + d\<close> shares of the sum of the values times their weights as its numerator, and as many of the sum of the
  weights as its denominator, where a share is one of as many as there are machines and connections together; so the
  value that it reports is the sum of the values times their weights, divided by the sum of the weights.\<close>

theorem push_flow_average:
  fixes p :: "nat \<Rightarrow> 'a :: field_char_0 push_flow"
  assumes "network N nbrs tag" "connected N nbrs"
    and "\<And>i. i < N \<Longrightarrow> distinct (keys (pf_f_num (p i))) \<and> set (keys (pf_f_num (p i))) = tag ` nbrs i"
    and "\<And>i. i < N \<Longrightarrow> distinct (keys (pf_f_denom (p i))) \<and> set (keys (pf_f_denom (p i))) = tag ` nbrs i"
    and "\<And>i. i < N \<Longrightarrow> get_updated_tags (h i) = Inr (tags i) \<and> set (tags i) = tag ` nbrs i"
    and "\<And>i k. i < N \<Longrightarrow> k \<in> nbrs i \<Longrightarrow> get_data_unsafe (tag k) (h i) = Inr (fst (pf_prepare_for_publication (p k)))"
    and "\<And>i. i < N \<Longrightarrow> pf_process_update (h i) (tag i) (snd (pf_prepare_for_publication (p i)))
           = Inr ((p i)\<lparr>pf_count := counter i\<rparr>)"
    and "i < N"
  shows "pf_num (p i) = (1 + of_nat (card (nbrs i))) * share N nbrs (\<Sum>i < N. pf_weight (p i) * pf_val (p i))
    \<and> pf_denom (p i) = (1 + of_nat (card (nbrs i))) * share N nbrs (\<Sum>i < N. pf_weight (p i))
    \<and> pf_get_value (p i) = (\<Sum>i < N. pf_weight (p i) * pf_val (p i)) / (\<Sum>i < N. pf_weight (p i))"
proof -
  let ?n = "\<lambda>i k. entry (tag k) (pf_f_num (p i))" and ?d = "\<lambda>i k. entry (tag k) (pf_f_denom (p i))"
  have len: "length (pf_f_num (p j)) = card (nbrs j)" "length (pf_f_denom (p j)) = card (nbrs j)" if "j < N" for j
    using assms(3,4) [OF that] network_finite [OF assms(1) that] by (metis card_image distinct_card keys_def length_map)+
  have sent: "entry (tag j) (fst (fst (pf_prepare_for_publication (p k)))) = ?n k j + pf_num (p k) / (1 + of_nat (card (nbrs k)))"
    "entry (tag j) (snd (fst (pf_prepare_for_publication (p k)))) = ?d k j + pf_denom (p k) / (1 + of_nat (card (nbrs k)))"
    if jk: "k < N" "j \<in> nbrs k" for j k
  proof -
    have "tag j \<in> set (keys (pf_f_num (p k)))" "tag j \<in> set (keys (pf_f_denom (p k)))"
      using assms(3,4) [OF jk(1)] jk(2) by auto
    then show "entry (tag j) (fst (fst (pf_prepare_for_publication (p k)))) = ?n k j + pf_num (p k) / (1 + of_nat (card (nbrs k)))"
      "entry (tag j) (snd (fst (pf_prepare_for_publication (p k)))) = ?d k j + pf_denom (p k) / (1 + of_nat (card (nbrs k)))"
      using len [OF jk(1)] by (auto simp: pf_prepare_for_publication_def pf_update_all_def Let_def entry_shift keys_def)
  qed
  have round: "pf_num (p j) = pf_weight (p j) * pf_val (p j) - (\<Sum>k \<in> nbrs j. ?n j k)
      \<and> pf_denom (p j) = pf_weight (p j) - (\<Sum>k \<in> nbrs j. ?d j k)
      \<and> (\<forall>k \<in> nbrs j. ?n j k = - (?n k j + pf_num (p k) / (1 + of_nat (card (nbrs k))))
                    \<and> ?d j k = - (?d k j + pf_denom (p k) / (1 + of_nat (card (nbrs k)))))" if j: "j < N" for j
  proof -
    obtain u where u: "rfold (\<lambda>t p. if t = tag j then Inr p else rbind (get_data_unsafe t (h j)) (\<lambda>v. Inr (pf_update_one (tag j) t v p)))
          (tags j) (snd (pf_prepare_for_publication (p j))) = Inr u" "pf_current u = (p j)\<lparr>pf_count := counter j\<rparr>"
      using assms(7) [OF j] assms(5) [OF j] by (auto simp: pf_process_update_def rbind_eq_Inr_iff)
    define sender where "sender t = inv_into {..<N} tag t" for t
    have inv: "sender (tag k) = k" if "k < N" for k
      using assms(1) that unfolding network_def sender_def by (auto intro!: inv_into_f_f)
    have nb: "k < N" "j \<in> nbrs k" if "k \<in> nbrs j" for k using assms(1) j that by (auto simp: network_def)
    have my: "tag j \<notin> set (tags j)"
      using assms(1,5) j by (auto simp: network_def dest!: inj_onD [of tag "{..<N}"])
    have "get_data_unsafe t (h j) = Inr (fst (pf_prepare_for_publication (p (sender t))))" if "t \<in> set (tags j)" for t
      using assms(5,6) [OF j] that nb inv by auto
    from pf_loop [OF u(1) my this] have l: "pf_val u = pf_val (p j)" "pf_weight u = pf_weight (p j)"
      "\<And>k. k \<in> nbrs j \<Longrightarrow> entry (tag k) (pf_f_num u) = - entry (tag j) (fst (fst (pf_prepare_for_publication (p k))))
         \<and> entry (tag k) (pf_f_denom u) = - entry (tag j) (snd (fst (pf_prepare_for_publication (p k))))"
      using assms(5) [OF j] nb inv by (auto simp: pf_prepare_for_publication_def pf_update_all_def Let_def)
    have eq: "pf_f_num u = pf_f_num (p j)" "pf_f_denom u = pf_f_denom (p j)"
        "pf_num (p j) = fold (\<lambda>(_, f) c. c - f) (pf_f_num u) (pf_weight u * pf_val u)"
        "pf_denom (p j) = fold (\<lambda>(_, f) c. c - f) (pf_f_denom u) (pf_weight u)"
      using u(2) [symmetric] by (simp_all add: pf_current_def)
        (metis push_flow.select_convs push_flow.surjective push_flow.update_convs)+
    have tot: "total (pf_f_num (p j)) = (\<Sum>k \<in> nbrs j. ?n j k)" "total (pf_f_denom (p j)) = (\<Sum>k \<in> nbrs j. ?d j k)"
      using assms(3,4) [OF j] network_finite [OF assms(1) j] by (simp_all add: total_entries del: set_keys)
    show ?thesis using l eq tot sent nb by (auto simp: fold_minus_total)
  qed
  have num: "pf_num (p i) = (1 + of_nat (card (nbrs i))) * share N nbrs (\<Sum>i < N. pf_weight (p i) * pf_val (p i))"
    by (rule steady_flow [OF assms(1,2), where f = ?n]) (use round assms(8) in blast)+
  have denom: "pf_denom (p i) = (1 + of_nat (card (nbrs i))) * share N nbrs (\<Sum>i < N. pf_weight (p i))"
    by (rule steady_flow [OF assms(1,2), where f = ?d]) (use round assms(8) in blast)+
  have "(1 + of_nat (card (nbrs i)) :: 'a) = of_nat (Suc (card (nbrs i)))" by simp
  then have "(1 + of_nat (card (nbrs i)) :: 'a) \<noteq> 0" by (simp only: of_nat_eq_0_iff)
  moreover have "(of_nat N + (\<Sum>i < N. of_nat (card (nbrs i))) / 2 :: 'a) \<noteq> 0"
    by (rule share_divisor) (use assms(8) in simp)
  ultimately show ?thesis using num denom by (simp add: pf_get_value_def share_def)
qed

text \<open>Two machines with the values 1 and 3 that have settled.\<close>

definition pair_nbrs :: "nat \<Rightarrow> nat set" where
  "pair_nbrs i = {1 - i}"

definition pair_tag :: "nat \<Rightarrow> tag_id" where
  "pair_tag i = (if i = 0 then ''pa'' else ''pb'')"

definition pair_flow :: "nat \<Rightarrow> rat push_flow" where
  "pair_flow i = \<lparr>pf_val = (if i = 0 then 1 else 3), pf_weight = 1, pf_num = 8 / 3, pf_denom = 4 / 3,
     pf_f_num = [(pair_tag (1 - i), if i = 0 then - 5 / 3 else 1 / 3)], pf_f_denom = [(pair_tag (1 - i), - 1 / 3)],
     pf_count = 0\<rparr>"

definition pair_handler :: "nat \<Rightarrow> (rat push_flow_value, rat push_flow_value) handler" where
  "pair_handler i = \<lparr>nd_transformer = (\<lambda>v. v), nd_tags = [pair_tag (1 - i)],
     nd_values = [(pair_tag (1 - i), fst (pf_prepare_for_publication (pair_flow (1 - i))))], nd_updated = [0]\<rparr>"

lemma pair_step:
  assumes "i < 2"
  shows "get_updated_tags (pair_handler i) = Inr [pair_tag (1 - i)]"
    and "get_data_unsafe (pair_tag (1 - i)) (pair_handler i) = Inr (fst (pf_prepare_for_publication (pair_flow (1 - i))))"
    and "pf_process_update (pair_handler i) (pair_tag i) (snd (pf_prepare_for_publication (pair_flow i)))
      = Inr ((pair_flow i)\<lparr>pf_count := 1\<rparr>)"
proof -
  have "i = 0 \<or> i = 1" using assms by auto
  then show "get_updated_tags (pair_handler i) = Inr [pair_tag (1 - i)]"
    "get_data_unsafe (pair_tag (1 - i)) (pair_handler i) = Inr (fst (pf_prepare_for_publication (pair_flow (1 - i))))"
    "pf_process_update (pair_handler i) (pair_tag i) (snd (pf_prepare_for_publication (pair_flow i)))
      = Inr ((pair_flow i)\<lparr>pf_count := 1\<rparr>)"
    by (auto simp: pf_process_update_def pair_handler_def get_updated_tags_def deref_tag_def get_data_unsafe_def
        value_at_def pair_flow_def pair_tag_def pf_prepare_for_publication_def pf_update_all_def pf_update_one_def
        pf_current_def entry_def)
qed

lemma push_flow_average_witness: "pf_get_value (pair_flow 0) = 2"
proof -
  have n: "network 2 pair_nbrs pair_tag"
    by (auto simp: network_def pair_nbrs_def pair_tag_def inj_on_def less_2_cases_iff)
  have c: "connected 2 pair_nbrs"
    unfolding connected_def by (auto simp: pair_nbrs_def less_2_cases_iff intro!: r_into_rtrancl)
  have k: "distinct (keys (pf_f_num (pair_flow i))) \<and> set (keys (pf_f_num (pair_flow i))) = pair_tag ` pair_nbrs i"
    "distinct (keys (pf_f_denom (pair_flow i))) \<and> set (keys (pf_f_denom (pair_flow i))) = pair_tag ` pair_nbrs i" for i
    by (simp_all add: pair_flow_def keys_def pair_nbrs_def)
  have u: "get_updated_tags (pair_handler i) = Inr [pair_tag (1 - i)] \<and> set [pair_tag (1 - i)] = pair_tag ` pair_nbrs i"
    if "i < 2" for i using pair_step(1) [OF that] by (simp add: pair_nbrs_def)
  have d: "get_data_unsafe (pair_tag k) (pair_handler i) = Inr (fst (pf_prepare_for_publication (pair_flow k)))"
    if "i < 2" "k \<in> pair_nbrs i" for i k using pair_step(2) [OF that(1)] that(2) by (simp add: pair_nbrs_def)
  from push_flow_average [OF n c k u d pair_step(3), of 0] show ?thesis
    by (simp add: pair_flow_def numeral_2_eq_2 lessThan_Suc)
qed

end
