(* ===== verification/Sky_Processors.thy ===== *)
theory Sky_Processors
  imports Sky_Mean_Processors
begin

text \<open>
  The other processors of \<^verbatim>\<open>skywing_mid\<close>: \<^verbatim>\<open>idempotent_processor.hpp\<close>, \<^verbatim>\<open>quacc_processor.hpp\<close>,
  \<^verbatim>\<open>sum_processor.hpp\<close> and \<^verbatim>\<open>jacobi_processor.hpp\<close>. Where the code computes with \<^verbatim>\<open>double\<close> or \<^verbatim>\<open>BigFloat\<close>
  the model has real numbers.
\<close>

section \<open>Idempotent operations\<close>

text \<open>The state is the current value; the operation is a template argument.\<close>

definition ip_process_update :: "('a \<Rightarrow> 'a \<Rightarrow> 'a) \<Rightarrow> ('b, 'a) handler \<Rightarrow> 'a \<Rightarrow> 'a res" where
  "ip_process_update op h curr_value = rbind (f_accumulate (\<lambda>t. t) op h) (\<lambda>v. Inr (op curr_value v))"

text \<open>\<^verbatim>\<open>SelectionOp\<close>, and with \<^verbatim>\<open>std::greater\<close> and \<^verbatim>\<open>std::less\<close> the processors of maxima and minima.\<close>

definition selection_op :: "('a \<Rightarrow> 'a \<Rightarrow> bool) \<Rightarrow> 'a \<Rightarrow> 'a \<Rightarrow> 'a" where
  "selection_op selector t1 t2 = (if selector t1 t2 then t1 else t2)"

definition max_op :: "'a :: linorder \<Rightarrow> 'a \<Rightarrow> 'a" where "max_op = selection_op (>)"

definition min_op :: "'a :: linorder \<Rightarrow> 'a \<Rightarrow> 'a" where "min_op = selection_op (<)"

lemma max_op_max: "max_op = max"
  by (auto simp: max_op_def selection_op_def fun_eq_iff max_def)

lemma min_op_min: "min_op = min"
  by (auto simp: min_op_def selection_op_def fun_eq_iff min_def)

text \<open>The handler of a machine whose neighbours all have sent their value.\<close>

definition gossip_handler :: "(nat \<Rightarrow> tag_id) \<Rightarrow> (nat \<Rightarrow> 'a) \<Rightarrow> nat list \<Rightarrow> ('a, 'a) handler" where
  "gossip_handler tag v nbrs = \<lparr>nd_transformer = (\<lambda>x. x), nd_tags = map tag nbrs, nd_values = map (\<lambda>k. (tag k, v k)) nbrs,
     nd_updated = [0..<length nbrs]\<rparr>"

text \<open>The machines within a distance.\<close>

fun ball :: "(nat \<Rightarrow> nat list) \<Rightarrow> nat \<Rightarrow> nat \<Rightarrow> nat set" where
  "ball nbrs 0 i = {i}"
| "ball nbrs (Suc n) i = ball nbrs n i \<union> (\<Union>k \<in> set (nbrs i). ball nbrs n k)"

lemma ball_finite: "finite (ball nbrs n i)" and ball_self: "i \<in> ball nbrs n i"
  by (induction n arbitrary: i) auto

lemma foldl_max: "foldl max x xs = Max (insert x (set xs))" for x :: "'a :: linorder"
proof (induction xs arbitrary: x)
  case (Cons y ys)
  then show ?case by (cases "ys = []") (auto simp: insert_commute max.assoc)
qed simp

lemma present_gossip:
  assumes "inj_on tag (set nbrs)"
  shows "map (f \<circ> snd) (present (gossip_handler tag v nbrs)) = map (\<lambda>k. f (v k)) nbrs"
proof -
  have m: "map_of (map (\<lambda>k. (tag k, v k)) ks) (tag k) = Some (v k)" if "k \<in> set ks" "inj_on tag (set ks)" for k ks
    using that by (induction ks) (auto simp: inj_on_def)
  have "filter (\<lambda>t. has_key t (map (\<lambda>k. (tag k, v k)) nbrs)) (map tag nbrs) = map tag nbrs"
    by (auto simp: filter_id_conv has_key_iff image_image)
  then show ?thesis using m [of _ nbrs] assms by (simp add: present_def gossip_handler_def)
qed

lemma max_gossip_step:
  fixes v :: "nat \<Rightarrow> 'a :: linorder"
  assumes "inj_on tag (set nbrs)" "nbrs \<noteq> []"
  shows "ip_process_update max_op (gossip_handler tag v nbrs) c = Inr (Max (insert c (v ` set nbrs)))"
proof -
  obtain k ks where n: "nbrs = k # ks" using assms(2) by (cases nbrs) auto
  have "f_accumulate (\<lambda>t. t) max (gossip_handler tag v nbrs) = Inr (foldl max (v k) (map v ks))"
    unfolding f_accumulate_def f_accumulate_present
    using present_gossip [OF assms(1), of "\<lambda>x. nd_transformer (gossip_handler tag v nbrs) x" v]
    by (simp add: n) (simp add: gossip_handler_def)
  also have "\<dots> = Inr (Max (v ` set nbrs))" by (simp add: foldl_max n)
  finally show ?thesis using assms(2) by (simp add: ip_process_update_def max_op_max)
qed

lemma Max_ball_Suc:
  fixes w :: "nat \<Rightarrow> 'a :: linorder"
  shows "Max (insert (Max (w ` ball nbrs n i)) ((\<lambda>k. Max (w ` ball nbrs n k)) ` set (nbrs i))) = Max (w ` ball nbrs (Suc n) i)"
proof (rule antisym)
  have ne: "ball nbrs m k \<noteq> {}" for m k using ball_self [of k nbrs m] by blast
  have m: "Max (w ` ball nbrs n k) \<le> Max (w ` ball nbrs (Suc n) i)" if "k = i \<or> k \<in> set (nbrs i)" for k
    using that ball_finite [of nbrs "Suc n" i] ne by (intro Max_mono) auto
  then show "Max (insert (Max (w ` ball nbrs n i)) ((\<lambda>k. Max (w ` ball nbrs n k)) ` set (nbrs i))) \<le> Max (w ` ball nbrs (Suc n) i)"
    by (subst Max_le_iff) auto
  show "Max (w ` ball nbrs (Suc n) i) \<le> Max (insert (Max (w ` ball nbrs n i)) ((\<lambda>k. Max (w ` ball nbrs n k)) ` set (nbrs i)))"
  proof (rule Max.boundedI)
    fix x
    assume "x \<in> w ` ball nbrs (Suc n) i"
    then obtain k j where "k = i \<or> k \<in> set (nbrs i)" "j \<in> ball nbrs n k" "x = w j" by auto
    then have "x \<le> Max (w ` ball nbrs n k)"
      "Max (w ` ball nbrs n k) \<in> insert (Max (w ` ball nbrs n i)) ((\<lambda>k. Max (w ` ball nbrs n k)) ` set (nbrs i))"
      using ball_finite by (auto intro: Max_ge)
    then show "x \<le> Max (insert (Max (w ` ball nbrs n i)) ((\<lambda>k. Max (w ` ball nbrs n k)) ` set (nbrs i)))"
      by (meson Max_ge finite_imageI finite_insert finite_set order_trans)
  qed (use ball_finite ne in auto)
qed

lemma gossip_ball:
  fixes v :: "nat \<Rightarrow> nat \<Rightarrow> 'a :: linorder"
  assumes "\<And>i. i < N \<Longrightarrow> nbrs i \<noteq> [] \<and> set (nbrs i) \<subseteq> {..<N}" "inj_on tag {..<N}"
    and "\<And>n i. i < N \<Longrightarrow> ip_process_update max_op (gossip_handler tag (v n) (nbrs i)) (v n i) = Inr (v (Suc n) i)"
    and "i < N"
  shows "v n i = Max (v 0 ` ball nbrs n i)"
  using assms(4)
proof (induction n arbitrary: i)
  case (Suc n)
  have n: "nbrs i \<noteq> []" "set (nbrs i) \<subseteq> {..<N}" using assms(1) Suc.prems by auto
  then have "inj_on tag (set (nbrs i))" using assms(2) by (auto intro: inj_on_subset)
  from max_gossip_step [OF this n(1), of "v n" "v n i"] assms(3) [OF Suc.prems, of n]
  have s: "v (Suc n) i = Max (insert (v n i) (v n ` set (nbrs i)))" by simp
  have "v n ` set (nbrs i) = (\<lambda>k. Max (v 0 ` ball nbrs n k)) ` set (nbrs i)" using Suc.IH n(2) by (intro image_cong) auto
  then show ?case unfolding s using Suc.IH [OF Suc.prems] Max_ball_Suc [of "v 0" nbrs n i] by simp
qed simp

text \<open>Maxima spread one step per round: when all machines process all their neighbours' values round by round, each
  has after \<open>n\<close> rounds the greatest starting value within distance \<open>n\<close>, and so the greatest of all once
  that covers the network; it never changes afterwards.\<close>

theorem max_gossip_rounds:
  fixes v :: "nat \<Rightarrow> nat \<Rightarrow> 'a :: linorder"
  assumes "\<And>i. i < N \<Longrightarrow> nbrs i \<noteq> [] \<and> set (nbrs i) \<subseteq> {..<N}" "inj_on tag {..<N}"
    and "\<And>n i. i < N \<Longrightarrow> ip_process_update max_op (gossip_handler tag (v n) (nbrs i)) (v n i) = Inr (v (Suc n) i)"
    and "i < N"
  shows "v n i = Max (v 0 ` ball nbrs n i) \<and> (ball nbrs n i = {..<N} \<longrightarrow> v n i = Max (v 0 ` {..<N}))"
  using gossip_ball [where N = N and nbrs = nbrs and tag = tag and v = v and n = n and i = i, OF assms] by auto

definition ring_values :: "nat \<Rightarrow> nat \<Rightarrow> nat" where
  "ring_values n i = (if n = 0 then i else if i = 0 \<or> n \<ge> 2 then (if n = 1 \<and> i = 0 then 1 else 2) else 2)"

text \<open>Three machines in a row with the values 0, 1, 2.\<close>

definition row_nbrs :: "nat \<Rightarrow> nat list" where
  "row_nbrs i = (if i = 1 then [0, 2] else [1])"

lemma max_gossip_rounds_witness: "ring_values 2 0 = Max (ring_values 0 ` {..<3})"
proof -
  have t: "inj_on path_tag {..<3}" using path_network by (simp add: network_def)
  have n: "row_nbrs i \<noteq> [] \<and> set (row_nbrs i) \<subseteq> {..<3}" for i by (simp add: row_nbrs_def)
  have "ip_process_update max_op (gossip_handler path_tag (ring_values n) (row_nbrs i)) (ring_values n i) = Inr (ring_values (Suc n) i)"
    if "i < 3" for n i
  proof -
    have "inj_on path_tag (set (row_nbrs i))" using t n by (rule inj_on_subset [OF _ conjunct2])
    moreover have "i = 0 \<or> i = 1 \<or> i = 2" using that by auto
    ultimately show ?thesis using n
      by (subst max_gossip_step) (auto simp: row_nbrs_def ring_values_def)
  qed
  from max_gossip_rounds [where v = ring_values and i = 0 and n = 2, OF n t this]
  have "ball row_nbrs 2 0 = {..<3} \<longrightarrow> ring_values 2 0 = Max (ring_values 0 ` {..<3})" by simp
  moreover have "ball row_nbrs 2 0 = {..<3}" by (auto simp: numeral_2_eq_2 row_nbrs_def)
  ultimately show ?thesis by blast
qed

section \<open>Counting\<close>

text \<open>\<^verbatim>\<open>QUACCProcessor\<close>: a minimum and a mean, of the value drawn and of its negative exponential.\<close>

record quacc =
  qu_min :: real
  qu_mean :: "real push_flow"

definition new_quacc :: "real \<Rightarrow> real \<Rightarrow> quacc" where
  "new_quacc my_val my_weight = \<lparr>qu_min = my_val, qu_mean = new_push_flow (exp (- my_val)) my_weight\<rparr>"

type_synonym quacc_value = "real \<times> real push_flow_value"

definition qu_get_init_publish_values :: "quacc \<Rightarrow> quacc_value" where
  "qu_get_init_publish_values q = (qu_min q, pf_get_init_publish_values (qu_mean q))"

definition qu_process_update :: "('b, quacc_value) handler \<Rightarrow> tag_id \<Rightarrow> quacc \<Rightarrow> quacc res" where
  "qu_process_update h my_tag q =
     rbind (ip_process_update min_op (get_sub_handler fst h) (qu_min q)) (\<lambda>m.
     rbind (pf_process_update (get_sub_handler snd h) my_tag (qu_mean q)) (\<lambda>p.
       Inr (q\<lparr>qu_min := m, qu_mean := p\<rparr>)))"

definition qu_prepare_for_publication :: "quacc \<Rightarrow> quacc_value \<times> quacc" where
  "qu_prepare_for_publication q =
     (let (v, p) = pf_prepare_for_publication (qu_mean q) in ((qu_min q, v), q\<lparr>qu_mean := p\<rparr>))"

definition get_raw_count :: "quacc \<Rightarrow> real" where
  "get_raw_count q = exp (- (ln (pf_get_value (qu_mean q)) + qu_min q))"

definition get_count :: "quacc \<Rightarrow> nat" where
  "get_count q = (let count = nat (round (get_raw_count q)) in if count = 0 then 1 else count)"

text \<open>\<^verbatim>\<open>SumProcessor\<close>: a mean and a count, template arguments.\<close>

definition sum_process_update :: "(('b, 'm) handler \<Rightarrow> tag_id \<Rightarrow> 'p \<Rightarrow> 'p res) \<Rightarrow> (('b, 'c) handler \<Rightarrow> tag_id \<Rightarrow> 'q \<Rightarrow> 'q res)
    \<Rightarrow> ('b, 'm \<times> 'c) handler \<Rightarrow> tag_id \<Rightarrow> 'p \<times> 'q \<Rightarrow> ('p \<times> 'q) res" where
  "sum_process_update mean_process count_process h my_tag = (\<lambda>(mean, count).
     rbind (mean_process (get_sub_handler fst h) my_tag mean) (\<lambda>mean'.
     rbind (count_process (get_sub_handler snd h) my_tag count) (\<lambda>count'. Inr (mean', count'))))"

definition sum_prepare_for_publication :: "('p \<Rightarrow> 'm \<times> 'p) \<Rightarrow> ('q \<Rightarrow> 'c \<times> 'q) \<Rightarrow> 'p \<times> 'q \<Rightarrow> ('m \<times> 'c) \<times> 'p \<times> 'q" where
  "sum_prepare_for_publication mean_prepare count_prepare = (\<lambda>(mean, count).
     let (m, mean') = mean_prepare mean; (c, count') = count_prepare count in ((m, c), mean', count'))"

definition sum_get_value :: "('p \<Rightarrow> real) \<Rightarrow> 'p \<times> quacc \<Rightarrow> real" where
  "sum_get_value mean_value = (\<lambda>(mean, count). of_nat (get_count count) * mean_value mean)"

text \<open>The count is exact when the minimum and the mean are and the values drawn are far enough apart: if those of
  the other machines exceed the least by so much that together they weigh less than \<open>1 / (2 n)\<close>, then the
  count is the number of machines, and in any case the raw count is no greater.\<close>

theorem quacc_counts:
  assumes "0 < n" "m < n" "\<And>i. i < n \<Longrightarrow> x m \<le> x i"
    and "qu_min q = x m" "pf_get_value (qu_mean q) = (\<Sum>i < n. exp (- x i)) / of_nat n"
  shows "get_raw_count q \<le> of_nat n
    \<and> ((\<Sum>i \<in> {..<n} - {m}. exp (x m - x i)) < 1 / (2 * of_nat n) \<longrightarrow> get_count q = n)"
proof -
  let ?e = "\<Sum>i \<in> {..<n} - {m}. exp (x m - x i)"
  have S: "(\<Sum>i < n. exp (- x i)) = exp (- x m) * (1 + ?e)"
  proof -
    have "(\<Sum>i < n. exp (- x i)) = exp (- x m) * (\<Sum>i < n. exp (x m - x i))"
      by (simp add: sum_distrib_left exp_add [symmetric])
    also have "(\<Sum>i < n. exp (x m - x i)) = 1 + ?e" using assms(2) by (subst sum.remove [of _ m]) auto
    finally show ?thesis .
  qed
  have e: "0 \<le> ?e" by (intro sum_nonneg) auto
  have "0 < exp (- x m) * (1 + ?e) / of_nat n" using assms(1) e by simp
  then have raw: "get_raw_count q = of_nat n / (1 + ?e)"
    unfolding get_raw_count_def assms(4,5) S minus_add exp_add exp_minus [of "ln _"]
    by (simp add: exp_minus field_simps)
  have n: "(0 :: real) < of_nat n" using assms(1) by simp
  have le: "get_raw_count q \<le> of_nat n"
    unfolding raw using e n by (simp add: divide_le_eq mult_le_cancel_left1)
  moreover have "get_count q = n" if "?e < 1 / (2 * of_nat n)"
  proof -
    have "of_nat n * ?e < 1 / 2" using that n by (simp add: field_simps)
    moreover have "of_nat n - of_nat n * ?e \<le> get_raw_count q"
    proof -
      have "(of_nat n - of_nat n * ?e) * (1 + ?e) = of_nat n - of_nat n * ?e * ?e" by (simp add: algebra_simps)
      also have "\<dots> \<le> of_nat n" using n e by simp
      finally show ?thesis unfolding raw using e by (simp add: pos_le_divide_eq)
    qed
    ultimately have "round (get_raw_count q) = int n" using le by (intro round_unique) auto
    then show ?thesis using assms(1) by (simp add: get_count_def)
  qed
  ultimately show ?thesis by blast
qed

lemma quacc_counts_witness: "get_count \<lparr>qu_min = 0, qu_mean = new_push_flow ((1 + exp (- 4)) / 2) 1\<rparr> = 2"
proof -
  let ?q = "\<lparr>qu_min = 0, qu_mean = new_push_flow ((1 + exp (- 4)) / 2) 1\<rparr>" and ?x = "\<lambda>i :: nat. if i = 0 then 0 else 4 :: real"
  have "(5 :: real) \<le> exp 4" using exp_ge_add_one_self [of 4] by simp
  then have "exp (- 4 :: real) \<le> 1 / 5" by (simp add: exp_minus field_simps)
  moreover have "{..<2} - {0 :: nat} = {1}" by auto
  moreover have "pf_get_value (qu_mean ?q) = (\<Sum>i < 2. exp (- ?x i)) / of_nat 2"
    by (simp add: pf_get_value_def new_push_flow_def numeral_2_eq_2)
  ultimately show ?thesis using quacc_counts [of 2 0 ?x ?q] by simp
qed

section \<open>Jacobi\<close>

text \<open>Indexing a vector, which is undefined behind its end.\<close>

definition vec_at :: "'a list \<Rightarrow> nat \<Rightarrow> 'a res" where
  "vec_at xs i = (if i < length xs then Inr (xs ! i) else Inl Undefined_Behaviour)"

record jacobi =
  ja_A :: "real list list"
  ja_b :: "real list"
  ja_rows :: "nat list"
  ja_x :: "real list"

text \<open>The new value of one row.\<close>

definition jacobi_hold :: "jacobi \<Rightarrow> nat \<Rightarrow> real list \<Rightarrow> real res" where
  "jacobi_hold J i x =
     rbind (vec_at (ja_A J) 0) (\<lambda>row0. rbind (vec_at (ja_A J) i) (\<lambda>row. rbind (vec_at (ja_rows J) i) (\<lambda>r.
       rfold (\<lambda>j hold. if j \<noteq> r then rbind (vec_at row j) (\<lambda>a. rbind (vec_at x j) (\<lambda>xj. Inr (hold + a * xj))) else Inr hold)
         [0..<length row0] 0)))"

definition jacobi_row :: "jacobi \<Rightarrow> nat \<Rightarrow> real list \<Rightarrow> real list res" where
  "jacobi_row J i x =
     rbind (jacobi_hold J i x) (\<lambda>hold. rbind (vec_at (ja_b J) i) (\<lambda>b. rbind (vec_at (ja_A J) i) (\<lambda>row.
     rbind (vec_at (ja_rows J) i) (\<lambda>r. rbind (vec_at row r) (\<lambda>d. rbind (vec_at x r) (\<lambda>_.
       Inr (x[r := (b - hold) / d])))))))"

definition jacobi_computation :: "jacobi \<Rightarrow> jacobi res" where
  "jacobi_computation J =
     rbind (rfold (jacobi_row J) [0..<length (ja_rows J)] (ja_x J)) (\<lambda>x. Inr (J\<lparr>ja_x := x\<rparr>))"

definition new_jacobi :: "real list list \<Rightarrow> real list \<Rightarrow> nat list \<Rightarrow> jacobi res" where
  "new_jacobi A b row_indices =
     rbind (vec_at A 0) (\<lambda>row0.
       jacobi_computation \<lparr>ja_A = A, ja_b = b, ja_rows = row_indices, ja_x = replicate (length row0) 0\<rparr>)"

definition ja_get_init_publish_values :: "jacobi \<Rightarrow> real list" where
  "ja_get_init_publish_values J = replicate (2 * length (ja_rows J)) 0"

text \<open>One pair of a neighbour's message. The conversion of a negative number to \<^verbatim>\<open>size_t\<close> is undefined.\<close>

definition ja_use_pair :: "real list \<Rightarrow> nat \<Rightarrow> jacobi \<Rightarrow> jacobi res" where
  "ja_use_pair nbr_value k J =
     (if \<exists>r \<in> set (ja_rows J). nbr_value ! (2 * k) = of_nat r then Inr J
      else if nbr_value ! (2 * k) \<le> - 1 then Inl Undefined_Behaviour
      else let updated_index = nat \<lfloor>nbr_value ! (2 * k)\<rfloor>
           in rbind (vec_at (ja_x J) updated_index) (\<lambda>_.
                jacobi_computation (J\<lparr>ja_x := (ja_x J)[updated_index := nbr_value ! (2 * k + 1)]\<rparr>)))"

definition ja_process_update :: "('b, real list) handler \<Rightarrow> jacobi \<Rightarrow> jacobi res" where
  "ja_process_update h J =
     rbind (get_updated_tags h) (\<lambda>tags.
       rfold (\<lambda>tag J. rbind (get_data_unsafe tag h) (\<lambda>nbr_value.
                rfold (ja_use_pair nbr_value) [0..<length nbr_value div 2] J)) tags J)"

definition ja_prepare_for_publication :: "real list \<Rightarrow> jacobi \<Rightarrow> real list res" where
  "ja_prepare_for_publication vals J =
     rfold (\<lambda>i vals. rbind (vec_at (ja_rows J) i) (\<lambda>r. rbind (vec_at (ja_x J) r) (\<lambda>x.
              rbind (vec_at vals (2 * i + 1)) (\<lambda>_. Inr (vals[2 * i := of_nat r, 2 * i + 1 := x])))))
       [0..<length (ja_rows J)] vals"

definition return_partition_solution :: "jacobi \<Rightarrow> real list res" where
  "return_partition_solution J =
     rfold (\<lambda>i ys. rbind (vec_at (ja_rows J) i) (\<lambda>r. rbind (vec_at (ja_x J) r) (\<lambda>x. Inr (ys @ [x])))) [0..<length (ja_rows J)] []"

text \<open>A partition that fits together, with the diagonal of its rows.\<close>

definition jacobi_ok :: "jacobi \<Rightarrow> bool" where
  "jacobi_ok J \<longleftrightarrow> ja_rows J \<noteq> [] \<and> length (ja_A J) = length (ja_rows J) \<and> length (ja_b J) = length (ja_rows J)
     \<and> (\<forall>row \<in> set (ja_A J). length row = length (ja_x J)) \<and> distinct (ja_rows J)
     \<and> (\<forall>i < length (ja_rows J). ja_rows J ! i < length (ja_x J) \<and> ja_A J ! i ! (ja_rows J ! i) \<noteq> 0)"

definition row_sum :: "jacobi \<Rightarrow> nat \<Rightarrow> real list \<Rightarrow> real" where
  "row_sum J i x = (\<Sum>j < length (ja_x J). ja_A J ! i ! j * x ! j)"

lemma hold_loop:
  assumes "n \<le> length row" "n \<le> length x"
  shows "rfold (\<lambda>j hold. if j \<noteq> r then rbind (vec_at row j) (\<lambda>a. rbind (vec_at x j) (\<lambda>xj. Inr (hold + a * xj))) else Inr hold)
         [0..<n] (h :: real) = Inr (h + (\<Sum>j \<in> {..<n} - {r}. row ! j * x ! j))"
  using assms
proof (induction n)
  case (Suc n)
  have "{..<Suc n} - {r} = (if n = r then {..<n} - {r} else insert n ({..<n} - {r}))" by auto
  then show ?case using Suc by (auto simp: rfold_append vec_at_def)
qed simp

lemma jacobi_row_ok:
  assumes "jacobi_ok J" "i < length (ja_rows J)" "length x = length (ja_x J)"
  defines "r \<equiv> ja_rows J ! i"
  shows "jacobi_row J i x = Inr (x[r := x ! r + (ja_b J ! i - row_sum J i x) / ja_A J ! i ! r])"
proof -
  have l: "length (ja_A J ! i) = length (ja_x J)" "length (ja_A J ! 0) = length (ja_x J)" "r < length (ja_x J)"
    "ja_A J ! i ! r \<noteq> 0" "0 < length (ja_A J)" "i < length (ja_A J)" "i < length (ja_b J)"
    using assms by (auto simp: jacobi_ok_def)
  have s: "row_sum J i x = ja_A J ! i ! r * x ! r + (\<Sum>j \<in> {..<length (ja_x J)} - {r}. ja_A J ! i ! j * x ! j)"
    unfolding row_sum_def using l(3) by (subst sum.remove [of _ r]) auto
  have "jacobi_hold J i x = Inr (\<Sum>j \<in> {..<length (ja_x J)} - {r}. ja_A J ! i ! j * x ! j)"
    using l assms(2,3) hold_loop [of "length (ja_x J)" "ja_A J ! i" x r 0] by (simp add: jacobi_hold_def vec_at_def r_def)
  moreover have "(ja_b J ! i - (\<Sum>j \<in> {..<length (ja_x J)} - {r}. ja_A J ! i ! j * x ! j)) / ja_A J ! i ! r
      = x ! r + (ja_b J ! i - row_sum J i x) / ja_A J ! i ! r"
    using l(4) by (simp add: s field_simps)
  ultimately show ?thesis using l assms(2,3) by (simp add: jacobi_row_def vec_at_def r_def)
qed

lemma jacobi_row_same:
  assumes "jacobi_ok J" "i < length (ja_rows J)" "length x = length (ja_x J)"
  shows "jacobi_row J i x = Inr x \<longleftrightarrow> row_sum J i x = ja_b J ! i"
proof -
  have "ja_rows J ! i < length x" "ja_A J ! i ! (ja_rows J ! i) \<noteq> 0" using assms by (auto simp: jacobi_ok_def)
  then show ?thesis using jacobi_row_ok [OF assms] by (auto simp: list_update_same_conv)
qed

text \<open>A row changes its own component only, so that no change is undone.\<close>

lemma jacobi_rows_frame:
  assumes "jacobi_ok J" "rfold (jacobi_row J) is x = Inr y" "set is \<subseteq> {..<length (ja_rows J)}" "length x = length (ja_x J)"
  shows "length y = length x \<and> (\<forall>r. r \<notin> (\<lambda>i. ja_rows J ! i) ` set is \<longrightarrow> y ! r = x ! r)"
  using assms(2-)
proof (induction "is" arbitrary: x)
  case (Cons i ks)
  then obtain u where u: "jacobi_row J i x = Inr u" "rfold (jacobi_row J) ks u = Inr y" by (auto simp: rbind_eq_Inr_iff)
  then have "u = x[ja_rows J ! i := x ! (ja_rows J ! i) + (ja_b J ! i - row_sum J i x) / ja_A J ! i ! (ja_rows J ! i)]"
    using jacobi_row_ok [OF assms(1), of i x] Cons.prems by simp
  with Cons.IH [OF u(2)] Cons.prems show ?case by auto
qed simp

lemma jacobi_rows_same:
  assumes "jacobi_ok J" "set is \<subseteq> {..<length (ja_rows J)}" "distinct is" "length x = length (ja_x J)"
  shows "rfold (jacobi_row J) is x = Inr x \<longleftrightarrow> (\<forall>i \<in> set is. row_sum J i x = ja_b J ! i)"
  using assms(2-)
proof (induction "is")
  case (Cons i ks)
  have i: "i < length (ja_rows J)" "i \<notin> set ks" using Cons.prems by auto
  have "jacobi_row J i x = Inr x" if "rfold (jacobi_row J) (i # ks) x = Inr x"
  proof -
    from that obtain u where u: "jacobi_row J i x = Inr u" "rfold (jacobi_row J) ks u = Inr x"
      by (auto simp: rbind_eq_Inr_iff)
    let ?r = "ja_rows J ! i"
    obtain v where v: "u = x[?r := v]"
      using jacobi_row_ok [OF assms(1) i(1) Cons.prems(3)] u(1) by auto
    then have "length u = length (ja_x J)" using Cons.prems(3) by simp
    from jacobi_rows_frame [OF assms(1) u(2) _ this] Cons.prems(1)
    have "\<forall>r. r \<notin> (\<lambda>i. ja_rows J ! i) ` set ks \<longrightarrow> x ! r = u ! r" by simp
    moreover have "?r \<notin> (\<lambda>i. ja_rows J ! i) ` set ks"
      using assms(1) i Cons.prems(1) by (auto simp: jacobi_ok_def nth_eq_iff_index_eq)
    ultimately have "x ! ?r = u ! ?r" by blast
    moreover have "?r < length x" using assms(1) i Cons.prems(3) by (simp add: jacobi_ok_def)
    ultimately have "x ! ?r = v" unfolding v by simp
    then have "u = x" unfolding v by auto
    with u(1) show ?thesis by simp
  qed
  then have "rfold (jacobi_row J) (i # ks) x = Inr x \<longleftrightarrow> jacobi_row J i x = Inr x \<and> rfold (jacobi_row J) ks x = Inr x"
    by (auto simp: rbind_eq_Inr_iff)
  also have "\<dots> \<longleftrightarrow> row_sum J i x = ja_b J ! i \<and> (\<forall>i \<in> set ks. row_sum J i x = ja_b J ! i)"
    using jacobi_row_same [OF assms(1) i(1) Cons.prems(3)] Cons.IH Cons.prems by simp
  finally show ?case by simp
qed simp

lemma computation_same:
  assumes "jacobi_ok J"
  shows "jacobi_computation J = Inr J \<longleftrightarrow> (\<forall>i < length (ja_rows J). row_sum J i (ja_x J) = ja_b J ! i)"
proof -
  have "jacobi_computation J = Inr J \<longleftrightarrow> rfold (jacobi_row J) [0..<length (ja_rows J)] (ja_x J) = Inr (ja_x J)"
    by (cases "rfold (jacobi_row J) [0..<length (ja_rows J)] (ja_x J)")
      (auto simp: jacobi_computation_def, metis jacobi.select_convs(4) jacobi.surjective jacobi.update_convs(4))
  also have "\<dots> \<longleftrightarrow> (\<forall>i \<in> set [0..<length (ja_rows J)]. row_sum J i (ja_x J) = ja_b J ! i)"
    by (rule jacobi_rows_same [OF assms]) auto
  finally show ?thesis by auto
qed

text \<open>A Jacobi step leaves the vector as it is exactly when the vector solves the rows of this machine: the
  computation has no other fixed points, so that machines that agree on a vector and no longer change it have
  a solution of the whole system.\<close>

theorem jacobi_fixed_points:
  assumes "jacobi_ok J"
  shows "jacobi_computation J = Inr J \<longleftrightarrow>
    (\<forall>i < length (ja_rows J). (\<Sum>j < length (ja_x J). ja_A J ! i ! j * ja_x J ! j) = ja_b J ! i)"
  using computation_same [OF assms] by (simp add: row_sum_def)

lemma jacobi_fixed_points_witness:
  "jacobi_computation \<lparr>ja_A = [[2, 1]], ja_b = [5], ja_rows = [0], ja_x = [2, 1]\<rparr>
     = Inr \<lparr>ja_A = [[2, 1]], ja_b = [5], ja_rows = [0], ja_x = [2, 1]\<rparr>"
  by (subst jacobi_fixed_points) (auto simp: jacobi_ok_def numeral_2_eq_2)

end
