(* ===== verification/Sky_Big_Float.thy ===== *)
theory Sky_Big_Float
  imports Sky_Pubsub_Converter Sky_Processors Complex_Main
begin

text \<open>
  \<^verbatim>\<open>skywing_mid/big_float.hpp\<close>: numbers \<open>fraction * 2 ^ exp\<close> with an exponent of 64 bits. The fraction is a real
  number here: neither the rounding nor the range of \<^verbatim>\<open>double\<close> is modelled for it, while the exponents keep theirs and
  their overflow is undefined, and the difference of two exponents is rounded to a \<^verbatim>\<open>double\<close> as the code does it. What \<^verbatim>\<open>frexp\<close> makes of an infinity or of a NaN is unspecified, so that a
  division by zero and the logarithm of a number that is not positive have no result.
\<close>

section \<open>The representation\<close>

record big_float =
  bf_exp :: int
  bf_fraction :: real

text \<open>\<^verbatim>\<open>std::frexp\<close>.\<close>

definition frexp :: "real \<Rightarrow> real \<times> int" where
  "frexp f = (if f = 0 then (0, 0) else let e = \<lfloor>log 2 \<bar>f\<bar>\<rfloor> + 1 in (f / 2 powi e, e))"

definition int64 :: "int \<Rightarrow> int res" where
  "int64 x = (if - (2 ^ 63) \<le> x \<and> x < 2 ^ 63 then Inr x else Inl Undefined_Behaviour)"

definition bf_of :: "real \<Rightarrow> big_float" where
  "bf_of f = (let (fraction, e) = frexp f in \<lparr>bf_exp = e, bf_fraction = fraction\<rparr>)"

definition bf_zero :: big_float where
  "bf_zero = \<lparr>bf_exp = 0, bf_fraction = 0\<rparr>"

text \<open>The private constructor brings the fraction back into its range.\<close>

definition bf_make :: "int \<Rightarrow> real \<Rightarrow> big_float res" where
  "bf_make e fraction =
     (let (fraction', exp_from_frac) = frexp fraction
      in if fraction' = 0 then Inr \<lparr>bf_exp = 0, bf_fraction = fraction'\<rparr>
         else rbind (int64 (e + exp_from_frac)) (\<lambda>e'. Inr \<lparr>bf_exp = e', bf_fraction = fraction'\<rparr>))"

text \<open>\<^verbatim>\<open>ldexp\<close> takes an \<^verbatim>\<open>int\<close>: the exponent is cut to 32 bits.\<close>

definition bf_to_double :: "big_float \<Rightarrow> real" where
  "bf_to_double a = bf_fraction a * 2 powi signed_take_bit 31 (bf_exp a)"

definition get_underlying_data :: "big_float \<Rightarrow> int \<times> real" where
  "get_underlying_data a = (bf_exp a, bf_fraction a)"

section \<open>Operators\<close>

text \<open>An integer of 64 bits as a \<^verbatim>\<open>double\<close>: the nearest multiple of the spacing that 53 bits leave, the even one of two.\<close>

definition int_to_double :: "int \<Rightarrow> int" where
  "int_to_double x =
     (let s = (case find (\<lambda>k. \<bar>x\<bar> \<le> 2 ^ (53 + k)) [0..<11] of None \<Rightarrow> 2 ^ 11 | Some k \<Rightarrow> 2 ^ k);
          q = \<bar>x\<bar> div s; r = \<bar>x\<bar> mod s
      in sgn x * s * (if 2 * r < s \<or> 2 * r = s \<and> even q then q else q + 1))"

text \<open>\<^verbatim>\<open>pow(2.0, e)\<close> for negative \<open>e\<close>: 0 below the least \<^verbatim>\<open>double\<close>.\<close>

definition pow_two :: "int \<Rightarrow> real" where
  "pow_two e = (if e < - 1074 then 0 else 2 powi e)"

definition bf_plus :: "big_float \<Rightarrow> big_float \<Rightarrow> big_float res" where
  "bf_plus a b =
     (if bf_fraction a = 0 then Inr b
      else if bf_fraction b = 0 then Inr a
      else rbind (int64 (bf_exp a - bf_exp b)) (\<lambda>difference.
        let mag_diff = int_to_double difference
        in if mag_diff > 0 then bf_make (bf_exp a) (bf_fraction a + bf_fraction b * pow_two (- mag_diff))
           else if mag_diff < 0 then bf_make (bf_exp b) (bf_fraction b + bf_fraction a * pow_two mag_diff)
           else bf_make (bf_exp a) (bf_fraction a + bf_fraction b)))"

definition bf_neg :: "big_float \<Rightarrow> big_float res" where
  "bf_neg a = bf_make (bf_exp a) (- bf_fraction a)"

definition bf_minus :: "big_float \<Rightarrow> big_float \<Rightarrow> big_float res" where
  "bf_minus a b = rbind (bf_neg b) (bf_plus a)"

definition bf_times :: "big_float \<Rightarrow> big_float \<Rightarrow> big_float res" where
  "bf_times a b = rbind (int64 (bf_exp a + bf_exp b)) (\<lambda>e. bf_make e (bf_fraction a * bf_fraction b))"

definition bf_divide :: "big_float \<Rightarrow> big_float \<Rightarrow> big_float res" where
  "bf_divide a b =
     (if bf_fraction b = 0 then Inl Undefined_Behaviour
      else rbind (int64 (bf_exp a - bf_exp b)) (\<lambda>e. bf_make e (bf_fraction a / bf_fraction b)))"

definition bf_scale :: "real \<Rightarrow> big_float \<Rightarrow> big_float res" where
  "bf_scale d a = bf_make (bf_exp a) (d * bf_fraction a)"

definition bf_unscale :: "big_float \<Rightarrow> real \<Rightarrow> big_float res" where
  "bf_unscale a d = (if d = 0 then Inl Undefined_Behaviour else bf_make (bf_exp a) (bf_fraction a / d))"

definition bf_less :: "big_float \<Rightarrow> big_float \<Rightarrow> bool" where
  "bf_less a b =
     (if bf_fraction a = 0 then 0 < bf_fraction b
      else if bf_fraction b = 0 then bf_fraction a < 0
      else if bf_exp a = bf_exp b then bf_fraction a < bf_fraction b
      else if bf_fraction a * bf_fraction b < 0 then bf_fraction a < bf_fraction b
      else if bf_fraction a > 0 then bf_exp a < bf_exp b
      else bf_exp a > bf_exp b)"

definition bf_greater :: "big_float \<Rightarrow> big_float \<Rightarrow> bool" where
  "bf_greater a b = bf_less b a"

definition bf_equal :: "big_float \<Rightarrow> big_float \<Rightarrow> bool" where
  "bf_equal a b \<longleftrightarrow> bf_exp a = bf_exp b \<and> bf_fraction a = bf_fraction b"

section \<open>Powers and logarithms\<close>

fun square_times :: "nat \<Rightarrow> big_float \<Rightarrow> big_float res" where
  "square_times 0 x = Inr x"
| "square_times (Suc n) x = rbind (bf_times x x) (square_times n)"

text \<open>The shift of 1 by 63 places is the least number of the type.\<close>

definition pow2 :: "big_float \<Rightarrow> big_float res" where
  "pow2 a =
     (if bf_exp a < 0 then Inr (bf_of (2 powr bf_to_double a))
      else if \<bar>bf_exp a\<bar> > 63 then Inl Exception_Thrown
      else let new_base = bf_of (2 powr bf_fraction a); two_exp = signed_take_bit 63 (push_bit (nat (bf_exp a)) 1)
           in rbind (int64 (bf_exp new_base * two_exp)) (\<lambda>new_exp.
              rbind (square_times (nat (bf_exp a)) (bf_of (bf_fraction new_base))) (\<lambda>new_frac.
              rbind (int64 (new_exp + bf_exp new_frac)) (\<lambda>e. bf_make e (bf_fraction new_frac)))))"

definition bf_log2 :: "big_float \<Rightarrow> big_float res" where
  "bf_log2 a =
     (if bf_fraction a \<le> 0 then Inl Undefined_Behaviour else Inr (bf_of (of_int (bf_exp a) + log 2 (bf_fraction a))))"

definition log_2_e :: real where "log_2_e = log 2 (exp 1)"

definition bf_exponential :: "big_float \<Rightarrow> big_float res" where
  "bf_exponential a = rbind (bf_scale log_2_e a) pow2"

definition bf_ln :: "big_float \<Rightarrow> big_float res" where
  "bf_ln a = rbind (bf_log2 a) (\<lambda>l. bf_unscale l log_2_e)"

section \<open>Conversion\<close>

text \<open>\<^verbatim>\<open>PubSubConverter<BigFloat>\<close>: the pair that is sent.\<close>

definition bf_convert :: "big_float \<Rightarrow> int \<times> real" where
  "bf_convert a = (bf_exp a, bf_fraction a)"

definition bf_deconvert :: "int \<times> real \<Rightarrow> big_float res" where
  "bf_deconvert = (\<lambda>(e, fraction). bf_make e fraction)"

section \<open>Values\<close>

definition bf_val :: "big_float \<Rightarrow> real" where
  "bf_val a = bf_fraction a * 2 powi bf_exp a"

text \<open>The form that the constructors establish.\<close>

definition normal :: "big_float \<Rightarrow> bool" where
  "normal a \<longleftrightarrow> (if bf_fraction a = 0 then bf_exp a = 0 else 1 / 2 \<le> \<bar>bf_fraction a\<bar> \<and> \<bar>bf_fraction a\<bar> < 1)"

text \<open>The number for a value, unless its exponent overflows.\<close>

definition represent :: "real \<Rightarrow> big_float res" where
  "represent x = rbind (int64 (bf_exp (bf_of x))) (\<lambda>_. Inr (bf_of x))"

lemma powi_pos: "0 < (2 :: real) powi e"
  by (simp add: zero_less_power_int)

lemma scaled_sign: "0 < p \<Longrightarrow> (0 < m * p) = (0 < m)" "0 < p \<Longrightarrow> (m * p < 0) = (m < 0)" for m p :: real
  by (auto simp: zero_less_mult_iff mult_less_0_iff)

lemma frexp_spec:
  assumes "f \<noteq> 0" "frexp f = (m, e)"
  shows "f = m * 2 powi e" "1 / 2 \<le> \<bar>m\<bar>" "\<bar>m\<bar> < 1"
proof -
  have e: "e = \<lfloor>log 2 \<bar>f\<bar>\<rfloor> + 1" "m = f / 2 powi e" using assms by (auto simp: frexp_def Let_def)
  have p: "2 powi e = 2 powr real_of_int e" by (simp add: powr_real_of_int')
  show "f = m * 2 powi e" using e(2) powi_pos [of e] by simp
  have "real_of_int e - 1 \<le> log 2 \<bar>f\<bar>" "log 2 \<bar>f\<bar> < real_of_int e" using e(1) by linarith+
  then have b: "2 powr (real_of_int e - 1) \<le> \<bar>f\<bar>" "\<bar>f\<bar> < 2 powr real_of_int e"
    using assms(1) by (simp_all add: le_log_iff log_less_iff)
  have m: "\<bar>m\<bar> = \<bar>f\<bar> / 2 powr real_of_int e" using e(2) p by (simp add: abs_divide)
  show "\<bar>m\<bar> < 1" using b(2) by (simp add: m)
  have "2 powr (real_of_int e - 1) = 2 powr real_of_int e / 2" by (simp add: powr_diff)
  then show "1 / 2 \<le> \<bar>m\<bar>" using b(1) by (simp add: m field_simps)
qed

lemma scaled_less:
  assumes "1 / 2 \<le> \<bar>m\<bar>" "\<bar>m\<bar> < 1" "1 / 2 \<le> \<bar>n\<bar>" "\<bar>n\<bar> < 1" "(d :: int) < e"
  shows "\<bar>m * 2 powi d\<bar> < \<bar>n * (2 :: real) powi e\<bar>"
proof -
  have "\<bar>m * 2 powi d\<bar> < 2 powi d" using assms(2) powi_pos [of d] by (simp add: abs_mult)
  also have "(2 :: real) powi d \<le> 2 powi (e - 1)" using assms(5) by (intro power_int_increasing) auto
  also have "\<dots> = 1 / 2 * 2 powi e" by (simp add: power_int_diff)
  also have "\<dots> \<le> \<bar>n\<bar> * 2 powi e" using assms(3) powi_pos [of e] by (intro mult_right_mono) auto
  finally show ?thesis by (simp add: abs_mult)
qed

lemma scaled_unique:
  assumes "1 / 2 \<le> \<bar>m\<bar>" "\<bar>m\<bar> < 1" "1 / 2 \<le> \<bar>n\<bar>" "\<bar>n\<bar> < 1" "m * 2 powi d = n * (2 :: real) powi e"
  shows "m = n \<and> d = e"
proof -
  have "\<not> d < e" "\<not> e < d" using scaled_less [of m n d e] scaled_less [of n m e d] assms by auto
  then have "d = e" by simp
  then show ?thesis using assms(5) powi_pos [of e] by simp
qed

lemma frexp_unique:
  assumes "1 / 2 \<le> \<bar>m\<bar>" "\<bar>m\<bar> < 1"
  shows "frexp (m * 2 powi e) = (m, e)"
proof -
  obtain n d where f: "frexp (m * 2 powi e) = (n, d)" by fastforce
  have "m * 2 powi e \<noteq> 0" using assms powi_pos [of e] by auto
  note s = frexp_spec [OF this f]
  have "n = m \<and> d = e" using scaled_unique [OF s(2,3) assms s(1) [symmetric]] .
  then show ?thesis using f by blast
qed

lemma bf_of_normal: "normal (bf_of f) \<and> bf_val (bf_of f) = f"
proof (cases "f = 0")
  case True
  then show ?thesis by (simp add: bf_of_def frexp_def normal_def bf_val_def)
next
  case False
  obtain m e where "frexp f = (m, e)" by fastforce
  then show ?thesis using frexp_spec [OF False, of m e] by (auto simp: bf_of_def normal_def bf_val_def)
qed

lemma bf_of_val:
  assumes "normal a"
  shows "bf_of (bf_val a) = a"
proof (cases "bf_fraction a = 0")
  case True
  then show ?thesis using assms by (simp add: normal_def bf_val_def bf_of_def frexp_def)
next
  case False
  then show ?thesis using assms frexp_unique [of "bf_fraction a" "bf_exp a"] by (simp add: normal_def bf_val_def bf_of_def)
qed

text \<open>The private constructor makes the number that its arguments stand for, unless the exponent overflows.\<close>

lemma bf_make_of: "bf_make e f = represent (f * 2 powi e)"
proof (cases "f = 0")
  case True
  then show ?thesis by (simp add: bf_make_def represent_def int64_def bf_of_def frexp_def)
next
  case False
  obtain m k where f: "frexp f = (m, k)" by fastforce
  note s = frexp_spec [OF False f]
  have "f * 2 powi e = m * 2 powi (e + k)" by (subst s(1)) (simp add: power_int_add)
  then have "frexp (f * 2 powi e) = (m, e + k)" using frexp_unique [OF s(2,3), of "e + k"] by simp
  then show ?thesis using False f s(2) by (auto simp: bf_make_def represent_def bf_of_def int64_def)
qed

lemma represent_val:
  assumes "normal a" "\<bar>bf_exp a\<bar> < 2 ^ 63"
  shows "represent (bf_val a) = Inr a"
  using assms(2) by (simp add: represent_def bf_of_val [OF assms(1)] int64_def abs_less_iff)

lemma bf_neg_normal:
  assumes "normal a" "\<bar>bf_exp a\<bar> < 2 ^ 63"
  shows "bf_neg a = Inr (a\<lparr>bf_fraction := - bf_fraction a\<rparr>)"
proof -
  let ?b = "a\<lparr>bf_fraction := - bf_fraction a\<rparr>"
  have "normal ?b" "\<bar>bf_exp ?b\<bar> < 2 ^ 63" using assms by (auto simp: normal_def split: if_splits)
  then show ?thesis using represent_val [of ?b] by (simp add: bf_neg_def bf_make_of bf_val_def)
qed

lemma small_int64: "\<bar>x\<bar> < 2 ^ 62 \<Longrightarrow> \<bar>y\<bar> < 2 ^ 62 \<Longrightarrow> int64 (x + y) = Inr (x + y) \<and> int64 (x - y) = Inr (x - y)"
  by (simp add: int64_def abs_less_iff)

lemma int_to_double_exact: "\<bar>x\<bar> \<le> 2 ^ 53 \<Longrightarrow> int_to_double x = x"
  by (simp add: int_to_double_def upt_rec [of 0] sgn_mult_abs)

lemma bf_plus_represent:
  assumes "normal a" "normal b" "\<bar>bf_exp a\<bar> < 2 ^ 62" "\<bar>bf_exp b\<bar> < 2 ^ 62" "\<bar>bf_exp a - bf_exp b\<bar> \<le> 1074"
  shows "bf_plus a b = represent (bf_val a + bf_val b)"
proof -
  let ?m = "bf_fraction a" and ?n = "bf_fraction b" and ?d = "bf_exp a" and ?e = "bf_exp b"
  have shift: "2 powi (q - p) * 2 powi p = (2 :: real) powi q" for p q
    by (simp add: power_int_diff)
  have "represent (bf_val a) = Inr a" "represent (bf_val b) = Inr b" using assms by (auto intro!: represent_val)
  moreover have "int_to_double (?d - ?e) = ?d - ?e" using assms(5) by (intro int_to_double_exact) simp
  moreover have "pow_two (?d - ?e) = 2 powi (?d - ?e)" "pow_two (?e - ?d) = 2 powi (?e - ?d)"
    using assms(5) by (simp_all add: pow_two_def)
  ultimately show ?thesis
    using small_int64 [OF assms(3,4)]
    by (auto simp: bf_plus_def Let_def bf_make_of bf_val_def add.commute distrib_right mult.assoc shift)
qed

lemma bf_times_represent:
  assumes "\<bar>bf_exp a\<bar> < 2 ^ 62" "\<bar>bf_exp b\<bar> < 2 ^ 62"
  shows "bf_times a b = represent (bf_val a * bf_val b)"
  using small_int64 [OF assms] by (simp add: bf_times_def bf_make_of bf_val_def power_int_add mult_ac)

text \<open>Arithmetic on normal numbers whose exponents stay below \<open>2 ^ 62\<close> and, for sums, are at most 1074 apart is, with
  real fractions, the exact arithmetic of the values, brought into the normal form, and overflows just where the
  exponent of the exact result does not fit.\<close>

theorem bf_arithmetic:
  assumes "normal a" "normal b" "\<bar>bf_exp a\<bar> < 2 ^ 62" "\<bar>bf_exp b\<bar> < 2 ^ 62" "\<bar>bf_exp a - bf_exp b\<bar> \<le> 1074"
  shows "bf_plus a b = represent (bf_val a + bf_val b) \<and> bf_minus a b = represent (bf_val a - bf_val b)
    \<and> bf_neg a = represent (- bf_val a) \<and> bf_times a b = represent (bf_val a * bf_val b)
    \<and> bf_scale d a = represent (d * bf_val a)
    \<and> (bf_val b \<noteq> 0 \<longrightarrow> bf_divide a b = represent (bf_val a / bf_val b))
    \<and> (d \<noteq> 0 \<longrightarrow> bf_unscale a d = represent (bf_val a / d))"
proof -
  let ?b = "b\<lparr>bf_fraction := - bf_fraction b\<rparr>"
  have n: "normal ?b" "bf_val ?b = - bf_val b" using assms by (auto simp: normal_def bf_val_def split: if_splits)
  have "bf_minus a b = represent (bf_val a - bf_val b)"
    using bf_plus_represent [OF assms(1) n(1) assms(3)] assms(2,4,5) n(2) by (simp add: bf_minus_def bf_neg_normal)
  moreover have "bf_times a b = represent (bf_val a * bf_val b)" using assms(3,4) by (rule bf_times_represent)
  moreover have "bf_val b \<noteq> 0 \<longrightarrow> bf_divide a b = represent (bf_val a / bf_val b)"
    using small_int64 [OF assms(3,4)] by (simp add: bf_divide_def bf_make_of bf_val_def power_int_diff mult.commute)
  ultimately show ?thesis using bf_plus_represent [OF assms]
    by (simp add: bf_neg_def bf_scale_def bf_unscale_def bf_make_of bf_val_def mult.assoc)
qed

text \<open>The comparisons compare values.\<close>

lemma bf_order:
  assumes "normal a" "normal b"
  shows "(bf_less a b \<longleftrightarrow> bf_val a < bf_val b) \<and> (bf_equal a b \<longleftrightarrow> bf_val a = bf_val b) \<and> (bf_greater a b \<longleftrightarrow> bf_val a > bf_val b)"
proof -
  have less: "bf_less a b \<longleftrightarrow> bf_val a < bf_val b" if n: "normal a" "normal b" for a b
  proof -
    let ?m = "bf_fraction a" and ?n = "bf_fraction b" and ?d = "bf_exp a" and ?e = "bf_exp b"
    have sgn: "(0 < ?m * 2 powi ?d) = (0 < ?m)" "(0 < ?n * 2 powi ?e) = (0 < ?n)" "(?m * 2 powi ?d < 0) = (?m < 0)" "(?n * 2 powi ?e < 0) = (?n < 0)"
      by (simp_all only: scaled_sign powi_pos)
    consider "?m = 0" | "?n = 0" | "?d = ?e" | "?m < 0" "0 < ?n" | "0 < ?m" "?n < 0"
      | "0 < ?m" "0 < ?n" "?d \<noteq> ?e" | "?m < 0" "?n < 0" "?d \<noteq> ?e" by linarith
    then show ?thesis
    proof cases
      case 4
      then have "?m * ?n < 0" "?m < ?n" by (simp_all add: mult_less_0_iff)
      moreover have "?m * 2 powi ?d < ?n * 2 powi ?e" using 4 sgn by linarith
      ultimately show ?thesis using 4 by (simp add: bf_less_def bf_val_def)
    next
      case 5
      then have "?m * ?n < 0" "\<not> ?m < ?n" by (simp_all add: mult_less_0_iff)
      moreover have "\<not> ?m * 2 powi ?d < ?n * 2 powi ?e" using 5 sgn by linarith
      ultimately show ?thesis using 5 by (simp add: bf_less_def bf_val_def)
    next
      case 6
      then have "\<not> ?m * ?n < 0" by (simp add: mult_less_0_iff)
      then show ?thesis using 6 n scaled_less [of ?m ?n ?d ?e] scaled_less [of ?n ?m ?e ?d] sgn
        by (cases "?d < ?e") (auto simp: normal_def bf_less_def bf_val_def)
    next
      case 7
      then have "\<not> ?m * ?n < 0" by (simp add: mult_less_0_iff)
      then show ?thesis using 7 n scaled_less [of ?m ?n ?d ?e] scaled_less [of ?n ?m ?e ?d] sgn
        by (cases "?d < ?e") (auto simp: normal_def bf_less_def bf_val_def mult_neg_neg not_less)
    qed (use sgn powi_pos [of ?e] in \<open>auto simp: bf_less_def bf_val_def mult_pos_neg mult_neg_pos not_less\<close>)
  qed
  have "bf_equal a b \<longleftrightarrow> bf_val a = bf_val b"
  proof
    assume "bf_equal a b"
    then show "bf_val a = bf_val b" by (simp add: bf_equal_def bf_val_def)
  next
    assume "bf_val a = bf_val b"
    then have "a = b" using bf_of_val [OF assms(1)] bf_of_val [OF assms(2)] by metis
    then show "bf_equal a b" by (simp add: bf_equal_def)
  qed
  then show ?thesis using less [OF assms] less [OF assms(2,1)] by (simp add: bf_greater_def)
qed

lemma bf_make_normal: "bf_make e f = Inr c \<Longrightarrow> normal c"
  using bf_of_normal by (auto simp: bf_make_of represent_def rbind_eq_Inr_iff)

text \<open>C40: Every number that a constructor makes, from a floating-point value or from an exponent and a fraction, is
  normal, and the comparisons of normal numbers compare their values, also where the exponents or the signs differ and
  whatever the size of the exponents; on them, the equality of the parts is the equality of the values.\<close>

theorem comparisons_by_value:
  assumes "normal a" "normal b"
  shows "(bf_less a b \<longleftrightarrow> bf_val a < bf_val b) \<and> (bf_greater a b \<longleftrightarrow> bf_val a > bf_val b)
    \<and> (bf_equal a b \<longleftrightarrow> bf_val a = bf_val b)
    \<and> normal (bf_of f) \<and> normal bf_zero \<and> (\<forall>c. bf_make e f = Inr c \<longrightarrow> normal c)"
proof -
  have "normal bf_zero" by (simp add: normal_def bf_zero_def)
  with bf_order [OF assms] bf_of_normal [of f] bf_make_normal [of e f] show ?thesis by blast
qed

lemma bf_of_fields: "1 / 2 \<le> \<bar>m\<bar> \<Longrightarrow> \<bar>m\<bar> < 1 \<Longrightarrow> bf_of (m * 2 powi e) = \<lparr>bf_exp = e, bf_fraction = m\<rparr>"
  by (simp add: bf_of_def frexp_unique)

lemma bf_exp_floor: "x \<noteq> 0 \<Longrightarrow> bf_exp (bf_of x) = \<lfloor>log 2 \<bar>x\<bar>\<rfloor> + 1"
  by (simp add: bf_of_def frexp_def Let_def)

lemma bf_of_exp_le:
  assumes "x \<noteq> 0" "\<bar>x\<bar> < 2 powi l"
  shows "bf_exp (bf_of x) \<le> l"
proof -
  have "\<bar>x\<bar> < 2 powr real_of_int l" using assms(2) by (simp add: powr_real_of_int')
  then have "log 2 \<bar>x\<bar> < real_of_int l" using assms(1) by (simp add: log_less_iff)
  then have "\<lfloor>log 2 \<bar>x\<bar>\<rfloor> < l" by (simp add: floor_less_iff)
  then show ?thesis using assms(1) by (simp add: bf_exp_floor)
qed

lemma bf_of_exp:
  assumes "2 powi k \<le> \<bar>x\<bar>" "\<bar>x\<bar> < 2 powi l"
  shows "k < bf_exp (bf_of x) \<and> bf_exp (bf_of x) \<le> l"
proof -
  have x: "x \<noteq> 0" using assms(1) powi_pos [of k] by (metis abs_zero not_le)
  have "2 powr real_of_int k \<le> \<bar>x\<bar>" using assms by (simp add: powr_real_of_int')
  then have "real_of_int k \<le> log 2 \<bar>x\<bar>" using x by (simp add: le_log_iff)
  then show ?thesis using x bf_of_exp_le [OF x assms(2)] by (simp add: bf_exp_floor le_floor_iff)
qed

text \<open>Repeated squaring keeps the exponents within the type.\<close>

lemma square_step:
  assumes "\<bar>bf_exp (bf_of x)\<bar> < 2 ^ 62"
  shows "bf_times (bf_of x) (bf_of x) = Inr (bf_of (x * x))"
proof -
  have r: "bf_times (bf_of x) (bf_of x) = represent (x * x)"
    using bf_times_represent [OF assms assms] bf_of_normal [of x] by simp
  show ?thesis
  proof (cases "x = 0")
    case True
    then show ?thesis unfolding r by (simp add: represent_def bf_of_def frexp_def int64_def)
  next
    case False
    obtain m e where f: "frexp x = (m, e)" by fastforce
    note s = frexp_spec [OF False f]
    have e: "bf_exp (bf_of x) = e" by (simp add: bf_of_def f)
    have "\<bar>m\<bar> * \<bar>m\<bar> < 1 * 1" using s by (intro mult_strict_mono) auto
    moreover have "1 / 2 * (1 / 2) \<le> \<bar>m\<bar> * \<bar>m\<bar>" using s by (intro mult_mono) auto
    moreover have "\<bar>x * x\<bar> = \<bar>m\<bar> * \<bar>m\<bar> * 2 powi (2 * e)"
      unfolding s(1) abs_mult mult_2 by (subst power_int_add) (simp_all del: abs_mult_self_eq)
    ultimately have "2 powi (2 * e - 2) \<le> \<bar>x * x\<bar>" "\<bar>x * x\<bar> < 2 powi (2 * e)"
      using powi_pos [of "2 * e"] by (simp_all add: power_int_diff)
    then have "2 * e - 2 < bf_exp (bf_of (x * x)) \<and> bf_exp (bf_of (x * x)) \<le> 2 * e" by (rule bf_of_exp)
    then have "int64 (bf_exp (bf_of (x * x))) = Inr (bf_exp (bf_of (x * x)))"
      using assms e by (simp add: int64_def abs_less_iff)
    then show ?thesis by (simp add: r represent_def)
  qed
qed

lemma square_exp:
  assumes "1 / 2 \<le> r" "r < (1 :: real)"
  shows "- (2 ^ k) < bf_exp (bf_of (r ^ 2 ^ k)) \<and> bf_exp (bf_of (r ^ 2 ^ k)) \<le> 0"
proof -
  let ?x = "r ^ 2 ^ k"
  have "2 powi (- int (2 ^ k)) = (1 / 2 :: real) ^ 2 ^ k" by (simp only: power_int_minus power_int_of_nat) (simp add: power_one_over inverse_eq_divide)
  also have "\<dots> \<le> ?x" using assms(1) by (intro power_mono) auto
  finally have "2 powi (- int (2 ^ k)) \<le> \<bar>?x\<bar>" by linarith
  moreover have "\<bar>?x\<bar> < 2 powi 0" using assms by (simp add: power_less_one_iff)
  ultimately have "- int (2 ^ k) < bf_exp (bf_of ?x) \<and> bf_exp (bf_of ?x) \<le> 0" by (rule bf_of_exp)
  then show ?thesis by simp
qed

lemma square_times_power:
  assumes "1 / 2 \<le> r" "r < 1" "k + n \<le> 63"
  shows "square_times n (bf_of (r ^ 2 ^ k)) = Inr (bf_of (r ^ 2 ^ (k + n)))"
  using assms(3)
proof (induction n arbitrary: k)
  case 0
  then show ?case by simp
next
  case (Suc n)
  let ?x = "r ^ 2 ^ k"
  have "- (2 ^ k) < bf_exp (bf_of ?x) \<and> bf_exp (bf_of ?x) \<le> 0" using assms(1,2) by (rule square_exp)
  moreover have "(2 :: int) ^ k \<le> 2 ^ 62" using Suc.prems by (intro power_increasing) auto
  ultimately have "\<bar>bf_exp (bf_of ?x)\<bar> < 2 ^ 62" by (simp add: abs_less_iff)
  then have "bf_times (bf_of ?x) (bf_of ?x) = Inr (bf_of (r ^ 2 ^ Suc k))"
    by (simp add: square_step power_mult power2_eq_square power_mult_distrib)
  then show ?case using Suc.IH [of "Suc k"] Suc.prems by simp
qed

lemma pow2_parts:
  assumes "normal a"
  obtains r p where "2 powr bf_fraction a = r * 2 powi p" "1 / 2 \<le> r" "r < 1" "p = (if bf_fraction a < 0 then 0 else 1)"
    "bf_of (2 powr bf_fraction a) = \<lparr>bf_exp = p, bf_fraction = r\<rparr>"
proof -
  let ?f = "bf_fraction a" and ?p = "if bf_fraction a < 0 then 0 else 1 :: int"
  let ?r = "2 powr ?f / 2 powi ?p"
  have f: "-1 < ?f" "?f < 1" using assms by (auto simp: normal_def split: if_splits)
  have "2 powr -1 < 2 powr ?f" "2 powr ?f < 2 powr 1" using f by (simp_all only: powr_less_mono)
  then have b: "1 / 2 < 2 powr ?f" "2 powr ?f < 2" by (simp_all add: powr_minus_divide)
  have "?f < 0 \<Longrightarrow> 2 powr ?f < 1" "\<not> ?f < 0 \<Longrightarrow> 1 \<le> 2 powr ?f" by (simp_all add: powr_less_one ge_one_powr_ge_zero)
  with b have "1 / 2 \<le> ?r" "?r < 1" by auto
  moreover have "2 powr ?f = ?r * 2 powi ?p" by simp
  moreover from this have "bf_of (2 powr ?f) = \<lparr>bf_exp = ?p, bf_fraction = ?r\<rparr>"
    using bf_of_fields [of ?r ?p] calculation by simp
  ultimately show ?thesis using that [of ?r ?p] by simp
qed

lemma shifted_one: "n \<le> 62 \<Longrightarrow> signed_take_bit 63 (2 ^ n) = (2 :: int) ^ n"
  using power_increasing [of n 62 "2 :: int"] order_trans [of "- (2 ^ 63)" 0 "2 ^ n :: int"]
  by (simp add: signed_take_bit_int_eq_self)

lemma pow2_middle:
  assumes "normal a" "0 \<le> bf_exp a" "bf_exp a \<le> 62"
  shows "pow2 a = Inr (bf_of (2 powr bf_val a))"
proof -
  obtain r p where r: "2 powr bf_fraction a = r * 2 powi p" "1 / 2 \<le> r" "r < 1" "p = (if bf_fraction a < 0 then 0 else 1)"
    "bf_of (2 powr bf_fraction a) = \<lparr>bf_exp = p, bf_fraction = r\<rparr>" using pow2_parts [OF assms(1)] .
  obtain n where n: "bf_exp a = int n" "n \<le> 62" using assms(2,3) by (metis nat_0_le nat_le_iff of_nat_numeral zero_le_imp_eq_int)
  let ?x = "r ^ 2 ^ n"
  let ?c = "\<lparr>bf_exp = p * 2 ^ n + bf_exp (bf_of ?x), bf_fraction = bf_fraction (bf_of ?x)\<rparr>"
  have k: "- (2 ^ n) < bf_exp (bf_of ?x)" "bf_exp (bf_of ?x) \<le> 0" using square_exp [OF r(2,3), of n] by auto
  have m: "(2 :: int) ^ n \<le> 2 ^ 62" using n(2) by (intro power_increasing) auto
  have i: "int64 (p * 2 ^ n) = Inr (p * 2 ^ n)" using r(4) m order_trans [of "- (2 ^ 63)" 0 "2 ^ n :: int"] by (simp add: int64_def)
  have j: "\<bar>bf_exp ?c\<bar> < 2 ^ 63" using r(4) m k by auto
  then have j': "int64 (bf_exp ?c) = Inr (bf_exp ?c)" by (simp add: int64_def abs_less_iff)
  have x: "bf_val (bf_of ?x) = ?x" "?x \<noteq> 0" using bf_of_normal r(2) by auto
  then have nz: "bf_fraction (bf_of ?x) \<noteq> 0" by (auto simp: bf_val_def)
  then have c: "normal ?c" using bf_of_normal [of ?x] by (simp add: normal_def)
  have "2 powi (p * int (2 ^ n)) = ((2 :: real) powi p) ^ 2 ^ n" by (simp only: power_int_mult power_int_of_nat)
  then have p: "2 powi (p * 2 ^ n) = ((2 :: real) powi p) ^ 2 ^ n" by simp
  have "bf_val a = bf_fraction a * 2 ^ n" using n(1) by (simp add: bf_val_def)
  then have "2 powr bf_val a = (2 powr bf_fraction a) powr real (2 ^ n)" by (simp add: powr_powr)
  also have "\<dots> = (2 powr bf_fraction a) ^ 2 ^ n" by (simp only: powr_realpow powr_gt_zero)
  also have "\<dots> = bf_val ?c"
    using x(1) p by (simp add: r(1) bf_val_def power_mult_distrib power_int_add mult_ac)
  finally have v: "2 powr bf_val a = bf_val ?c" .
  have "square_times n (bf_of r) = Inr (bf_of ?x)" using square_times_power [OF r(2,3), of 0 n] n(2) by simp
  then have "pow2 a = bf_make (bf_exp ?c) (bf_fraction ?c)"
    using n i j' by (simp add: pow2_def r(5) shifted_one)
  also have "\<dots> = Inr ?c" using represent_val [OF c j] by (simp add: bf_make_of bf_val_def)
  finally show ?thesis using v bf_of_val [OF c] by simp
qed

lemma pow2_limit:
  assumes "normal a" "bf_exp a = 63" "0 < bf_fraction a" "bf_fraction a < 1 - 2 powi - 63"
  shows "pow2 a = Inl Undefined_Behaviour"
proof -
  obtain r p where r: "2 powr bf_fraction a = r * 2 powi p" "1 / 2 \<le> r" "r < 1" "p = (if bf_fraction a < 0 then 0 else 1)"
    "bf_of (2 powr bf_fraction a) = \<lparr>bf_exp = p, bf_fraction = r\<rparr>" using pow2_parts [OF assms(1)] .
  obtain n :: nat where n: "n = 63" by blast
  let ?x = "r ^ 2 ^ n" and ?f = "bf_fraction a"
  have p: "p = 1" using r(4) assms(3) by simp
  have "(?f - 1) * 2 ^ n < - 1"
    using mult_strict_right_mono [of "?f - 1" "- (2 powi - 63)" "2 ^ n"] assms(4) by (simp add: n power_int_minus)
  then have l: "2 powr ((?f - 1) * 2 ^ n) < 2 powr - 1" by (rule powr_less_mono) simp
  have "r = 2 powr (?f - 1)" using r(1) p by (simp add: powr_diff)
  then have "?x = (2 powr (?f - 1)) powr real (2 ^ n)" by (simp only: powr_realpow powr_gt_zero)
  also have "\<dots> = 2 powr ((?f - 1) * 2 ^ n)" by (simp add: powr_powr)
  also note l
  finally have "\<bar>?x\<bar> < 2 powi - 1" using r(2) by (simp add: powr_minus_divide)
  then have k: "bf_exp (bf_of ?x) \<le> - 1" using r(2) by (intro bf_of_exp_le) auto
  have "square_times n (bf_of r) = Inr (bf_of ?x)" using square_times_power [OF r(2,3), of 0 n] n by simp
  moreover have "signed_take_bit 63 (push_bit 63 1) = - (2 ^ 63 :: int)" by simp
  ultimately show ?thesis using assms(2) k n by (simp add: pow2_def r(5) p int64_def)
qed

text \<open>\<^verbatim>\<open>pow2\<close> of a normal number is the number for the exact power of two for exponents up to 62, and for negative
  ones as long as the exponent survives the cut to 32 bits. Above 63 it throws. At 63, which the check
  admits, the shift makes the least number of the type, and the result overflows for all positive numbers
  that a \<^verbatim>\<open>double\<close> fraction can make.\<close>

theorem pow2_exact:
  assumes "normal a"
  shows "(- (2 ^ 31) \<le> bf_exp a \<and> bf_exp a \<le> 62 \<longrightarrow> pow2 a = Inr (bf_of (2 powr bf_val a)))
    \<and> (bf_exp a = 63 \<and> 0 < bf_fraction a \<and> bf_fraction a < 1 - 2 powi - 63 \<longrightarrow> pow2 a = Inl Undefined_Behaviour)
    \<and> (63 < bf_exp a \<longrightarrow> pow2 a = Inl Exception_Thrown)"
proof -
  have "pow2 a = Inr (bf_of (2 powr bf_val a))" if "- (2 ^ 31) \<le> bf_exp a" "bf_exp a < 0"
    using that by (simp add: pow2_def bf_to_double_def bf_val_def signed_take_bit_int_eq_self)
  then show ?thesis using pow2_middle [OF assms] pow2_limit [OF assms] by (auto simp: pow2_def not_less)
qed

section \<open>The converter\<close>

interpretation big_float: converter bf_convert bf_deconvert "\<lambda>a. normal a \<and> \<bar>bf_exp a\<bar> < 2 ^ 63"
  by unfold_locales (simp add: bf_convert_def bf_deconvert_def bf_make_of represent_val flip: bf_val_def)

text \<open>A vector of big numbers arrives as it was sent.\<close>

lemma big_floats_received:
  "\<forall>a \<in> set as. normal a \<and> \<bar>bf_exp a\<bar> < 2 ^ 63 \<Longrightarrow> rseq (map bf_deconvert (map bf_convert as)) = Inr as"
  by (rule big_float.received)

section \<open>The order of big numbers\<close>

text \<open>The numbers that the constructors make, as a type of their own: \<^verbatim>\<open>operator<\<close> is a linear order of it, so that the
  processors of minima and maxima, which ask for one, work with big numbers too.\<close>

typedef normal_float = "{a. normal a}"
  by (rule exI [of _ bf_zero]) (simp add: normal_def bf_zero_def)

lemma normal_rep: "normal (Rep_normal_float x)"
  using Rep_normal_float [of x] by simp

instantiation normal_float :: linorder
begin

definition less_normal_float :: "normal_float \<Rightarrow> normal_float \<Rightarrow> bool" where
  "x < y \<longleftrightarrow> bf_less (Rep_normal_float x) (Rep_normal_float y)"

definition less_eq_normal_float :: "normal_float \<Rightarrow> normal_float \<Rightarrow> bool" where
  "x \<le> y \<longleftrightarrow> \<not> bf_less (Rep_normal_float y) (Rep_normal_float x)"

instance
proof
  note order = less_normal_float_def less_eq_normal_float_def bf_order [OF normal_rep normal_rep]
  fix x y z :: normal_float
  show "x < y \<longleftrightarrow> x \<le> y \<and> \<not> y \<le> x" "x \<le> x" "x \<le> y \<or> y \<le> x" by (auto simp: order)
  show "x \<le> z" if "x \<le> y" "y \<le> z" using that by (simp add: order)
  show "x = y" if "x \<le> y" "y \<le> x"
  proof -
    have "bf_val (Rep_normal_float x) = bf_val (Rep_normal_float y)" using that by (simp add: order)
    then have "Rep_normal_float x = Rep_normal_float y" by (metis bf_of_val normal_rep)
    then show ?thesis by (simp add: Rep_normal_float_inject)
  qed
qed

end

text \<open>The operations of \<^verbatim>\<open>MinProcessor<BigFloat>\<close> and \<^verbatim>\<open>MaxProcessor<BigFloat>\<close>.\<close>

lemma bf_min_max:
  "Rep_normal_float (min_op x y) = selection_op bf_less (Rep_normal_float x) (Rep_normal_float y)"
  "Rep_normal_float (max_op x y) = selection_op bf_greater (Rep_normal_float x) (Rep_normal_float y)"
  by (auto simp: min_op_def max_op_def selection_op_def less_normal_float_def bf_order [OF normal_rep normal_rep])

lemma bf_min_value: "bf_val (Rep_normal_float (min_op x y)) = min (bf_val (Rep_normal_float x)) (bf_val (Rep_normal_float y))"
  by (simp add: bf_min_max selection_op_def bf_order [OF normal_rep normal_rep])

section \<open>Samples\<close>

text \<open>Three and a half and minus one.\<close>

definition sample_a :: big_float where
  "sample_a = \<lparr>bf_exp = 2, bf_fraction = 7 / 8\<rparr>"

definition sample_b :: big_float where
  "sample_b = \<lparr>bf_exp = 1, bf_fraction = - 1 / 2\<rparr>"

lemma samples: "normal sample_a" "normal sample_b" "bf_val sample_a = 7 / 2" "bf_val sample_b = - 1"
  "bf_exp sample_a = 2" "bf_exp sample_b = 1"
  by (simp_all add: sample_a_def sample_b_def normal_def bf_val_def)

lemma comparisons_by_value_witness:
  "\<not> bf_less sample_a sample_b \<and> bf_greater sample_a sample_b
     \<and> bf_less sample_b (sample_b\<lparr>bf_exp := - 7000000000000000000\<rparr>)"
proof -
  obtain e :: int where e: "e = - 7000000000000000000" by blast
  have n: "normal (sample_b\<lparr>bf_exp := e\<rparr>)" by (simp add: sample_b_def normal_def)
  have "(2 :: real) powi e < 2 powi 0" by (rule power_int_strict_increasing) (simp_all add: e)
  then have v: "bf_val sample_b < bf_val (sample_b\<lparr>bf_exp := e\<rparr>)"
    by (simp add: samples bf_val_def [of "_\<lparr>bf_exp := _\<rparr>"]) (simp add: sample_b_def)
  have "\<not> bf_less sample_a sample_b \<and> bf_greater sample_a sample_b"
    using comparisons_by_value [OF samples(1,2)] by (simp add: samples)
  with comparisons_by_value [OF samples(2) n] v show ?thesis unfolding e by blast
qed

lemma bf_arithmetic_witness: "bf_plus sample_a sample_b = Inr (bf_of (5 / 2)) \<and> bf_divide sample_a sample_b = Inr (bf_of (- 7 / 2))"
proof -
  have "represent (5 / 2) = Inr (bf_of (5 / 2))" "represent (- 7 / 2) = Inr (bf_of (- 7 / 2))"
    using bf_of_fields [of "5 / 8" 2] bf_of_fields [of "- 7 / 8" 2] by (simp_all add: represent_def int64_def)
  then show ?thesis using bf_arithmetic [of sample_a sample_b 1] by (simp add: samples)
qed

lemma pow2_exact_witness: "pow2 sample_a = Inr (bf_of (2 powr (7 / 2))) \<and> pow2 (sample_a\<lparr>bf_exp := 63\<rparr>) = Inl Undefined_Behaviour"
proof -
  have "normal (sample_a\<lparr>bf_exp := 63\<rparr>)" by (simp add: sample_a_def normal_def)
  then have "pow2 (sample_a\<lparr>bf_exp := 63\<rparr>) = Inl Undefined_Behaviour"
    using pow2_exact [of "sample_a\<lparr>bf_exp := 63\<rparr>"] by (simp add: sample_a_def power_int_minus)
  then show ?thesis using pow2_exact [of sample_a] by (simp add: samples)
qed

end
