(* ===== verification/Sky_Iterative.thy ===== *)
theory Sky_Iterative
  imports Sky_Neighbor_Data
begin

text \<open>
  \<^verbatim>\<open>skywing_mid/iterative_method.hpp\<close>, \<^verbatim>\<open>asynchronous_iterative.hpp\<close>, \<^verbatim>\<open>synchronous_iterative.hpp\<close>: the base
  class of iterative methods and the loops of the two kinds. The job is passed along; what other threads
  do to it happens where the method sleeps or waits. The processor and the policies, template arguments in
  the code, are arguments. None of the repository's policies publishes values of its own, so that the value
  of an iteration is that of the processor.
\<close>

section \<open>The base class\<close>

record ('v, 'p) iterative =
  it_produced :: tag
  it_tags :: "tag list"
  it_dead :: "tag list"
  it_values :: "(tag_id \<times> 'v) list"
  it_updated :: "nat list"        \<comment> \<open>pointers into the vector of the tags\<close>
  it_moved :: bool                \<comment> \<open>the vector has grown since, so that the pointers dangle\<close>
  it_policy :: 'p                 \<comment> \<open>the resilience policy\<close>

definition new_iterative :: "tag \<Rightarrow> tag list \<Rightarrow> 'p \<Rightarrow> job \<Rightarrow> ('v, 'p) iterative" where
  "new_iterative produced_tag tags resilience_policy j =
     \<lparr>it_produced = produced_tag, it_tags = filter (\<lambda>t. tag_has_active_publisher (tag_name t) j) tags,
      it_dead = filter (\<lambda>t. \<not> tag_has_active_publisher (tag_name t) j) tags,
      it_values = [], it_updated = [], it_moved = False, it_policy = resilience_policy\<rparr>"

text \<open>The policy gets an iterator to a tag that has just been moved from, so it cannot tell which one died.\<close>

definition handle_dead_neighbor :: "('p \<Rightarrow> 'p) \<Rightarrow> nat \<Rightarrow> ('v, 'p) iterative \<Rightarrow> ('v, 'p) iterative" where
  "handle_dead_neighbor react i it =
     it\<lparr>it_dead := it_dead it @ [it_tags it ! i], it_policy := react (it_policy it),
        it_tags := take i (it_tags it) @ drop (Suc i) (it_tags it)\<rparr>"

text \<open>\<^verbatim>\<open>TrivialResiliencePolicy\<close>.\<close>

definition trivial_handle_dead_neighbor :: "'p \<Rightarrow> 'p" where
  "trivial_handle_dead_neighbor policy = policy"

definition rebuild_dead_tags :: "('v, 'p) iterative \<times> job \<Rightarrow> (tag_id list \<times> ('v, 'p) iterative \<times> job) res" where
  "rebuild_dead_tags = (\<lambda>(it, j).
     rbind (rebuild_tags (it_dead it) j) (\<lambda>(to_ret, j').
       Inr (to_ret, it\<lparr>it_tags := it_tags it @ it_dead it, it_dead := [],
                       it_moved := (it_moved it \<or> it_dead it \<noteq> [])\<rparr>, j')))"

definition drop_dead_tags :: "('v, 'p) iterative \<Rightarrow> ('v, 'p) iterative" where
  "drop_dead_tags it = it\<lparr>it_dead := []\<rparr>"

text \<open>The variant for some tags only makes an array of them.\<close>

definition drop_these_dead_tags :: "tag list \<Rightarrow> ('v, 'p) iterative \<Rightarrow> ('v, 'p) iterative" where
  "drop_these_dead_tags these it = it"

text \<open>The first loop of \<^verbatim>\<open>gather_values\<close>, at position \<open>i\<close>.\<close>

function gather_detect :: "('p \<Rightarrow> 'p) \<Rightarrow> job \<Rightarrow> nat \<Rightarrow> nat \<Rightarrow> ('v, 'p) iterative \<Rightarrow> (nat \<times> ('v, 'p) iterative) res" where
  "gather_detect react j i num_updated it =
     (if i < length (it_tags it)
      then let tag = tag_name (it_tags it ! i)
           in if \<not> tag_has_active_publisher tag j
              then gather_detect react j i num_updated (handle_dead_neighbor react i it)
              else (case job_has_data tag j of
                      Inl e \<Rightarrow> Inl e
                    | Inr b \<Rightarrow> gather_detect react j (i + 1) (if b then num_updated + 1 else num_updated) it)
      else Inr (num_updated, it))"
  by pat_completeness auto
termination
  by (relation "measure (\<lambda>(react, j, i, n, it). length (it_tags it) - i)") (auto simp: handle_dead_neighbor_def)

declare gather_detect.simps [simp del]

text \<open>The second loop: the waiter is ready, since only this thread takes data.\<close>

definition gather_one :: "(publish_value list \<Rightarrow> 'v) \<Rightarrow> nat \<times> tag_id
    \<Rightarrow> job \<times> (tag_id \<times> 'v) list \<times> nat list \<Rightarrow> (job \<times> (tag_id \<times> 'v) list \<times> nat list) res" where
  "gather_one deconvert = (\<lambda>(i, tag) (j, vals, updated).
     rbind (job_has_data tag j) (\<lambda>b.
       if \<not> b then Inr (j, vals, updated)
       else rbind (get_waiter tag j) (\<lambda>_.
            rbind (value_waiter_get tag j) (\<lambda>(value_opt, j').
              case value_opt of
                None \<Rightarrow> Inl Assert_Failed
              | Some v \<Rightarrow> Inr (j', AList.update tag (deconvert v) vals, updated @ [i])))))"

definition gather_values :: "(publish_value list \<Rightarrow> 'v) \<Rightarrow> ('p \<Rightarrow> 'p) \<Rightarrow> ('v, 'p) iterative \<times> job
    \<Rightarrow> (bool \<times> ('v, 'p) iterative \<times> job) res" where
  "gather_values deconvert react = (\<lambda>(it, j).
     rbind (gather_detect react j 0 0 it) (\<lambda>(num_updated, it1).
       if num_updated = 0 then Inr (False, it1, j)
       else rbind (rfold (gather_one deconvert) (enumerate 0 (map tag_name (it_tags it1))) (j, it_values it1, []))
              (\<lambda>(j', vals, updated).
                Inr (True, it1\<lparr>it_values := vals, it_updated := updated, it_moved := False\<rparr>, j'))))"

text \<open>What is published: the version and the values, which the manager passes on.\<close>

definition submit_values :: "('v \<Rightarrow> publish_value list) \<Rightarrow> 'v \<Rightarrow> ('v, 'p) iterative \<times> job
    \<Rightarrow> ((version_id \<times> publish_value list) \<times> job) res" where
  "submit_values convert value_to_submit = (\<lambda>(it, j).
     rbind (publish_impl (tag_name (it_produced it)) j) (\<lambda>(n, j'). Inr ((n, convert value_to_submit), j')))"

definition get_neighbor_data_handler :: "('v \<Rightarrow> 'd) \<Rightarrow> ('v, 'p) iterative \<Rightarrow> ('v, 'd) handler" where
  "get_neighbor_data_handler f it =
     \<lparr>nd_transformer = f, nd_tags = map tag_name (it_tags it), nd_values = it_values it,
      nd_updated = (if it_moved it then map (\<lambda>_. length (it_tags it)) (it_updated it) else it_updated it)\<rparr>"

section \<open>Gathering\<close>

definition live :: "job \<Rightarrow> tag list \<Rightarrow> tag list" where
  "live j = filter (\<lambda>t. tag_has_active_publisher (tag_name t) j)"

text \<open>The value that waits to be taken.\<close>

definition waiting_value :: "tag_id \<Rightarrow> job \<Rightarrow> publish_value list option" where
  "waiting_value tag j =
     (case map_of (job_bufs j) tag of
        None \<Rightarrow> None
      | Some ti \<Rightarrow> (case ti_buffer ti of None \<Rightarrow> None | Some b \<Rightarrow> if db_has_data b then db_value b else None))"

lemma job_has_data_waiting:
  assumes "job_inv j" "job_buffered j"
  shows "job_has_data tag j = Inr (waiting_value tag j \<noteq> None)"
proof (cases "map_of (job_bufs j) tag")
  case (Some ti)
  then obtain b where b: "ti_buffer ti = Some b" using assms(2) job_bufferedD by blast
  have "db_inv b" using job_invD [OF assms(1) Some] b by (simp add: info_ok_def)
  then show ?thesis using Some b by (auto simp: job_has_data_def waiting_value_def db_inv_def db_has_data_def)
qed (simp add: job_has_data_def waiting_value_def)

lemma gather_detect_live:
  assumes "job_inv j" "job_buffered j"
  shows "gather_detect react j i n it =
    Inr (n + length (filter (\<lambda>t. waiting_value (tag_name t) j \<noteq> None) (live j (drop i (it_tags it)))),
         it\<lparr>it_tags := take i (it_tags it) @ live j (drop i (it_tags it)),
            it_dead := it_dead it @ filter (\<lambda>t. \<not> tag_has_active_publisher (tag_name t) j) (drop i (it_tags it)),
            it_policy := (react ^^ length (filter (\<lambda>t. \<not> tag_has_active_publisher (tag_name t) j) (drop i (it_tags it))))
                           (it_policy it)\<rparr>)"
proof (induction "length (it_tags it) - i" arbitrary: i n it rule: less_induct)
  case less
  let ?t = "it_tags it ! i"
  show ?case
  proof (cases "i < length (it_tags it)")
    case False
    then show ?thesis
      by (subst gather_detect.simps) (auto simp: live_def)
  next
    case i: True
    then have d: "drop i (it_tags it) = ?t # drop (Suc i) (it_tags it)" by (simp add: Cons_nth_drop_Suc)
    show ?thesis
    proof (cases "tag_has_active_publisher (tag_name ?t) j")
      case False
      let ?it = "handle_dead_neighbor react i it"
      have l: "length (it_tags ?it) - i < length (it_tags it) - i" "take i (it_tags ?it) = take i (it_tags it)"
        "drop i (it_tags ?it) = drop (Suc i) (it_tags it)" "it_dead ?it = it_dead it @ [?t]"
        "it_policy ?it = react (it_policy it)"
        using i by (auto simp: handle_dead_neighbor_def)
      have "it\<lparr>it_tags := ts, it_dead := ds, it_policy := p\<rparr> = ?it\<lparr>it_tags := ts, it_dead := ds, it_policy := p\<rparr>" for ts ds p
        by (simp add: handle_dead_neighbor_def)
      moreover have "gather_detect react j i n it = gather_detect react j i n ?it"
        using i False by (subst gather_detect.simps) simp
      ultimately show ?thesis using less [OF l(1), of n] False l d by (simp add: live_def funpow_swap1)
    next
      case True
      have "gather_detect react j i n it
          = gather_detect react j (Suc i) (if waiting_value (tag_name ?t) j \<noteq> None then n + 1 else n) it"
        using i True job_has_data_waiting [OF assms] by (subst gather_detect.simps) simp
      moreover have "take (Suc i) (it_tags it) = take i (it_tags it) @ [?t]" using i by (simp add: take_Suc_conv_app_nth)
      moreover have lt: "length (it_tags it) - Suc i < length (it_tags it) - i" using i by simp
      ultimately show ?thesis
        using less [OF lt, of "if waiting_value (tag_name ?t) j \<noteq> None then n + 1 else n"] True d by (simp add: live_def)
    qed
  qed
qed

lemma gather_one_waiting:
  assumes "job_inv j" "job_buffered j"
  shows "\<exists>j'. gather_one deconvert (i, tag) (j, vals, updated) = Inr (case waiting_value tag j of
        None \<Rightarrow> (j, vals, updated)
      | Some v \<Rightarrow> (j', AList.update tag (deconvert v) vals, updated @ [i]))
    \<and> (waiting_value tag j \<noteq> None \<longrightarrow> job_inv j' \<and> job_buffered j'
        \<and> (\<forall>k. waiting_value k j' = (if k = tag then None else waiting_value k j))
        \<and> (\<forall>k. tag_has_active_publisher k j' = tag_has_active_publisher k j))"
proof (cases "waiting_value tag j")
  case None
  then show ?thesis by (simp add: gather_one_def job_has_data_waiting [OF assms])
next
  case (Some v)
  then obtain ti b where b: "map_of (job_bufs j) tag = Some ti" "ti_buffer ti = Some b" "db_has_data b" "db_value b = Some v"
    by (auto simp: waiting_value_def split: option.splits if_splits)
  let ?b = "b\<lparr>db_last_fetched := db_stored b\<rparr>"
  let ?j = "set_tag_info tag (ti\<lparr>ti_buffer := Some ?b\<rparr>) j"
  have g: "value_waiter_get tag j = Inr (Some v, ?j)" using b by (simp add: value_waiter_get_def db_get_def)
  have "job_inv ?j" using value_waiter_get_inv [OF assms(1) g] .
  moreover have "job_buffered ?j" using assms(2) by (simp add: job_buffered_set_tag_info)
  moreover have "\<not> db_has_data ?b" using b(3) by (simp add: db_has_data_def plus_one_le_iff)
  ultimately show ?thesis using Some b g
    by (intro exI [of _ ?j])
      (auto simp: gather_one_def job_has_data_waiting [OF assms] get_waiter_def waiting_value_def map_of_set_tag_info
        tag_has_active_publisher_def)
qed

lemma gather_all_waiting:
  assumes "job_inv j" "job_buffered j" "distinct (map snd its)"
  shows "\<exists>j' vals'. rfold (gather_one deconvert) its (j, vals, updated)
      = Inr (j', vals', updated @ map fst (filter (\<lambda>(i, tag). waiting_value tag j \<noteq> None) its))
    \<and> job_inv j' \<and> job_buffered j'
    \<and> (\<forall>k. waiting_value k j' = (if k \<in> snd ` set its then None else waiting_value k j))
    \<and> (\<forall>k. tag_has_active_publisher k j' = tag_has_active_publisher k j)
    \<and> (\<forall>k. map_of vals' k = (if k \<in> snd ` set its \<and> waiting_value k j \<noteq> None
                              then Some (deconvert (the (waiting_value k j))) else map_of vals k))"
  using assms
proof (induction its arbitrary: j vals updated)
  case Nil
  then show ?case by simp
next
  case (Cons it its)
  obtain i tag where it: "it = (i, tag)" by fastforce
  from gather_one_waiting [OF Cons.prems(1,2), of deconvert i tag vals updated] obtain j1 where
    g: "gather_one deconvert (i, tag) (j, vals, updated) = Inr (case waiting_value tag j of
        None \<Rightarrow> (j, vals, updated)
      | Some v \<Rightarrow> (j1, AList.update tag (deconvert v) vals, updated @ [i]))"
    "waiting_value tag j \<noteq> None \<longrightarrow> job_inv j1 \<and> job_buffered j1
        \<and> (\<forall>k. waiting_value k j1 = (if k = tag then None else waiting_value k j))
        \<and> (\<forall>k. tag_has_active_publisher k j1 = tag_has_active_publisher k j)" by blast
  have tag: "tag \<notin> snd ` set its" using Cons.prems(3) it by auto
  show ?case
  proof (cases "waiting_value tag j")
    case None
    then show ?thesis using g(1) Cons.IH [OF Cons.prems(1,2), of vals updated] Cons.prems(3) tag it by auto
  next
    case (Some v)
    then have j1: "job_inv j1" "job_buffered j1" "\<forall>k. waiting_value k j1 = (if k = tag then None else waiting_value k j)"
      "\<forall>k. tag_has_active_publisher k j1 = tag_has_active_publisher k j" using g(2) by auto
    have "filter (\<lambda>(i, t). waiting_value t j1 \<noteq> None) its = filter (\<lambda>(i, t). waiting_value t j \<noteq> None) its"
      using j1(3) tag by (intro filter_cong) force+
    then show ?thesis
      using g(1) Cons.IH [OF j1(1,2), of "AList.update tag (deconvert v) vals" "updated @ [i]"] Cons.prems(3) tag it Some j1(3,4)
      by (fastforce simp: update_conv')
  qed
qed

lemma deref_updated:
  "\<forall>i \<in> set is. i < length (nd_tags h) \<Longrightarrow>
    rfold (\<lambda>i ts. rbind (deref_tag i h) (\<lambda>t. Inr (ts @ [t]))) is ts = Inr (ts @ map (\<lambda>i. nd_tags h ! i) is)"
  by (induction "is" arbitrary: ts) (simp_all add: deref_tag_def)

lemma enumerate_nth: "(i, x) \<in> set (enumerate 0 xs) \<Longrightarrow> i < length xs \<and> xs ! i = x"
  by (auto simp: in_set_enumerate_eq)

lemma updated_filter:
  assumes "it_updated it = map fst (filter (\<lambda>(i, tag). P tag) (enumerate 0 (map tag_name (it_tags it))))" "\<not> it_moved it"
  shows "get_updated_tags (get_neighbor_data_handler f it) = Inr (filter P (map tag_name (it_tags it)))"
proof -
  let ?ks = "map tag_name (it_tags it)" let ?e = "enumerate 0 ?ks"
  have "get_updated_tags (get_neighbor_data_handler f it) = Inr (map (\<lambda>i. ?ks ! i) (map fst (filter (\<lambda>(i, tag). P tag) ?e)))"
    unfolding get_updated_tags_def using assms
    by (subst deref_updated) (auto simp: get_neighbor_data_handler_def dest: enumerate_nth)
  also have "map (\<lambda>i. ?ks ! i) (map fst (filter (\<lambda>(i, tag). P tag) ?e)) = map snd (filter (\<lambda>(i, tag). P tag) ?e)"
    by (auto dest: enumerate_nth)
  also have "\<dots> = filter P (map snd ?e)" by (simp only: filter_map o_def case_prod_unfold)
  finally show ?thesis by simp
qed

text \<open>C8: Gathering keeps the live tags and moves those without a publisher to the dead ones. It reports whether some
  live tag had a value; if so each such tag's newest value has become the neighbour's, every other neighbour
  keeps its value, the tags that were updated are exactly those, and nothing is left to take.\<close>

theorem gather_values_newest:
  assumes "job_inv j" "job_buffered j" "distinct (map tag_name (it_tags it))"
  shows "\<exists>got it' j'. gather_values deconvert react (it, j) = Inr (got, it', j')
    \<and> it_tags it' = live j (it_tags it)
    \<and> it_dead it' = it_dead it @ filter (\<lambda>t. \<not> tag_has_active_publisher (tag_name t) j) (it_tags it)
    \<and> (got \<longleftrightarrow> (\<exists>t \<in> set (live j (it_tags it)). waiting_value (tag_name t) j \<noteq> None))
    \<and> (\<forall>k. map_of (it_values it') k =
           (if k \<in> tag_name ` set (live j (it_tags it)) \<and> waiting_value k j \<noteq> None
            then Some (deconvert (the (waiting_value k j))) else map_of (it_values it) k))
    \<and> (\<forall>t \<in> set (it_tags it'). waiting_value (tag_name t) j' = None)
    \<and> (got \<longrightarrow> get_updated_tags (get_neighbor_data_handler f it')
              = Inr (filter (\<lambda>k. waiting_value k j \<noteq> None) (map tag_name (it_tags it'))))"
proof -
  let ?live = "live j (it_tags it)"
  let ?ks = "map tag_name ?live" and ?n = "length (filter (\<lambda>t. waiting_value (tag_name t) j \<noteq> None) (live j (it_tags it)))"
  obtain it1 where it1: "gather_detect react j 0 0 it = Inr (?n, it1)" "it_tags it1 = ?live"
      "it_dead it1 = it_dead it @ filter (\<lambda>t. \<not> tag_has_active_publisher (tag_name t) j) (it_tags it)"
      "it_values it1 = it_values it"
    using gather_detect_live [OF assms(1,2), of react 0 0 it] by auto
  show ?thesis
  proof (cases "?n = 0")
    case True
    then have none: "\<forall>t \<in> set ?live. waiting_value (tag_name t) j = None" by (auto simp: filter_empty_conv)
    have "gather_values deconvert react (it, j) = Inr (False, it1, j)" using it1(1) True by (simp add: gather_values_def)
    with it1 none show ?thesis by (intro exI [of _ False] exI [of _ it1] exI [of _ j]) auto
  next
    case False
    let ?e = "enumerate 0 ?ks"
    have dist: "distinct (map snd ?e)" using assms(3) by (simp add: live_def distinct_map_filter)
    from gather_all_waiting [OF assms(1,2) dist, of deconvert "it_values it" "[]"] obtain j' vals' where
      g: "rfold (gather_one deconvert) ?e (j, it_values it, [])
          = Inr (j', vals', map fst (filter (\<lambda>(i, tag). waiting_value tag j \<noteq> None) ?e))"
      and w: "\<forall>k. waiting_value k j' = (if k \<in> snd ` set ?e then None else waiting_value k j)"
      and v: "\<forall>k. map_of vals' k = (if k \<in> snd ` set ?e \<and> waiting_value k j \<noteq> None
                              then Some (deconvert (the (waiting_value k j))) else map_of (it_values it) k)" by auto
    have ks: "snd ` set ?e = tag_name ` set ?live" by (metis list.set_map map_snd_enumerate)
    define it' where "it' = it1\<lparr>it_values := vals', it_moved := False,
      it_updated := map fst (filter (\<lambda>(i, tag). waiting_value tag j \<noteq> None) ?e)\<rparr>"
    have gv: "gather_values deconvert react (it, j) = Inr (True, it', j')"
      using it1 False g by (simp add: gather_values_def it'_def)
    have up: "get_updated_tags (get_neighbor_data_handler f it') = Inr (filter (\<lambda>k. waiting_value k j \<noteq> None) ?ks)"
      using updated_filter [where it = it' and f = f and P = "\<lambda>k. waiting_value k j \<noteq> None"] by (simp add: it'_def it1(2))
    have "\<exists>t \<in> set ?live. waiting_value (tag_name t) j \<noteq> None" using False by (auto simp: filter_empty_conv)
    then show ?thesis using gv up w v it1 unfolding ks
      by (intro exI [of _ True] exI [of _ it'] exI [of _ j']) (auto simp: it'_def)
  qed
qed

section \<open>The loops\<close>

text \<open>The template arguments and what they bring: the processor, the conversion of values, the resilience and the
  publish policy, the time limit of \<^verbatim>\<open>StopAfterTime\<close>. \<open>me_pause\<close> is what happens to the clock and to the
  job while the thread sleeps or waits up to some milliseconds.\<close>

record ('v, 'p, 'r) iter_method =
  me_process :: "('v, 'v) handler \<Rightarrow> tag_id \<Rightarrow> 'r \<Rightarrow> 'r res"
  me_prepare :: "'v \<Rightarrow> 'r \<Rightarrow> 'v \<times> 'r"
  me_convert :: "'v \<Rightarrow> publish_value list"
  me_deconvert :: "publish_value list \<Rightarrow> 'v"
  me_react :: "'p \<Rightarrow> 'p"
  me_publish :: "'v \<Rightarrow> 'v \<Rightarrow> bool"
  me_max_run_time :: nat
  me_wait_max :: nat
  me_pause :: "nat \<Rightarrow> nat \<times> job \<Rightarrow> nat \<times> job"

record ('v, 'p, 'r) run_state =
  ar_it :: "('v, 'p) iterative"
  ar_job :: job
  ar_proc :: 'r
  ar_values :: 'v
  ar_iterate :: bool
  ar_count :: nat
  ar_clock :: nat
  ar_start :: "nat option"
  ar_stop :: "nat option"
  ar_sent :: "(version_id \<times> publish_value list) list"

definition run_time :: "('v, 'p, 'r) run_state \<Rightarrow> nat res" where
  "run_time st =
     (case ar_start st of
        None \<Rightarrow> Inr 0
      | Some start \<Rightarrow>
          if \<not> ar_iterate st
          then (case ar_stop st of None \<Rightarrow> Inl Undefined_Behaviour | Some stop \<Rightarrow> Inr (stop - start))
          else Inr (ar_clock st - start))"

text \<open>\<^verbatim>\<open>StopAfterTime::operator()\<close>.\<close>

definition stop_after_time :: "nat \<Rightarrow> ('v, 'p, 'r) run_state \<Rightarrow> bool res" where
  "stop_after_time max_run_time st = rbind (run_time st) (\<lambda>t. Inr (t > max_run_time))"

definition pause :: "('v, 'p, 'r) iter_method \<Rightarrow> nat \<Rightarrow> ('v, 'p, 'r) run_state \<Rightarrow> ('v, 'p, 'r) run_state" where
  "pause me ms st = (let (clock, j) = me_pause me ms (ar_clock st, ar_job st) in st\<lparr>ar_clock := clock, ar_job := j\<rparr>)"

definition submit :: "('v, 'p, 'r) iter_method \<Rightarrow> ('v, 'p, 'r) run_state \<Rightarrow> ('v, 'p, 'r) run_state res" where
  "submit me st =
     rbind (submit_values (me_convert me) (ar_values st) (ar_it st, ar_job st)) (\<lambda>(sent, j).
       Inr (st\<lparr>ar_job := j, ar_sent := ar_sent st @ [sent]\<rparr>))"

definition gather :: "('v, 'p, 'r) iter_method \<Rightarrow> ('v, 'p, 'r) run_state \<Rightarrow> (bool \<times> ('v, 'p, 'r) run_state) res" where
  "gather me st =
     rbind (gather_values (me_deconvert me) (me_react me) (ar_it st, ar_job st)) (\<lambda>(got, it, j).
       Inr (got, st\<lparr>ar_it := it, ar_job := j\<rparr>))"

text \<open>\<^verbatim>\<open>process_all_updates_\<close>.\<close>

definition process_all_updates :: "('v, 'p, 'r) iter_method \<Rightarrow> ('v, 'p, 'r) run_state \<Rightarrow> ('v, 'p, 'r) run_state res" where
  "process_all_updates me st =
     rbind (me_process me (get_neighbor_data_handler (\<lambda>v. v) (ar_it st)) (tag_name (it_produced (ar_it st))) (ar_proc st))
       (\<lambda>r. Inr (st\<lparr>ar_proc := r\<rparr>))"

text \<open>One round of the asynchronous loops: with new values, the body of the inner loop, without, the wait after
  it. The inner loop starts with the test that the outer one has just made, so that one loop is both.\<close>

definition async_round :: "('v, 'p, 'r) iter_method \<Rightarrow> ('v, 'p, 'r) run_state \<Rightarrow> ('v, 'p, 'r) run_state res" where
  "async_round me st =
     rbind (gather me st) (\<lambda>(got, st1).
       if got
       then rbind (process_all_updates me st1) (\<lambda>st2.
            let (new_vals, r) = me_prepare me (ar_values st2) (ar_proc st2); st3 = st2\<lparr>ar_proc := r\<rparr>
            in rbind (if me_publish me new_vals (ar_values st3) then submit me (st3\<lparr>ar_values := new_vals\<rparr>) else Inr st3) (\<lambda>st4.
               rbind (stop_after_time (me_max_run_time me) st4) (\<lambda>stop.
                 Inr (pause me 50 (st4\<lparr>ar_iterate := \<not> stop\<rparr>)))))
       else (let st2 = pause me (me_wait_max me) st1
             in rbind (stop_after_time (me_max_run_time me) st2) (\<lambda>stop. Inr (st2\<lparr>ar_iterate := stop\<rparr>))))"

fun async_loop :: "nat \<Rightarrow> ('v, 'p, 'r) iter_method \<Rightarrow> ('v, 'p, 'r) run_state \<Rightarrow> ('v, 'p, 'r) run_state res" where
  "async_loop 0 me st = Inl Runs_Forever"
| "async_loop (Suc n) me st =
     (if \<not> ar_iterate st then Inr (st\<lparr>ar_stop := Some (ar_clock st)\<rparr>)
      else rbind (async_round me st) (async_loop n me))"

definition begin_run :: "('v, 'p, 'r) iter_method \<Rightarrow> ('v, 'p, 'r) run_state \<Rightarrow> ('v, 'p, 'r) run_state res" where
  "begin_run me st =
     rbind (submit me (st\<lparr>ar_start := Some (ar_clock st)\<rparr>)) (\<lambda>st1. Inr (st1\<lparr>ar_iterate := True\<rparr>))"

definition async_run :: "nat \<Rightarrow> ('v, 'p, 'r) iter_method \<Rightarrow> ('v, 'p, 'r) run_state \<Rightarrow> ('v, 'p, 'r) run_state res" where
  "async_run n me st = rbind (begin_run me st) (async_loop n me)"

text \<open>The synchronous loop waits until every waiter of the tags is ready. The result of the gathering is not
  looked at.\<close>

fun conn_ids :: "tag_id list \<Rightarrow> job \<Rightarrow> (tag_id \<times> 16 word) list res" where
  "conn_ids [] j = Inr []"
| "conn_ids (tag # tags) j = rbind (get_waiter tag j) (\<lambda>c. rbind (conn_ids tags j) (\<lambda>cs. Inr ((tag, c) # cs)))"

text \<open>\<^verbatim>\<open>WaiterVec::is_ready\<close>.\<close>

fun all_ready :: "(tag_id \<times> 16 word) list \<Rightarrow> job \<Rightarrow> bool res" where
  "all_ready [] j = Inr True"
| "all_ready ((tag, c) # ws) j = rbind (value_waiter_ready tag c j) (\<lambda>r. if \<not> r then Inr False else all_ready ws j)"

definition sync_round :: "nat \<Rightarrow> ('v, 'p, 'r) iter_method \<Rightarrow> ('v, 'p, 'r) run_state \<Rightarrow> ('v, 'p, 'r) run_state res" where
  "sync_round wait_for_vals_max me st =
     rbind (conn_ids (map tag_name (it_tags (ar_it st))) (ar_job st)) (\<lambda>ws.
     let st1 = pause me wait_for_vals_max st
     in rbind (all_ready ws (ar_job st1)) (\<lambda>ready.
       if ready
       then rbind (gather me st1) (\<lambda>(got, st2).
            rbind (process_all_updates me st2) (\<lambda>st3.
            let (new_vals, r) = me_prepare me (ar_values st3) (ar_proc st3)
            in rbind (submit me (st3\<lparr>ar_count := ar_count st3 + 1, ar_proc := r, ar_values := new_vals\<rparr>)) (\<lambda>st4.
               rbind (stop_after_time (me_max_run_time me) st4) (\<lambda>stop.
                 Inr (pause me 50 (st4\<lparr>ar_iterate := \<not> stop\<rparr>))))))
       else (let st2 = pause me (me_wait_max me) st1
             in rbind (stop_after_time (me_max_run_time me) st2) (\<lambda>stop. Inr (st2\<lparr>ar_iterate := stop\<rparr>)))))"

fun sync_loop :: "nat \<Rightarrow> nat \<Rightarrow> ('v, 'p, 'r) iter_method \<Rightarrow> ('v, 'p, 'r) run_state \<Rightarrow> ('v, 'p, 'r) run_state res" where
  "sync_loop 0 w me st = Inl Runs_Forever"
| "sync_loop (Suc n) w me st =
     (if \<not> ar_iterate st then Inr (st\<lparr>ar_stop := Some (ar_clock st)\<rparr>)
      else rbind (sync_round w me st) (sync_loop n w me))"

definition sync_run :: "nat \<Rightarrow> nat \<Rightarrow> ('v, 'p, 'r) iter_method \<Rightarrow> ('v, 'p, 'r) run_state \<Rightarrow> ('v, 'p, 'r) run_state res" where
  "sync_run n w me st = rbind (begin_run me st) (sync_loop n w me)"

section \<open>When a run ends\<close>

text \<open>Where nothing arrives while the thread waits.\<close>

definition nothing_comes :: "('v, 'p, 'r) iter_method \<Rightarrow> ('v, 'p, 'r) run_state \<Rightarrow> bool" where
  "nothing_comes me st \<longleftrightarrow> (\<forall>ms clock. me_pause me ms (clock, ar_job st) = (clock + ms, ar_job st))
     \<and> job_inv (ar_job st) \<and> job_buffered (ar_job st)
     \<and> (\<forall>t \<in> set (it_tags (ar_it st)). tag_has_active_publisher (tag_name t) (ar_job st)
          \<and> waiting_value (tag_name t) (ar_job st) = None)"

lemma gather_nothing:
  assumes "nothing_comes me st"
  shows "gather me st = Inr (False, st)"
proof -
  have l: "live (ar_job st) (it_tags (ar_it st)) = it_tags (ar_it st)"
    "filter (\<lambda>t. \<not> tag_has_active_publisher (tag_name t) (ar_job st)) (it_tags (ar_it st)) = []"
    "filter (\<lambda>t. waiting_value (tag_name t) (ar_job st) \<noteq> None) (it_tags (ar_it st)) = []"
    using assms by (auto simp: nothing_comes_def live_def filter_id_conv filter_empty_conv)
  have "job_inv (ar_job st)" "job_buffered (ar_job st)" using assms by (simp_all add: nothing_comes_def)
  from gather_detect_live [OF this, of "me_react me" 0 0 "ar_it st"] l
  show ?thesis by (simp add: gather_def gather_values_def)
qed

text \<open>C38: The test after a wait is the wrong way round: a run that finds no new values waits once and, if its time is
  not up, ends there without having processed anything; if its time is up it goes on, for ever as long as
  nothing arrives.\<close>

theorem async_stop_inverted:
  assumes "nothing_comes me st" "ar_iterate st" "ar_start st = Some start" "start \<le> ar_clock st"
  shows "(ar_clock st + me_wait_max me - start \<le> me_max_run_time me \<longrightarrow>
           async_loop (Suc (Suc n)) me st
             = Inr (st\<lparr>ar_clock := ar_clock st + me_wait_max me, ar_iterate := False, ar_stop := Some (ar_clock st + me_wait_max me)\<rparr>))
    \<and> (ar_clock st + me_wait_max me - start > me_max_run_time me \<longrightarrow> async_loop n me st = Inl Runs_Forever)"
proof -
  have r: "async_round me u = Inr (u\<lparr>ar_clock := ar_clock u + me_wait_max me,
        ar_iterate := (ar_clock u + me_wait_max me - start > me_max_run_time me)\<rparr>)"
    if "nothing_comes me u" "ar_iterate u" "ar_start u = Some start" for u
    using gather_nothing [OF that(1)] that
    by (simp add: async_round_def pause_def nothing_comes_def stop_after_time_def run_time_def)
  have "async_loop n me u = Inl Runs_Forever"
    if "nothing_comes me u" "ar_iterate u" "ar_start u = Some start" "ar_clock u + me_wait_max me - start > me_max_run_time me" for u
    using that
  proof (induction n arbitrary: u)
    case (Suc n)
    let ?u = "u\<lparr>ar_clock := ar_clock u + me_wait_max me, ar_iterate := True\<rparr>"
    have "nothing_comes me ?u" using Suc.prems(1) by (simp add: nothing_comes_def)
    then have "async_loop n me ?u = Inl Runs_Forever" using Suc.prems by (intro Suc.IH) auto
    then show ?case using r [OF Suc.prems(1-3)] Suc.prems by simp
  qed simp
  moreover have "async_loop (Suc (Suc n)) me st
      = Inr (st\<lparr>ar_clock := ar_clock st + me_wait_max me, ar_iterate := False, ar_stop := Some (ar_clock st + me_wait_max me)\<rparr>)"
    if "ar_clock st + me_wait_max me - start \<le> me_max_run_time me"
    using r [OF assms(1-3)] that assms(2) by simp
  ultimately show ?thesis using assms by blast
qed

lemma pause_fields [simp]:
  "ar_sent (pause me ms st) = ar_sent st" "ar_count (pause me ms st) = ar_count st" "ar_it (pause me ms st) = ar_it st"
  "ar_iterate (pause me ms st) = ar_iterate st" "ar_start (pause me ms st) = ar_start st"
  by (simp_all add: pause_def case_prod_unfold Let_def)

lemma submit_sent: "submit me st = Inr st' \<Longrightarrow> length (ar_sent st') = Suc (length (ar_sent st)) \<and> ar_count st' = ar_count st"
  by (auto simp: submit_def rbind_eq_Inr_iff)

lemma gather_sent: "gather me st = Inr (got, st') \<Longrightarrow> ar_sent st' = ar_sent st \<and> ar_count st' = ar_count st"
  by (auto simp: gather_def rbind_eq_Inr_iff)

lemma process_sent: "process_all_updates me st = Inr st' \<Longrightarrow> ar_sent st' = ar_sent st \<and> ar_count st' = ar_count st"
  by (auto simp: process_all_updates_def rbind_eq_Inr_iff)

lemma sync_round_sent:
  assumes "sync_round w me st = Inr st'"
  shows "length (ar_sent st') + ar_count st = length (ar_sent st) + ar_count st'"
  using assms
  by (fastforce simp: sync_round_def rbind_eq_Inr_iff Let_def case_prod_unfold split: if_split_asm
      dest: gather_sent process_sent submit_sent)

text \<open>A synchronous run publishes once when it begins and once in every iteration that it counts.\<close>

theorem sync_publishes_each_iteration:
  assumes "sync_run n w me st = Inr st'"
  shows "length (ar_sent st') - length (ar_sent st) = Suc (ar_count st' - ar_count st) \<and> ar_count st \<le> ar_count st'"
proof -
  have round: "ar_count u \<le> ar_count v" if "sync_round w me u = Inr v" for u v
    using that by (fastforce simp: sync_round_def rbind_eq_Inr_iff Let_def case_prod_unfold split: if_split_asm
      dest: gather_sent process_sent submit_sent)
  have loop: "length (ar_sent v) + ar_count u = length (ar_sent u) + ar_count v \<and> ar_count u \<le> ar_count v"
    if "sync_loop k w me u = Inr v" for k u v
    using that
  proof (induction k arbitrary: u)
    case (Suc k)
    show ?case
    proof (cases "ar_iterate u")
      case True
      with Suc.prems obtain x where x: "sync_round w me u = Inr x" "sync_loop k w me x = Inr v"
        by (auto simp: rbind_eq_Inr_iff)
      from Suc.IH [OF x(2)] sync_round_sent [OF x(1)] round [OF x(1)] show ?thesis by linarith
    next
      case False
      then show ?thesis using Suc.prems by auto
    qed
  qed simp
  obtain u where u: "begin_run me st = Inr u" "sync_loop n w me u = Inr st'"
    using assms by (auto simp: sync_run_def rbind_eq_Inr_iff)
  from u(1) have "length (ar_sent u) = Suc (length (ar_sent st)) \<and> ar_count u = ar_count st"
    by (fastforce simp: begin_run_def rbind_eq_Inr_iff dest: submit_sent)
  with loop [OF u(2)] show ?thesis by linarith
qed

text \<open>When the only neighbour of a synchronous method dies its waiter is ready, the gathering takes the tag out
  and reports that there is nothing new, which is not looked at: the processor then follows the pointers to
  updated tags of the round before, which point behind the end of the tags.\<close>

theorem sync_dead_neighbor_dangles:
  assumes "it_tags (ar_it st) = [t]" "it_updated (ar_it st) = [0]" "\<And>ms clock j. snd (me_pause me ms (clock, j)) = j"
    and "map_of (job_bufs (ar_job st)) (tag_name t) = Some ti" "ti_buffer ti = Some b" "ti_error ti = Disconnected"
    and "\<And>h tag r. me_process me h tag r = rbind (get_updated_tags h) (rest h tag r)"
  shows "sync_round w me st = Inl Undefined_Behaviour"
proof -
  have "ar_job (pause me ms u) = ar_job u" for ms u
    by (simp add: pause_def case_prod_unfold Let_def assms(3))
  moreover have "\<not> tag_has_active_publisher (tag_name t) (ar_job st)"
    using assms(4,6) by (simp add: tag_has_active_publisher_def)
  ultimately show ?thesis using assms(1,2,4-7)
    by (simp add: sync_round_def get_waiter_def value_waiter_ready_def gather_def gather_values_def
        gather_detect.simps [of _ _ 0 0] handle_dead_neighbor_def process_all_updates_def Let_def
        get_neighbor_data_handler_def get_updated_tags_def deref_tag_def)
qed

section \<open>Witnesses\<close>

definition sample_method :: "(publish_value list, unit, nat) iter_method" where
  "sample_method = \<lparr>me_process = (\<lambda>h tag r. rbind (get_updated_tags h) (\<lambda>tags. Inr (r + length tags))),
     me_prepare = (\<lambda>v r. ([V_int32 (of_nat r)], r)), me_convert = (\<lambda>v. v), me_deconvert = (\<lambda>v. v),
     me_react = trivial_handle_dead_neighbor, me_publish = (\<lambda>new old. True), me_max_run_time = 100, me_wait_max = 10,
     me_pause = (\<lambda>ms (clock, j). (clock + ms, j))\<rparr>"

definition sample_iterative :: "(publish_value list, unit) iterative" where
  "sample_iterative = new_iterative \<lparr>tag_name = ''pb'', tag_types = [8]\<rparr> [\<lparr>tag_name = ''pa'', tag_types = [8]\<rparr>] () sample_job"

definition sample_state :: "job \<Rightarrow> (publish_value list, unit, nat) run_state" where
  "sample_state j = \<lparr>ar_it = sample_iterative, ar_job = j, ar_proc = 0, ar_values = [V_int32 0], ar_iterate = True,
     ar_count = 0, ar_clock = 5, ar_start = Some 0, ar_stop = None, ar_sent = []\<rparr>"

lemma sample_iterative_tags: "it_tags sample_iterative = [\<lparr>tag_name = ''pa'', tag_types = [8]\<rparr>]"
  by (simp add: sample_iterative_def new_iterative_def tag_has_active_publisher_def sample_job_def sample_info_def)

lemma gather_values_newest_witness:
  "\<exists>j1 it' j2. process_data ''pa'' [V_int32 7] 3 sample_job = Inr (True, j1)
     \<and> gather_values (\<lambda>v. v) trivial_handle_dead_neighbor (sample_iterative, j1) = Inr (True, it', j2)
     \<and> map_of (it_values it') ''pa'' = Some [V_int32 7]"
proof -
  let ?b = "(new_discard_buffer [T_int32])\<lparr>db_stored := 3, db_value := Some [V_int32 7]\<rparr>"
  let ?j = "notify_update (set_tag_info ''pa'' (sample_info\<lparr>ti_buffer := Some ?b\<rparr>) sample_job)"
  have p: "process_data ''pa'' [V_int32 7] 3 sample_job = Inr (True, ?j)"
    by (simp add: process_data_def sample_job_def sample_info_def span_is_valid_types_match [symmetric]
        span_is_valid_iff db_add_def new_discard_buffer_def make_value_def tag_no_data_def)
  have inv: "job_inv ?j" "job_buffered ?j"
    using process_data_inv [OF sample_job_inv(1) p] sample_job_inv(2) by (simp_all add: job_buffered_set_tag_info)
  have w: "waiting_value ''pa'' ?j = Some [V_int32 7]" "tag_has_active_publisher ''pa'' ?j"
    by (simp_all add: waiting_value_def map_of_set_tag_info db_has_data_def new_discard_buffer_def tag_no_data_def
        tag_has_active_publisher_def sample_info_def)
  have "distinct (map tag_name (it_tags sample_iterative))" by (simp add: sample_iterative_tags)
  from gather_values_newest [OF inv this, of "\<lambda>v. v" trivial_handle_dead_neighbor "\<lambda>v. v"] obtain got it' j' where
    g: "gather_values (\<lambda>v. v) trivial_handle_dead_neighbor (sample_iterative, ?j) = Inr (got, it', j')"
    "got" "map_of (it_values it') ''pa'' = Some [V_int32 7]"
    using w by (auto simp: sample_iterative_tags live_def)
  then show ?thesis using p by auto
qed

lemma async_stop_inverted_witness:
  "async_loop 2 sample_method (sample_state sample_job)
     = Inr ((sample_state sample_job)\<lparr>ar_clock := 15, ar_iterate := False, ar_stop := Some 15\<rparr>)"
proof -
  have "nothing_comes sample_method (sample_state sample_job)"
    by (simp add: nothing_comes_def sample_method_def sample_state_def sample_iterative_tags sample_job_inv)
      (simp add: sample_job_def sample_info_def tag_has_active_publisher_def waiting_value_def new_discard_buffer_def
        db_has_data_def)
  from async_stop_inverted [OF this, of 0 0] show ?thesis
    by (simp add: sample_state_def sample_method_def numeral_2_eq_2 [symmetric])
qed

lemma sync_publishes_each_iteration_witness:
  "\<exists>st'. sync_run 2 0 sample_method (sample_state sample_job) = Inr st' \<and> length (ar_sent st') = Suc (ar_count st')"
proof -
  have "\<exists>st'. sync_run 2 0 sample_method (sample_state sample_job) = Inr st'"
    by (simp add: sync_run_def begin_run_def submit_def submit_values_def sample_state_def sample_method_def publish_impl_def
        sample_iterative_def new_iterative_def sample_job_def sample_info_def tag_has_active_publisher_def
        sync_round_def numeral_2_eq_2 get_waiter_def pause_def value_waiter_ready_def db_has_data_def new_discard_buffer_def
        stop_after_time_def run_time_def Let_def has_key_def)
  then obtain st' where st': "sync_run 2 0 sample_method (sample_state sample_job) = Inr st'" by blast
  from sync_publishes_each_iteration [OF st'] st' show ?thesis by (auto simp: sample_state_def)
qed

lemma sync_dead_neighbor_dangles_witness:
  "sync_round 0 sample_method ((sample_state (mark_tag_as_dead ''pa'' sample_job))\<lparr>ar_it := sample_iterative\<lparr>it_updated := [0]\<rparr>\<rparr>)
     = Inl Undefined_Behaviour"
  by (rule sync_dead_neighbor_dangles [where t = "\<lparr>tag_name = ''pa'', tag_types = [8]\<rparr>"
        and ti = "sample_info\<lparr>ti_error := Disconnected, ti_connection_id := 1\<rparr>" and b = "new_discard_buffer [T_int32]"
        and rest = "\<lambda>h tag r tags. Inr (r + length tags)"])
    (simp_all add: sample_state_def sample_iterative_tags sample_method_def mark_tag_as_dead_def sample_job_def
      sample_info_def notify_update_def set_tag_info_def)

end
