(* ===== verification/Sky_Waiter.thy ===== *)
theory Sky_Waiter
  imports Sky_Prelude
begin

text \<open>
  \<^verbatim>\<open>skywing_core/waiter.hpp\<close>: waiters, vectors of waiters and continuations. The mutex and the condition
  variable stand for a state that other threads change: \<open>wake\<close> is what they do to the clock and the state until
  the waiting thread is next woken. A wait that never ends is \<open>None\<close>.
\<close>

section \<open>One waiter\<close>

text \<open>An instant waiter has no mutex.\<close>

record ('s, 'a) waiter =
  wt_instant :: bool
  wt_ready :: "'s \<Rightarrow> bool"
  wt_value :: "'s \<Rightarrow> 'a \<times> 's"

definition make_waiter :: "('s \<Rightarrow> bool) \<Rightarrow> ('s \<Rightarrow> 'a \<times> 's) \<Rightarrow> ('s, 'a) waiter" where
  "make_waiter is_ready get_value = \<lparr>wt_instant = False, wt_ready = is_ready, wt_value = get_value\<rparr>"

definition make_void_waiter :: "('s \<Rightarrow> bool) \<Rightarrow> ('s, unit) waiter" where
  "make_void_waiter is_ready = make_waiter is_ready (\<lambda>s. ((), s))"

definition instant_waiter :: "('s \<Rightarrow> 'a \<times> 's) \<Rightarrow> ('s, 'a) waiter" where
  "instant_waiter get_value = \<lparr>wt_instant = True, wt_ready = (\<lambda>s. True), wt_value = get_value\<rparr>"

text \<open>\<^verbatim>\<open>is_ready_no_lock\<close> and \<^verbatim>\<open>is_ready\<close>.\<close>

definition waiter_is_ready :: "('s, 'a) waiter \<Rightarrow> 's \<Rightarrow> bool" where
  "waiter_is_ready w s \<longleftrightarrow> wt_instant w \<or> wt_ready w s"

text \<open>\<^verbatim>\<open>condition_variable::wait\<close> and \<^verbatim>\<open>wait_until\<close> with a predicate.\<close>

partial_function (option) cv_wait :: "(nat \<times> 's \<Rightarrow> nat \<times> 's) \<Rightarrow> ('s \<Rightarrow> bool) \<Rightarrow> nat \<times> 's \<Rightarrow> (nat \<times> 's) option" where
  "cv_wait wake pred c = (if pred (snd c) then Some c else cv_wait wake pred (wake c))"

partial_function (option) cv_wait_until :: "(nat \<times> 's \<Rightarrow> nat \<times> 's) \<Rightarrow> ('s \<Rightarrow> bool) \<Rightarrow> nat \<Rightarrow> nat \<times> 's
    \<Rightarrow> (bool \<times> nat \<times> 's) option" where
  "cv_wait_until wake pred end_time c =
     (if pred (snd c) then Some (True, c)
      else if fst (wake c) \<ge> end_time then Some (pred (snd (wake c)), wake c)
      else cv_wait_until wake pred end_time (wake c))"

definition waiter_wait :: "(nat \<times> 's \<Rightarrow> nat \<times> 's) \<Rightarrow> ('s, 'a) waiter \<Rightarrow> nat \<times> 's \<Rightarrow> (nat \<times> 's) option" where
  "waiter_wait wake w c = (if wt_instant w then Some c else cv_wait wake (waiter_is_ready w) c)"

definition waiter_get :: "(nat \<times> 's \<Rightarrow> nat \<times> 's) \<Rightarrow> ('s, 'a) waiter \<Rightarrow> nat \<times> 's \<Rightarrow> ('a \<times> nat \<times> 's) option" where
  "waiter_get wake w c =
     Option.bind (waiter_wait wake w c) (\<lambda>(t, s). let (v, s') = wt_value w s in Some (v, t, s'))"

definition waiter_wait_until :: "(nat \<times> 's \<Rightarrow> nat \<times> 's) \<Rightarrow> ('s, 'a) waiter \<Rightarrow> nat \<Rightarrow> nat \<times> 's
    \<Rightarrow> (bool \<times> nat \<times> 's) option" where
  "waiter_wait_until wake w end_time c =
     (if wt_instant w then Some (True, c) else cv_wait_until wake (waiter_is_ready w) end_time c)"

definition waiter_wait_for :: "(nat \<times> 's \<Rightarrow> nat \<times> 's) \<Rightarrow> ('s, 'a) waiter \<Rightarrow> nat \<Rightarrow> nat \<times> 's
    \<Rightarrow> (bool \<times> nat \<times> 's) option" where
  "waiter_wait_for wake w wait_time c =
     (if wt_instant w then Some (True, c) else waiter_wait_until wake w (fst c + wait_time) c)"

section \<open>Vectors of waiters\<close>

fun waitervec_wait :: "(nat \<times> 's \<Rightarrow> nat \<times> 's) \<Rightarrow> ('s, 'a) waiter list \<Rightarrow> nat \<times> 's \<Rightarrow> (nat \<times> 's) option" where
  "waitervec_wait wake [] c = Some c"
| "waitervec_wait wake (w # ws) c = Option.bind (waiter_wait wake w c) (waitervec_wait wake ws)"

fun waitervec_get :: "(nat \<times> 's \<Rightarrow> nat \<times> 's) \<Rightarrow> ('s, 'a) waiter list \<Rightarrow> nat \<times> 's \<Rightarrow> ('a list \<times> nat \<times> 's) option" where
  "waitervec_get wake [] c = Some ([], c)"
| "waitervec_get wake (w # ws) c =
     Option.bind (waiter_get wake w c) (\<lambda>(v, c1). Option.bind (waitervec_get wake ws c1) (\<lambda>(vs, c2). Some (v # vs, c2)))"

fun waitervec_wait_until :: "(nat \<times> 's \<Rightarrow> nat \<times> 's) \<Rightarrow> ('s, 'a) waiter list \<Rightarrow> nat \<Rightarrow> nat \<times> 's
    \<Rightarrow> (bool \<times> nat \<times> 's) option" where
  "waitervec_wait_until wake [] end_time c = Some (True, c)"
| "waitervec_wait_until wake (w # ws) end_time c =
     Option.bind (waiter_wait_until wake w end_time c) (\<lambda>(okay, c1).
       if \<not> okay then Some (False, c1) else waitervec_wait_until wake ws end_time c1)"

definition waitervec_wait_for :: "(nat \<times> 's \<Rightarrow> nat \<times> 's) \<Rightarrow> ('s, 'a) waiter list \<Rightarrow> nat \<Rightarrow> nat \<times> 's
    \<Rightarrow> (bool \<times> nat \<times> 's) option" where
  "waitervec_wait_for wake ws wait_time c = waitervec_wait_until wake ws (fst c + wait_time) c"

fun waitervec_is_ready :: "('s, 'a) waiter list \<Rightarrow> 's \<Rightarrow> bool" where
  "waitervec_is_ready [] s = True"
| "waitervec_is_ready (w # ws) s = (if \<not> waiter_is_ready w s then False else waitervec_is_ready ws s)"

section \<open>Continuations\<close>

text \<open>The value goes through the continuations in the order in which \<^verbatim>\<open>then\<close> appended them; the C++ types between
  them are one type here.\<close>

definition then_continuations :: "('a \<Rightarrow> 'a) list \<Rightarrow> ('a \<Rightarrow> 'a) list \<Rightarrow> ('a \<Rightarrow> 'a) list" where
  "then_continuations continuations new = continuations @ new"

fun handle_continuations :: "'a \<Rightarrow> ('a \<Rightarrow> 'a) list \<Rightarrow> 'a" where
  "handle_continuations build_up [] = build_up"
| "handle_continuations build_up (next # rest) = handle_continuations (next build_up) rest"

definition continuation_get :: "(nat \<times> 's \<Rightarrow> nat \<times> 's) \<Rightarrow> ('s, 'a) waiter \<Rightarrow> ('a \<Rightarrow> 'a) list \<Rightarrow> nat \<times> 's
    \<Rightarrow> ('a \<times> nat \<times> 's) option" where
  "continuation_get wake w continuations c =
     Option.bind (waiter_get wake w c) (\<lambda>(v, c'). Some (handle_continuations v continuations, c'))"

section \<open>What a wait guarantees\<close>

text \<open>Other threads do not undo the readiness, and the clock goes on.\<close>

definition stays_ready :: "(nat \<times> 's \<Rightarrow> nat \<times> 's) \<Rightarrow> ('s, 'a) waiter \<Rightarrow> bool" where
  "stays_ready wake w \<longleftrightarrow> (\<forall>c. waiter_is_ready w (snd c) \<longrightarrow> waiter_is_ready w (snd (wake c)))"

definition clock_advances :: "(nat \<times> 's \<Rightarrow> nat \<times> 's) \<Rightarrow> bool" where
  "clock_advances wake \<longleftrightarrow> (\<forall>c. fst c < fst (wake c))"

lemma cv_wait_until_ends:
  assumes "clock_advances wake"
  shows "\<exists>b c' n. cv_wait_until wake pred end_time c = Some (b, c') \<and> b = pred (snd c') \<and> c' = (wake ^^ n) c
    \<and> (\<not> b \<longrightarrow> end_time \<le> fst c')"
proof (induction "end_time - fst c" arbitrary: c rule: less_induct)
  case less
  have w: "fst c < fst (wake c)" using assms unfolding clock_advances_def by blast
  show ?case
  proof (cases "pred (snd c)")
    case True
    then have "cv_wait_until wake pred end_time c = Some (True, c)" by (subst cv_wait_until.simps) simp
    moreover have "c = (wake ^^ 0) c" by simp
    ultimately show ?thesis using True by blast
  next
    case False
    show ?thesis
    proof (cases "fst (wake c) \<ge> end_time")
      case True
      with False have "cv_wait_until wake pred end_time c = Some (pred (snd (wake c)), wake c)"
        by (subst cv_wait_until.simps) simp
      moreover have "wake c = (wake ^^ 1) c" by simp
      ultimately show ?thesis using True by blast
    next
      case later: False
      then have "end_time - fst (wake c) < end_time - fst c" using w by simp
      from less [OF this] obtain b c' n where n:
        "cv_wait_until wake pred end_time (wake c) = Some (b, c')" "b = pred (snd c')" "c' = (wake ^^ n) (wake c)"
        "\<not> b \<longrightarrow> end_time \<le> fst c'" by blast
      have "cv_wait_until wake pred end_time c = cv_wait_until wake pred end_time (wake c)"
        using False later by (subst cv_wait_until.simps) simp
      moreover have "(wake ^^ n) (wake c) = (wake ^^ Suc n) c" by (simp add: funpow_swap1)
      ultimately have "cv_wait_until wake pred end_time c = Some (b, c') \<and> b = pred (snd c') \<and> c' = (wake ^^ Suc n) c
        \<and> (\<not> b \<longrightarrow> end_time \<le> fst c')" using n by metis
      then show ?thesis by blast
    qed
  qed
qed

lemma waiter_wait_until_ends:
  assumes "clock_advances wake"
  shows "\<exists>b c' n. waiter_wait_until wake w end_time c = Some (b, c') \<and> b = waiter_is_ready w (snd c') \<and> c' = (wake ^^ n) c
    \<and> (\<not> b \<longrightarrow> end_time \<le> fst c')"
proof (cases "wt_instant w")
  case True
  then have "waiter_wait_until wake w end_time c = Some (True, c)" "waiter_is_ready w (snd c)"
    by (simp_all add: waiter_wait_until_def waiter_is_ready_def)
  moreover have "c = (wake ^^ 0) c" by simp
  ultimately show ?thesis by metis
next
  case False
  then show ?thesis using cv_wait_until_ends [OF assms, of "waiter_is_ready w" end_time c]
    by (simp add: waiter_wait_until_def)
qed

lemma stays_ready_funpow: "stays_ready wake w \<Longrightarrow> waiter_is_ready w (snd c) \<Longrightarrow> waiter_is_ready w (snd ((wake ^^ n) c))"
proof (induction n)
  case (Suc n)
  then have "waiter_is_ready w (snd (wake ((wake ^^ n) c)))" unfolding stays_ready_def by blast
  then show ?case by simp
qed simp

lemma waitervec_is_ready_iff: "waitervec_is_ready ws s \<longleftrightarrow> (\<forall>w \<in> set ws. waiter_is_ready w s)"
  by (induction ws) auto

text \<open>A wait of a vector of waiters until a time always ends. If it reports success, all of the waiters are ready
  at once, although they were waited for one after the other, provided that none ceases to be ready; if it
  reports failure, the time is up and one of them is not ready.\<close>

theorem waitervec_wait_until_ready:
  assumes "clock_advances wake" "\<forall>w \<in> set ws. stays_ready wake w"
  shows "\<exists>b c'. waitervec_wait_until wake ws end_time c = Some (b, c')
    \<and> b = waitervec_is_ready ws (snd c') \<and> (\<not> b \<longrightarrow> end_time \<le> fst c')"
proof -
  have "\<exists>b c' n. waitervec_wait_until wake ws end_time c = Some (b, c') \<and> c' = (wake ^^ n) c
    \<and> b = waitervec_is_ready ws (snd c') \<and> (\<not> b \<longrightarrow> end_time \<le> fst c')" using assms(2)
  proof (induction ws arbitrary: c)
    case Nil
    have "c = (wake ^^ 0) c" by simp
    then show ?case by (metis waitervec_is_ready.simps(1) waitervec_wait_until.simps(1))
  next
    case (Cons w ws)
    obtain b c1 n where w: "waiter_wait_until wake w end_time c = Some (b, c1)" "b = waiter_is_ready w (snd c1)"
      "c1 = (wake ^^ n) c" "\<not> b \<longrightarrow> end_time \<le> fst c1"
      using waiter_wait_until_ends [OF assms(1), of w end_time c] by blast
    show ?case
    proof (cases b)
      case False
      with w have "waitervec_wait_until wake (w # ws) end_time c = Some (False, c1)"
        "\<not> waitervec_is_ready (w # ws) (snd c1)" by simp_all
      with w False show ?thesis by metis
    next
      case True
      obtain d c2 m where ws: "waitervec_wait_until wake ws end_time c1 = Some (d, c2)" "c2 = (wake ^^ m) c1"
        "d = waitervec_is_ready ws (snd c2)" "\<not> d \<longrightarrow> end_time \<le> fst c2"
        using Cons.IH [of c1] Cons.prems by (metis list.set_intros(2))
      have "waiter_is_ready w (snd c2)" using stays_ready_funpow [of wake w c1 m] Cons.prems True w(2) ws(2) by simp
      then have "waitervec_wait_until wake (w # ws) end_time c = Some (d, c2)" "d = waitervec_is_ready (w # ws) (snd c2)"
        using w(1) ws(1,3) True by simp_all
      moreover have "c2 = (wake ^^ (m + n)) c" using ws(2) w(3) by (simp add: funpow_add)
      ultimately show ?thesis using ws(4) by blast
    qed
  qed
  then show ?thesis by blast
qed

text \<open>A counter that goes up when the thread is woken, and two waiters for its reaching 1 and 3.\<close>

definition tick :: "nat \<times> nat \<Rightarrow> nat \<times> nat" where
  "tick = (\<lambda>(t, s). (t + 10, s + 1))"

lemma waitervec_wait_until_ready_witness:
  "\<exists>b c'. waitervec_wait_until tick [make_void_waiter (\<lambda>s. s \<ge> 3), make_void_waiter (\<lambda>s. s \<ge> 1)] 25 (0, 0) = Some (b, c')
     \<and> b = (3 \<le> snd c') \<and> (\<not> b \<longrightarrow> 25 \<le> fst c')"
proof -
  let ?ws = "[make_void_waiter (\<lambda>s :: nat. s \<ge> 3), make_void_waiter (\<lambda>s. s \<ge> 1)]"
  have "clock_advances tick" by (auto simp: clock_advances_def tick_def)
  moreover have "\<forall>w \<in> set ?ws. stays_ready tick w"
    by (auto simp: stays_ready_def tick_def waiter_is_ready_def make_void_waiter_def make_waiter_def)
  ultimately obtain b c' where
    "waitervec_wait_until tick ?ws 25 (0, 0) = Some (b, c')"
    "b = waitervec_is_ready ?ws (snd c')" "\<not> b \<longrightarrow> 25 \<le> fst c'"
    using waitervec_wait_until_ready [of tick ?ws 25 "(0, 0)"] by blast
  then show ?thesis
    by (auto simp: waiter_is_ready_def make_void_waiter_def make_waiter_def)
qed

end
