(* ===== verification/Sky_Policies.thy ===== *)
theory Sky_Policies
  imports Sky_Iterative Sky_Waiter Sky_Manager Complex_Main
begin

text \<open>
  What an iterative method of \<^verbatim>\<open>skywing_mid\<close> is put together from: the publish policies of
  \<^verbatim>\<open>publish_policies.hpp\<close>, the policies that publish values of their own next to the processor
  (\<^verbatim>\<open>iterative_method.hpp\<close>, \<^verbatim>\<open>internal/iterative_helpers.hpp\<close>), the constructors of both methods and the
  \<^verbatim>\<open>WaiterBuilder\<close>s of \<^verbatim>\<open>asynchronous_iterative.hpp\<close> and \<^verbatim>\<open>synchronous_iterative.hpp\<close>.
\<close>

section \<open>Publish policies\<close>

definition always_publish :: "'v \<Rightarrow> 'v \<Rightarrow> bool" where
  "always_publish new_vals old_vals = True"

text \<open>\<^verbatim>\<open>PublishOnLinfShift\<close>: the loop looks for the end of the new values only.\<close>

fun publish_on_linf_shift :: "real \<Rightarrow> real list \<Rightarrow> real list \<Rightarrow> bool res" where
  "publish_on_linf_shift thresh [] old_vals = Inr False"
| "publish_on_linf_shift thresh (x # new_vals) [] = Inl Undefined_Behaviour"
| "publish_on_linf_shift thresh (x # new_vals) (y # old_vals) =
     (if \<bar>x - y\<bar> > thresh then Inr True else publish_on_linf_shift thresh new_vals old_vals)"

text \<open>\<^verbatim>\<open>PublishOnRatioShift\<close>. The positions are template arguments; a quotient by zero is not a number of the model.\<close>

definition publish_on_ratio_shift :: "nat \<Rightarrow> nat \<Rightarrow> real \<Rightarrow> real list \<Rightarrow> real list \<Rightarrow> bool res" where
  "publish_on_ratio_shift ind1 ind2 thresh new_vals old_vals =
     (if new_vals ! ind2 = 0 \<or> old_vals ! ind2 = 0 then Inl Undefined_Behaviour
      else let new_ratio = new_vals ! ind1 / new_vals ! ind2; old_ratio = old_vals ! ind1 / old_vals ! ind2
           in Inr (new_ratio - old_ratio > thresh \<or> old_ratio - new_ratio > thresh))"

text \<open>What the neighbours have after a step with new values: a policy decides whether they are sent.\<close>

definition publish_step :: "('v \<Rightarrow> 'v \<Rightarrow> bool res) \<Rightarrow> 'v \<Rightarrow> 'v \<Rightarrow> 'v res" where
  "publish_step policy new_vals publish_values =
     rbind (policy new_vals publish_values) (\<lambda>publish. Inr (if publish then new_vals else publish_values))"

lemma linf_shift:
  "publish_on_linf_shift thresh new_vals old_vals =
     (if \<exists>(x, y) \<in> set (zip new_vals old_vals). \<bar>x - y\<bar> > thresh then Inr True
      else if length new_vals \<le> length old_vals then Inr False else Inl Undefined_Behaviour)"
  by (induction thresh new_vals old_vals rule: publish_on_linf_shift.induct) auto

text \<open>With the policy for the maximum norm, what the neighbours have is never further from the current values than the
  threshold, however many steps go by without a message; and the values that are sent last are always those
  of some step. Values of another length than before are not caught by the policy but read past the end.\<close>

theorem linf_drift_bounded:
  assumes "rfold (publish_step (publish_on_linf_shift thresh)) (steps @ [v]) published = Inr w"
    and "0 \<le> thresh" "\<forall>u \<in> set (steps @ [v]). length u = length published"
  shows "length w = length v \<and> (\<forall>i < length v. \<bar>v ! i - w ! i\<bar> \<le> thresh) \<and> w \<in> set (published # steps @ [v])"
proof -
  obtain p where p: "rfold (publish_step (publish_on_linf_shift thresh)) steps published = Inr p"
    "publish_step (publish_on_linf_shift thresh) v p = Inr w"
    using assms(1) by (auto simp: rfold_append rbind_eq_Inr_iff)
  have "p \<in> set (published # steps)"
    by (rule rfold_inv [OF p(1), where P = "\<lambda>q. q \<in> set (published # steps)"])
      (auto simp: publish_step_def rbind_eq_Inr_iff split: if_splits)
  moreover from this have len: "length p = length v" using assms(3) by auto
  obtain b where b: "publish_on_linf_shift thresh v p = Inr b" "w = (if b then v else p)"
    using p(2) by (auto simp: publish_step_def rbind_eq_Inr_iff)
  moreover have "\<bar>v ! i - p ! i\<bar> \<le> thresh" if "\<not> b" "i < length v" for i
  proof -
    have "\<forall>(x, y) \<in> set (zip v p). \<bar>x - y\<bar> \<le> thresh" using b(1) that(1) by (auto simp: linf_shift not_less split: if_split_asm)
    moreover have "(v ! i, p ! i) \<in> set (zip v p)" using that(2) len by (auto simp: set_zip)
    ultimately show ?thesis by blast
  qed
  ultimately show ?thesis using len assms(2) by (cases b) auto
qed

lemma linf_drift_bounded_witness:
  "publish_step (publish_on_linf_shift (1 / 2)) [3 / 4, 0] [1 / 2, 0] = Inr [1 / 2, 0] \<and> \<bar>3 / 4 - 1 / 2 :: real\<bar> \<le> 1 / 2"
proof -
  have r: "rfold (publish_step (publish_on_linf_shift (1 / 2))) ([] @ [[3 / 4, 0]]) [1 / 2, 0] = Inr [1 / 2, 0]"
    by (simp add: publish_step_def)
  show ?thesis using linf_drift_bounded [OF r] by (simp add: publish_step_def)
qed

section \<open>Policies with values\<close>

text \<open>A processor or a policy: with a \<^verbatim>\<open>ValueType\<close> it publishes and processes values, without one it does neither. The
  values and the states of all components are of one type here. The value of an iteration is the tuple of the
  values of those that publish, in the order of the template arguments.\<close>

record ('v, 's) component =
  co_type :: string
  co_publishes :: bool                                   \<comment> \<open>\<^verbatim>\<open>has_ValueType\<close>\<close>
  co_init :: "'s \<Rightarrow> 'v"
  co_prepare :: "'v \<Rightarrow> 's \<Rightarrow> 'v \<times> 's"
  co_process :: "('v list, 'v) handler \<Rightarrow> tag_id \<Rightarrow> 's \<Rightarrow> 's res"

text \<open>\<^verbatim>\<open>IndexOf\<close> finds the first place of a type. The template has no instance for a type that is not there; the value
  of the model for it is never used.\<close>

fun index_of_type :: "string \<Rightarrow> string list \<Rightarrow> nat" where
  "index_of_type t [] = 0"
| "index_of_type t (u # us) = (if t = u then 0 else 1 + index_of_type t us)"

definition tuple_of_only_publishers :: "('v, 's) component list \<Rightarrow> string list" where
  "tuple_of_only_publishers cs = map co_type (filter co_publishes cs)"

definition index_in_publishers :: "('v, 's) component \<Rightarrow> ('v, 's) component list \<Rightarrow> nat" where
  "index_in_publishers c cs = index_of_type (co_type c) (tuple_of_only_publishers cs)"

definition get_policy_data_handler :: "('v, 's) component \<Rightarrow> ('v, 's) component list \<Rightarrow> ('b, 'v list) handler \<Rightarrow> ('b, 'v) handler" where
  "get_policy_data_handler c cs = get_sub_handler (\<lambda>v. v ! index_in_publishers c cs)"

definition get_init_tuple :: "('v, 's) component \<times> 's \<Rightarrow> 'v list" where
  "get_init_tuple = (\<lambda>(c, s). if co_publishes c then [co_init c s] else [])"

definition get_pub_tuple :: "('v, 's) component list \<Rightarrow> 'v list \<Rightarrow> ('v, 's) component \<times> 's \<Rightarrow> 'v list \<times> 's" where
  "get_pub_tuple cs vals = (\<lambda>(c, s).
     if co_publishes c then let (v, s') = co_prepare c (vals ! index_in_publishers c cs) s in ([v], s') else ([], s))"

definition process_policy_update :: "('v, 's) component list \<Rightarrow> ('v list, 'v list) handler \<Rightarrow> tag_id
    \<Rightarrow> ('v, 's) component \<times> 's \<Rightarrow> (('v, 's) component \<times> 's) res" where
  "process_policy_update cs h my_tag = (\<lambda>(c, s).
     if co_publishes c then rbind (co_process c (get_policy_data_handler c cs h) my_tag s) (\<lambda>s'. Inr (c, s')) else Inr (c, s))"

text \<open>The private members of both methods, for the list of their components.\<close>

definition gather_initial_publications :: "(('v, 's) component \<times> 's) list \<Rightarrow> 'v list" where
  "gather_initial_publications ps = concat (map get_init_tuple ps)"

definition gather_data_for_publication :: "'v list \<Rightarrow> (('v, 's) component \<times> 's) list \<Rightarrow> 'v list \<times> (('v, 's) component \<times> 's) list" where
  "gather_data_for_publication vals ps =
     (let rs = map (get_pub_tuple (map fst ps) vals) ps in (concat (map fst rs), zip (map fst ps) (map snd rs)))"

definition process_components :: "('v list, 'v list) handler \<Rightarrow> tag_id \<Rightarrow> (('v, 's) component \<times> 's) list
    \<Rightarrow> (('v, 's) component \<times> 's) list res" where
  "process_components h my_tag ps =
     rfold (\<lambda>p qs. rbind (process_policy_update (map fst ps) h my_tag p) (\<lambda>q. Inr (qs @ [q]))) ps []"

section \<open>Every component has its own values\<close>

text \<open>The components that publish have different types.\<close>

definition components_ok :: "('v, 's) component list \<Rightarrow> bool" where
  "components_ok cs \<longleftrightarrow> distinct (tuple_of_only_publishers cs)"

lemma index_of_type_nth: "distinct ts \<Longrightarrow> i < length ts \<Longrightarrow> index_of_type (ts ! i) ts = i"
  by (induction ts arbitrary: i) (auto simp: nth_Cons split: nat.split)

lemma index_in_publishers_filter:
  assumes "components_ok cs" "i < length (filter co_publishes cs)"
  shows "index_in_publishers (filter co_publishes cs ! i) cs = i"
  using index_of_type_nth [of "tuple_of_only_publishers cs" i] assms
  by (simp add: components_ok_def index_in_publishers_def tuple_of_only_publishers_def)

lemma concat_filter: "concat (map (\<lambda>p. if P p then [f p] else []) ps) = map f (filter P ps)"
  by (induction ps) auto

lemma initial_parts: "gather_initial_publications ps = map (\<lambda>(c, s). co_init c s) (filter (co_publishes \<circ> fst) ps)"
  using concat_filter [of "co_publishes \<circ> fst" "\<lambda>p. co_init (fst p) (snd p)" ps]
  by (simp add: gather_initial_publications_def get_init_tuple_def case_prod_unfold)

lemma prepared_parts:
  "fst (gather_data_for_publication vals ps) =
     map (\<lambda>(c, s). fst (co_prepare c (vals ! index_in_publishers c (map fst ps)) s)) (filter (co_publishes \<circ> fst) ps)"
proof -
  have "map fst (map (get_pub_tuple (map fst ps) vals) ps)
      = map (\<lambda>p. if (co_publishes \<circ> fst) p then [fst (co_prepare (fst p) (vals ! index_in_publishers (fst p) (map fst ps)) (snd p))] else []) ps"
    by (simp add: get_pub_tuple_def case_prod_unfold Let_def)
  then show ?thesis unfolding gather_data_for_publication_def Let_def fst_conv
    by (simp only: concat_filter) (simp add: case_prod_unfold o_def)
qed

lemma filter_fst: "map fst (filter (P \<circ> fst) ps) = filter P (map fst ps)"
  by (simp add: filter_map)

text \<open>Each component meets its own values only: at the place where the templates look for the part of a component the initial
  value has what this component made, the value that is prepared has what it makes of its own part of the
  last one, and the handler that it gets shows of every neighbour's value the part at this place.\<close>

theorem component_values:
  assumes "components_ok (map fst ps)" "(c, s) \<in> set ps" "co_publishes c"
  defines "i \<equiv> index_in_publishers c (map fst ps)"
  shows "gather_initial_publications ps ! i = co_init c s
    \<and> fst (gather_data_for_publication vals ps) ! i = fst (co_prepare c (vals ! i) s) \<and> i < length (gather_initial_publications ps)
    \<and> length (fst (gather_data_for_publication vals ps)) = length (gather_initial_publications ps)
    \<and> nd_transformer (get_policy_data_handler c (map fst ps) h) v = nd_transformer h v ! i"
proof -
  let ?qs = "filter (co_publishes \<circ> fst) ps"
  have "(c, s) \<in> set ?qs" using assms(2,3) by simp
  then obtain k where k: "k < length ?qs" "?qs ! k = (c, s)" by (metis in_set_conv_nth)
  have "filter co_publishes (map fst ps) ! k = c" using k by (simp flip: filter_fst)
  moreover have "k < length (filter co_publishes (map fst ps))" using k(1) by (simp flip: filter_fst)
  ultimately have i: "i = k" using index_in_publishers_filter [OF assms(1), of k] by (simp add: i_def)
  have "gather_initial_publications ps ! i = co_init c s" using k by (simp add: i initial_parts)
  moreover have "fst (gather_data_for_publication vals ps) ! i = fst (co_prepare c (vals ! i) s)"
    using k by (simp add: prepared_parts flip: i) (simp add: i_def)
  ultimately show ?thesis using k by (simp add: i initial_parts prepared_parts get_policy_data_handler_def get_sub_handler_def flip: i_def)
qed

text \<open>A processor with numbers and a stop policy with truth values, as \<open>0\<close> and \<open>1\<close>, and a silent policy between them.\<close>

definition sample_component :: "string \<Rightarrow> bool \<Rightarrow> (nat, nat) component" where
  "sample_component t b = \<lparr>co_type = t, co_publishes = b, co_init = (\<lambda>s. s), co_prepare = (\<lambda>v s. (v + s, s)), co_process = (\<lambda>h tag s. Inr s)\<rparr>"

definition sample_components :: "((nat, nat) component \<times> nat) list" where
  "sample_components = [(sample_component ''P'' True, 7), (sample_component ''A'' False, 0), (sample_component ''S'' True, 1)]"

lemma component_values_witness:
  "gather_initial_publications sample_components ! 1 = 1 \<and> fst (gather_data_for_publication [5, 8] sample_components) ! 1 = 9"
proof -
  have c: "components_ok (map fst sample_components)" "(sample_component ''S'' True, 1) \<in> set sample_components"
    "co_publishes (sample_component ''S'' True)" "index_in_publishers (sample_component ''S'' True) (map fst sample_components) = 1"
    by (simp_all add: sample_components_def sample_component_def components_ok_def tuple_of_only_publishers_def index_in_publishers_def)
  note component_values [OF c(1-3), of "[5, 8]" "undefined :: (unit, nat list) handler" undefined, unfolded c(4)]
  then show ?thesis by (simp add: sample_component_def)
qed

section \<open>Constructing the methods\<close>

text \<open>The members are initialised in the order of their declarations, which puts the values to publish behind the processor but
  before the policies that follow it: the initial value of a publish or stop policy with values is asked of
  an object that does not exist yet. The last argument is the time at which the method is used.\<close>

definition new_method :: "(('v, 's) component \<times> 's) list \<Rightarrow> (('v, 's) component \<times> 's) list \<Rightarrow> tag \<Rightarrow> tag list \<Rightarrow> 'p \<Rightarrow> job \<Rightarrow> nat
    \<Rightarrow> (('v list, 'p, (('v, 's) component \<times> 's) list) run_state) res" where
  "new_method uninitialised ps produced_tag tags reacting j clock =
     (if list_ex (co_publishes \<circ> fst) uninitialised then Inl Undefined_Behaviour
      else Inr \<lparr>ar_it = new_iterative produced_tag tags reacting j, ar_job = j, ar_proc = ps,
                ar_values = gather_initial_publications ps, ar_iterate = False, ar_count = 0, ar_clock = clock,
                ar_start = None, ar_stop = None, ar_sent = []\<rparr>)"

definition new_asynchronous :: "tag \<Rightarrow> tag list \<Rightarrow> ('v, 's) component \<times> 's \<Rightarrow> ('v, 's) component \<times> 's \<Rightarrow> ('v, 's) component \<times> 's
    \<Rightarrow> ('v, 's) component \<times> 's \<Rightarrow> 'p \<Rightarrow> job \<Rightarrow> nat \<Rightarrow> (('v list, 'p, (('v, 's) component \<times> 's) list) run_state) res" where
  "new_asynchronous produced_tag tags processor publisher stopper resilience =
     new_method [publisher, stopper] [processor, publisher, stopper, resilience] produced_tag tags"

definition new_synchronous :: "tag \<Rightarrow> tag list \<Rightarrow> ('v, 's) component \<times> 's \<Rightarrow> ('v, 's) component \<times> 's
    \<Rightarrow> ('v, 's) component \<times> 's \<Rightarrow> 'p \<Rightarrow> job \<Rightarrow> nat \<Rightarrow> (('v list, 'p, (('v, 's) component \<times> 's) list) run_state) res" where
  "new_synchronous produced_tag tags processor stopper resilience =
     new_method [stopper] [processor, stopper, resilience] produced_tag tags"

text \<open>What the loops of both methods do with the components.\<close>

definition component_method :: "('v list \<Rightarrow> publish_value list) \<Rightarrow> (publish_value list \<Rightarrow> 'v list) \<Rightarrow> ('p \<Rightarrow> 'p) \<Rightarrow> ('v \<Rightarrow> 'v \<Rightarrow> bool)
    \<Rightarrow> nat \<Rightarrow> nat \<Rightarrow> (nat \<Rightarrow> nat \<times> job \<Rightarrow> nat \<times> job) \<Rightarrow> ('v list, 'p, (('v, 's) component \<times> 's) list) iter_method" where
  "component_method convert deconvert react publish_policy max_run_time wait_max pausing =
     \<lparr>me_process = process_components, me_prepare = gather_data_for_publication, me_convert = convert, me_deconvert = deconvert,
      me_react = react, me_publish = (\<lambda>new_vals old_vals. publish_policy (new_vals ! 0) (old_vals ! 0)),
      me_max_run_time = max_run_time, me_wait_max = wait_max, me_pause = pausing\<rparr>"

section \<open>Builders\<close>

text \<open>The state that waiters look at is the job and the manager. The result of making a builder tells which tags are
  reported to the manager as published and which it is asked to subscribe to.\<close>

type_synonym world = "job \<times> manager"

record ('v, 's, 'p) builder =
  wb_produced :: tag
  wb_tags :: "tag list"
  wb_subscribe :: "(world, unit) waiter option"
  wb_processor :: "(world, ('v, 's) component \<times> 's) waiter option"
  wb_publish :: "(world, ('v, 's) component \<times> 's) waiter option"
  wb_stop :: "(world, ('v, 's) component \<times> 's) waiter option"
  wb_resilience :: "(world, (('v, 's) component \<times> 's) \<times> 'p) waiter option"

definition new_builder :: "tag \<Rightarrow> typed_tag list \<Rightarrow> job \<Rightarrow> (('v, 's, 'p) builder \<times> tag_id list \<times> tag_id list \<times> job) res" where
  "new_builder produced_tag sub_tags j =
     (let (reported, j1) = declare_publication_intent [produced_tag] j
      in rbind (subscribe_range sub_tags j1) (\<lambda>(ids, j2).
           Inr (\<lparr>wb_produced = produced_tag, wb_tags = map fst sub_tags,
                 wb_subscribe = Some (make_void_waiter (\<lambda>(j, m). subscribe_is_done ids m)),
                 wb_processor = None, wb_publish = None, wb_stop = None, wb_resilience = None\<rparr>, reported, ids, j2)))"

text \<open>The default \<^verbatim>\<open>WaiterBuilder\<close> makes an instant waiter.\<close>

definition default_waiter :: "'a \<Rightarrow> (world, 'a) waiter" where
  "default_waiter object = instant_waiter (\<lambda>w. (object, w))"

definition set_processor :: "(world, ('v, 's) component \<times> 's) waiter \<Rightarrow> ('v, 's, 'p) builder \<Rightarrow> ('v, 's, 'p) builder" where
  "set_processor w b = b\<lparr>wb_processor := Some w\<rparr>"

definition set_publish_policy :: "(world, ('v, 's) component \<times> 's) waiter \<Rightarrow> ('v, 's, 'p) builder \<Rightarrow> ('v, 's, 'p) builder" where
  "set_publish_policy w b = b\<lparr>wb_publish := Some w\<rparr>"

definition set_stop_policy :: "(world, ('v, 's) component \<times> 's) waiter \<Rightarrow> ('v, 's, 'p) builder \<Rightarrow> ('v, 's, 'p) builder" where
  "set_stop_policy w b = b\<lparr>wb_stop := Some w\<rparr>"

definition set_resilience_policy :: "(world, (('v, 's) component \<times> 's) \<times> 'p) waiter \<Rightarrow> ('v, 's, 'p) builder \<Rightarrow> ('v, 's, 'p) builder" where
  "set_resilience_policy w b = b\<lparr>wb_resilience := Some w\<rparr>"

text \<open>\<^verbatim>\<open>build_waiter\<close> gets the components at once, which waits for them, here in the order of the arguments, which
  C++ leaves open; the method is constructed when the waiter is asked for it.\<close>

definition build_asynchronous :: "(nat \<times> world \<Rightarrow> nat \<times> world) \<Rightarrow> ('v, 's, 'p) builder \<Rightarrow> nat \<times> world
    \<Rightarrow> ((world, nat \<Rightarrow> ('v list, 'p, (('v, 's) component \<times> 's) list) run_state res) waiter res \<times> nat \<times> world) option" where
  "build_asynchronous wake b c =
     (case (wb_subscribe b, wb_processor b, wb_publish b, wb_stop b, wb_resilience b) of
        (Some sw, Some pw, Some uw, Some tw, Some rw) \<Rightarrow>
          Option.bind (waiter_get wake pw c) (\<lambda>(processor, c1).
          Option.bind (waiter_get wake uw c1) (\<lambda>(publisher, c2).
          Option.bind (waiter_get wake tw c2) (\<lambda>(stopper, c3).
          Option.bind (waiter_get wake rw c3) (\<lambda>((resilience, reacting), c4).
            Some (Inr (make_waiter
                (\<lambda>w. waiter_is_ready sw w \<and> waiter_is_ready pw w \<and> waiter_is_ready uw w \<and> waiter_is_ready tw w \<and> waiter_is_ready rw w)
                (\<lambda>w. (new_asynchronous (wb_produced b) (wb_tags b) processor publisher stopper resilience reacting (fst w), w))), c4)))))
      | _ \<Rightarrow> Some (Inl Exception_Thrown, c))"

definition build_synchronous :: "(nat \<times> world \<Rightarrow> nat \<times> world) \<Rightarrow> ('v, 's, 'p) builder \<Rightarrow> nat \<times> world
    \<Rightarrow> ((world, nat \<Rightarrow> ('v list, 'p, (('v, 's) component \<times> 's) list) run_state res) waiter res \<times> nat \<times> world) option" where
  "build_synchronous wake b c =
     (case (wb_subscribe b, wb_processor b, wb_stop b, wb_resilience b) of
        (Some sw, Some pw, Some tw, Some rw) \<Rightarrow>
          Option.bind (waiter_get wake pw c) (\<lambda>(processor, c1).
          Option.bind (waiter_get wake tw c1) (\<lambda>(stopper, c2).
          Option.bind (waiter_get wake rw c2) (\<lambda>((resilience, reacting), c3).
            Some (Inr (make_waiter
                (\<lambda>w. waiter_is_ready sw w \<and> waiter_is_ready pw w \<and> waiter_is_ready tw w \<and> waiter_is_ready rw w)
                (\<lambda>w. (new_synchronous (wb_produced b) (wb_tags b) processor stopper resilience reacting (fst w), w))), c3))))
      | _ \<Rightarrow> Some (Inl Exception_Thrown, c))"

text \<open>A waiter that is ready when the manager has the subscriptions, and makes its object of the job as it is then.\<close>

definition waits_for :: "tag_id list \<Rightarrow> (job \<Rightarrow> 'a) \<Rightarrow> (world, 'a) waiter \<Rightarrow> bool" where
  "waits_for ids make_object w \<longleftrightarrow>
     (\<forall>j m. waiter_is_ready w (j, m) = subscribe_is_done ids m \<and> wt_value w (j, m) = (make_object j, (j, m)))"

text \<open>C26: \<^verbatim>\<open>build_waiter\<close> throws unless every component has been set. Otherwise, with components that wait for nothing, it returns at
  once and changes nothing, and its waiter is ready exactly when the manager has all the subscriptions that the
  builder asked for; what it hands out is the method made of the job as it is then, not as it was when the
  waiter was built, unless a publish or stop policy with values is asked for them before it is constructed.\<close>

theorem builder_waits_for_subscriptions:
  assumes "new_builder produced_tag sub_tags j = Inr (b, reported, ids, j2)"
    and "full = set_resilience_policy (default_waiter (resilience, reacting)) (set_stop_policy (default_waiter stopper)
      (set_publish_policy (default_waiter publisher) (set_processor (default_waiter processor) b)))"
  shows "(\<exists>w. build_asynchronous wake full c = Some (Inr w, c)
      \<and> waits_for (map (tag_name \<circ> fst) sub_tags) (new_asynchronous produced_tag (map fst sub_tags) processor publisher stopper resilience reacting) w)
    \<and> (\<exists>w. build_synchronous wake full c = Some (Inr w, c)
      \<and> waits_for (map (tag_name \<circ> fst) sub_tags) (new_synchronous produced_tag (map fst sub_tags) processor stopper resilience reacting) w)
    \<and> (d = full\<lparr>wb_processor := None\<rparr> \<or> d = full\<lparr>wb_stop := None\<rparr> \<or> d = full\<lparr>wb_resilience := None\<rparr> \<longrightarrow>
         build_asynchronous wake d c = Some (Inl Exception_Thrown, c) \<and> build_synchronous wake d c = Some (Inl Exception_Thrown, c))
    \<and> build_asynchronous wake (full\<lparr>wb_publish := None\<rparr>) c = Some (Inl Exception_Thrown, c)"
proof -
  have b: "b = \<lparr>wb_produced = produced_tag, wb_tags = map fst sub_tags,
      wb_subscribe = Some (make_void_waiter (\<lambda>(j, m). subscribe_is_done (map (tag_name \<circ> fst) sub_tags) m)),
      wb_processor = None, wb_publish = None, wb_stop = None, wb_resilience = None\<rparr>"
    using assms(1) by (auto simp: new_builder_def subscribe_range_def rbind_eq_Inr_iff case_prod_unfold o_def Let_def)
  have g: "waiter_get wake (default_waiter x) c = Some (x, c)" for x :: 'x and c
    by (cases c) (simp add: waiter_get_def waiter_wait_def default_waiter_def instant_waiter_def)
  have r: "waiter_is_ready (default_waiter x) w" for x :: 'x and w by (simp add: waiter_is_ready_def default_waiter_def instant_waiter_def)
  note build = build_asynchronous_def build_synchronous_def assms(2) b set_processor_def set_publish_policy_def set_stop_policy_def
    set_resilience_policy_def g r
  have "\<exists>w. build_asynchronous wake full c = Some (Inr w, c)
      \<and> waits_for (map (tag_name \<circ> fst) sub_tags) (new_asynchronous produced_tag (map fst sub_tags) processor publisher stopper resilience reacting) w"
    by (simp add: build) (simp add: waits_for_def make_void_waiter_def make_waiter_def waiter_is_ready_def)
  moreover have "\<exists>w. build_synchronous wake full c = Some (Inr w, c)
      \<and> waits_for (map (tag_name \<circ> fst) sub_tags) (new_synchronous produced_tag (map fst sub_tags) processor stopper resilience reacting) w"
    by (simp add: build) (simp add: waits_for_def make_void_waiter_def make_waiter_def waiter_is_ready_def)
  ultimately show ?thesis by (auto simp: build)
qed

text \<open>A builder that subscribes to one tag of another machine.\<close>

lemma builder_waits_for_subscriptions_witness:
  "\<forall>c. \<exists>b reported ids j2 w. new_builder \<lparr>tag_name = ''pb'', tag_types = [1]\<rparr> [(\<lparr>tag_name = ''pc'', tag_types = [1]\<rparr>, [T_int32])] sample_job
      = Inr (b, reported, ids, j2)
    \<and> build_asynchronous (\<lambda>c. c) (set_resilience_policy (default_waiter ((sample_component ''R'' False, 0), ()))
        (set_stop_policy (default_waiter (sample_component ''S'' False, 0))
        (set_publish_policy (default_waiter (sample_component ''A'' False, 0)) (set_processor (default_waiter (sample_component ''P'' True, 7)) b)))) c
      = Some (Inr w, c)
    \<and> waits_for [''pc''] (new_asynchronous \<lparr>tag_name = ''pb'', tag_types = [1]\<rparr> [\<lparr>tag_name = ''pc'', tag_types = [1]\<rparr>]
        (sample_component ''P'' True, 7) (sample_component ''A'' False, 0) (sample_component ''S'' False, 0) (sample_component ''R'' False, 0) ()) w"
proof (rule allI, goal_cases)
  case (1 c)
  obtain b :: "(nat, nat, unit) builder" and reported ids j2 where b:
    "new_builder \<lparr>tag_name = ''pb'', tag_types = [1]\<rparr> [(\<lparr>tag_name = ''pc'', tag_types = [1]\<rparr>, [T_int32])] sample_job = Inr (b, reported, ids, j2)"
    by (simp add: new_builder_def declare_publication_intent_def subscribe_range_def init_or_update_subscribe_def
        init_or_update_one_def sample_job_def Let_def)
  let ?full = "set_resilience_policy (default_waiter ((sample_component ''R'' False, 0), ()))
        (set_stop_policy (default_waiter (sample_component ''S'' False, 0))
        (set_publish_policy (default_waiter (sample_component ''A'' False, 0)) (set_processor (default_waiter (sample_component ''P'' True, 7)) b)))"
  have "\<exists>w. build_asynchronous (\<lambda>c. c) ?full c = Some (Inr w, c) \<and> waits_for [''pc''] (new_asynchronous \<lparr>tag_name = ''pb'', tag_types = [1]\<rparr>
      [\<lparr>tag_name = ''pc'', tag_types = [1]\<rparr>] (sample_component ''P'' True, 7) (sample_component ''A'' False, 0) (sample_component ''S'' False, 0)
      (sample_component ''R'' False, 0) ()) w"
    using builder_waits_for_subscriptions [OF b refl, THEN conjunct1] by simp
  with b show ?case by blast
qed

end
