(* ===== verification/Sky_Handles.thy ===== *)
theory Sky_Handles
  imports Sky_Network
begin

text \<open>
  The rest of \<^verbatim>\<open>internal/devices/socket_communicator.cpp\<close>: what the members make of the results of the system
  calls, which are arguments of the model, and who owns the handles when communicators are constructed, moved,
  assigned and destroyed.
\<close>

section \<open>Results of system calls\<close>

definition invalid_handle :: int where "invalid_handle = - 1"

text \<open>The default constructor: the result of \<^verbatim>\<open>create_non_blocking\<close>.\<close>

definition new_communicator :: "int \<Rightarrow> int res" where
  "new_communicator h = (if h = invalid_handle then Inl (Exit_Process 4) else Inr h)"

text \<open>\<^verbatim>\<open>accept\<close>: the new handle, and whether \<^verbatim>\<open>errno\<close> is \<^verbatim>\<open>EAGAIN\<close> or \<^verbatim>\<open>EWOULDBLOCK\<close>.\<close>

definition accept_connection :: "int \<Rightarrow> bool \<Rightarrow> int option res" where
  "accept_connection raw_handle again =
     (if raw_handle = invalid_handle then (if again then Inr None else Inl (Exit_Process 4)) else Inr (Some raw_handle))"

definition set_to_listen :: "int \<Rightarrow> int \<Rightarrow> conn_error" where
  "set_to_listen bind_result listen_result =
     (if bind_result < 0 then Unrecoverable else if listen_result < 0 then Unrecoverable else No_Error)"

text \<open>The blocking \<^verbatim>\<open>connect_to_server\<close>: \<^verbatim>\<open>poll\<close> waits without a limit until the socket can be written to or fails.\<close>

definition sock_connect :: "(string \<Rightarrow> bool) \<Rightarrow> (addr_port \<Rightarrow> connect_ret) \<Rightarrow> poll_ret \<Rightarrow> addr_port \<Rightarrow> conn_error res" where
  "sock_connect valid con polled addr =
     (if \<not> valid (fst addr) then Inl (Exit_Process 4)
      else (case con addr of
              Connect_Done \<Rightarrow> Inr No_Error
            | Connect_EINPROGRESS \<Rightarrow>
                (case polled of
                   Poll_Failed _ \<Rightarrow> Inr Unrecoverable
                 | Poll_Events err _ \<Rightarrow> Inr (if err then Unrecoverable else No_Error))
            | Connect_Failed \<Rightarrow> Inr Unrecoverable))"

definition sock_connect_str :: "(string \<Rightarrow> bool) \<Rightarrow> (addr_port \<Rightarrow> connect_ret) \<Rightarrow> poll_ret \<Rightarrow> string \<Rightarrow> conn_error res" where
  "sock_connect_str valid con polled address =
     (let addr = split_address address
      in if fst addr = [] then Inr Unrecoverable else sock_connect valid con polled addr)"

text \<open>A connection that is there at once is a success for the blocking call only: the non-blocking one reports it as an error.\<close>

lemma immediate_connection:
  "valid (fst addr) \<Longrightarrow> con addr = Connect_Done \<Longrightarrow>
    sock_connect valid con polled addr = Inr No_Error \<and> connect_non_blocking valid con addr = Inr Unrecoverable"
  by (simp add: sock_connect_def connect_non_blocking_def)

section \<open>Ownership of handles\<close>

text \<open>The communicators that are alive, by a number for the place of each in memory, and the handles that the process has
  open.\<close>

record comms =
  cm_objects :: "(nat \<times> int) list"
  cm_open :: "int list"

definition no_comms :: comms where
  "no_comms = \<lparr>cm_objects = [], cm_open = []\<rparr>"

definition handle_of :: "nat \<Rightarrow> comms \<Rightarrow> int" where
  "handle_of i s = (case map_of (cm_objects s) i of Some h \<Rightarrow> h | None \<Rightarrow> invalid_handle)"

definition set_handle :: "nat \<Rightarrow> int \<Rightarrow> comms \<Rightarrow> comms" where
  "set_handle i h s = s\<lparr>cm_objects := AList.update i h (cm_objects s)\<rparr>"

text \<open>Constructed from a handle that the system has just opened, by the default constructor or by \<^verbatim>\<open>accept\<close>.\<close>

definition construct_raw :: "nat \<Rightarrow> int \<Rightarrow> comms \<Rightarrow> comms" where
  "construct_raw i h s = (set_handle i h s)\<lparr>cm_open := h # cm_open s\<rparr>"

definition move_construct :: "nat \<Rightarrow> nat \<Rightarrow> comms \<Rightarrow> comms" where
  "move_construct i other s = set_handle other invalid_handle (set_handle i (handle_of other s) s)"

definition move_assign :: "nat \<Rightarrow> nat \<Rightarrow> comms \<Rightarrow> comms" where
  "move_assign i other s =
     (let new_handle = handle_of other s in set_handle i new_handle (set_handle other invalid_handle s))"

definition destroy :: "nat \<Rightarrow> comms \<Rightarrow> comms" where
  "destroy i s =
     (let s' = s\<lparr>cm_objects := AList.delete i (cm_objects s)\<rparr>
      in if handle_of i s \<noteq> invalid_handle then s'\<lparr>cm_open := filter (\<lambda>h. h \<noteq> handle_of i s) (cm_open s)\<rparr> else s')"

text \<open>The life of the communicators: an object is constructed where none is, the others are alive, and the system
  opens handles that are not open.\<close>

definition live_comm :: "nat \<Rightarrow> comms \<Rightarrow> bool" where
  "live_comm i s \<longleftrightarrow> has_key i (cm_objects s)"

inductive comm_step :: "comms \<Rightarrow> comms \<Rightarrow> bool" where
  Construct: "\<not> live_comm i s \<Longrightarrow> h \<notin> set (cm_open s) \<Longrightarrow> 0 \<le> h \<Longrightarrow> comm_step s (construct_raw i h s)"
| Move_Construct: "\<not> live_comm i s \<Longrightarrow> live_comm other s \<Longrightarrow> comm_step s (move_construct i other s)"
| Move_Assign: "live_comm i s \<Longrightarrow> live_comm other s \<Longrightarrow> comm_step s (move_assign i other s)"
| Destroy: "live_comm i s \<Longrightarrow> comm_step s (destroy i s)"

text \<open>Every valid handle of an object is open and no other object has it.\<close>

definition handles_ok :: "comms \<Rightarrow> bool" where
  "handles_ok s \<longleftrightarrow> (\<forall>i h. map_of (cm_objects s) i = Some h \<and> h \<noteq> invalid_handle \<longrightarrow>
     h \<in> set (cm_open s) \<and> (\<forall>j. map_of (cm_objects s) j = Some h \<longrightarrow> j = i))"

definition owned :: "comms \<Rightarrow> int set" where
  "owned s = {h. h \<noteq> invalid_handle \<and> (\<exists>i. map_of (cm_objects s) i = Some h)}"

definition leaked :: "comms \<Rightarrow> int set" where
  "leaked s = set (cm_open s) - owned s"

lemma map_of_set_handle: "map_of (cm_objects (set_handle i h s)) = (map_of (cm_objects s))(i \<mapsto> h)" "cm_open (set_handle i h s) = cm_open s"
  by (simp_all add: set_handle_def update_conv')

lemma live_comm_map: "live_comm i s \<longleftrightarrow> (\<exists>h. map_of (cm_objects s) i = Some h)"
  by (auto simp: live_comm_def has_key_def)

lemma objects_after:
  "map_of (cm_objects (construct_raw i h s)) = (map_of (cm_objects s))(i \<mapsto> h)"
  "map_of (cm_objects (move_construct i k s)) = (map_of (cm_objects s))(i \<mapsto> handle_of k s, k \<mapsto> invalid_handle)"
  "map_of (cm_objects (move_assign i k s)) = (map_of (cm_objects s))(k \<mapsto> invalid_handle, i \<mapsto> handle_of k s)"
  "map_of (cm_objects (destroy i s)) = (map_of (cm_objects s))(i := None)"
  by (simp_all add: construct_raw_def move_construct_def move_assign_def destroy_def map_of_set_handle Let_def delete_conv')

lemma open_after:
  "cm_open (construct_raw i h s) = h # cm_open s" "cm_open (move_construct i k s) = cm_open s" "cm_open (move_assign i k s) = cm_open s"
  "set (cm_open (destroy i s)) = (if handle_of i s = invalid_handle then set (cm_open s) else set (cm_open s) - {handle_of i s})"
  by (auto simp: construct_raw_def move_construct_def move_assign_def destroy_def map_of_set_handle Let_def)

inductive_cases comm_stepE: "comm_step s s'"

lemma handles_ok_step: "comm_step s s' \<Longrightarrow> handles_ok s \<Longrightarrow> handles_ok s'"
  by (elim comm_stepE)
    (auto simp: handles_ok_def objects_after open_after live_comm_map handle_of_def split: if_split_asm)

lemma owned_iff: "h \<in> owned s \<longleftrightarrow> h \<noteq> invalid_handle \<and> (\<exists>i. map_of (cm_objects s) i = Some h)"
  by (simp add: owned_def)

lemma owner_unique: "handles_ok s \<Longrightarrow> map_of (cm_objects s) i = Some h \<Longrightarrow> map_of (cm_objects s) j = Some h \<Longrightarrow> h \<noteq> invalid_handle \<Longrightarrow> i = j"
  unfolding handles_ok_def by blast

lemma owned_construct:
  assumes "handles_ok s" "\<not> live_comm i s" "0 \<le> h"
  shows "owned (construct_raw i h s) = insert h (owned s)"
proof -
  have "owned u = ran (map_of (cm_objects u)) - {invalid_handle}" for u by (auto simp: owned_def ran_def)
  moreover have "map_of (cm_objects s) i = None" using assms(2) by (simp add: live_comm_map)
  ultimately show ?thesis using assms(3) by (simp add: objects_after) (auto simp: invalid_handle_def)
qed

lemma owned_move_construct:
  assumes "handles_ok s" "\<not> live_comm i s" "live_comm k s"
  shows "owned (move_construct i k s) = owned s"
proof -
  have "(\<exists>j. map_of (cm_objects (move_construct i k s)) j = Some h) \<longleftrightarrow> (\<exists>j. map_of (cm_objects s) j = Some h)" if "h \<noteq> invalid_handle" for h
  proof
    assume "\<exists>j. map_of (cm_objects (move_construct i k s)) j = Some h"
    then show "\<exists>j. map_of (cm_objects s) j = Some h" using that assms(2,3)
      by (auto simp: objects_after live_comm_map handle_of_def split: if_split_asm)
  next
    assume "\<exists>j. map_of (cm_objects s) j = Some h"
    then obtain j where j: "map_of (cm_objects s) j = Some h" by blast
    then have "map_of (cm_objects (move_construct i k s)) (if j = k then i else j) = Some h"
      using that assms(2) by (auto simp: objects_after live_comm_map handle_of_def)
    then show "\<exists>j. map_of (cm_objects (move_construct i k s)) j = Some h" by blast
  qed
  then show ?thesis by (auto simp: owned_def)
qed

lemma owned_move_assign:
  assumes "handles_ok s" "live_comm i s" "live_comm k s"
  shows "owned (move_assign i k s) = (if i = k then owned s else owned s - {handle_of i s})"
proof (cases "i = k")
  case True
  then have "map_of (cm_objects (move_assign i k s)) = map_of (cm_objects s)"
    using assms(2) by (auto simp: objects_after live_comm_map handle_of_def fun_eq_iff)
  then show ?thesis using True by (simp add: owned_def)
next
  case False
  obtain h k' where m: "map_of (cm_objects s) i = Some h" "map_of (cm_objects s) k = Some k'" using assms(2,3) by (auto simp: live_comm_map)
  have "(\<exists>j. map_of (cm_objects (move_assign i k s)) j = Some g) \<longleftrightarrow> g \<noteq> h \<and> (\<exists>j. map_of (cm_objects s) j = Some g)" if g: "g \<noteq> invalid_handle" for g
  proof
    assume "\<exists>j. map_of (cm_objects (move_assign i k s)) j = Some g"
    then obtain j where "map_of (cm_objects (move_assign i k s)) j = Some g" by blast
    then have "j \<noteq> k \<and> map_of (cm_objects s) (if j = i then k else j) = Some g"
      using g False m by (auto simp: objects_after handle_of_def split: if_split_asm)
    moreover from this have "g \<noteq> h" using owner_unique [OF assms(1) m(1), of "if j = i then k else j"] g False by (auto split: if_split_asm)
    ultimately show "g \<noteq> h \<and> (\<exists>j. map_of (cm_objects s) j = Some g)" by blast
  next
    assume "g \<noteq> h \<and> (\<exists>j. map_of (cm_objects s) j = Some g)"
    then obtain j where j: "map_of (cm_objects s) j = Some g" "g \<noteq> h" by blast
    then have "map_of (cm_objects (move_assign i k s)) (if j = k then i else j) = Some g"
      using m False by (auto simp: objects_after handle_of_def)
    then show "\<exists>j. map_of (cm_objects (move_assign i k s)) j = Some g" by blast
  qed
  then show ?thesis using False m by (auto simp: owned_def handle_of_def)
qed

lemma owned_destroy:
  assumes "handles_ok s" "live_comm i s"
  shows "owned (destroy i s) = owned s - {handle_of i s}"
proof -
  obtain h where m: "map_of (cm_objects s) i = Some h" using assms(2) by (auto simp: live_comm_map)
  have "(\<exists>j. map_of (cm_objects (destroy i s)) j = Some g) \<longleftrightarrow> g \<noteq> h \<and> (\<exists>j. map_of (cm_objects s) j = Some g)" if g: "g \<noteq> invalid_handle" for g
  proof
    assume "\<exists>j. map_of (cm_objects (destroy i s)) j = Some g"
    then obtain j where "j \<noteq> i" "map_of (cm_objects s) j = Some g" by (auto simp: objects_after split: if_split_asm)
    then show "g \<noteq> h \<and> (\<exists>j. map_of (cm_objects s) j = Some g)" using owner_unique [OF assms(1) m, of j] g by blast
  next
    assume "g \<noteq> h \<and> (\<exists>j. map_of (cm_objects s) j = Some g)"
    then obtain j where "map_of (cm_objects s) j = Some g" "g \<noteq> h" by blast
    then have "map_of (cm_objects (destroy i s)) j = Some g" using m by (auto simp: objects_after)
    then show "\<exists>j. map_of (cm_objects (destroy i s)) j = Some g" by blast
  qed
  then show ?thesis using m by (auto simp: owned_def handle_of_def)
qed

text \<open>An overwritten handle.\<close>

definition overwrites :: "nat \<Rightarrow> nat \<Rightarrow> comms \<Rightarrow> bool" where
  "overwrites i other s \<longleftrightarrow> live_comm i s \<and> live_comm other s \<and> i \<noteq> other \<and> handle_of i s \<noteq> invalid_handle"

lemma handle_open: "handles_ok s \<Longrightarrow> handle_of i s \<noteq> invalid_handle \<Longrightarrow> handle_of i s \<in> set (cm_open s)"
  unfolding handles_ok_def handle_of_def by (auto split: option.splits)

lemma owned_open: "handles_ok s \<Longrightarrow> owned s \<subseteq> set (cm_open s)"
  unfolding handles_ok_def owned_def by auto

lemma handle_owned: "live_comm i s \<Longrightarrow> handle_of i s \<noteq> invalid_handle \<Longrightarrow> handle_of i s \<in> owned s"
  by (auto simp: owned_def handle_of_def live_comm_map)

lemma leaked_step:
  assumes "comm_step s s'" "handles_ok s"
  shows "leaked s \<subseteq> leaked s' \<and> (leaked s' = leaked s \<or> (\<exists>i k. overwrites i k s \<and> s' = move_assign i k s))"
  using assms(1)
proof (cases rule: comm_step.cases)
  case (Construct i h)
  then show ?thesis using owned_construct [OF assms(2), of i h] by (auto simp: leaked_def open_after)
next
  case (Move_Construct i k)
  then show ?thesis using owned_move_construct [OF assms(2), of i k] by (auto simp: leaked_def open_after)
next
  case (Move_Assign i k)
  have n: "owned s - {handle_of i s} = owned s" if "handle_of i s = invalid_handle" using that by (auto simp: owned_def)
  show ?thesis
  proof (cases "overwrites i k s")
    case True
    then show ?thesis using Move_Assign owned_move_assign [OF assms(2), of i k] by (auto simp: leaked_def open_after)
  next
    case False
    then have "owned s' = owned s" using Move_Assign n owned_move_assign [OF assms(2), of i k] by (auto simp: overwrites_def)
    then show ?thesis using Move_Assign by (simp add: leaked_def open_after)
  qed
next
  case (Destroy i)
  have "owned s - {handle_of i s} = owned s" if "handle_of i s = invalid_handle" using that by (auto simp: owned_def)
  then show ?thesis using Destroy owned_destroy [OF assms(2), of i] handle_owned [of i s]
    by (cases "handle_of i s = invalid_handle") (auto simp: leaked_def open_after)
qed

text \<open>C39: Whatever is constructed, moved, assigned and destroyed, a valid handle belongs to one communicator only and is open, so that
  no handle is closed twice or used after it was closed. A handle leaks only when its communicator is
  assigned another: then it stays open for good, while otherwise every open handle has an owner that closes it.\<close>

theorem handles_owned:
  assumes "comm_step\<^sup>*\<^sup>* no_comms s" "comm_step s s'"
  shows "handles_ok s' \<and> leaked s \<subseteq> leaked s' \<and> (leaked s' \<noteq> leaked s \<longrightarrow> (\<exists>i k. overwrites i k s \<and> s' = move_assign i k s))
    \<and> (overwrites i k s \<longrightarrow> comm_step s (move_assign i k s) \<and> handle_of i s \<in> leaked (move_assign i k s))"
proof -
  have "handles_ok no_comms" by (simp add: handles_ok_def no_comms_def)
  with assms(1) have ok: "handles_ok s" by (induction rule: rtranclp_induct) (auto dest: handles_ok_step)
  have "comm_step s (move_assign i k s) \<and> handle_of i s \<in> leaked (move_assign i k s)" if o: "overwrites i k s"
  proof -
    have "i \<noteq> k" "live_comm i s" "live_comm k s" "handle_of i s \<noteq> invalid_handle" using o by (auto simp: overwrites_def)
    then show ?thesis using owned_move_assign [OF ok, of i k] handle_open [OF ok, of i]
      by (auto simp: leaked_def open_after intro: comm_step.Move_Assign)
  qed
  then show ?thesis using handles_ok_step [OF assms(2) ok] leaked_step [OF assms(2) ok] by blast
qed

text \<open>Two communicators, of which the first is assigned the second.\<close>

lemma handles_owned_witness: "3 \<in> leaked (move_assign 0 1 (construct_raw 1 4 (construct_raw 0 3 no_comms)))"
proof -
  let ?a = "construct_raw 0 3 no_comms" let ?s = "construct_raw 1 4 ?a"
  have "comm_step no_comms ?a" by (rule comm_step.Construct) (simp_all add: live_comm_def no_comms_def)
  moreover have b: "comm_step ?a ?s"
    by (rule comm_step.Construct) (simp_all add: live_comm_map objects_after open_after no_comms_def)
  ultimately have r: "comm_step\<^sup>*\<^sup>* no_comms ?s" by auto
  have o: "overwrites 0 1 ?s" "handle_of 0 ?s = 3"
    by (simp_all add: overwrites_def live_comm_map handle_of_def objects_after no_comms_def invalid_handle_def)
  then have "comm_step ?s (move_assign 0 1 ?s)" by (auto simp: overwrites_def intro: comm_step.Move_Assign)
  from handles_owned [OF r this, of 0 1] o show ?thesis by simp
qed

end
