(* ===== verification/Sky_Admm_Threads.thy ===== *)
theory Sky_Admm_Threads
  imports Sky_Admm
begin

text \<open>
  The threads of \<^verbatim>\<open>run_locally\<close> (\<^verbatim>\<open>examples/admm/admm.cpp\<close>). They share two arrays, which they write under a mutex and read
  without it; a counter and a condition variable keep them together, and \<^verbatim>\<open>working_on_data\<close> keeps a thread that is
  early from writing while others still read. The model has one step for each access to what is shared, and any
  thread may take the next one; only the test of the counter, which cannot change while the mutex is held, is one step
  with what follows from it. Memory is sequentially consistent, which the absence of races justifies. It is shown that no thread writes while another reads, that the threads compute the
  iterations of \<open>admm_round\<close>, and that they do not wait for ever.
\<close>

section \<open>The program of a thread\<close>

text \<open>Where a thread is. \<open>Blocked\<close> and \<open>Woken\<close> are inside of \<^verbatim>\<open>cv.wait\<close>, which gives the mutex back and takes it again;
  \<open>Summing k z\<close> has added \<open>z\<close> of the machines for variable \<open>k\<close>, \<open>Folding z\<close> has seen \<open>z\<close> of the flags. A thread is
  \<open>Overflowed\<close> when \<^verbatim>\<open>num_waiting_needed\<close> does not fit into an \<^verbatim>\<open>int\<close> any more.\<close>

datatype place = Spinning | Locking | Writing | Writing_Flag | Counting | Testing | Notifying | Rechecking | Blocked | Woken
  | Unlocking | Summing nat nat real vec | Folding nat bool vec | Leaving vec bool | Returning vec bool | Finished | Overflowed

record thread =
  th_machine :: admm
  th_needed :: int
  th_place :: place

record local_run =
  lr_solutions :: "vec list"
  lr_converged :: "bool list"
  lr_waiting :: int
  lr_lock :: "nat option"
  lr_working :: int
  lr_threads :: "thread list"

definition begin_round :: "thread \<Rightarrow> thread" where
  "begin_round t =
     (if th_needed t + int num_machines \<ge> 2 ^ 31 then t\<lparr>th_place := Overflowed\<rparr>
      else t\<lparr>th_needed := th_needed t + int num_machines, th_place := Spinning\<rparr>)"

definition start_thread :: "vec \<Rightarrow> thread" where
  "start_thread initial = begin_round \<lparr>th_machine = start_machine initial, th_needed = 0, th_place = Spinning\<rparr>"

definition start_local_run :: "vec list \<Rightarrow> local_run" where
  "start_local_run starts =
     \<lparr>lr_solutions = replicate num_machines (replicate num_machines 0), lr_converged = replicate num_machines False,
      lr_waiting = 0, lr_lock = None, lr_working = 0, lr_threads = map start_thread starts\<rparr>"

text \<open>What follows the call of \<^verbatim>\<open>get_global_and_converged\<close> in \<^verbatim>\<open>admm_work\<close>, up to the next call.\<close>

definition after_call :: "nat \<Rightarrow> vec \<Rightarrow> bool \<Rightarrow> thread \<Rightarrow> thread" where
  "after_call index global_solution is_converged t =
     (if is_converged then t\<lparr>th_machine := (th_machine t)\<lparr>am_global := global_solution\<rparr>, th_place := Finished\<rparr>
      else begin_round (t\<lparr>th_machine := admm_update global_solution index (th_machine t)\<rparr>))"

definition set_thread :: "nat \<Rightarrow> thread \<Rightarrow> local_run \<Rightarrow> local_run" where
  "set_thread i t s = s\<lparr>lr_threads := (lr_threads s)[i := t]\<rparr>"

definition go :: "nat \<Rightarrow> place \<Rightarrow> local_run \<Rightarrow> local_run" where
  "go i p s = set_thread i ((lr_threads s ! i)\<lparr>th_place := p\<rparr>) s"

definition wake :: "thread \<Rightarrow> thread" where
  "wake t = (if th_place t = Blocked then t\<lparr>th_place := Woken\<rparr> else t)"

text \<open>One step of a thread; none if it has to wait or is done.\<close>

definition thread_step :: "nat \<Rightarrow> local_run \<Rightarrow> local_run option" where
  "thread_step i s =
     (let t = lr_threads s ! i
      in case th_place t of
           Spinning \<Rightarrow> if lr_working s > 0 then None else Some (go i Locking s)
         | Locking \<Rightarrow> if lr_lock s = None then Some (go i Writing (s\<lparr>lr_lock := Some i\<rparr>)) else None
         | Writing \<Rightarrow> Some (go i Writing_Flag (s\<lparr>lr_solutions := (lr_solutions s)[i := am_local (th_machine t)]\<rparr>))
         | Writing_Flag \<Rightarrow> Some (go i Counting (s\<lparr>lr_converged := (lr_converged s)[i := fst (contribution (th_machine t))]\<rparr>))
         | Counting \<Rightarrow> Some (go i Testing (s\<lparr>lr_waiting := lr_waiting s + 1\<rparr>))
         | Testing \<Rightarrow> if lr_waiting s \<ge> th_needed t then Some (go i Notifying (s\<lparr>lr_working := int num_machines\<rparr>))
                     else Some (go i Rechecking s)
         | Notifying \<Rightarrow> Some (go i Unlocking (s\<lparr>lr_threads := map wake (lr_threads s)\<rparr>))
         | Rechecking \<Rightarrow> if lr_waiting s \<ge> th_needed t then Some (go i Unlocking s) else Some (go i Blocked (s\<lparr>lr_lock := None\<rparr>))
         | Blocked \<Rightarrow> None
         | Woken \<Rightarrow> if lr_lock s = None then Some (go i Rechecking (s\<lparr>lr_lock := Some i\<rparr>)) else None
         | Unlocking \<Rightarrow> Some (go i (Summing 0 0 0 []) (s\<lparr>lr_lock := None\<rparr>))
         | Summing k z acc g \<Rightarrow>
             Some (if k < num_machines
                   then if z < num_machines then go i (Summing k (z + 1) (acc + lr_solutions s ! z ! k) g) s
                        else go i (Summing (k + 1) 0 0 (g @ [acc / real num_machines])) s
                   else go i (Folding 0 True g) s)
         | Folding z c g \<Rightarrow>
             Some (if z < num_machines then go i (Folding (z + 1) (c \<and> lr_converged s ! z) g) s else go i (Leaving g c) s)
         | Leaving g c \<Rightarrow> Some (go i (Returning g c) (s\<lparr>lr_working := lr_working s - 1\<rparr>))
         | Returning g c \<Rightarrow> Some (set_thread i (after_call i g c t) s)
         | Finished \<Rightarrow> None
         | Overflowed \<Rightarrow> None)"

text \<open>A wait may also end without a reason. The runs count the steps of the threads and these wake-ups.\<close>

definition wake_spuriously :: "nat \<Rightarrow> local_run \<Rightarrow> local_run" where
  "wake_spuriously i s = set_thread i (wake (lr_threads s ! i)) s"

inductive local_runs :: "vec list \<Rightarrow> nat \<Rightarrow> nat \<Rightarrow> local_run \<Rightarrow> bool" for starts where
  local_start: "local_runs starts 0 0 (start_local_run starts)"
| local_thread: "local_runs starts k w s \<Longrightarrow> i < num_machines \<Longrightarrow> thread_step i s = Some s' \<Longrightarrow> local_runs starts (Suc k) w s'"
| local_wake: "local_runs starts k w s \<Longrightarrow> i < num_machines \<Longrightarrow> local_runs starts k (Suc w) (wake_spuriously i s)"

section \<open>The iterations\<close>

text \<open>The machines after a number of rounds, and what the next round computes of them.\<close>

definition machines_after :: "vec list \<Rightarrow> nat \<Rightarrow> admm list" where
  "machines_after starts n = ((\<lambda>machines. snd (admm_round average_locally machines)) ^^ n) (map start_machine starts)"

definition round_average :: "vec list \<Rightarrow> nat \<Rightarrow> vec \<times> bool" where
  "round_average starts n = average_locally (map contribution (machines_after starts n))"

lemma length_round [simp]: "length (snd (admm_round average machines)) = length machines"
  by (simp add: admm_round_def case_prod_unfold Let_def)

lemma length_after [simp]: "length (machines_after starts n) = length starts"
  by (induction n) (simp_all add: machines_after_def)

lemma after_Suc:
  assumes "\<not> snd (round_average starts n)" "i < length starts"
  shows "machines_after starts (Suc n) ! i = admm_update (fst (round_average starts n)) i (machines_after starts n ! i)"
proof -
  have "machines_after starts (Suc n) = snd (admm_round average_locally (machines_after starts n))" by (simp add: machines_after_def)
  then show ?thesis using assms by (simp add: admm_round_def round_average_def case_prod_unfold Let_def)
qed

lemma round_finished: "fst (admm_round average_locally (machines_after starts n)) = snd (round_average starts n)"
  by (simp add: admm_round_def round_average_def case_prod_unfold Let_def)

lemma run_after:
  assumes "\<And>m. m < n \<Longrightarrow> \<not> snd (round_average starts m)" "snd (round_average starts n)"
  shows "admm_run average_locally (map start_machine starts)
    = Some (map (am_global_update (\<lambda>_. fst (round_average starts n))) (machines_after starts n))"
proof -
  have "admm_run average_locally (machines_after starts m)
      = Some (map (am_global_update (\<lambda>_. fst (round_average starts n))) (machines_after starts n))" if "m \<le> n" for m
    using that
  proof (induction m rule: inc_induct)
    case base
    show ?case using assms(2)
      by (subst admm_run.simps) (simp add: admm_round_def round_average_def case_prod_unfold Let_def)
  next
    case (step m)
    have "\<not> fst (admm_round average_locally (machines_after starts m))" using assms(1) step.hyps by (simp add: round_finished)
    moreover have "snd (admm_round average_locally (machines_after starts m)) = machines_after starts (Suc m)" by (simp add: machines_after_def)
    ultimately show ?case using step.IH by (subst admm_run.simps) (simp add: case_prod_unfold Let_def)
  qed
  from this [of 0] show ?thesis by (simp add: machines_after_def)
qed

section \<open>Who may write\<close>

text \<open>A thread holds the mutex from \<open>Writing\<close> to \<open>Unlocking\<close>, apart from its wait.\<close>

fun holds :: "place \<Rightarrow> bool" where
  "holds Writing = True" | "holds Writing_Flag = True" | "holds Counting = True" | "holds Testing = True" | "holds Notifying = True"
| "holds Rechecking = True" | "holds Unlocking = True" | "holds _ = False"

abbreviation place_of :: "local_run \<Rightarrow> nat \<Rightarrow> place" where
  "place_of s i \<equiv> th_place (lr_threads s ! i)"

definition lock_ok :: "local_run \<Rightarrow> bool" where
  "lock_ok s \<longleftrightarrow> length (lr_threads s) = num_machines \<and> (\<forall>i < num_machines. holds (place_of s i) \<longleftrightarrow> lr_lock s = Some i)
     \<and> (\<forall>i. lr_lock s = Some i \<longrightarrow> i < num_machines)"

lemma begin_round_place: "th_place (begin_round t) = Spinning \<or> th_place (begin_round t) = Overflowed"
  by (simp add: begin_round_def)

lemma begin_round_holds [simp]: "\<not> holds (th_place (begin_round t))"
  using begin_round_place [of t] by auto

lemma after_call_holds [simp]: "\<not> holds (th_place (after_call i g c t))"
  by (simp add: after_call_def)

lemma wake_simps [simp]: "th_machine (wake t) = th_machine t" "th_needed (wake t) = th_needed t"
  "holds (th_place (wake t)) = holds (th_place t)"
  by (auto simp: wake_def)

lemma go_simps [simp]:
  "lr_solutions (go i p s) = lr_solutions s" "lr_converged (go i p s) = lr_converged s" "lr_waiting (go i p s) = lr_waiting s"
  "lr_lock (go i p s) = lr_lock s" "lr_working (go i p s) = lr_working s"
  "lr_threads (go i p s) = (lr_threads s)[i := (lr_threads s ! i)\<lparr>th_place := p\<rparr>]"
  by (simp_all add: go_def set_thread_def)

lemma set_thread_simps [simp]:
  "lr_solutions (set_thread i t s) = lr_solutions s" "lr_converged (set_thread i t s) = lr_converged s"
  "lr_waiting (set_thread i t s) = lr_waiting s" "lr_lock (set_thread i t s) = lr_lock s"
  "lr_working (set_thread i t s) = lr_working s" "lr_threads (set_thread i t s) = (lr_threads s)[i := t]"
  by (simp_all add: set_thread_def)

lemma lock_step:
  assumes "lock_ok s" "i < num_machines" "thread_step i s = Some s'"
  shows "lock_ok s'"
proof -
  have l: "length (lr_threads s) = num_machines" "holds (place_of s j) \<longleftrightarrow> lr_lock s = Some j" if "j < num_machines" for j
    using assms(1) that by (auto simp: lock_ok_def)
  have b: "lr_lock s = Some j \<Longrightarrow> j < num_machines" for j using assms(1) by (simp add: lock_ok_def)
  show ?thesis using assms(2,3) l(1) l(2) [OF assms(2)] b
    by (cases "place_of s i")
       (auto simp: thread_step_def Let_def lock_ok_def nth_list_update l split: if_splits)
qed

lemma lock_wake: "lock_ok s \<Longrightarrow> i < num_machines \<Longrightarrow> lock_ok (wake_spuriously i s)"
  by (auto simp: lock_ok_def wake_spuriously_def nth_list_update)

lemma lock_start: "length starts = num_machines \<Longrightarrow> lock_ok (start_local_run starts)"
  by (simp add: lock_ok_def start_local_run_def start_thread_def)

section \<open>The two phases of a round\<close>

text \<open>While the threads gather, they arrive one by one; \<^verbatim>\<open>num_waiting\<close> counts those that have written. Then all of them read,
  and \<^verbatim>\<open>working_on_data\<close> counts those that have not finished.\<close>

fun late :: "place \<Rightarrow> bool" where
  "late Spinning = True" | "late Locking = True" | "late Writing = True" | "late Writing_Flag = True" | "late Counting = True"
| "late _ = False"

fun counted :: "place \<Rightarrow> bool" where
  "counted Testing = True" | "counted Rechecking = True" | "counted Blocked = True" | "counted Woken = True" | "counted _ = False"

fun inside :: "place \<Rightarrow> bool" where
  "inside Notifying = True" | "inside Rechecking = True" | "inside Blocked = True" | "inside Woken = True" | "inside Unlocking = True"
| "inside (Summing k z acc g) = True" | "inside (Folding z c g) = True" | "inside (Leaving g c) = True" | "inside _ = False"

text \<open>A thread at work in round \<open>n\<close>, and one that is through with it.\<close>

definition at_round :: "vec list \<Rightarrow> nat \<Rightarrow> nat \<Rightarrow> thread \<Rightarrow> bool" where
  "at_round starts n i t \<longleftrightarrow> th_machine t = machines_after starts n ! i \<and> th_needed t = int num_machines * (int n + 1)
     \<and> (\<forall>m < n. \<not> snd (round_average starts m))"

definition through :: "vec list \<Rightarrow> nat \<Rightarrow> nat \<Rightarrow> thread \<Rightarrow> bool" where
  "through starts n i t \<longleftrightarrow> (\<forall>m < n. \<not> snd (round_average starts m)) \<and>
     (case th_place t of
        Returning g c \<Rightarrow> (g, c) = round_average starts n \<and> at_round starts n i t
      | Finished \<Rightarrow> snd (round_average starts n)
          \<and> th_machine t = (machines_after starts n ! i)\<lparr>am_global := fst (round_average starts n)\<rparr>
      | Overflowed \<Rightarrow> \<not> snd (round_average starts n) \<and> int num_machines * (int n + 2) \<ge> 2 ^ 31
          \<and> th_machine t = machines_after starts (Suc n) ! i
      | _ \<Rightarrow> False)"

definition gather_ok :: "vec list \<Rightarrow> nat \<Rightarrow> vec list \<Rightarrow> bool list \<Rightarrow> nat \<Rightarrow> thread \<Rightarrow> bool" where
  "gather_ok starts n sols convs i t \<longleftrightarrow>
     (at_round starts n i t \<and> (late (th_place t) \<or> counted (th_place t)) \<or> (\<exists>m. n = Suc m \<and> through starts m i t))
   \<and> (counted (th_place t) \<or> th_place t \<in> {Writing_Flag, Counting} \<longrightarrow> sols ! i = am_local (machines_after starts n ! i))
   \<and> (counted (th_place t) \<or> th_place t = Counting \<longrightarrow> convs ! i = fst (contribution (machines_after starts n ! i)))"

definition gathering :: "vec list \<Rightarrow> nat \<Rightarrow> local_run \<Rightarrow> bool" where
  "gathering starts n s \<longleftrightarrow> lr_working s = 0
     \<and> lr_waiting s = int num_machines * int n + int (length (filter (counted \<circ> th_place) (lr_threads s)))
     \<and> (\<forall>i < num_machines. gather_ok starts n (lr_solutions s) (lr_converged s) i (lr_threads s ! i))
     \<and> ((\<forall>i < num_machines. counted (place_of s i)) \<longrightarrow> (\<exists>i < num_machines. place_of s i = Testing))"

text \<open>What a thread has read so far.\<close>

fun partial_ok :: "vec list \<Rightarrow> nat \<Rightarrow> place \<Rightarrow> bool" where
  "partial_ok starts n (Summing k z acc g) \<longleftrightarrow> k \<le> num_machines \<and> z \<le> num_machines \<and> g = take k (fst (round_average starts n))
     \<and> acc = fold (\<lambda>z s. s + am_local (machines_after starts n ! z) ! k) [0..<z] 0"
| "partial_ok starts n (Folding z c g) \<longleftrightarrow> z \<le> num_machines \<and> g = fst (round_average starts n)
     \<and> c = fold (\<lambda>c r. r \<and> c) (take z (map (fst \<circ> contribution) (machines_after starts n))) True"
| "partial_ok starts n (Leaving g c) \<longleftrightarrow> (g, c) = round_average starts n"
| "partial_ok starts n _ \<longleftrightarrow> True"

definition read_ok :: "vec list \<Rightarrow> nat \<Rightarrow> nat \<Rightarrow> thread \<Rightarrow> bool" where
  "read_ok starts n i t \<longleftrightarrow> at_round starts n i t \<and> inside (th_place t) \<and> partial_ok starts n (th_place t)
     \<or> through starts n i t \<or> at_round starts (Suc n) i t \<and> th_place t = Spinning"

definition reading :: "vec list \<Rightarrow> nat \<Rightarrow> local_run \<Rightarrow> bool" where
  "reading starts n s \<longleftrightarrow> lr_working s = int (length (filter (inside \<circ> th_place) (lr_threads s))) \<and> 0 < lr_working s
     \<and> lr_waiting s = int num_machines * (int n + 1)
     \<and> lr_solutions s = map am_local (machines_after starts n) \<and> lr_converged s = map (fst \<circ> contribution) (machines_after starts n)
     \<and> (\<forall>i < num_machines. read_ok starts n i (lr_threads s ! i))
     \<and> ((\<exists>i < num_machines. place_of s i = Blocked) \<longrightarrow> (\<exists>i < num_machines. place_of s i = Notifying))"

definition sizes_ok :: "local_run \<Rightarrow> bool" where
  "sizes_ok s \<longleftrightarrow> length (lr_solutions s) = num_machines \<and> length (lr_converged s) = num_machines"

lemma length_filter_update:
  assumes "i < length xs"
  shows "int (length (filter P (xs[i := y]))) = int (length (filter P xs)) + of_bool (P y) - of_bool (P (xs ! i))"
proof -
  have "xs = take i xs @ xs ! i # drop (Suc i) xs" using assms by (rule id_take_nth_drop)
  then have "length (filter P xs) = length (filter P (take i xs @ xs ! i # drop (Suc i) xs))" by simp
  then show ?thesis using assms by (simp add: upd_conv_take_nth_drop)
qed

lemma filter_all_length: "length (filter P xs) = length xs \<longleftrightarrow> (\<forall>i < length xs. P (xs ! i))"
  by (metis all_set_conv_all_nth filter_True length_filter_less less_irrefl nth_mem)

text \<open>The next place of a thread that changes nothing else that the others rely on.\<close>

lemma gather_update:
  assumes "gathering starts n s" "sizes_ok s" "lock_ok s" "i < num_machines"
    and "lr_threads s' = (lr_threads s)[i := t]" "lr_working s' = 0"
    and "lr_waiting s' = lr_waiting s + of_bool (counted (th_place t)) - of_bool (counted (place_of s i))"
    and "\<And>j. j < num_machines \<Longrightarrow> j \<noteq> i \<Longrightarrow> lr_solutions s' ! j = lr_solutions s ! j"
    and "\<And>j. j < num_machines \<Longrightarrow> j \<noteq> i \<Longrightarrow> lr_converged s' ! j = lr_converged s ! j"
    and "gather_ok starts n (lr_solutions s') (lr_converged s') i t"
    and "th_place t = Testing \<or> \<not> counted (th_place t)
      \<or> counted (place_of s i) \<and> (place_of s i \<noteq> Testing \<or> \<not> (\<forall>j < num_machines. counted (place_of s j)))"
  shows "gathering starts n s'"
proof -
  have l: "length (lr_threads s) = num_machines" using assms(3) by (simp add: lock_ok_def)
  have g: "gather_ok starts n (lr_solutions s') (lr_converged s') j (lr_threads s' ! j)" if "j < num_machines" for j
  proof (cases "j = i")
    case True
    then show ?thesis using assms(4,5,10) l by simp
  next
    case False
    then have "lr_threads s' ! j = lr_threads s ! j" using assms(5) by simp
    then show ?thesis using assms(1) assms(8,9) [OF that False] that unfolding gathering_def gather_ok_def by auto
  qed
  have "\<exists>j < num_machines. place_of s' j = Testing" if all: "\<forall>j < num_machines. counted (place_of s' j)"
  proof (cases "th_place t = Testing")
    case True
    then show ?thesis using assms(4,5) l by (intro exI [of _ i]) simp
  next
    case False
    have t: "counted (th_place t)" using all assms(4,5) l by (metis nth_list_update_eq)
    have o: "counted (place_of s j)" if "j < num_machines" "j \<noteq> i" for j using all that assms(5) by (metis nth_list_update_neq)
    have "counted (place_of s i)" using assms(11) False t by blast
    then have "\<forall>j < num_machines. counted (place_of s j)" using o by metis
    then obtain j where j: "j < num_machines" "place_of s j = Testing" and "place_of s i \<noteq> Testing"
      using assms(1,11) False t unfolding gathering_def by blast
    then show ?thesis using assms(5) by (intro exI [of _ j]) (cases "j = i", auto)
  qed
  moreover have "lr_waiting s' = int num_machines * int n + int (length (filter (counted \<circ> th_place) (lr_threads s')))"
    using assms(1,4,5,7) l by (simp add: gathering_def length_filter_update)
  ultimately show ?thesis using assms(6) g unfolding gathering_def by blast
qed

lemma read_update:
  assumes "reading starts n s" "lock_ok s" "i < num_machines"
    and "lr_threads s' = (lr_threads s)[i := t]"
    and "lr_working s' = lr_working s + of_bool (inside (th_place t)) - of_bool (inside (place_of s i))" "0 < lr_working s'"
    and "lr_waiting s' = lr_waiting s" "lr_solutions s' = lr_solutions s" "lr_converged s' = lr_converged s"
    and "read_ok starts n i t" "place_of s i \<noteq> Notifying" "th_place t = Blocked \<Longrightarrow> place_of s i = Blocked"
  shows "reading starts n s'"
proof -
  have l: "length (lr_threads s) = num_machines" using assms(2) by (simp add: lock_ok_def)
  have "\<exists>j < num_machines. place_of s' j = Notifying" if "k < num_machines" "place_of s' k = Blocked" for k
  proof -
    have "place_of s k = Blocked" using that assms(3,4,12) l by (cases "k = i") auto
    then have "\<exists>j < num_machines. place_of s j = Notifying" using that(1) assms(1) unfolding reading_def by metis
    then obtain j where "j < num_machines" "place_of s j = Notifying" by blast
    then show ?thesis using assms(4,11) by (intro exI [of _ j]) (cases "j = i", auto)
  qed
  moreover have "read_ok starts n j (lr_threads s' ! j)" if "j < num_machines" for j
    using assms(1,3,4,10) that l by (cases "j = i") (auto simp: reading_def)
  moreover have "int (length (filter (inside \<circ> th_place) (lr_threads s'))) = lr_working s'"
    using assms(1,3-5) l by (simp add: length_filter_update reading_def)
  ultimately show ?thesis using assms(1,6-9) unfolding reading_def by auto
qed

lemma after_call_ok:
  assumes "through starts n i t" "th_place t = Returning g c" "i < length starts"
  shows "at_round starts (Suc n) i (after_call i g c t) \<and> th_place (after_call i g c t) = Spinning
    \<or> through starts n i (after_call i g c t) \<and> \<not> counted (th_place (after_call i g c t))"
proof -
  have r: "(g, c) = round_average starts n" "at_round starts n i t" using assms(1,2) by (simp_all add: through_def)
  then have e: "fst (round_average starts n) = g" "snd (round_average starts n) = c" by (metis fst_conv, metis snd_conv)
  show ?thesis
  proof (cases c)
    case True
    then show ?thesis using r(2) e by (simp add: after_call_def through_def at_round_def)
  next
    case False
    then have m: "machines_after starts (Suc n) ! i = admm_update g i (machines_after starts n ! i)" using after_Suc assms(3) e by simp
    have b: "\<forall>m < Suc n. \<not> snd (round_average starts m)" using r(2) e False by (auto simp: at_round_def less_Suc_eq)
    then show ?thesis using r(2) e False m
      by (auto simp: after_call_def begin_round_def through_def at_round_def num_machines_def)
  qed
qed

lemma all_counted_iff:
  "length (lr_threads s) = num_machines
    \<Longrightarrow> length (filter (counted \<circ> th_place) (lr_threads s)) = num_machines \<longleftrightarrow> (\<forall>j < num_machines. counted (place_of s j))"
  using filter_all_length [of "counted \<circ> th_place" "lr_threads s"] by simp

lemma all_counted:
  assumes "gathering starts n s" "lock_ok s" "int num_machines * (int n + 1) \<le> lr_waiting s"
  shows "\<forall>j < num_machines. counted (place_of s j)"
proof -
  have l: "length (lr_threads s) = num_machines" using assms(2) by (simp add: lock_ok_def)
  have "num_machines \<le> length (filter (counted \<circ> th_place) (lr_threads s))"
    using assms(1,3) by (simp add: gathering_def algebra_simps)
  then have "length (filter (counted \<circ> th_place) (lr_threads s)) = num_machines" using l length_filter_le le_antisym by metis
  then show ?thesis using all_counted_iff [OF l] by simp
qed

lemma not_all_counted:
  assumes "gathering starts n s" "lock_ok s" "lr_waiting s < int num_machines * (int n + 1)"
  shows "\<not> (\<forall>j < num_machines. counted (place_of s j))"
proof
  have l: "length (lr_threads s) = num_machines" using assms(2) by (simp add: lock_ok_def)
  assume "\<forall>j < num_machines. counted (place_of s j)"
  then have "length (filter (counted \<circ> th_place) (lr_threads s)) = num_machines" using all_counted_iff [OF l] by simp
  then show False using assms(1,3) by (simp add: gathering_def algebra_simps)
qed

text \<open>The last of the threads to arrive finds the arrays complete.\<close>

lemma counted_place:
  assumes "gather_ok starts n sols convs i t" "counted (th_place t)"
  shows "at_round starts n i t" "sols ! i = am_local (machines_after starts n ! i)" "convs ! i = fst (contribution (machines_after starts n ! i))"
  using assms by (cases "th_place t"; auto simp: gather_ok_def through_def)+

lemma reading_begins:
  assumes "gathering starts n s" "sizes_ok s" "lock_ok s" "length starts = num_machines" "i < num_machines" "place_of s i = Testing"
    "int num_machines * (int n + 1) \<le> lr_waiting s"
  shows "reading starts n (go i Notifying (s\<lparr>lr_working := int num_machines\<rparr>))"
proof -
  let ?s = "go i Notifying (s\<lparr>lr_working := int num_machines\<rparr>)"
  have l: "length (lr_threads s) = num_machines" using assms(3) by (simp add: lock_ok_def)
  have c: "counted (place_of s j)" if "j < num_machines" for j using all_counted [OF assms(1,3,7)] that by blast
  have g: "gather_ok starts n (lr_solutions s) (lr_converged s) j (lr_threads s ! j)" if "j < num_machines" for j
    using assms(1) that by (simp add: gathering_def)
  have other: "place_of s j \<in> {Rechecking, Blocked, Woken}" if "j < num_machines" "j \<noteq> i" for j
  proof -
    have "\<not> holds (place_of s j)" using assms(3,5,6) that by (auto simp: lock_ok_def)
    then show ?thesis using c [OF that(1)] by (cases "place_of s j") auto
  qed
  have p: "inside (place_of ?s j) \<and> read_ok starts n j (lr_threads ?s ! j)" if "j < num_machines" for j
    using counted_place(1) [OF g [OF that] c [OF that]] other [OF that] that l
    by (cases "j = i") (auto simp: read_ok_def at_round_def)
  have "length (filter (inside \<circ> th_place) (lr_threads ?s)) = num_machines"
    using p l by (subst filter_all_length [THEN iffD2]) auto
  moreover have "lr_solutions s = map am_local (machines_after starts n)"
    using assms(2,4) counted_place(2) [OF g c] by (intro nth_equalityI) (simp_all add: sizes_ok_def)
  moreover have "lr_converged s = map (fst \<circ> contribution) (machines_after starts n)"
    using assms(2,4) counted_place(3) [OF g c] by (intro nth_equalityI) (simp_all add: sizes_ok_def)
  moreover have "length (filter (counted \<circ> th_place) (lr_threads s)) = num_machines"
    using c all_counted_iff [OF l] by simp
  then have "lr_waiting s = int num_machines * (int n + 1)" using assms(1) by (simp add: gathering_def algebra_simps)
  ultimately show ?thesis using p assms(5) l
    by (auto simp: reading_def num_machines_def intro!: exI [of _ i])
qed

lemma at_round_place [simp]: "at_round starts n i (t\<lparr>th_place := p\<rparr>) = at_round starts n i t"
  by (simp add: at_round_def)

lemma at_round_D: "at_round starts n i t \<Longrightarrow> th_machine t = machines_after starts n ! i"
  "at_round starts n i t \<Longrightarrow> th_needed t = int num_machines * (int n + 1)"
  by (simp_all add: at_round_def)

lemma gather_cases:
  assumes "gathering starts n s" "i < num_machines"
  obtains "at_round starts n i (lr_threads s ! i)" "late (place_of s i) \<or> counted (place_of s i)"
  | m g c where "n = Suc m" "through starts m i (lr_threads s ! i)" "place_of s i = Returning g c"
  | "place_of s i = Finished" | "place_of s i = Overflowed"
proof -
  have "gather_ok starts n (lr_solutions s) (lr_converged s) i (lr_threads s ! i)" using assms by (simp add: gathering_def)
  then show ?thesis using that unfolding gather_ok_def by (cases "place_of s i") (auto simp: through_def)
qed

lemma gather_step:
  assumes "gathering starts n s" "sizes_ok s" "lock_ok s" "length starts = num_machines" "i < num_machines" "thread_step i s = Some s'"
  shows "gathering starts n s' \<or> reading starts n s'"
  using assms(1,5)
proof (cases rule: gather_cases)
  case 1
  have g: "gather_ok starts n (lr_solutions s) (lr_converged s) i (lr_threads s ! i)" "lr_working s = 0"
    using assms(1,5) by (simp_all add: gathering_def)
  have l: "length (lr_solutions s) = num_machines" "length (lr_converged s) = num_machines" using assms(2) by (simp_all add: sizes_ok_def)
  note r = at_round_D [OF 1(1)] and upd = gather_update [OF assms(1,2,3,5)]
  show ?thesis
  proof (cases "place_of s i")
    case Testing
    show ?thesis
    proof (cases "lr_waiting s \<ge> int num_machines * (int n + 1)")
      case True
      then show ?thesis using assms(6) Testing reading_begins [OF assms(1-5) Testing True] r by (simp add: thread_step_def)
    next
      case False
      then have "(\<forall>j < num_machines. counted (place_of s j)) = False" using not_all_counted [OF assms(1,3)] by simp
      then show ?thesis using assms(6) Testing 1 g r False
        by - (rule disjI1, rule upd [of _ "(lr_threads s ! i)\<lparr>th_place := Rechecking\<rparr>"], auto simp: thread_step_def gather_ok_def)
    qed
  next
    case Rechecking
    show ?thesis
    proof (cases "lr_waiting s \<ge> int num_machines * (int n + 1)")
      case True
      then obtain j where "j < num_machines" "place_of s j = Testing"
        using all_counted [OF assms(1,3)] assms(1) unfolding gathering_def by blast
      then have "i = j" using assms(3,5) Rechecking unfolding lock_ok_def by (metis holds.simps(4,6) option.inject)
      then show ?thesis using \<open>place_of s j = Testing\<close> Rechecking by simp
    next
      case False
      then show ?thesis using assms(6) Rechecking 1 g r
        by - (rule disjI1, rule upd [of _ "(lr_threads s ! i)\<lparr>th_place := Blocked\<rparr>"], auto simp: thread_step_def gather_ok_def)
    qed
  next
    case Spinning
    then show ?thesis using assms(6) 1 g
      by - (rule disjI1, rule upd [of _ "(lr_threads s ! i)\<lparr>th_place := Locking\<rparr>"], auto simp: thread_step_def gather_ok_def)
  next
    case Locking
    then show ?thesis using assms(6) 1 g
      by - (rule disjI1, rule upd [of _ "(lr_threads s ! i)\<lparr>th_place := Writing\<rparr>"], auto simp: thread_step_def gather_ok_def split: if_splits)
  next
    case Writing
    then show ?thesis using assms(5,6) 1 g l r
      by - (rule disjI1, rule upd [of _ "(lr_threads s ! i)\<lparr>th_place := Writing_Flag\<rparr>"], auto simp: thread_step_def gather_ok_def)
  next
    case Writing_Flag
    then show ?thesis using assms(5,6) 1 g l r
      by - (rule disjI1, rule upd [of _ "(lr_threads s ! i)\<lparr>th_place := Counting\<rparr>"], auto simp: thread_step_def gather_ok_def)
  next
    case Counting
    then show ?thesis using assms(6) 1 g
      by - (rule disjI1, rule upd [of _ "(lr_threads s ! i)\<lparr>th_place := Testing\<rparr>"], auto simp: thread_step_def gather_ok_def)
  next
    case Woken
    then show ?thesis using assms(6) 1 g
      by - (rule disjI1, rule upd [of _ "(lr_threads s ! i)\<lparr>th_place := Rechecking\<rparr>"], auto simp: thread_step_def gather_ok_def split: if_splits)
  qed (use assms(6) 1 in \<open>auto simp: thread_step_def\<close>)
next
  case (2 m g c)
  have "i < length starts" using assms(4,5) by simp
  from after_call_ok [OF 2(2,3) this]
  have "gather_ok starts n (lr_solutions s) (lr_converged s) i (after_call i g c (lr_threads s ! i))"
    and "\<not> counted (th_place (after_call i g c (lr_threads s ! i)))"
    using 2(1) by (auto simp: gather_ok_def through_def split: place.splits)
  moreover have "lr_working s = 0" using assms(1) by (simp add: gathering_def)
  ultimately show ?thesis using assms(6) 2(3)
    by - (rule disjI1, rule gather_update [OF assms(1,2,3,5), of _ "after_call i g c (lr_threads s ! i)"], auto simp: thread_step_def)
qed (use assms(6) in \<open>simp_all add: thread_step_def\<close>)

text \<open>Reading adds up what \<open>average_locally\<close> does.\<close>

lemma round_average_eq:
  assumes "length starts = num_machines"
  shows "length (fst (round_average starts n)) = num_machines"
    "k < num_machines \<Longrightarrow> fst (round_average starts n) ! k
      = fold (\<lambda>z s. s + am_local (machines_after starts n ! z) ! k) [0..<num_machines] 0 / real num_machines"
    "snd (round_average starts n) = fold (\<lambda>c r. r \<and> c) (map (fst \<circ> contribution) (machines_after starts n)) True"
proof -
  have "fold (\<lambda>z s. s + snd (map contribution (machines_after starts n) ! z) ! k) [0..<num_machines] 0
      = fold (\<lambda>z s. s + am_local (machines_after starts n ! z) ! k) [0..<num_machines] 0" for k
    using assms by (intro fold_cong) (auto simp: contribution_def)
  then show "k < num_machines \<Longrightarrow> fst (round_average starts n) ! k
      = fold (\<lambda>z s. s + am_local (machines_after starts n ! z) ! k) [0..<num_machines] 0 / real num_machines"
    using assms by (simp add: round_average_def average_locally_eq)
qed (use assms in \<open>simp_all add: round_average_def average_locally_eq\<close>)

lemma next_partial:
  assumes "reading starts n s" "length starts = num_machines" "partial_ok starts n (place_of s i)" "inside (place_of s i)"
    "place_of s i = Summing k z acc g \<or> place_of s i = Folding z c g" "thread_step i s = Some s'"
  obtains p where "s' = go i p s" "inside p" "partial_ok starts n p" "p \<noteq> Blocked"
proof -
  note e = round_average_eq [OF assms(2), where n = n]
  have sol: "lr_solutions s ! z = am_local (machines_after starts n ! z)" "lr_converged s ! z = fst (contribution (machines_after starts n ! z))"
    if "z < num_machines"
    using assms(1,2) that by (simp_all add: reading_def)
  have flags: "take (Suc z) (map (fst \<circ> contribution) (machines_after starts n))
      = take z (map (fst \<circ> contribution) (machines_after starts n)) @ [fst (contribution (machines_after starts n ! z))]" if "z < num_machines"
    using assms(2) that by (simp add: take_Suc_conv_app_nth)
  from assms(5) show ?thesis
  proof
    assume p: "place_of s i = Summing k z acc g"
    then have ok: "k \<le> num_machines" "z \<le> num_machines" "g = take k (fst (round_average starts n))"
      "acc = fold (\<lambda>z s. s + am_local (machines_after starts n ! z) ! k) [0..<z] 0" using assms(3) by simp_all
    show ?thesis
    proof (cases "k < num_machines")
      case True
      show ?thesis
      proof (cases "z < num_machines")
        case z: True
        show ?thesis by (rule that [of "Summing k (z + 1) (acc + lr_solutions s ! z ! k) g"])
          (use assms(6) p True z ok sol in \<open>simp_all add: thread_step_def\<close>)
      next
        case False
        then have "take (Suc k) (fst (round_average starts n)) = g @ [acc / real num_machines]"
          using True ok e by (simp add: take_Suc_conv_app_nth)
        then show ?thesis by (intro that [of "Summing (k + 1) 0 0 (g @ [acc / real num_machines])"])
          (use assms(6) p True False in \<open>simp_all add: thread_step_def\<close>)
      qed
    next
      case False
      show ?thesis by (rule that [of "Folding 0 True g"]) (use assms(6) p False ok e in \<open>simp_all add: thread_step_def\<close>)
    qed
  next
    assume p: "place_of s i = Folding z c g"
    then have ok: "z \<le> num_machines" "g = fst (round_average starts n)"
      "c = fold (\<lambda>c r. r \<and> c) (take z (map (fst \<circ> contribution) (machines_after starts n))) True" using assms(3) by simp_all
    show ?thesis
    proof (cases "z < num_machines")
      case True
      show ?thesis by (rule that [of "Folding (z + 1) (c \<and> lr_converged s ! z) g"])
        (use assms(6) p True ok sol flags in \<open>simp_all add: thread_step_def\<close>)
    next
      case False
      then have "(g, c) = round_average starts n" using ok e(3) assms(2) by (simp add: prod_eq_iff)
      then show ?thesis by (intro that [of "Leaving g c"]) (use assms(6) p False in \<open>simp_all add: thread_step_def\<close>)
    qed
  qed
qed

lemma read_cases:
  assumes "reading starts n s" "i < num_machines"
  obtains "at_round starts n i (lr_threads s ! i)" "inside (place_of s i)" "partial_ok starts n (place_of s i)"
  | g c where "through starts n i (lr_threads s ! i)" "place_of s i = Returning g c"
  | "place_of s i = Finished" | "place_of s i = Overflowed" | "place_of s i = Spinning"
proof -
  have "read_ok starts n i (lr_threads s ! i)" using assms by (simp add: reading_def)
  then show ?thesis using that unfolding read_ok_def by (cases "place_of s i") (auto simp: through_def)
qed

text \<open>With the last thread that leaves, the threads gather for the next round.\<close>

lemma leave_step:
  assumes "reading starts n s" "lock_ok s" "i < num_machines" "at_round starts n i (lr_threads s ! i)"
    "place_of s i = Leaving g c" "(g, c) = round_average starts n"
  defines "s' \<equiv> go i (Returning g c) (s\<lparr>lr_working := lr_working s - 1\<rparr>)"
  shows "gathering starts (Suc n) s' \<or> reading starts n s'"
proof (cases "lr_working s = 1")
  case False
  have "0 < lr_working s" using assms(1) unfolding reading_def by blast
  then have "0 < lr_working s - 1" using False by simp
  then have "reading starts n s'" using assms(4-6)
    by - (rule read_update [OF assms(1,2,3), of _ "(lr_threads s ! i)\<lparr>th_place := Returning g c\<rparr>"],
      auto simp: s'_def read_ok_def through_def at_round_def)
  then show ?thesis by simp
next
  case True
  have l: "length (lr_threads s) = num_machines" using assms(2) by (simp add: lock_ok_def)
  have r: "read_ok starts n j (lr_threads s ! j)" if "j < num_machines" for j using assms(1) that by (simp add: reading_def)
  have "int (length (filter (inside \<circ> th_place) (lr_threads s'))) = 0"
    using assms(1,3,5) True l by (simp add: s'_def length_filter_update reading_def)
  then have o: "\<not> inside (place_of s' j)" if "j < num_machines" for j
    using that l by (auto simp: s'_def filter_empty_conv all_set_conv_all_nth)
  have p: "at_round starts (Suc n) j (lr_threads s' ! j) \<and> place_of s' j = Spinning \<or> through starts n j (lr_threads s' ! j)"
    if "j < num_machines" for j
  proof (cases "j = i")
    case True
    then show ?thesis using assms(3,4,6) l by (simp add: s'_def through_def at_round_def)
  next
    case False
    then show ?thesis using r [OF that] o [OF that] by (auto simp: s'_def read_ok_def)
  qed
  then have n: "\<not> counted (place_of s' j)" "gather_ok starts (Suc n) (lr_solutions s') (lr_converged s') j (lr_threads s' ! j)"
    if "j < num_machines" for j
    using p [OF that] by (auto simp: gather_ok_def through_def split: place.splits)
  then have "filter (counted \<circ> th_place) (lr_threads s') = []"
    using l by (simp add: filter_empty_conv all_set_conv_all_nth s'_def)
  then have "gathering starts (Suc n) s'"
    using n True assms(1,3) by (auto simp: gathering_def reading_def s'_def algebra_simps)
  then show ?thesis by simp
qed

lemma read_wake: "read_ok starts n i (wake t) = read_ok starts n i t"
  by (cases "th_place t = Blocked") (auto simp: wake_def read_ok_def through_def at_round_def)

lemma wake_inside [simp]: "inside (th_place (wake t)) = inside (th_place t)"
  by (simp add: wake_def)

lemma wake_counted [simp]: "counted (th_place (wake t)) = counted (th_place t)"
  by (simp add: wake_def)

lemma wake_not_blocked [simp]: "th_place (wake t) \<noteq> Blocked"
  by (simp add: wake_def)

lemma filter_wake: "filter (inside \<circ> th_place) (map wake ts) = map wake (filter (inside \<circ> th_place) ts)"
  by (simp add: filter_map comp_def)

lemma notify_step:
  assumes "reading starts n s" "lock_ok s" "i < num_machines" "at_round starts n i (lr_threads s ! i)" "place_of s i = Notifying"
  shows "reading starts n (go i Unlocking (s\<lparr>lr_threads := map wake (lr_threads s)\<rparr>))" (is "reading starts n ?s")
proof -
  have l: "length (lr_threads s) = num_machines" using assms(2) by (simp add: lock_ok_def)
  have "read_ok starts n j (lr_threads s ! j)" if "j < num_machines" for j using assms(1) that unfolding reading_def by blast
  then have "read_ok starts n j (lr_threads ?s ! j)" if "j < num_machines" for j
    using assms(3,4) that l by (cases "j = i") (simp_all add: read_wake, simp add: read_ok_def at_round_def)
  moreover have "place_of ?s j \<noteq> Blocked" if "j < num_machines" for j
    using assms(3) that l by (cases "j = i") auto
  moreover have "int (length (filter (inside \<circ> th_place) (lr_threads ?s))) = int (length (filter (inside \<circ> th_place) (lr_threads s)))"
    using assms(3,5) l filter_wake [of "lr_threads s"] by (simp add: length_filter_update del: filter_map)
  ultimately show ?thesis using assms(1) unfolding reading_def by auto
qed

lemma reading_pos: "reading starts n s \<Longrightarrow> 0 < lr_working s"
  unfolding reading_def by blast

lemma read_step:
  assumes "reading starts n s" "lock_ok s" "length starts = num_machines" "i < num_machines" "thread_step i s = Some s'"
  shows "gathering starts (Suc n) s' \<or> reading starts n s'"
  using assms(1,4)
proof (cases rule: read_cases)
  case 1
  have w: "0 < lr_working s" "lr_waiting s = int num_machines * (int n + 1)" using assms(1) unfolding reading_def by blast+
  note upd = read_update [OF assms(1,2,4)]
  have partial: "reading starts n s'" if "place_of s i = Summing k z acc g \<or> place_of s i = Folding z c g" for k z acc c g
    using next_partial [OF assms(1,3) 1(3,2) that assms(5)]
  proof cases
    case (1 p)
    then show ?thesis using w that \<open>at_round starts n i (lr_threads s ! i)\<close>
      by - (rule upd [of _ "(lr_threads s ! i)\<lparr>th_place := p\<rparr>"], auto simp: read_ok_def)
  qed
  show ?thesis
  proof (cases "place_of s i")
    case Notifying
    then show ?thesis using notify_step [OF assms(1,2,4) 1(1)] assms(5) by (simp add: thread_step_def)
  next
    case Rechecking
    then show ?thesis using assms(5) 1 w at_round_D(2) [OF 1(1)]
      by - (rule disjI2, rule upd [of _ "(lr_threads s ! i)\<lparr>th_place := Unlocking\<rparr>"], auto simp: thread_step_def read_ok_def)
  next
    case Woken
    then show ?thesis using assms(5) 1 w
      by - (rule disjI2, rule upd [of _ "(lr_threads s ! i)\<lparr>th_place := Rechecking\<rparr>"],
        auto simp: thread_step_def read_ok_def split: if_splits)
  next
    case Unlocking
    then show ?thesis using assms(5) 1 w round_average_eq [OF assms(3)]
      by - (rule disjI2, rule upd [of _ "(lr_threads s ! i)\<lparr>th_place := Summing 0 0 0 []\<rparr>"], auto simp: thread_step_def read_ok_def)
  next
    case (Leaving g c)
    then show ?thesis using leave_step [OF assms(1,2,4) 1(1) Leaving] 1(3) assms(5) by (simp add: thread_step_def)
  qed (use assms(5) 1 partial in \<open>auto simp: thread_step_def\<close>)
next
  case (2 g c)
  have "i < length starts" using assms(3,4) by simp
  from after_call_ok [OF 2(1,2) this]
  have r: "read_ok starts n i (after_call i g c (lr_threads s ! i))"
    and p: "th_place (after_call i g c (lr_threads s ! i)) \<noteq> Blocked" "\<not> inside (th_place (after_call i g c (lr_threads s ! i)))"
    using begin_round_place by (auto simp: read_ok_def after_call_def) (metis inside.simps(9) inside.simps(17))
  moreover have "0 < lr_working s" using assms(1) unfolding reading_def by blast
  ultimately show ?thesis using assms(5) 2(2)
    by - (rule disjI2, rule read_update [OF assms(1,2,4), of _ "after_call i g c (lr_threads s ! i)"], auto simp: thread_step_def)
qed (use assms(5) reading_pos [OF assms(1)] in \<open>simp_all add: thread_step_def\<close>)

section \<open>What holds in every run\<close>

definition local_ok :: "vec list \<Rightarrow> local_run \<Rightarrow> bool" where
  "local_ok starts s \<longleftrightarrow> lock_ok s \<and> sizes_ok s \<and> (\<exists>n. gathering starts n s \<or> reading starts n s)"

lemma sizes_step: "sizes_ok s \<Longrightarrow> thread_step i s = Some s' \<Longrightarrow> sizes_ok s'"
  by (cases "place_of s i") (auto simp: thread_step_def sizes_ok_def split: if_splits)

lemma local_step_ok:
  assumes "local_ok starts s" "length starts = num_machines" "i < num_machines" "thread_step i s = Some s'"
  shows "local_ok starts s'"
  using assms lock_step sizes_step gather_step read_step unfolding local_ok_def by metis

lemma gather_wake:
  assumes "gathering starts n s" "sizes_ok s" "lock_ok s" "i < num_machines"
  shows "gathering starts n (wake_spuriously i s)"
proof (cases "place_of s i = Blocked")
  case True
  have "gather_ok starts n (lr_solutions s) (lr_converged s) i (lr_threads s ! i)" using assms(1,4) by (simp add: gathering_def)
  then show ?thesis using assms(1) True
    by - (rule gather_update [OF assms, of _ "wake (lr_threads s ! i)"],
      auto simp: wake_spuriously_def wake_def gathering_def gather_ok_def through_def)
next
  case False
  then show ?thesis using assms(1) by (simp add: wake_spuriously_def wake_def set_thread_def)
qed

lemma read_wakes:
  assumes "reading starts n s" "lock_ok s" "i < num_machines"
  shows "reading starts n (wake_spuriously i s)"
proof (cases "place_of s i = Blocked")
  case True
  have "read_ok starts n i (lr_threads s ! i)" using assms(1,3) unfolding reading_def by blast
  then show ?thesis using True reading_pos [OF assms(1)]
    by - (rule read_update [OF assms, of _ "wake (lr_threads s ! i)"], auto simp: wake_spuriously_def read_wake)
next
  case False
  then show ?thesis using assms(1) by (simp add: wake_spuriously_def wake_def set_thread_def)
qed

lemma wake_ok:
  assumes "local_ok starts s" "i < num_machines"
  shows "local_ok starts (wake_spuriously i s)"
proof -
  have "sizes_ok (wake_spuriously i s)" using assms(1) by (simp add: local_ok_def sizes_ok_def wake_spuriously_def)
  then show ?thesis using assms lock_wake gather_wake read_wakes unfolding local_ok_def by metis
qed

lemma begin_first: "start_thread v = \<lparr>th_machine = start_machine v, th_needed = int num_machines, th_place = Spinning\<rparr>"
  by (simp add: start_thread_def begin_round_def num_machines_def)

lemma start_local_ok:
  assumes "length starts = num_machines"
  shows "local_ok starts (start_local_run starts)"
proof -
  have "gathering starts 0 (start_local_run starts)"
    using assms by (simp add: gathering_def start_local_run_def begin_first filter_map comp_def gather_ok_def at_round_def
      machines_after_def num_machines_def) (rule exI [of _ 0], simp)
  then show ?thesis using lock_start [OF assms] by (auto simp: local_ok_def sizes_ok_def start_local_run_def)
qed

lemma local_runs_ok:
  assumes "local_runs starts k w s" "length starts = num_machines"
  shows "local_ok starts s"
  using assms(1)
  by induction (use assms(2) start_local_ok local_step_ok wake_ok in blast)+

text \<open>A thread is in a round, and through with it if it is finished.\<close>

definition in_round :: "vec list \<Rightarrow> nat \<Rightarrow> nat \<Rightarrow> thread \<Rightarrow> bool" where
  "in_round starts n i t \<longleftrightarrow> (if th_place t \<in> {Finished, Overflowed} then through starts n i t else at_round starts n i t)"

lemma local_in_round:
  assumes "local_ok starts s" "i < num_machines"
  obtains n where "in_round starts n i (lr_threads s ! i)" "\<And>g c. place_of s i = Leaving g c \<or> place_of s i = Returning g c \<Longrightarrow> (g, c) = round_average starts n"
proof -
  from assms(1) obtain n where "gathering starts n s \<or> reading starts n s" unfolding local_ok_def by blast
  then have "gather_ok starts n (lr_solutions s) (lr_converged s) i (lr_threads s ! i) \<or> read_ok starts n i (lr_threads s ! i)"
    using assms(2) unfolding gathering_def reading_def by blast
  then show ?thesis
    by (cases "place_of s i") (auto simp: gather_ok_def read_ok_def through_def in_round_def split: if_splits intro: that)
qed

section \<open>Every run ends\<close>

text \<open>The steps that a thread has left in its round. The thread that wakes the others pays for them.\<close>

fun place_rank :: "place \<Rightarrow> nat" where
  "place_rank Finished = 0" | "place_rank Overflowed = 0" | "place_rank (Returning g c) = 1" | "place_rank (Leaving g c) = 2"
| "place_rank (Folding z c g) = 3 + (num_machines - z)"
| "place_rank (Summing k z acc g) = 9 + 6 * (num_machines - k) + (num_machines - z)"
| "place_rank Unlocking = 45" | "place_rank Blocked = 46" | "place_rank Rechecking = 47" | "place_rank Woken = 48"
| "place_rank Notifying = 56" | "place_rank Testing = 57" | "place_rank Counting = 58" | "place_rank Writing_Flag = 59"
| "place_rank Writing = 60" | "place_rank Locking = 61" | "place_rank Spinning = 62"

definition thread_rank :: "nat \<Rightarrow> thread \<Rightarrow> nat" where
  "thread_rank N t = 62 * (N + 1 - nat (th_needed t div int num_machines)) + place_rank (th_place t)"

definition run_rank :: "nat \<Rightarrow> local_run \<Rightarrow> nat" where
  "run_rank N s = sum_list (map (thread_rank N) (lr_threads s))"

lemma rank_update:
  assumes "i < length ts"
  shows "sum_list (map (thread_rank N) (ts[i := t])) + thread_rank N (ts ! i) = sum_list (map (thread_rank N) ts) + thread_rank N t"
proof -
  have "ts = take i ts @ ts ! i # drop (Suc i) ts" using assms by (rule id_take_nth_drop)
  then have "sum_list (map (thread_rank N) ts) = sum_list (map (thread_rank N) (take i ts @ ts ! i # drop (Suc i) ts))" by simp
  then show ?thesis using assms by (simp add: upd_conv_take_nth_drop)
qed

lemma rank_wake: "thread_rank N (wake t) \<le> thread_rank N t + 2"
  by (simp add: thread_rank_def wake_def)

lemma rank_wakes: "sum_list (map (thread_rank N \<circ> wake) ts) \<le> sum_list (map (thread_rank N) ts) + 2 * length ts"
proof (induction ts)
  case (Cons t ts)
  then show ?case using rank_wake [of N t] by simp
qed simp

lemma rank_set:
  assumes "length (lr_threads s) = num_machines" "i < num_machines" "lr_threads s' = (lr_threads s)[i := t]"
    "thread_rank N t < thread_rank N (lr_threads s ! i)"
  shows "run_rank N s' < run_rank N s"
  using rank_update [of i "lr_threads s" N t] assms by (simp add: run_rank_def)

lemma rank_go:
  assumes "length (lr_threads s) = num_machines" "i < num_machines" "lr_threads s' = lr_threads (go i p s)"
    "place_rank p < place_rank (place_of s i)"
  shows "run_rank N s' < run_rank N s"
  using assms by (intro rank_set [of s i s' "(lr_threads s ! i)\<lparr>th_place := p\<rparr>"]) (simp_all add: thread_rank_def)

text \<open>Rounds after the one in which all have converged are not begun.\<close>

lemma rank_after_call:
  assumes "at_round starts n i t" "(g, c) = round_average starts n" "th_place t = Returning g c" "snd (round_average starts N)"
  shows "thread_rank N (after_call i g c t) < thread_rank N t"
proof (cases c)
  case True
  then show ?thesis using assms(3) by (simp add: thread_rank_def after_call_def)
next
  case False
  then have "\<not> snd (round_average starts n)" using assms(2) by (metis snd_conv)
  then have "\<forall>m \<le> n. \<not> snd (round_average starts m)" using assms(1) by (auto simp: at_round_def le_less)
  then have "n < N" using assms(4) by (metis not_le)
  then obtain d where N: "N = Suc (n + d)" using less_iff_Suc_add by blast
  have b: "thread_rank N (begin_round (t\<lparr>th_machine := m\<rparr>)) < thread_rank N t" for m
    using N assms(3) at_round_D(2) [OF assms(1)] by (simp add: thread_rank_def begin_round_def num_machines_def nat_add_distrib)
  show ?thesis using False b by (simp add: after_call_def)
qed

lemma rank_notify:
  assumes "length (lr_threads s) = num_machines" "i < num_machines" "place_of s i = Notifying"
  shows "run_rank N (go i Unlocking (s\<lparr>lr_threads := map wake (lr_threads s)\<rparr>)) < run_rank N s"
proof -
  have e: "wake (lr_threads s ! i) = lr_threads s ! i" using assms(3) by (simp add: wake_def)
  let ?t = "(lr_threads s ! i)\<lparr>th_place := Unlocking\<rparr>"
  have "sum_list (map (thread_rank N) ((map wake (lr_threads s))[i := ?t])) + thread_rank N (lr_threads s ! i)
      = sum_list (map (thread_rank N \<circ> wake) (lr_threads s)) + thread_rank N ?t"
    using rank_update [of i "map wake (lr_threads s)" N ?t] assms(1,2) e by simp
  moreover have "thread_rank N (lr_threads s ! i) = thread_rank N ?t + 11" using assms(3) by (simp add: thread_rank_def)
  moreover have "sum_list (map (thread_rank N \<circ> wake) (lr_threads s)) \<le> run_rank N s + 10"
    using rank_wakes [of N "lr_threads s"] assms(1) by (simp add: run_rank_def num_machines_def)
  moreover have "run_rank N (go i Unlocking (s\<lparr>lr_threads := map wake (lr_threads s)\<rparr>))
      = sum_list (map (thread_rank N) ((map wake (lr_threads s))[i := ?t]))"
    using assms(1,2) e by (simp add: run_rank_def)
  ultimately show ?thesis by linarith
qed

lemma rank_step:
  assumes "local_ok starts s" "i < num_machines" "thread_step i s = Some s'" "snd (round_average starts N)"
  shows "run_rank N s' < run_rank N s"
proof -
  have l: "length (lr_threads s) = num_machines" using assms(1) by (simp add: local_ok_def lock_ok_def)
  note g = rank_go [OF l assms(2)]
  show ?thesis
  proof (cases "place_of s i")
    case Notifying
    then show ?thesis using rank_notify [OF l assms(2)] assms(3) by (simp add: thread_step_def)
  next
    case (Returning gl c)
    obtain n where "in_round starts n i (lr_threads s ! i)" "(gl, c) = round_average starts n"
      using local_in_round [OF assms(1,2)] Returning by metis
    then have "thread_rank N (after_call i gl c (lr_threads s ! i)) < thread_rank N (lr_threads s ! i)"
      using rank_after_call assms(4) Returning by (simp add: in_round_def)
    then show ?thesis using rank_set [OF l assms(2)] assms(3) Returning by (auto simp: thread_step_def)
  next
    case (Summing k z acc gl)
    then show ?thesis using assms(3)
      by (auto simp: thread_step_def split: if_splits
        simp: num_machines_def intro: g [of _ "Summing k (z + 1) (acc + lr_solutions s ! z ! k) gl"]
          g [of _ "Summing (k + 1) 0 0 (gl @ [acc / real num_machines])"] g [of _ "Folding 0 True gl"])
  next
    case (Folding z c gl)
    then show ?thesis using assms(3)
      by (auto simp: thread_step_def split: if_splits intro: g [of _ "Folding (z + 1) (c \<and> lr_converged s ! z) gl"] g [of _ "Leaving gl c"])
  next
    case Testing
    then show ?thesis using assms(3) by (auto simp: thread_step_def split: if_splits intro: g [of _ Notifying] g [of _ Rechecking])
  next
    case Rechecking
    then show ?thesis using assms(3) by (auto simp: thread_step_def split: if_splits intro: g [of _ Unlocking] g [of _ Blocked])
  next
    case Unlocking
    then show ?thesis using assms(3) by (auto simp: thread_step_def num_machines_def intro: g [of _ "Summing 0 0 0 []"])
  next
    case (Leaving gl c)
    then show ?thesis using assms(3) by (auto simp: thread_step_def intro: g [of _ "Returning gl c"])
  qed (use assms(3) in \<open>auto simp: thread_step_def split: if_splits
      intro: g [of _ Locking] g [of _ Writing] g [of _ Writing_Flag] g [of _ Counting] g [of _ Testing] g [of _ Rechecking]\<close>)
qed

lemma rank_wake_spuriously:
  assumes "length (lr_threads s) = num_machines" "i < num_machines"
  shows "run_rank N (wake_spuriously i s) \<le> run_rank N s + 2"
  using rank_update [of i "lr_threads s" N "wake (lr_threads s ! i)"] rank_wake [of N "lr_threads s ! i"] assms
  by (simp add: run_rank_def wake_spuriously_def)

lemma local_runs_bounded:
  assumes "local_runs starts k w s" "length starts = num_machines" "snd (round_average starts N)"
  shows "k + run_rank N s \<le> 310 * (N + 1) + 2 * w"
  using assms(1)
proof induction
  case local_start
  have "map (thread_rank N) (map start_thread starts) = replicate num_machines (62 * (N + 1))"
    using assms(2) by (intro nth_equalityI) (simp_all add: begin_first thread_rank_def num_machines_def)
  then show ?case by (simp add: run_rank_def start_local_run_def sum_list_replicate num_machines_def)
next
  case (local_thread k w s i s')
  then show ?case using rank_step [OF local_runs_ok [OF local_thread(1) assms(2)] local_thread(2,3) assms(3)] by simp
next
  case (local_wake k w s i)
  have "length (lr_threads s) = num_machines" using local_runs_ok [OF local_wake(1) assms(2)] by (simp add: local_ok_def lock_ok_def)
  then show ?case using rank_wake_spuriously [OF _ local_wake(2), of s N] local_wake(3) by simp
qed

section \<open>No thread waits for ever\<close>

lemma holder_steps:
  assumes "lock_ok s" "lr_lock s = Some i" "i < num_machines"
  shows "thread_step i s \<noteq> None"
proof -
  have "holds (place_of s i)" using assms by (simp add: lock_ok_def)
  then show ?thesis by (cases "place_of s i") (auto simp: thread_step_def)
qed

text \<open>If no thread can move, all are finished, unless the counter has overflowed.\<close>

lemma stuck_places:
  assumes "lock_ok s" "\<And>j. j < num_machines \<Longrightarrow> thread_step j s = None" "i < num_machines"
  shows "place_of s i \<in> {Finished, Overflowed, Blocked} \<or> place_of s i = Spinning \<and> 0 < lr_working s"
proof -
  have "lr_lock s = None" using assms(1,2) holder_steps unfolding lock_ok_def by (metis not_Some_eq)
  then show ?thesis using assms(2) [OF assms(3)] by (cases "place_of s i") (auto simp: thread_step_def split: if_splits)
qed

lemma stuck:
  assumes "local_ok starts s" "\<And>j. j < num_machines \<Longrightarrow> thread_step j s = None"
    "\<And>j. j < num_machines \<Longrightarrow> place_of s j \<noteq> Overflowed" "i < num_machines"
  shows "place_of s i = Finished"
proof -
  have l: "lock_ok s" using assms(1) by (simp add: local_ok_def)
  have p: "place_of s j \<in> {Finished, Overflowed, Blocked} \<or> place_of s j = Spinning \<and> 0 < lr_working s" if "j < num_machines" for j
    by (rule stuck_places [OF l _ that]) (rule assms(2))
  have no: "place_of s j \<noteq> Testing" "place_of s j \<noteq> Notifying" if "j < num_machines" for j using p [OF that] by auto
  from assms(1) obtain n where "gathering starts n s \<or> reading starts n s" unfolding local_ok_def by blast
  then show ?thesis
  proof
    assume r: "reading starts n s"
    then have "lr_working s = int (length (filter (inside \<circ> th_place) (lr_threads s)))" unfolding reading_def by blast
    then have "filter (inside \<circ> th_place) (lr_threads s) \<noteq> []" using reading_pos [OF r] by auto
    then obtain j where "j < num_machines" "inside (place_of s j)"
      using l by (auto simp: filter_empty_conv in_set_conv_nth lock_ok_def)
    then have "place_of s j = Blocked" using p [of j] assms(3) by auto
    then show ?thesis using r no(2) \<open>j < num_machines\<close> unfolding reading_def by blast
  next
    assume g: "gathering starts n s"
    then have w: "lr_working s = 0" by (simp add: gathering_def)
    have b: "place_of s j = Blocked \<or> place_of s j = Finished" if "j < num_machines" for j using p [OF that] assms(3) [OF that] w by auto
    have ok: "gather_ok starts n (lr_solutions s) (lr_converged s) j (lr_threads s ! j)" if "j < num_machines" for j
      using g that by (simp add: gathering_def)
    show ?thesis
    proof (rule ccontr)
      assume "place_of s i \<noteq> Finished"
      then have "place_of s i = Blocked" using b assms(4) by blast
      then have "\<forall>m < n. \<not> snd (round_average starts m)" using ok [OF assms(4)] by (auto simp: gather_ok_def through_def at_round_def)
      then have "place_of s j = Blocked" if "j < num_machines" for j
        using b [OF that] ok [OF that] by (auto simp: gather_ok_def through_def)
      then have "\<exists>j < num_machines. place_of s j = Testing" using g by (simp add: gathering_def)
      then show False using no(1) by blast
    qed
  qed
qed

lemma no_overflow:
  assumes "local_ok starts s" "snd (round_average starts N)" "int num_machines * (int N + 1) < 2 ^ 31" "i < num_machines"
  shows "place_of s i \<noteq> Overflowed"
proof
  assume o: "place_of s i = Overflowed"
  obtain n where "in_round starts n i (lr_threads s ! i)" using local_in_round [OF assms(1,4)] by metis
  then have n: "\<forall>m \<le> n. \<not> snd (round_average starts m)" "2 ^ 31 \<le> int num_machines * (int n + 2)"
    using o by (auto simp: in_round_def through_def le_less)
  then have "n < N" using assms(2) by (metis not_le)
  then have "int n + 2 \<le> int N + 1" by simp
  then show False using n(2) assms(3) mult_left_mono [of "int n + 2" "int N + 1" "int num_machines"] by simp
qed

section \<open>Properties\<close>

text \<open>The places at which a thread reads the shared arrays, without the mutex.\<close>

fun reads_arrays :: "place \<Rightarrow> bool" where
  "reads_arrays (Summing k z acc g) = True" | "reads_arrays (Folding z c g) = True" | "reads_arrays _ = False"

text \<open>C11: However the threads of \<^verbatim>\<open>run_locally\<close> are interleaved and woken up, each computes the iterations of \<open>admm_round\<close>
  with the shared average: the machine of a thread is the one after a number of whole rounds, what a thread has read
  is the average of exactly this round, and the machine of a finished thread is the result of the program.\<close>

theorem local_threads_refine:
  assumes "local_runs starts k w s" "length starts = num_machines" "i < num_machines"
  shows "case place_of s i of
      Finished \<Rightarrow> \<exists>machines. admm_run average_locally (map start_machine starts) = Some machines
        \<and> th_machine (lr_threads s ! i) = machines ! i
    | Overflowed \<Rightarrow> \<exists>n. 2 ^ 31 \<le> int num_machines * (int n + 2) \<and> th_machine (lr_threads s ! i) = machines_after starts (Suc n) ! i
    | Returning g c \<Rightarrow> \<exists>n. th_machine (lr_threads s ! i) = machines_after starts n ! i
        \<and> (g, c) = average_locally (map contribution (machines_after starts n))
    | _ \<Rightarrow> \<exists>n. th_machine (lr_threads s ! i) = machines_after starts n ! i \<and> th_needed (lr_threads s ! i) = int num_machines * (int n + 1)"
proof -
  obtain n where n: "in_round starts n i (lr_threads s ! i)"
    "\<And>g c. place_of s i = Leaving g c \<or> place_of s i = Returning g c \<Longrightarrow> (g, c) = round_average starts n"
    using local_in_round [OF local_runs_ok [OF assms(1,2)] assms(3)] by metis
  have "i < length (machines_after starts n)" using assms(2,3) by simp
  then show ?thesis using n run_after [of n starts]
    by (cases "place_of s i") (auto simp: in_round_def through_def at_round_def round_average_def)
qed

text \<open>C13: No thread of \<^verbatim>\<open>run_locally\<close> writes to the shared arrays while another writes to them or reads them: the counter of
  those that work on the data keeps out what the mutex does not.\<close>

theorem local_threads_race_free:
  assumes "local_runs starts k w s" "length starts = num_machines" "i < num_machines" "j < num_machines" "i \<noteq> j"
    "place_of s i \<in> {Writing, Writing_Flag}"
  shows "place_of s j \<notin> {Writing, Writing_Flag} \<and> \<not> reads_arrays (place_of s j)"
proof -
  note ok = local_runs_ok [OF assms(1,2)]
  then have "holds (place_of s i) \<longleftrightarrow> lr_lock s = Some i" "holds (place_of s j) \<longleftrightarrow> lr_lock s = Some j"
    using assms(3,4) by (simp_all add: local_ok_def lock_ok_def)
  then have "\<not> holds (place_of s j)" using assms(5,6) by auto
  moreover have "\<not> reads_arrays (place_of s j)"
  proof -
    from ok obtain n where "gathering starts n s \<or> reading starts n s" unfolding local_ok_def by blast
    then have "read_ok starts n i (lr_threads s ! i) \<or> gather_ok starts n (lr_solutions s) (lr_converged s) j (lr_threads s ! j)"
      using assms(3,4) unfolding gathering_def reading_def by blast
    then show ?thesis using assms(6)
      by (cases "place_of s j") (auto simp: read_ok_def gather_ok_def through_def)
  qed
  ultimately show ?thesis by auto
qed

text \<open>C12: When the iterations converge in round \<open>N\<close>, and the counter of the threads has room for it, the threads come to an
  end: a run has at most \<open>310 * (N + 1)\<close> steps, and two more for each wake-up without a reason, and as long as one
  thread is not finished, there is one that can make a step. Turns of the busy wait are not counted as steps; in
  particular no wake-up is lost.\<close>

theorem local_threads_end:
  assumes "local_runs starts k w s" "length starts = num_machines"
    "fst (admm_round average_locally (machines_after starts N))" "int num_machines * (int N + 1) < 2 ^ 31"
  shows "k \<le> 310 * (N + 1) + 2 * w \<and> ((\<exists>i < num_machines. place_of s i \<noteq> Finished) \<longrightarrow> (\<exists>i < num_machines. thread_step i s \<noteq> None))"
proof -
  have N: "snd (round_average starts N)" using assms(3) by (simp add: round_finished)
  note ok = local_runs_ok [OF assms(1,2)]
  have "place_of s i = Finished" if "\<And>j. j < num_machines \<Longrightarrow> thread_step j s = None" "i < num_machines" for i
    using stuck [OF ok that(1) no_overflow [OF ok N assms(4)] that(2)] by simp
  then show ?thesis using local_runs_bounded [OF assms(1,2) N] by fastforce
qed

section \<open>The threads at the origin\<close>

lemma some_run_finishes:
  assumes "length starts = num_machines" "snd (round_average starts N)" "int num_machines * (int N + 1) < 2 ^ 31"
  shows "\<exists>k s. local_runs starts k 0 s \<and> (\<forall>i < num_machines. place_of s i = Finished)"
proof (rule ccontr)
  assume none: "\<not> ?thesis"
  have "\<exists>s. local_runs starts k 0 s" for k
  proof (induction k)
    case 0
    show ?case using local_start by blast
  next
    case (Suc k)
    then obtain s where s: "local_runs starts k 0 s" by blast
    then obtain i where "i < num_machines" "place_of s i \<noteq> Finished" using none by blast
    note ok = local_runs_ok [OF s assms(1)]
    have "\<exists>j < num_machines. thread_step j s \<noteq> None"
    proof (rule ccontr)
      assume "\<not> ?thesis"
      then have "place_of s i = Finished" using stuck [OF ok _ _ \<open>i < num_machines\<close>] no_overflow [OF ok assms(2,3)] by blast
      then show False using \<open>place_of s i \<noteq> Finished\<close> by simp
    qed
    then obtain j s' where "j < num_machines" "thread_step j s = Some s'" by blast
    then show ?case using local_thread s by blast
  qed
  then obtain s where "local_runs starts (311 * (N + 1)) 0 s" by blast
  then show False using local_runs_bounded [OF _ assms(1,2)] by fastforce
qed

definition origin :: "vec list" where
  "origin = replicate num_machines (replicate num_machines 0)"

lemma origin_after: "machines_after origin 0 = map start_machine (replicate 5 (replicate 5 0))"
  by (simp add: machines_after_def origin_def num_machines_def)

lemma origin_converges: "snd (round_average origin 0)"
  using origin_finished by (simp add: round_finished [symmetric] origin_after)

definition origin_writes :: local_run where
  "origin_writes = go 0 Writing ((go 0 Locking (start_local_run origin))\<lparr>lr_lock := Some 0\<rparr>)"

lemma origin_run: "local_runs origin 2 0 origin_writes"
proof -
  have "local_runs origin (Suc 0) 0 (go 0 Locking (start_local_run origin))"
    by (rule local_thread [OF local_start, of 0])
       (simp_all add: thread_step_def start_local_run_def origin_def begin_first num_machines_def)
  then show ?thesis unfolding numeral_2_eq_2
    by (rule local_thread [of _ _ _ _ 0])
       (simp_all add: thread_step_def start_local_run_def origin_def begin_first num_machines_def origin_writes_def)
qed

lemma local_threads_refine_witness:
  "\<exists>k s machines. local_runs origin k 0 s \<and> place_of s 3 = Finished \<and> admm_run average_locally (map start_machine origin) = Some machines
    \<and> th_machine (lr_threads s ! 3) = machines ! 3"
proof -
  have l: "length origin = num_machines" by (simp add: origin_def)
  have i: "3 < num_machines" by (simp add: num_machines_def)
  obtain k s where s: "local_runs origin k 0 s" "place_of s 3 = Finished"
    using some_run_finishes [OF l origin_converges] i by (auto simp: num_machines_def)
  then show ?thesis using local_threads_refine [OF s(1) l i] by auto
qed

lemma local_threads_race_free_witness: "\<not> reads_arrays (place_of origin_writes 1)"
  using local_threads_race_free [OF origin_run, of 0 1]
  by (simp add: origin_def num_machines_def origin_writes_def start_local_run_def)

lemma local_threads_end_witness: "(2 :: nat) \<le> 310 * (0 + 1) + 2 * 0 \<and> (\<exists>i < num_machines. thread_step i origin_writes \<noteq> None)"
proof -
  have "place_of origin_writes 0 \<noteq> Finished" by (simp add: origin_writes_def start_local_run_def origin_def num_machines_def)
  moreover have "0 < num_machines" "length origin = num_machines" "int num_machines * (int 0 + 1) < 2 ^ 31"
    by (simp_all add: num_machines_def origin_def)
  moreover have "fst (admm_round average_locally (machines_after origin 0))" using origin_finished by (simp add: origin_after)
  ultimately show ?thesis using local_threads_end [OF origin_run, of 0] by blast
qed

end
