(* ===== verification/Sky_Jacobi_System.thy ===== *)
theory Sky_Jacobi_System
  imports Sky_Processors Sky_Iterative
begin

text \<open>
  Several machines that solve one linear system, as \<^verbatim>\<open>examples/async_jacobi\<close> does: each has a
  \<^verbatim>\<open>JacobiProcessor\<close> for some of the rows and publishes its components, and what it has published is
  delivered to any machine at any later time, in any order, repeatedly or never. The asynchronous loop of
  \<^verbatim>\<open>asynchronous_iterative.hpp\<close> is cut into the two things that it does to its processor, \<^verbatim>\<open>process_update\<close>
  with the newest values that have arrived and \<^verbatim>\<open>prepare_for_publication\<close>.
\<close>

section \<open>The system\<close>

record jacobi_system =
  js_machine :: "nat \<Rightarrow> jacobi"
  js_values :: "nat \<Rightarrow> real list"                \<comment> \<open>\<^verbatim>\<open>publish_values_\<close> of a machine\<close>
  js_version :: "nat \<Rightarrow> nat"                     \<comment> \<open>the version of its newest publication\<close>
  js_sent :: "(nat \<times> nat \<times> real list) list"   \<comment> \<open>sender, version and values of what can still arrive\<close>

datatype jacobi_event =
    Publish_Values nat
  | Process_Update nat "(real list, real list) handler"
  | Message_Gone nat

text \<open>The machines start with their processors and publish the initial values.\<close>

definition jacobi_start :: "(nat \<Rightarrow> jacobi) \<Rightarrow> nat \<Rightarrow> jacobi_system" where
  "jacobi_start Js num =
     \<lparr>js_machine = Js, js_values = (\<lambda>m. ja_get_init_publish_values (Js m)), js_version = (\<lambda>m. 0),
      js_sent = map (\<lambda>m. (m, 0, ja_get_init_publish_values (Js m))) [0..<num]\<rparr>"

fun jacobi_step :: "jacobi_event \<Rightarrow> jacobi_system \<Rightarrow> jacobi_system res" where
  "jacobi_step (Publish_Values m) S =
     rbind (ja_prepare_for_publication (js_values S m) (js_machine S m)) (\<lambda>v.
       Inr (S\<lparr>js_values := (js_values S)(m := v), js_version := (js_version S)(m := js_version S m + 1),
              js_sent := js_sent S @ [(m, js_version S m + 1, v)]\<rparr>))"
| "jacobi_step (Process_Update m h) S =
     rbind (ja_process_update h (js_machine S m)) (\<lambda>J. Inr (S\<lparr>js_machine := (js_machine S)(m := J)\<rparr>))"
| "jacobi_step (Message_Gone k) S = Inr (S\<lparr>js_sent := take k (js_sent S) @ drop (Suc k) (js_sent S)\<rparr>)"

text \<open>A handler that shows what the publishers with these tags have sent: every updated tag has a value, one that
  its publisher has sent. This is what \<^verbatim>\<open>gather_values\<close> leaves behind.\<close>

definition shows_sent :: "(nat \<Rightarrow> tag_id) \<Rightarrow> (nat \<times> nat \<times> real list) list \<Rightarrow> (real list, real list) handler \<Rightarrow> bool" where
  "shows_sent tag sent h \<longleftrightarrow> (\<forall>v. nd_transformer h v = v) \<and>
     (\<forall>i \<in> set (nd_updated h). i < length (nd_tags h) \<and>
        (case map_of (nd_values h) (nd_tags h ! i) of
           None \<Rightarrow> False
         | Some v \<Rightarrow> \<exists>msg \<in> set sent. tag (fst msg) = nd_tags h ! i \<and> snd (snd msg) = v))"

fun jacobi_possible :: "(nat \<Rightarrow> tag_id) \<Rightarrow> nat \<Rightarrow> jacobi_event \<Rightarrow> jacobi_system \<Rightarrow> bool" where
  "jacobi_possible tag num (Publish_Values m) S \<longleftrightarrow> m < num"
| "jacobi_possible tag num (Process_Update m h) S \<longleftrightarrow> m < num \<and> shows_sent tag (js_sent S) h"
| "jacobi_possible tag num (Message_Gone k) S \<longleftrightarrow> k < length (js_sent S)"

inductive jacobi_runs :: "(nat \<Rightarrow> tag_id) \<Rightarrow> nat \<Rightarrow> jacobi_system \<Rightarrow> jacobi_event list \<Rightarrow> jacobi_system \<Rightarrow> bool"
  for tag :: "nat \<Rightarrow> tag_id" and num :: nat and S :: jacobi_system where
  stay: "jacobi_runs tag num S [] S"
| step: "jacobi_runs tag num S evs T \<Longrightarrow> jacobi_possible tag num ev T \<Longrightarrow> jacobi_step ev T = Inr U
         \<Longrightarrow> jacobi_runs tag num S (evs @ [ev]) U"

text \<open>The values that a handler hands to \<^verbatim>\<open>process_update\<close>, and the components in them.\<close>

definition updated_values :: "(real list, real list) handler \<Rightarrow> real list list" where
  "updated_values h = map (\<lambda>i. the (map_of (nd_values h) (nd_tags h ! i))) (nd_updated h)"

definition components :: "real list \<Rightarrow> nat set" where
  "components v = (\<lambda>k. nat \<lfloor>v ! (2 * k)\<rfloor>) ` {..<length v div 2}"

definition heard :: "jacobi_event list \<Rightarrow> nat \<Rightarrow> nat set" where
  "heard evs m = (\<Union>ev \<in> set evs. case ev of
      Process_Update m' h \<Rightarrow> if m' = m then (\<Union>v \<in> set (updated_values h). components v) else {}
    | _ \<Rightarrow> {})"

text \<open>An epoch: all messages of before have arrived or are gone, and then each machine hears of every component that
  it does not compute itself.\<close>

definition jacobi_epoch :: "(nat \<Rightarrow> tag_id) \<Rightarrow> nat \<Rightarrow> jacobi_system \<Rightarrow> jacobi_system \<Rightarrow> bool" where
  "jacobi_epoch tag num S T \<longleftrightarrow> (\<exists>evs U evs'. jacobi_runs tag num S evs U
     \<and> (\<forall>(m, n, v) \<in> set (js_sent U). n > js_version S m)
     \<and> jacobi_runs tag num U evs' T
     \<and> (\<forall>m < num. {..<length (ja_x (js_machine U m))} - set (ja_rows (js_machine U m)) \<subseteq> heard evs' m))"

section \<open>One machine\<close>

text \<open>A partition of a system with the solution \<open>xs\<close>, whose rows are dominated by their diagonals, and which leaves
  some component to the other machines.\<close>

definition part_ok :: "real \<Rightarrow> real list \<Rightarrow> jacobi \<Rightarrow> bool" where
  "part_ok q xs J \<longleftrightarrow> jacobi_ok J \<and> length (ja_x J) = length xs \<and> \<not> {..<length xs} \<subseteq> set (ja_rows J)
     \<and> (\<forall>i < length (ja_rows J). row_sum J i xs = ja_b J ! i
          \<and> (\<Sum>j \<in> {..<length xs} - {ja_rows J ! i}. \<bar>ja_A J ! i ! j\<bar>) \<le> q * \<bar>ja_A J ! i ! (ja_rows J ! i)\<bar>)"

definition near :: "real list \<Rightarrow> real \<Rightarrow> nat set \<Rightarrow> real list \<Rightarrow> bool" where
  "near xs e K x \<longleftrightarrow> (\<forall>j < length xs. j \<in> K \<longrightarrow> \<bar>x ! j - xs ! j\<bar> \<le> e)"

lemma near_mono: "near xs e K x \<Longrightarrow> e \<le> e' \<Longrightarrow> K' \<subseteq> K \<Longrightarrow> near xs e' K' x"
  unfolding near_def by (meson order_trans subsetD)

lemma near_Un: "near xs e (K \<union> K') x \<longleftrightarrow> near xs e K x \<and> near xs e K' x"
  by (auto simp: near_def)

lemma row_contracts:
  assumes p: "part_ok q xs J" and i: "i < length (ja_rows J)" and x: "length x = length xs" and w: "near xs e UNIV x"
    and y: "jacobi_row J i x = Inr y"
  shows "\<bar>y ! (ja_rows J ! i) - xs ! (ja_rows J ! i)\<bar> \<le> q * e"
proof -
  let ?r = "ja_rows J ! i" and ?a = "\<lambda>j. ja_A J ! i ! j" and ?n = "length xs"
  have J: "jacobi_ok J" and n: "length (ja_x J) = ?n" using p by (auto simp: part_ok_def)
  have r: "?r < ?n" and a: "?a ?r \<noteq> 0" using J i n by (auto simp: jacobi_ok_def)
  have e: "0 \<le> e" using w r by (force simp: near_def)
  have dom: "(\<Sum>j \<in> {..<?n} - {?r}. \<bar>?a j\<bar>) \<le> q * \<bar>?a ?r\<bar>" and b: "ja_b J ! i = row_sum J i xs"
    using p i by (auto simp: part_ok_def)
  have "ja_b J ! i - row_sum J i x = (\<Sum>j < ?n. ?a j * (xs ! j - x ! j))"
    by (simp add: b row_sum_def n right_diff_distrib sum_subtractf)
  also have "\<dots> = ?a ?r * (xs ! ?r - x ! ?r) + (\<Sum>j \<in> {..<?n} - {?r}. ?a j * (xs ! j - x ! j))"
    using r by (subst sum.remove [of _ ?r]) auto
  finally have "x ! ?r + (ja_b J ! i - row_sum J i x) / ?a ?r - xs ! ?r
      = (\<Sum>j \<in> {..<?n} - {?r}. ?a j * (xs ! j - x ! j)) / ?a ?r" (is "?d = ?s / _")
    using a by (simp add: field_simps)
  moreover have "\<bar>?s\<bar> \<le> q * e * \<bar>?a ?r\<bar>"
  proof -
    have "\<bar>?s\<bar> \<le> (\<Sum>j \<in> {..<?n} - {?r}. \<bar>?a j\<bar> * \<bar>xs ! j - x ! j\<bar>)"
      by (rule order_trans [OF sum_abs]) (simp add: abs_mult)
    also have "\<dots> \<le> (\<Sum>j \<in> {..<?n} - {?r}. \<bar>?a j\<bar> * e)"
      using w by (intro sum_mono mult_left_mono) (auto simp: near_def abs_minus_commute)
    also have "\<dots> = (\<Sum>j \<in> {..<?n} - {?r}. \<bar>?a j\<bar>) * e" by (simp add: sum_distrib_right)
    also have "\<dots> \<le> q * \<bar>?a ?r\<bar> * e" by (rule mult_right_mono [OF dom e])
    finally show ?thesis by (simp add: mult_ac)
  qed
  ultimately have "\<bar>?d\<bar> \<le> q * e" using a by (simp add: abs_divide divide_le_eq)
  moreover have "y ! ?r = x ! ?r + (ja_b J ! i - row_sum J i x) / ?a ?r"
    using jacobi_row_ok [OF J i] x n y r by auto
  ultimately show ?thesis by simp
qed

text \<open>A sweep over the rows: the rows come closer to the solution by the factor \<open>q\<close>, the others stay.\<close>

lemma rows_contract:
  assumes p: "part_ok q xs J" and q: "0 \<le> q" "q \<le> 1"
    and "set is \<subseteq> {..<length (ja_rows J)}" "length x = length xs" "near xs e UNIV x"
  shows "\<exists>y. rfold (jacobi_row J) is x = Inr y \<and> length y = length xs \<and> near xs e UNIV y
    \<and> (\<forall>i \<in> set is. near xs (q * e) {ja_rows J ! i} y) \<and> (\<forall>j. j \<notin> set (ja_rows J) \<longrightarrow> y ! j = x ! j)
    \<and> (\<forall>K. near xs (q * e) K x \<longrightarrow> near xs (q * e) K y)"
  using assms(4-)
proof (induction "is" arbitrary: x)
  case Nil
  then show ?case by simp
next
  case (Cons i ks)
  let ?r = "ja_rows J ! i"
  have J: "jacobi_ok J" and n: "length (ja_x J) = length xs" using p by (auto simp: part_ok_def)
  have i: "i < length (ja_rows J)" using Cons.prems by simp
  then have r: "?r < length xs" using J n by (auto simp: jacobi_ok_def)
  obtain u where u: "jacobi_row J i x = Inr u" using jacobi_row_ok [OF J i] Cons.prems(2) n by auto
  obtain w where uw: "u = x[?r := w]" using jacobi_row_ok [OF J i] Cons.prems(2) n u by auto
  have c: "\<bar>u ! ?r - xs ! ?r\<bar> \<le> q * e" using row_contracts [OF p i Cons.prems(2,3) u] .
  have "0 \<le> e" using Cons.prems(3) r by (force simp: near_def)
  then have qe: "q * e \<le> e" using q by (simp add: mult_left_le_one_le)
  have ul: "length u = length xs" and uo: "\<forall>j. j \<noteq> ?r \<longrightarrow> u ! j = x ! j" using Cons.prems(2) uw by auto
  have wu: "near xs e UNIV u" unfolding near_def
  proof (intro allI impI)
    fix j assume "j < length xs"
    then show "\<bar>u ! j - xs ! j\<bar> \<le> e" using Cons.prems(3) uo c qe by (cases "j = ?r") (auto simp: near_def)
  qed
  have ku: "near xs (q * e) K u" if "near xs (q * e) K x" for K
    using that uo c by (metis near_def)
  from Cons.IH [of u] Cons.prems(1) ul wu obtain y where y: "rfold (jacobi_row J) ks u = Inr y" "length y = length xs"
    "near xs e UNIV y" "\<forall>i \<in> set ks. near xs (q * e) {ja_rows J ! i} y" "\<forall>j. j \<notin> set (ja_rows J) \<longrightarrow> y ! j = u ! j"
    "\<forall>K. near xs (q * e) K u \<longrightarrow> near xs (q * e) K y" by auto
  have "near xs (q * e) {?r} u" using c by (auto simp: near_def)
  then have "near xs (q * e) {?r} y" using y(6) by blast
  moreover have "\<forall>j. j \<notin> set (ja_rows J) \<longrightarrow> y ! j = x ! j" using y(5) uo i by (metis nth_mem)
  ultimately show ?case using y ku u by auto
qed

lemma computation_contracts:
  assumes p: "part_ok q xs J" and q: "0 \<le> q" "q \<le> 1" and w: "near xs e UNIV (ja_x J)"
  shows "\<exists>y. jacobi_computation J = Inr (J\<lparr>ja_x := y\<rparr>) \<and> length y = length xs \<and> near xs e UNIV y
    \<and> near xs (q * e) (set (ja_rows J)) y \<and> (\<forall>j. j \<notin> set (ja_rows J) \<longrightarrow> y ! j = ja_x J ! j)"
proof -
  have n: "length (ja_x J) = length xs" using p by (simp add: part_ok_def)
  have "set [0..<length (ja_rows J)] \<subseteq> {..<length (ja_rows J)}" by auto
  from rows_contract [OF p q this n w] obtain y where
    y: "rfold (jacobi_row J) [0..<length (ja_rows J)] (ja_x J) = Inr y" "length y = length xs" "near xs e UNIV y"
      "\<forall>i \<in> set [0..<length (ja_rows J)]. near xs (q * e) {ja_rows J ! i} y" "\<forall>j. j \<notin> set (ja_rows J) \<longrightarrow> y ! j = ja_x J ! j"
    by blast
  have "near xs (q * e) (set (ja_rows J)) y" using y(4) by (auto simp: near_def in_set_conv_nth)
  with y show ?thesis by (auto simp: jacobi_computation_def)
qed

text \<open>What a machine knows when everything was within \<open>e\<close> and it has since heard of the components \<open>K\<close>.\<close>

definition knows :: "real \<Rightarrow> real list \<Rightarrow> real \<Rightarrow> nat set \<Rightarrow> jacobi \<Rightarrow> bool" where
  "knows q xs e K J \<longleftrightarrow> part_ok q xs J \<and> near xs e UNIV (ja_x J) \<and> near xs (q * e) (set (ja_rows J) \<union> K) (ja_x J)
     \<and> ({..<length xs} - set (ja_rows J) \<subseteq> K \<longrightarrow> near xs (q * (q * e)) (set (ja_rows J)) (ja_x J))"

text \<open>A message whose pairs are within \<open>d\<close> of the solution.\<close>

definition near_pairs :: "real list \<Rightarrow> real \<Rightarrow> real list \<Rightarrow> bool" where
  "near_pairs xs d v \<longleftrightarrow> (\<forall>k < length v div 2. \<exists>r < length xs. v ! (2 * k) = of_nat r \<and> \<bar>v ! (2 * k + 1) - xs ! r\<bar> \<le> d)"

lemma part_ok_update [simp]: "length y = length (ja_x J) \<Longrightarrow> part_ok q xs (J\<lparr>ja_x := y\<rparr>) = part_ok q xs J"
  by (simp add: part_ok_def jacobi_ok_def row_sum_def)

lemma use_pair_knows:
  assumes k: "knows q xs e K J" and q: "0 \<le> q" "q \<le> 1"
    and v: "v ! (2 * k) = of_nat r" "r < length xs" "\<bar>v ! (2 * k + 1) - xs ! r\<bar> \<le> e"
    and K': "K' \<subseteq> insert r K" "r \<in> K' \<Longrightarrow> \<bar>v ! (2 * k + 1) - xs ! r\<bar> \<le> q * e"
  shows "\<exists>J'. ja_use_pair v k J = Inr J' \<and> knows q xs e K' J' \<and> ja_rows J' = ja_rows J"
proof (cases "r \<in> set (ja_rows J)")
  case True
  have kd: "part_ok q xs J" "near xs e UNIV (ja_x J)" "near xs (q * e) (set (ja_rows J) \<union> K) (ja_x J)"
    "{..<length xs} - set (ja_rows J) \<subseteq> K \<longrightarrow> near xs (q * (q * e)) (set (ja_rows J)) (ja_x J)"
    using k unfolding knows_def by blast+
  have "ja_use_pair v k J = Inr J" using True v(1) by (auto simp: ja_use_pair_def)
  moreover have "{..<length xs} - set (ja_rows J) \<subseteq> K' \<longrightarrow> {..<length xs} - set (ja_rows J) \<subseteq> K" using K'(1) True by blast
  moreover have "near xs (q * e) (set (ja_rows J) \<union> K') (ja_x J)"
    using K'(1) True by (intro near_mono [OF kd(3)]) auto
  ultimately show ?thesis using kd unfolding knows_def by blast
next
  case False
  let ?n = "length xs" and ?w = "v ! (2 * k + 1)"
  let ?x = "(ja_x J)[r := ?w]"
  have p: "part_ok q xs J" and l: "length (ja_x J) = ?n" using k by (auto simp: knows_def part_ok_def)
  have nth: "?x ! j = (if j = r then ?w else ja_x J ! j)" if "j < ?n" for j using that l by simp
  have kx: "near xs e UNIV (ja_x J)" "near xs (q * e) (set (ja_rows J) \<union> K) (ja_x J)" using k unfolding knows_def by blast+
  have nx: "near xs e UNIV ?x" unfolding near_def
  proof (intro allI impI)
    fix j assume "j < ?n"
    then show "\<bar>?x ! j - xs ! j\<bar> \<le> e" using kx(1) v(3) nth [of j] by (simp add: near_def)
  qed
  have nK: "near xs (q * e) (set (ja_rows J) \<union> K') ?x" unfolding near_def
  proof (intro allI impI)
    fix j assume j: "j < ?n" "j \<in> set (ja_rows J) \<union> K'"
    show "\<bar>?x ! j - xs ! j\<bar> \<le> q * e"
    proof (cases "j = r")
      case True
      then show ?thesis using j False K'(2) l by simp
    next
      case no: False
      then have "j \<in> set (ja_rows J) \<union> K" using j K'(1) by auto
      then show ?thesis using kx(2) j(1) no unfolding near_def by auto
    qed
  qed
  have e0: "0 \<le> e" using v(3) by linarith
  have p': "part_ok q xs (J\<lparr>ja_x := ?x\<rparr>)" using p by simp
  from computation_contracts [OF p' q] nx obtain y where
    y: "jacobi_computation (J\<lparr>ja_x := ?x\<rparr>) = Inr (J\<lparr>ja_x := y\<rparr>)" "length y = ?n" "near xs e UNIV y"
      "near xs (q * e) (set (ja_rows J)) y" "\<forall>j. j \<notin> set (ja_rows J) \<longrightarrow> y ! j = ?x ! j" by auto
  have "ja_use_pair v k J = Inr (J\<lparr>ja_x := y\<rparr>)"
    using False v(1,2) y(1) l by (auto simp: ja_use_pair_def vec_at_def Let_def)
  moreover have "near xs (q * e) (set (ja_rows J) \<union> K') y"
    using y(4,5) nK unfolding near_def by (metis UnCI UnE)
  moreover have "near xs (q * (q * e)) (set (ja_rows J)) y" if "{..<?n} - set (ja_rows J) \<subseteq> K'"
  proof -
    have "near xs (q * e) UNIV ?x" using nK that unfolding near_def by blast
    with computation_contracts [OF p' q, of "q * e"] y(1) show ?thesis by (auto dest!: arg_cong [of _ _ ja_x])
  qed
  ultimately show ?thesis using p y l by (auto simp: knows_def)
qed

text \<open>The pairs of a message, one after the other: an old message is known to be within \<open>e\<close> only, a new one within
  \<open>q * e\<close>.\<close>

lemma message_knows:
  assumes k: "knows q xs e K J" and q: "0 \<le> q" "q \<le> 1" and v: "near_pairs xs e v"
    and new: "if new then near_pairs xs (q * e) v else K = {}" and n: "n \<le> length v div 2"
  shows "\<exists>J'. rfold (ja_use_pair v) [0..<n] J = Inr J' \<and> ja_rows J' = ja_rows J
     \<and> knows q xs e (if new then K \<union> (\<lambda>k. nat \<lfloor>v ! (2 * k)\<rfloor>) ` {..<n} else {}) J'"
  using n
proof (induction n)
  case 0
  then show ?case using k new by auto
next
  case (Suc n)
  let ?K = "\<lambda>n. if new then K \<union> (\<lambda>k. nat \<lfloor>v ! (2 * k)\<rfloor>) ` {..<n} else {}"
  from Suc obtain J' where J': "rfold (ja_use_pair v) [0..<n] J = Inr J'" "ja_rows J' = ja_rows J" "knows q xs e (?K n) J'"
    by auto
  have n: "n < length v div 2" using Suc.prems by simp
  then obtain r where r: "r < length xs" "v ! (2 * n) = of_nat r" "\<bar>v ! (2 * n + 1) - xs ! r\<bar> \<le> e"
    using v by (auto simp: near_pairs_def)
  have "\<bar>v ! (2 * n + 1) - xs ! r\<bar> \<le> q * e" if new
  proof -
    have "near_pairs xs (q * e) v" using that assms(5) by simp
    then show ?thesis using n r(2) by (auto simp: near_pairs_def)
  qed
  moreover have "?K (Suc n) \<subseteq> insert r (?K n)" using r(2) by (auto simp: lessThan_Suc)
  moreover have "r \<in> ?K (Suc n) \<Longrightarrow> new" by (auto split: if_splits)
  ultimately obtain J2 where "ja_use_pair v n J' = Inr J2" "ja_rows J2 = ja_rows J'" "knows q xs e (?K (Suc n)) J2"
    using use_pair_knows [OF J'(3) q r(2,1,3), of "?K (Suc n)"] by blast
  then show ?case using J' by (auto simp: rfold_append)
qed

lemma process_update_values:
  assumes "shows_sent tag sent h"
  shows "ja_process_update h J = rfold (\<lambda>v. rfold (ja_use_pair v) [0..<length v div 2]) (updated_values h) J"
    and "\<forall>v \<in> set (updated_values h). v \<in> (snd \<circ> snd) ` set sent"
proof -
  have i: "i < length (nd_tags h)" "nd_transformer h v = v"
    "\<exists>v. map_of (nd_values h) (nd_tags h ! i) = Some v \<and> v \<in> (snd \<circ> snd) ` set sent" if "i \<in> set (nd_updated h)" for i v
    using assms that by (fastforce simp: shows_sent_def split: option.splits)+
  then have "get_updated_tags h = Inr (map (\<lambda>i. nd_tags h ! i) (nd_updated h))"
    by (simp add: get_updated_tags_def deref_updated)
  moreover have "rfold (\<lambda>tag J. rbind (get_data_unsafe tag h) (\<lambda>v. rfold (ja_use_pair v) [0..<length v div 2] J))
      (map (\<lambda>i. nd_tags h ! i) is) J
    = rfold (\<lambda>v. rfold (ja_use_pair v) [0..<length v div 2]) (map (\<lambda>i. the (map_of (nd_values h) (nd_tags h ! i))) is) J"
    if "set is \<subseteq> set (nd_updated h)" for "is" J
    using that
  proof (induction "is" arbitrary: J)
    case (Cons j ks)
    from i(3) [of j] Cons.prems obtain v where "map_of (nd_values h) (nd_tags h ! j) = Some v" by auto
    then have "get_data_unsafe (nd_tags h ! j) h = Inr v" using i(2) [of j] Cons.prems by (simp add: get_data_unsafe_def value_at_def)
    then show ?case using Cons \<open>map_of (nd_values h) (nd_tags h ! j) = Some v\<close>
      by (auto intro!: arg_cong [where f = "rbind _"])
  qed simp
  ultimately show "ja_process_update h J = rfold (\<lambda>v. rfold (ja_use_pair v) [0..<length v div 2]) (updated_values h) J"
    by (simp add: ja_process_update_def updated_values_def)
  show "\<forall>v \<in> set (updated_values h). v \<in> (snd \<circ> snd) ` set sent"
  proof
    fix v assume "v \<in> set (updated_values h)"
    then obtain j where "j \<in> set (nd_updated h)" "v = the (map_of (nd_values h) (nd_tags h ! j))" by (auto simp: updated_values_def)
    with i(3) [of j] show "v \<in> (snd \<circ> snd) ` set sent" by force
  qed
qed

lemma update_knows:
  assumes "knows q xs e K J" and q: "0 \<le> q" "q \<le> 1" and "\<forall>v \<in> set vs. near_pairs xs e v"
    and "if new then \<forall>v \<in> set vs. near_pairs xs (q * e) v else K = {}"
  shows "\<exists>J'. rfold (\<lambda>v. rfold (ja_use_pair v) [0..<length v div 2]) vs J = Inr J' \<and> ja_rows J' = ja_rows J
     \<and> knows q xs e (if new then K \<union> (\<Union>v \<in> set vs. components v) else {}) J'"
  using assms(1,4,5)
proof (induction vs arbitrary: J K)
  case Nil
  then show ?case by (auto split: if_splits)
next
  case (Cons v vs)
  have "if new then near_pairs xs (q * e) v else K = {}" using Cons.prems(3) by (auto split: if_splits)
  from message_knows [OF Cons.prems(1) q _ this order_refl] Cons.prems(2)
  have "\<exists>J1. rfold (ja_use_pair v) [0..<length v div 2] J = Inr J1 \<and> ja_rows J1 = ja_rows J
      \<and> knows q xs e (if new then K \<union> components v else {}) J1" unfolding components_def by simp
  then obtain J1 where J1: "rfold (ja_use_pair v) [0..<length v div 2] J = Inr J1" "ja_rows J1 = ja_rows J"
      "knows q xs e (if new then K \<union> components v else {}) J1" by blast
  have "if new then \<forall>v \<in> set vs. near_pairs xs (q * e) v else (if new then K \<union> components v else {}) = {}"
    using Cons.prems(3) by auto
  from Cons.IH [OF J1(3) _ this] Cons.prems(2) obtain J2 where
    "rfold (\<lambda>v. rfold (ja_use_pair v) [0..<length v div 2]) vs J1 = Inr J2" "ja_rows J2 = ja_rows J1"
    "knows q xs e (if new then (if new then K \<union> components v else {}) \<union> (\<Union>v \<in> set vs. components v) else {}) J2" by auto
  then show ?case using J1 by (cases new) (auto simp: Un_assoc)
qed

text \<open>What a machine publishes are its components.\<close>

lemma prepare_near:
  assumes J: "jacobi_ok J" "length (ja_x J) = length xs" and w: "near xs d (set (ja_rows J)) (ja_x J)"
    and l: "length vals = 2 * length (ja_rows J)"
  shows "\<exists>v. ja_prepare_for_publication vals J = Inr v \<and> length v = 2 * length (ja_rows J) \<and> near_pairs xs d v
    \<and> components v = set (ja_rows J)"
proof -
  let ?r = "\<lambda>i. ja_rows J ! i"
  let ?f = "\<lambda>i vals. rbind (vec_at (ja_rows J) i) (\<lambda>r. rbind (vec_at (ja_x J) r) (\<lambda>x.
              rbind (vec_at vals (2 * i + 1)) (\<lambda>_. Inr (vals[2 * i := of_nat r, 2 * i + 1 := x]))))"
  have "n \<le> length (ja_rows J) \<Longrightarrow> \<exists>v. rfold ?f [0..<n] vals = Inr v \<and> length v = length vals
      \<and> (\<forall>i < n. v ! (2 * i) = of_nat (?r i) \<and> v ! (2 * i + 1) = ja_x J ! ?r i)" for n
  proof (induction n)
    case (Suc n)
    then obtain v where v: "rfold ?f [0..<n] vals = Inr v" "length v = length vals"
      "\<forall>i < n. v ! (2 * i) = of_nat (?r i) \<and> v ! (2 * i + 1) = ja_x J ! ?r i" by auto
    have "?r n < length (ja_x J)" "n < length (ja_rows J)" "2 * n + 1 < length v" using J Suc.prems v(2) l
      by (auto simp: jacobi_ok_def)
    moreover have "2 * i \<noteq> 2 * n + 1" "2 * i + 1 \<noteq> 2 * n" for i by presburger+
    ultimately show ?case using v by (auto simp: rfold_append vec_at_def nth_list_update less_Suc_eq)
  qed simp
  from this [of "length (ja_rows J)"] obtain v where v: "ja_prepare_for_publication vals J = Inr v" "length v = length vals"
    "\<forall>i < length (ja_rows J). v ! (2 * i) = of_nat (?r i) \<and> v ! (2 * i + 1) = ja_x J ! ?r i"
    by (auto simp: ja_prepare_for_publication_def)
  moreover have "near_pairs xs d v" unfolding near_pairs_def
  proof (intro allI impI)
    fix k assume "k < length v div 2"
    then have k: "k < length (ja_rows J)" using v(2) l by simp
    then have "?r k < length xs" using J by (auto simp: jacobi_ok_def)
    moreover have "\<bar>ja_x J ! ?r k - xs ! ?r k\<bar> \<le> d" using w k \<open>?r k < length xs\<close> by (simp add: near_def)
    ultimately show "\<exists>r < length xs. v ! (2 * k) = of_nat r \<and> \<bar>v ! (2 * k + 1) - xs ! r\<bar> \<le> d" using v(3) k by auto
  qed
  moreover have "components v = set (ja_rows J)" using v l by (auto simp: components_def set_conv_nth image_iff)
  ultimately show ?thesis using l by auto
qed

text \<open>A machine that computes every component ignores all messages, and never computes again after its construction.\<close>

lemma all_rows_idle:
  assumes "{..<length xs} \<subseteq> set (ja_rows J)" "near_pairs xs d v"
  shows "rfold (ja_use_pair v) [0..<length v div 2] J = Inr J"
proof -
  have "ja_use_pair v k J = Inr J" if k: "k < length v div 2" for k
  proof -
    obtain r where "r < length xs" "v ! (2 * k) = of_nat r" using assms(2) k by (auto simp: near_pairs_def)
    then show ?thesis using assms(1) by (auto simp: ja_use_pair_def)
  qed
  then have "n \<le> length v div 2 \<Longrightarrow> rfold (ja_use_pair v) [0..<n] J = Inr J" for n
    by (induction n) (auto simp: rfold_append)
  then show ?thesis by blast
qed

section \<open>All machines\<close>

text \<open>Every machine knows the components \<open>Ks\<close>, and messages newer than \<open>ver\<close> are closer to the solution.\<close>

definition system_knows :: "real \<Rightarrow> real list \<Rightarrow> nat \<Rightarrow> real \<Rightarrow> (nat \<Rightarrow> nat set) \<Rightarrow> (nat \<Rightarrow> nat) \<Rightarrow> jacobi_system \<Rightarrow> bool" where
  "system_knows q xs num e Ks ver S \<longleftrightarrow>
     (\<forall>m < num. knows q xs e (Ks m) (js_machine S m) \<and> length (js_values S m) = 2 * length (ja_rows (js_machine S m))
        \<and> ver m \<le> js_version S m)
     \<and> (\<forall>(m, n, v) \<in> set (js_sent S). n \<le> js_version S m \<and> near_pairs xs e v \<and> (n > ver m \<longrightarrow> near_pairs xs (q * e) v))"

definition all_newer :: "(nat \<Rightarrow> nat) \<Rightarrow> jacobi_system \<Rightarrow> bool" where
  "all_newer ver S \<longleftrightarrow> (\<forall>(m, n, v) \<in> set (js_sent S). n > ver m)"

lemma near_pairs_mono: "near_pairs xs d v \<Longrightarrow> d \<le> e \<Longrightarrow> near_pairs xs e v"
  unfolding near_pairs_def by (meson order_trans)

lemma system_knows_change:
  assumes "system_knows q xs num e Ks ver S" and v: "\<And>m. js_version S m \<le> js_version T m"
    and "\<And>m. m < num \<Longrightarrow> knows q xs e (Ks' m) (js_machine T m) \<and> length (js_values T m) = 2 * length (ja_rows (js_machine T m))"
    and new: "\<And>m n v. (m, n, v) \<in> set (js_sent T) \<Longrightarrow> (m, n, v) \<in> set (js_sent S)
                \<or> n = js_version T m \<and> near_pairs xs e v \<and> near_pairs xs (q * e) v"
  shows "system_knows q xs num e Ks' ver T"
  unfolding system_knows_def
proof (intro conjI ballI allI impI)
  fix m assume m: "m < num"
  then show "knows q xs e (Ks' m) (js_machine T m)" "length (js_values T m) = 2 * length (ja_rows (js_machine T m))"
    using assms(3) by auto
  have "ver m \<le> js_version S m" using assms(1) m by (simp add: system_knows_def)
  then show "ver m \<le> js_version T m" using v [of m] by simp
next
  fix msg assume "msg \<in> set (js_sent T)"
  moreover obtain m n u where "msg = (m, n, u)" by (cases msg)
  ultimately show "case msg of (m, n, v) \<Rightarrow> n \<le> js_version T m \<and> near_pairs xs e v \<and> (n > ver m \<longrightarrow> near_pairs xs (q * e) v)"
    using new [of m n u] assms(1) v [of m] by (fastforce simp: system_knows_def)
qed

lemma step_knows:
  assumes S: "system_knows q xs num e Ks ver S" and q: "0 \<le> q" "q \<le> 1" and e: "0 \<le> e" and ev: "jacobi_possible tag num ev S"
    and new: "if new then all_newer ver S else Ks = (\<lambda>m. {})"
  shows "\<exists>T. jacobi_step ev S = Inr T \<and> system_knows q xs num e (\<lambda>m. if new then Ks m \<union> heard [ev] m else {}) ver T
     \<and> (new \<longrightarrow> all_newer ver T) \<and> (\<forall>m < num. ja_rows (js_machine T m) = ja_rows (js_machine S m))"
proof (cases ev)
  case (Publish_Values m)
  let ?J = "js_machine S m"
  have m: "m < num" using ev Publish_Values by simp
  have k: "knows q xs e (Ks m) ?J" "length (js_values S m) = 2 * length (ja_rows ?J)" "ver m \<le> js_version S m"
    using S m by (auto simp: system_knows_def)
  have "jacobi_ok ?J" "length (ja_x ?J) = length xs" "near xs (q * e) (set (ja_rows ?J)) (ja_x ?J)"
    using k(1) by (auto simp: knows_def part_ok_def near_def)
  from prepare_near [OF this k(2)] obtain v where v: "ja_prepare_for_publication (js_values S m) ?J = Inr v"
    "length v = 2 * length (ja_rows ?J)" "near_pairs xs (q * e) v" by auto
  have "near_pairs xs e v" using v(3) q e by (elim near_pairs_mono) (simp add: mult_left_le_one_le)
  let ?T = "S\<lparr>js_values := (js_values S)(m := v), js_version := (js_version S)(m := js_version S m + 1),
              js_sent := js_sent S @ [(m, js_version S m + 1, v)]\<rparr>"
  let ?Ks = "\<lambda>m. if new then Ks m \<union> heard [ev] m else {}"
  have "?Ks = Ks" using new Publish_Values by (cases new) (simp_all add: heard_def)
  moreover have "system_knows q xs num e Ks ver ?T"
    using S v \<open>near_pairs xs e v\<close> by (intro system_knows_change [OF S]) (auto simp: system_knows_def)
  moreover have "new \<longrightarrow> all_newer ver ?T" using new k(3) by (auto simp: all_newer_def)
  ultimately show ?thesis using v(1) Publish_Values by auto
next
  case (Process_Update m h)
  let ?J = "js_machine S m"
  have m: "m < num" and h: "shows_sent tag (js_sent S) h" using ev Process_Update by auto
  have vs: "\<forall>v \<in> set (updated_values h). \<exists>m n. (m, n, v) \<in> set (js_sent S)"
    using process_update_values(2) [OF h] by force
  have k: "knows q xs e (Ks m) ?J" using S m by (auto simp: system_knows_def)
  have "\<forall>v \<in> set (updated_values h). near_pairs xs e v" using vs S by (fastforce simp: system_knows_def)
  moreover have "if new then \<forall>v \<in> set (updated_values h). near_pairs xs (q * e) v else Ks m = {}"
    using vs S new by (fastforce simp: system_knows_def all_newer_def)
  ultimately obtain J where J: "ja_process_update h ?J = Inr J" "ja_rows J = ja_rows ?J"
    "knows q xs e (if new then Ks m \<union> (\<Union>v \<in> set (updated_values h). components v) else {}) J"
    unfolding process_update_values(1) [OF h] using update_knows [OF k q, of "updated_values h" new] by blast
  let ?T = "S\<lparr>js_machine := (js_machine S)(m := J)\<rparr>" and ?Ks = "\<lambda>m. if new then Ks m \<union> heard [ev] m else {}"
  have "m' \<noteq> m \<Longrightarrow> ?Ks m' = Ks m'" for m' using new Process_Update
    by (cases new) (simp_all add: heard_def)
  moreover have "?Ks m = (if new then Ks m \<union> (\<Union>v \<in> set (updated_values h). components v) else {})"
    by (simp add: heard_def Process_Update)
  ultimately have "system_knows q xs num e ?Ks ver ?T"
    using S J by (intro system_knows_change [OF S]) (auto simp: system_knows_def)
  then show ?thesis using J Process_Update new by (auto simp: all_newer_def)
next
  case (Message_Gone k)
  have "set (take k (js_sent S) @ drop (Suc k) (js_sent S)) \<subseteq> set (js_sent S)"
    using set_take_subset set_drop_subset by (metis Un_least set_append)
  moreover have "(\<lambda>m. if new then Ks m \<union> heard [ev] m else {}) = Ks"
    using new Message_Gone by (cases new) (simp_all add: heard_def)
  moreover have "system_knows q xs num e Ks ver (S\<lparr>js_sent := take k (js_sent S) @ drop (Suc k) (js_sent S)\<rparr>)"
    using S calculation(1) by (intro system_knows_change [OF S]) (auto simp: system_knows_def)
  ultimately show ?thesis using Message_Gone new by (fastforce simp: all_newer_def)
qed

lemma heard_append [simp]: "heard (evs @ evs') m = heard evs m \<union> heard evs' m"
  by (simp add: heard_def)

lemma runs_know:
  assumes "jacobi_runs tag num S evs T" and q: "0 \<le> q" "q \<le> 1" "0 \<le> e"
    and "system_knows q xs num e (\<lambda>m. {}) ver S" "new \<Longrightarrow> all_newer ver S"
  shows "system_knows q xs num e (\<lambda>m. if new then heard evs m else {}) ver T
     \<and> (new \<longrightarrow> all_newer ver T) \<and> (\<forall>m < num. ja_rows (js_machine T m) = ja_rows (js_machine S m))"
  using assms(1,5,6)
proof (induction rule: jacobi_runs.induct)
  case stay
  then show ?case by (cases new) (simp_all add: heard_def)
next
  case (step evs T ev U)
  let ?Ks = "\<lambda>m. if new then heard evs m else {}"
  have T: "system_knows q xs num e ?Ks ver T" "new \<longrightarrow> all_newer ver T"
    "\<forall>m < num. ja_rows (js_machine T m) = ja_rows (js_machine S m)" using step by auto
  then have "if new then all_newer ver T else ?Ks = (\<lambda>m. {})" by auto
  from step_knows [OF T(1) q step.hyps(2) this] step.hyps(3)
  have "system_knows q xs num e (\<lambda>m. if new then ?Ks m \<union> heard [ev] m else {}) ver U" "new \<longrightarrow> all_newer ver U"
    "\<forall>m < num. ja_rows (js_machine U m) = ja_rows (js_machine T m)" by auto
  moreover have "(\<lambda>m. if new then ?Ks m \<union> heard [ev] m else {}) = (\<lambda>m. if new then heard (evs @ [ev]) m else {})"
    by (cases new) simp_all
  ultimately show ?case using T(3) by simp
qed

lemma epoch_knows:
  assumes "jacobi_epoch tag num S T" and q: "0 \<le> q" "q \<le> 1" "0 \<le> e"
    and S: "system_knows q xs num e (\<lambda>m. {}) (js_version S) S"
  shows "system_knows q xs num (q * e) (\<lambda>m. {}) (js_version T) T"
proof -
  from assms(1) obtain evs U evs' where r: "jacobi_runs tag num S evs U" "jacobi_runs tag num U evs' T"
    and n: "all_newer (js_version S) U"
    and h: "\<forall>m < num. {..<length (ja_x (js_machine U m))} - set (ja_rows (js_machine U m)) \<subseteq> heard evs' m"
    by (auto simp: jacobi_epoch_def all_newer_def)
  have U: "system_knows q xs num e (\<lambda>m. {}) (js_version S) U" using runs_know [OF r(1) q S, of False] by simp
  have T: "system_knows q xs num e (heard evs') (js_version S) T" "all_newer (js_version S) T"
    "\<forall>m < num. ja_rows (js_machine T m) = ja_rows (js_machine U m)" using runs_know [OF r(2) q U, of True] n by auto
  have "knows q xs (q * e) {} (js_machine T m)" if m: "m < num" for m
  proof -
    let ?J = "js_machine T m"
    have k: "knows q xs e (heard evs' m) ?J" using T(1) m by (simp add: system_knows_def)
    have "length (ja_x (js_machine U m)) = length xs" using U m by (auto simp: system_knows_def knows_def part_ok_def)
    then have c: "{..<length xs} - set (ja_rows ?J) \<subseteq> heard evs' m" using h [rule_format, OF m] T(3) m by simp
    then have "near xs (q * e) UNIV (ja_x ?J)" using k by (auto simp: knows_def near_def)
    moreover have "near xs (q * (q * e)) (set (ja_rows ?J)) (ja_x ?J)" using k c by (auto simp: knows_def)
    ultimately show ?thesis using k by (auto simp: knows_def part_ok_def)
  qed
  then show ?thesis using T(1,2) by (fastforce simp: system_knows_def all_newer_def)
qed

section \<open>Safety and convergence\<close>

text \<open>The assumptions: \<open>xs\<close> solves the system, all machines start with their constructors, and their rows are
  dominated by the diagonal.\<close>

definition solved_by :: "real \<Rightarrow> real list \<Rightarrow> nat \<Rightarrow> (nat \<Rightarrow> jacobi) \<Rightarrow> bool" where
  "solved_by q xs num Js \<longleftrightarrow> 0 \<le> q \<and> q \<le> 1
     \<and> (\<forall>m < num. part_ok q xs (Js m) \<and> new_jacobi (ja_A (Js m)) (ja_b (Js m)) (ja_rows (Js m)) = Inr (Js m))"

lemma start_knows:
  assumes s: "solved_by q xs num Js" and e: "\<forall>j < length xs. \<bar>xs ! j\<bar> \<le> e"
  shows "system_knows q xs num e (\<lambda>m. {}) (js_version (jacobi_start Js num)) (jacobi_start Js num)"
proof -
  have k: "knows q xs e {} (Js m)" and n: "0 < length xs" if m: "m < num" for m
  proof -
    let ?J = "Js m"
    have p: "part_ok q xs ?J" and new: "new_jacobi (ja_A ?J) (ja_b ?J) (ja_rows ?J) = Inr ?J" using s m by (auto simp: solved_by_def)
    show "0 < length xs" using p by (auto simp: part_ok_def)
    have l: "length (ja_A ?J ! 0) = length xs" "0 < length (ja_A ?J)" using p by (auto simp: part_ok_def jacobi_ok_def)
    let ?I = "?J\<lparr>ja_x := replicate (length xs) 0\<rparr>"
    have c: "jacobi_computation ?I = Inr ?J"
      using new l by (cases "Js m") (simp add: new_jacobi_def vec_at_def)
    have "part_ok q xs ?I" using p by (subst part_ok_update) (simp_all add: part_ok_def)
    moreover have "near xs e UNIV (ja_x ?I)" using e by (simp add: near_def)
    ultimately obtain y where
      "jacobi_computation ?I = Inr (?I\<lparr>ja_x := y\<rparr>)" "near xs e UNIV y" "near xs (q * e) (set (ja_rows ?J)) y"
      using computation_contracts [of q xs ?I e] s by (auto simp: solved_by_def)
    then have "near xs e UNIV (ja_x ?J)" "near xs (q * e) (set (ja_rows ?J)) (ja_x ?J)"
      using c by (metis Inr_inject jacobi.select_convs(4) jacobi.surjective jacobi.update_convs(4))+
    then show "knows q xs e {} ?J" using p by (auto simp: knows_def part_ok_def)
  qed
  have "near_pairs xs e (ja_get_init_publish_values (Js m))" if "m < num" for m
    using n [OF that] e by (fastforce simp: near_pairs_def ja_get_init_publish_values_def)
  with k show ?thesis by (auto simp: system_knows_def jacobi_start_def ja_get_init_publish_values_def)
qed

lemma epochs_know:
  assumes "solved_by q xs num Js" "\<forall>j < length xs. \<bar>xs ! j\<bar> \<le> e" "0 \<le> e" "(jacobi_epoch tag num ^^ k) (jacobi_start Js num) S"
  shows "system_knows q xs num (q ^ k * e) (\<lambda>m. {}) (js_version S) S"
  using assms(4)
proof (induction k arbitrary: S)
  case 0
  then show ?case using start_knows [OF assms(1,2)] by simp
next
  case (Suc k)
  then obtain T where T: "system_knows q xs num (q ^ k * e) (\<lambda>m. {}) (js_version T) T" "jacobi_epoch tag num T S" by auto
  have "0 \<le> q" "q \<le> 1" using assms(1) by (auto simp: solved_by_def)
  from epoch_knows [OF T(2) this _ T(1)] assms(3) \<open>0 \<le> q\<close> show ?case by (simp add: mult.assoc)
qed

text \<open>C9: Machines that solve a diagonally dominant system never fail and never leave the box around the solution, however
  their messages are delayed, repeated, reordered or lost: from any state that can be reached every possible event
  goes through, and every component of every machine is as close to the solution as the initial zeros.\<close>

theorem jacobi_machines_safe:
  assumes "solved_by q xs num Js" "\<forall>j < length xs. \<bar>xs ! j\<bar> \<le> e" "0 \<le> e" "jacobi_runs tag num (jacobi_start Js num) evs S"
  shows "(jacobi_possible tag num ev S \<longrightarrow> (\<exists>T. jacobi_step ev S = Inr T))
    \<and> (\<forall>m < num. \<forall>j < length xs. \<bar>ja_x (js_machine S m) ! j - xs ! j\<bar> \<le> e)"
proof -
  have q: "0 \<le> q" "q \<le> 1" using assms(1) by (auto simp: solved_by_def)
  have S: "system_knows q xs num e (\<lambda>m. {}) (js_version (jacobi_start Js num)) S"
    using runs_know [OF assms(4) q assms(3) start_knows [OF assms(1,2)], of False] by simp
  then have "\<forall>m < num. near xs e UNIV (ja_x (js_machine S m))" by (simp add: system_knows_def knows_def)
  then show ?thesis using step_knows [OF S q assms(3), of tag ev False] by (auto simp: near_def)
qed

text \<open>C10: With every epoch the error of every machine falls by the factor of the dominance: after \<open>k\<close> epochs, and at any
  time later, no component of any machine is further from the solution than \<open>q ^ k\<close> times the initial error.\<close>

theorem jacobi_epochs_contract:
  assumes "solved_by q xs num Js" "\<forall>j < length xs. \<bar>xs ! j\<bar> \<le> e" "0 \<le> e"
    and "(jacobi_epoch tag num ^^ k) (jacobi_start Js num) S" "jacobi_runs tag num S evs T"
  shows "\<forall>m < num. \<forall>j < length xs. \<bar>ja_x (js_machine T m) ! j - xs ! j\<bar> \<le> q ^ k * e"
proof -
  have q: "0 \<le> q" "q \<le> 1" using assms(1) by (auto simp: solved_by_def)
  have "0 \<le> q ^ k * e" using q assms(3) by simp
  from runs_know [OF assms(5) q this epochs_know [OF assms(1-4)], of False]
  have "system_knows q xs num (q ^ k * e) (\<lambda>m. {}) (js_version S) T" by simp
  then show ?thesis by (simp add: system_knows_def knows_def near_def)
qed

section \<open>Epochs are always possible\<close>

lemma runs_Nil: "S = T \<Longrightarrow> jacobi_runs tag num S [] T"
  by (simp add: jacobi_runs.stay)

lemma runs_Cons:
  assumes "jacobi_possible tag num ev S" "jacobi_step ev S = Inr T" "jacobi_runs tag num T evs U"
  shows "jacobi_runs tag num S (ev # evs) U"
  using assms(3)
proof (induction rule: jacobi_runs.induct)
  case stay
  show ?case using jacobi_runs.step [OF jacobi_runs.stay assms(1,2)] by simp
next
  case (step evs' V ev' W)
  show ?case using jacobi_runs.step [OF step.IH step.hyps(2,3)] by simp
qed

lemma runs_trans:
  assumes "jacobi_runs tag num T evs' U" "jacobi_runs tag num S evs T"
  shows "jacobi_runs tag num S (evs @ evs') U"
  using assms
proof (induction rule: jacobi_runs.induct)
  case (step evs' V ev W)
  then show ?case by (metis append.assoc jacobi_runs.step)
qed simp

lemma epochI:
  assumes "jacobi_runs tag num S evs U" "\<forall>(m, n, v) \<in> set (js_sent U). n > js_version S m" "jacobi_runs tag num U evs' T"
    "\<forall>m < num. {..<length (ja_x (js_machine U m))} - set (ja_rows (js_machine U m)) \<subseteq> heard evs' m"
  shows "jacobi_epoch tag num S T"
  using assms unfolding jacobi_epoch_def by blast

lemma publish_runs:
  assumes "system_knows q xs num e (\<lambda>m. {}) ver S" "0 \<le> q" "q \<le> 1" "0 \<le> e" "n \<le> num"
  shows "\<exists>U vals. jacobi_runs tag num S (map Publish_Values [0..<n]) U \<and> js_machine U = js_machine S
    \<and> (\<forall>m \<ge> n. js_version U m = js_version S m) \<and> (\<forall>m < n. components (vals m) = set (ja_rows (js_machine S m)))
    \<and> js_sent U = js_sent S @ map (\<lambda>m. (m, js_version S m + 1, vals m)) [0..<n]"
  using assms(5)
proof (induction n)
  case 0
  show ?case by (intro exI [of _ S]) (simp add: jacobi_runs.stay)
next
  case (Suc n)
  then obtain U vals where U: "jacobi_runs tag num S (map Publish_Values [0..<n]) U" "js_machine U = js_machine S"
    "\<forall>m \<ge> n. js_version U m = js_version S m" "\<forall>m < n. components (vals m) = set (ja_rows (js_machine S m))"
    "js_sent U = js_sent S @ map (\<lambda>m. (m, js_version S m + 1, vals m)) [0..<n]" by auto
  have "system_knows q xs num e (\<lambda>m. {}) ver U" using runs_know [OF U(1) assms(2-4,1), of False] by simp
  then have k: "knows q xs e {} (js_machine U n)" "length (js_values U n) = 2 * length (ja_rows (js_machine U n))"
    using Suc.prems by (auto simp: system_knows_def)
  then have "jacobi_ok (js_machine U n)" "length (ja_x (js_machine U n)) = length xs"
    "near xs e (set (ja_rows (js_machine U n))) (ja_x (js_machine U n))"
    by (auto simp: knows_def part_ok_def near_def)
  from prepare_near [OF this k(2)] obtain v where v: "ja_prepare_for_publication (js_values U n) (js_machine U n) = Inr v"
    "components v = set (ja_rows (js_machine S n))" using U(2) by auto
  let ?W = "U\<lparr>js_values := (js_values U)(n := v), js_version := (js_version U)(n := js_version U n + 1),
              js_sent := js_sent U @ [(n, js_version U n + 1, v)]\<rparr>"
  have "jacobi_runs tag num S (map Publish_Values [0..<Suc n]) ?W"
    using jacobi_runs.step [OF U(1), of "Publish_Values n" ?W] v(1) Suc.prems by simp
  then show ?case using U v(2)
    by (intro exI [of _ ?W] exI [of _ "vals(n := v)"]) (auto simp: less_Suc_eq)
qed

lemma gone_runs: "k \<le> length (js_sent S) \<Longrightarrow>
    jacobi_runs tag num S (replicate k (Message_Gone 0)) (S\<lparr>js_sent := drop k (js_sent S)\<rparr>)"
proof (induction k)
  case (Suc k)
  then have "jacobi_runs tag num S (replicate k (Message_Gone 0)) (S\<lparr>js_sent := drop k (js_sent S)\<rparr>)" by simp
  from jacobi_runs.step [OF this, of "Message_Gone 0" "S\<lparr>js_sent := drop (Suc k) (js_sent S)\<rparr>"] Suc.prems
  show ?case by (simp add: replicate_append_same)
qed (simp add: jacobi_runs.stay)

lemma deliver_runs:
  assumes "system_knows q xs num e (\<lambda>m. {}) ver S" "0 \<le> q" "q \<le> 1" "0 \<le> e" "n \<le> num" "shows_sent tag (js_sent S) h"
  shows "\<exists>T. jacobi_runs tag num S (map (\<lambda>m. Process_Update m h) [0..<n]) T \<and> js_sent T = js_sent S"
  using assms(5)
proof (induction n)
  case 0
  show ?case by (intro exI [of _ S]) (simp add: jacobi_runs.stay)
next
  case (Suc n)
  then obtain T where T: "jacobi_runs tag num S (map (\<lambda>m. Process_Update m h) [0..<n]) T" "js_sent T = js_sent S" by auto
  have k: "system_knows q xs num e (\<lambda>m. {}) ver T" using runs_know [OF T(1) assms(2-4,1), of False] by simp
  have p: "jacobi_possible tag num (Process_Update n h) T" using Suc.prems assms(6) T(2) by simp
  from step_knows [OF k assms(2-4) p, of False] obtain U where U: "jacobi_step (Process_Update n h) T = Inr U" by auto
  moreover have "js_sent U = js_sent S" using U T(2) by (auto simp: rbind_eq_Inr_iff)
  ultimately show ?case using jacobi_runs.step [OF T(1) p] by auto
qed

lemma gossip_shows_sent:
  assumes "inj_on tag {..<num}"
  shows "shows_sent tag (map (\<lambda>m. (m, n m, vals m)) [0..<num]) (gossip_handler tag vals [0..<num])"
    and "updated_values (gossip_handler tag vals [0..<num]) = map vals [0..<num]"
proof -
  have m: "map_of (map (\<lambda>k. (tag k, vals k)) [0..<num]) (tag i) = Some (vals i)" if "i < num" for i
  proof (rule map_of_is_SomeI)
    show "distinct (map fst (map (\<lambda>k. (tag k, vals k)) [0..<num]))"
      using assms by (simp add: distinct_map o_def atLeast0LessThan inj_on_def)
  qed (use that in auto)
  then show "shows_sent tag (map (\<lambda>m. (m, n m, vals m)) [0..<num]) (gossip_handler tag vals [0..<num])"
    by (auto simp: shows_sent_def gossip_handler_def)
  show "updated_values (gossip_handler tag vals [0..<num]) = map vals [0..<num]"
    using m by (auto simp: updated_values_def gossip_handler_def)
qed

lemma epoch_possible:
  assumes k: "system_knows q xs num e (\<lambda>m. {}) (js_version S) S" and q: "0 \<le> q" "q \<le> 1" "0 \<le> e"
    and tag: "inj_on tag {..<num}" and all: "\<forall>j < length xs. \<exists>m < num. j \<in> set (ja_rows (js_machine S m))"
  shows "\<exists>T. jacobi_epoch tag num S T"
proof -
  from publish_runs [OF k q order_refl, of tag] obtain U vals where
    U: "jacobi_runs tag num S (map Publish_Values [0..<num]) U" "js_machine U = js_machine S"
      "\<forall>m < num. components (vals m) = set (ja_rows (js_machine S m))"
      "js_sent U = js_sent S @ map (\<lambda>m. (m, js_version S m + 1, vals m)) [0..<num]" by blast
  let ?V = "U\<lparr>js_sent := map (\<lambda>m. (m, js_version S m + 1, vals m)) [0..<num]\<rparr>"
  have "jacobi_runs tag num U (replicate (length (js_sent S)) (Message_Gone 0)) ?V"
    using gone_runs [of "length (js_sent S)" U] U(4) by simp
  then have V: "jacobi_runs tag num S (map Publish_Values [0..<num] @ replicate (length (js_sent S)) (Message_Gone 0)) ?V"
    using runs_trans U(1) by blast
  let ?h = "gossip_handler tag vals [0..<num]"
  have kV: "system_knows q xs num e (\<lambda>m. {}) (js_version S) ?V" using runs_know [OF V q k, of False] by simp
  have sV: "shows_sent tag (js_sent ?V) ?h" using gossip_shows_sent(1) [OF tag, of "\<lambda>m. js_version S m + 1" vals] by simp
  from deliver_runs [OF kV q order_refl sV] obtain T where
    T: "jacobi_runs tag num ?V (map (\<lambda>m. Process_Update m ?h) [0..<num]) T" by auto
  let ?evs = "map (\<lambda>m. Process_Update m ?h) [0..<num]"
  have j: "j \<in> heard ?evs m" if m: "m < num" and j: "j < length xs" for m j
  proof -
    obtain m' where "m' < num" "j \<in> components (vals m')" using all j U(3) by auto
    moreover have "(\<Union>v \<in> set (updated_values ?h). components v) \<subseteq> heard ?evs m"
      using m by (force simp: heard_def)
    ultimately show ?thesis using gossip_shows_sent(2) [OF tag, of vals] by force
  qed
  have "length (ja_x (js_machine ?V m)) = length xs" if "m < num" for m
    using kV that by (auto simp: system_knows_def knows_def part_ok_def)
  then have "\<forall>m < num. {..<length (ja_x (js_machine ?V m))} - set (ja_rows (js_machine ?V m)) \<subseteq> heard ?evs m"
    using j by (intro allI impI subsetI) simp
  moreover have "\<forall>(m, n, v) \<in> set (js_sent ?V). n > js_version S m" by auto
  ultimately have "jacobi_epoch tag num S T" by (intro epochI [OF V _ T])
  then show ?thesis by blast
qed

lemma epochs_possible:
  assumes s: "solved_by q xs num Js" "\<forall>j < length xs. \<bar>xs ! j\<bar> \<le> e" "0 \<le> e"
    and tag: "inj_on tag {..<num}" and all: "\<forall>j < length xs. \<exists>m < num. j \<in> set (ja_rows (Js m))"
  shows "\<exists>S. (jacobi_epoch tag num ^^ k) (jacobi_start Js num) S \<and> (\<forall>m < num. ja_rows (js_machine S m) = ja_rows (Js m))"
proof (induction k)
  case 0
  show ?case by (simp add: jacobi_start_def)
next
  case (Suc k)
  then obtain S where S: "(jacobi_epoch tag num ^^ k) (jacobi_start Js num) S" "\<forall>m < num. ja_rows (js_machine S m) = ja_rows (Js m)"
    by auto
  have q: "0 \<le> q" "q \<le> 1" "0 \<le> q ^ k * e" using s by (auto simp: solved_by_def)
  have k: "system_knows q xs num (q ^ k * e) (\<lambda>m. {}) (js_version S) S" using epochs_know [OF s S(1)] .
  obtain T where T: "jacobi_epoch tag num S T" using epoch_possible [OF k q tag] all S(2) by fastforce
  then obtain evs U evs' where r: "jacobi_runs tag num S evs U" "jacobi_runs tag num U evs' T" by (auto simp: jacobi_epoch_def)
  have "\<forall>m < num. ja_rows (js_machine T m) = ja_rows (js_machine S m)"
    using runs_know [OF runs_trans [OF r(2,1)] q k, of False] by blast
  then show ?case using S T by (intro exI [of _ T]) auto
qed

text \<open>C4: When the dominance is strict and every component is computed somewhere, the machines can always come as close to
  the solution as one likes, and then they stay there: there is a number of epochs, which can take place, after
  which every machine is within the tolerance for ever, whatever happens then.\<close>

theorem jacobi_converges:
  assumes "solved_by q xs num Js" "q < 1" "inj_on tag {..<num}" "\<forall>j < length xs. \<exists>m < num. j \<in> set (ja_rows (Js m))" "0 < tol"
  shows "\<exists>k S. (jacobi_epoch tag num ^^ k) (jacobi_start Js num) S \<and> (\<forall>evs T. jacobi_runs tag num S evs T \<longrightarrow>
    (\<forall>m < num. \<forall>j < length xs. \<bar>ja_x (js_machine T m) ! j - xs ! j\<bar> < tol))"
proof -
  define e where "e = (\<Sum>j < length xs. \<bar>xs ! j\<bar>) + 1"
  have e: "\<forall>j < length xs. \<bar>xs ! j\<bar> \<le> e"
  proof (intro allI impI)
    fix j assume "j < length xs"
    then have "\<bar>xs ! j\<bar> \<le> (\<Sum>j < length xs. \<bar>xs ! j\<bar>)" by (intro member_le_sum [where f = "\<lambda>j. \<bar>xs ! j\<bar>"]) auto
    then show "\<bar>xs ! j\<bar> \<le> e" by (simp add: e_def)
  qed
  have e0: "0 < e" by (simp add: e_def add_nonneg_pos sum_nonneg)
  have q: "0 \<le> q" using assms(1) by (simp add: solved_by_def)
  obtain k where "q ^ k < tol / e" using real_arch_pow_inv [of "tol / e" q] assms(2,5) e0 by auto
  then have k: "q ^ k * e < tol" using e0 by (simp add: field_simps)
  from epochs_possible [OF assms(1) e _ assms(3,4), of k] e0 obtain S where
    S: "(jacobi_epoch tag num ^^ k) (jacobi_start Js num) S" by auto
  have "\<bar>ja_x (js_machine T m) ! j - xs ! j\<bar> < tol"
    if r: "jacobi_runs tag num S evs T" and "m < num" "j < length xs" for evs T m j
  proof -
    have "0 \<le> q ^ k * e" "q \<le> 1" using q e0 assms(2) by simp_all
    with runs_know [OF r q _ _ epochs_know [OF assms(1) e _ S], of False] e0
    have "system_knows q xs num (q ^ k * e) (\<lambda>m. {}) (js_version S) T" by simp
    then have "\<bar>ja_x (js_machine T m) ! j - xs ! j\<bar> \<le> q ^ k * e"
      using that by (simp add: system_knows_def knows_def near_def)
    then show ?thesis using k by simp
  qed
  with S show ?thesis by blast
qed

section \<open>A system of two machines\<close>

text \<open>Two equations in two unknowns, one for each machine.\<close>

definition two_rows :: "nat \<Rightarrow> jacobi" where
  "two_rows m = (if m = 0 then \<lparr>ja_A = [[2, 1]], ja_b = [3], ja_rows = [0], ja_x = [3 / 2, 0]\<rparr>
     else \<lparr>ja_A = [[1, 2]], ja_b = [3], ja_rows = [1], ja_x = [0, 3 / 2]\<rparr>)"

definition two_tags :: "nat \<Rightarrow> tag_id" where
  "two_tags m = (if m = 0 then ''tag0'' else ''tag1'')"

definition hears :: "nat \<Rightarrow> real list \<Rightarrow> (real list, real list) handler" where
  "hears m v = \<lparr>nd_transformer = (\<lambda>v. v), nd_tags = [two_tags m], nd_values = [(two_tags m, v)], nd_updated = [0]\<rparr>"

lemma two_sets: "(\<forall>m < (2 :: nat). P m) \<longleftrightarrow> P 0 \<and> P 1" "{..<2 :: nat} = {0, 1}" "{..<Suc 0} = {0 :: nat}" "[0..<2] = [0, 1 :: nat]"
  by (auto simp: less_2_cases_iff upt_rec)

lemma two_parts: "part_ok (1 / 2) [1, 1] (two_rows 0)" "part_ok (1 / 2) [1, 1] (two_rows 1)"
  by (simp_all add: two_rows_def part_ok_def jacobi_ok_def row_sum_def lessThan_Suc insert_Diff_if numeral_2_eq_2)

lemma two_news: "new_jacobi (ja_A (two_rows 0)) (ja_b (two_rows 0)) (ja_rows (two_rows 0)) = Inr (two_rows 0)"
    "new_jacobi (ja_A (two_rows 1)) (ja_b (two_rows 1)) (ja_rows (two_rows 1)) = Inr (two_rows 1)"
  by (simp_all add: two_rows_def new_jacobi_def vec_at_def jacobi_computation_def jacobi_row_def jacobi_hold_def numeral_2_eq_2)

lemma two_solved: "solved_by (1 / 2) [1, 1] 2 two_rows"
  using two_parts two_news by (simp add: solved_by_def two_sets)

lemma jacobi_machines_safe_witness:
  "(\<exists>T. jacobi_step (Process_Update 0 (hears 1 [0, 0])) (jacobi_start two_rows 2) = Inr T)
   \<and> \<bar>ja_x (js_machine (jacobi_start two_rows 2) 1) ! 0 - 1\<bar> \<le> 1"
proof -
  have "\<forall>j < length [1, 1 :: real]. \<bar>[1, 1 :: real] ! j\<bar> \<le> 1" by (simp add: less_Suc_eq)
  moreover have "jacobi_possible two_tags 2 (Process_Update 0 (hears 1 [0, 0])) (jacobi_start two_rows 2)"
    by (simp add: shows_sent_def hears_def jacobi_start_def ja_get_init_publish_values_def two_rows_def two_sets two_tags_def numeral_2_eq_2)
  ultimately have "\<exists>T. jacobi_step (Process_Update 0 (hears 1 [0, 0])) (jacobi_start two_rows 2) = Inr T"
    and all: "\<forall>m < 2. \<forall>j < length [1, 1 :: real]. \<bar>ja_x (js_machine (jacobi_start two_rows 2) m) ! j - [1, 1] ! j\<bar> \<le> 1"
    using jacobi_machines_safe [OF two_solved _ _ jacobi_runs.stay,
      where ev = "Process_Update 0 (hears 1 [0, 0])" and e = 1 and tag = two_tags] by simp_all
  moreover have "\<bar>ja_x (js_machine (jacobi_start two_rows 2) 1) ! 0 - [1, 1] ! 0\<bar> \<le> 1"
    by (rule all [rule_format]) simp_all
  ultimately show ?thesis by simp
qed

text \<open>An epoch of the two machines.\<close>

definition first_half :: "jacobi_event list" where
  "first_half = [Publish_Values 0, Publish_Values 1, Message_Gone 0, Message_Gone 0]"

definition second_half :: "jacobi_event list" where
  "second_half = [Process_Update 0 (hears 1 [1, 3 / 2]), Process_Update 1 (hears 0 [0, 3 / 2])]"

definition halfway :: jacobi_system where
  "halfway = (jacobi_start two_rows 2)\<lparr>js_values := (\<lambda>m. ja_get_init_publish_values (two_rows m))(0 := [0, 3 / 2], 1 := [1, 3 / 2]),
     js_version := (\<lambda>m. 0)(0 := 1, 1 := 1), js_sent := [(0, 1, [0, 3 / 2]), (1, 1, [1, 3 / 2])]\<rparr>"

definition after_epoch :: jacobi_system where
  "after_epoch = halfway\<lparr>js_machine := two_rows(0 := \<lparr>ja_A = [[2, 1]], ja_b = [3], ja_rows = [0], ja_x = [3 / 4, 3 / 2]\<rparr>,
     1 := \<lparr>ja_A = [[1, 2]], ja_b = [3], ja_rows = [1], ja_x = [3 / 2, 3 / 4]\<rparr>)\<rparr>"

lemmas two_defs = hears_def jacobi_start_def ja_get_init_publish_values_def two_rows_def two_sets two_tags_def numeral_2_eq_2
  ja_prepare_for_publication_def vec_at_def

lemma first_half_runs: "jacobi_runs two_tags 2 (jacobi_start two_rows 2) first_half halfway"
  unfolding first_half_def
  by (rule runs_Cons, simp add: two_defs, simp add: two_defs)+ (rule runs_Nil, simp add: halfway_def two_defs)

lemmas two_updates = ja_process_update_def get_updated_tags_def deref_tag_def get_data_unsafe_def value_at_def ja_use_pair_def
  jacobi_computation_def jacobi_row_def jacobi_hold_def

lemma second_half_runs: "jacobi_runs two_tags 2 halfway second_half after_epoch"
  unfolding second_half_def
  by (rule runs_Cons, simp add: two_defs halfway_def shows_sent_def, simp add: two_defs halfway_def two_updates)+
    (rule runs_Nil, simp add: halfway_def after_epoch_def two_defs)

lemma two_epoch: "jacobi_epoch two_tags 2 (jacobi_start two_rows 2) after_epoch"
proof -
  have "heard second_half 0 = {1}" "heard second_half 1 = {0}"
    by (auto simp: heard_def second_half_def updated_values_def hears_def components_def)
  then have "\<forall>m < 2. {..<length (ja_x (js_machine halfway m))} - set (ja_rows (js_machine halfway m)) \<subseteq> heard second_half m"
    unfolding two_sets(1) by (simp add: halfway_def jacobi_start_def two_rows_def lessThan_Suc insert_Diff_if)
  moreover have "\<forall>(m, n, v) \<in> set (js_sent halfway). n > js_version (jacobi_start two_rows 2) m"
    by (simp add: halfway_def jacobi_start_def)
  ultimately show ?thesis by (intro epochI [OF first_half_runs _ second_half_runs])
qed

lemma jacobi_epochs_contract_witness:
  "\<bar>ja_x (js_machine after_epoch 0) ! 0 - 1\<bar> \<le> 1 / 2 \<and> \<bar>ja_x (js_machine after_epoch 1) ! 1 - 1\<bar> \<le> 1 / 2"
proof -
  have "\<forall>j < length [1, 1 :: real]. \<bar>[1, 1 :: real] ! j\<bar> \<le> 1" by (simp add: less_Suc_eq)
  moreover have "(jacobi_epoch two_tags 2 ^^ 1) (jacobi_start two_rows 2) after_epoch" using two_epoch by (simp add: eq_OO)
  ultimately have all: "\<forall>m < 2. \<forall>j < length [1, 1 :: real]. \<bar>ja_x (js_machine after_epoch m) ! j - [1, 1] ! j\<bar> \<le> (1 / 2) ^ 1 * 1"
    by (intro jacobi_epochs_contract [OF two_solved _ _ _ jacobi_runs.stay]) simp_all
  have "\<bar>ja_x (js_machine after_epoch j) ! j - [1, 1] ! j\<bar> \<le> (1 / 2) ^ 1 * 1" if "j < 2" for j
    by (rule all [rule_format]) (use that in simp_all)
  from this [of 0] this [of 1] show ?thesis by simp
qed

lemma jacobi_converges_witness:
  "\<exists>k S. (jacobi_epoch two_tags 2 ^^ k) (jacobi_start two_rows 2) S \<and> \<bar>ja_x (js_machine S 0) ! 1 - 1\<bar> < 1 / 1000"
proof -
  have "inj_on two_tags {..<2}" by (auto simp: inj_on_def two_tags_def)
  moreover have "\<forall>j < length [1, 1 :: real]. \<exists>m < 2. j \<in> set (ja_rows (two_rows m))"
  proof (intro allI impI)
    fix j assume "j < length [1, 1 :: real]"
    then show "\<exists>m < 2. j \<in> set (ja_rows (two_rows m))"
      by (intro exI [of _ j]) (auto simp: two_rows_def less_Suc_eq)
  qed
  ultimately have "\<exists>k S. (jacobi_epoch two_tags 2 ^^ k) (jacobi_start two_rows 2) S \<and> (\<forall>evs T. jacobi_runs two_tags 2 S evs T \<longrightarrow>
      (\<forall>m < 2. \<forall>j < length [1, 1 :: real]. \<bar>ja_x (js_machine T m) ! j - [1, 1] ! j\<bar> < 1 / 1000))"
    by (intro jacobi_converges [OF two_solved]) simp_all
  then obtain k S where S: "(jacobi_epoch two_tags 2 ^^ k) (jacobi_start two_rows 2) S"
    and all: "\<forall>evs T. jacobi_runs two_tags 2 S evs T \<longrightarrow>
      (\<forall>m < 2. \<forall>j < length [1, 1 :: real]. \<bar>ja_x (js_machine T m) ! j - [1, 1] ! j\<bar> < 1 / 1000)" by blast
  have "\<bar>ja_x (js_machine S 0) ! 1 - [1, 1] ! 1\<bar> < 1 / 1000" by (rule all [rule_format, OF jacobi_runs.stay]) simp_all
  then show ?thesis using S by (intro exI conjI) simp_all
qed

end
