(* ===== verification/Sky_Config.thy ===== *)
theory Sky_Config
  imports Sky_Network "HOL-Library.List_Lexorder" "HOL-Library.Char_ord"
begin

text \<open>
  \<^verbatim>\<open>skywing_mid/helpers/skynet_config.hpp\<close>: the configuration files of the helpers. The text of the file is
  an argument; a file that cannot be opened has none. A \<^verbatim>\<open>std::map\<close> is an association list sorted by its
  keys, which C++ compares character by character as unsigned numbers. The extraction of numbers with stream
  operators is the library's and not modelled.
\<close>

section \<open>Strings\<close>

definition newline :: char where "newline = CHR 0x0A"

definition ltrim :: "string \<Rightarrow> string" where
  "ltrim s = dropWhile is_space s"

definition rtrim :: "string \<Rightarrow> string" where
  "rtrim s = rev (dropWhile is_space (rev s))"

definition rtrim2 :: "(char \<Rightarrow> bool) \<Rightarrow> string \<Rightarrow> string" where
  "rtrim2 pred s = takeWhile (\<lambda>c. \<not> pred c) s"

text \<open>The replacement goes on behind what has been put in. Looking for the empty string it never ends.\<close>

function replace_loop :: "string \<Rightarrow> string \<Rightarrow> string \<Rightarrow> bool \<times> string" where
  "replace_loop from to [] = (False, [])"
| "replace_loop from to (c # s) =
     (if take (length from) (c # s) = from
      then (True, to @ snd (replace_loop from to (drop (length from - 1) s)))
      else (let (changed, t) = replace_loop from to s in (changed, c # t)))"
  by pat_completeness auto
termination by (relation "measure (\<lambda>(from, to, s). length s)") auto

definition replace_str :: "string \<Rightarrow> string \<Rightarrow> string \<Rightarrow> (bool \<times> string) res" where
  "replace_str str from to = (if from = [] then Inl Runs_Forever else Inr (replace_loop from to str))"

section \<open>The format and the sections\<close>

record format =
  fm_section_start :: char
  fm_section_end :: char
  fm_assign :: char
  fm_comment :: char
  fm_interpol :: char
  fm_interpol_start :: char
  fm_interpol_sep :: char
  fm_interpol_end :: char

definition default_format :: format where
  "default_format = \<lparr>fm_section_start = CHR ''['', fm_section_end = CHR '']'', fm_assign = CHR ''='', fm_comment = CHR '';'',
     fm_interpol = CHR ''$'', fm_interpol_start = CHR ''{'', fm_interpol_sep = CHR '':'', fm_interpol_end = CHR ''}''\<rparr>"

definition local_symbol :: "format \<Rightarrow> string \<Rightarrow> string" where
  "local_symbol fm name = fm_interpol fm # fm_interpol_start fm # name @ [fm_interpol_end fm]"

definition global_symbol :: "format \<Rightarrow> string \<Rightarrow> string \<Rightarrow> string" where
  "global_symbol fm sec_name name = local_symbol fm (sec_name @ [fm_interpol_sep fm] @ name)"

type_synonym cfg_section = "(string \<times> string) list"
type_synonym cfg_sections = "(string \<times> cfg_section) list"

text \<open>Assignment to \<^verbatim>\<open>map[k]\<close>, \<^verbatim>\<open>map::insert\<close>, and \<^verbatim>\<open>map[k]\<close> that is only read.\<close>

fun map_put :: "'k :: linorder \<Rightarrow> 'v \<Rightarrow> ('k \<times> 'v) list \<Rightarrow> ('k \<times> 'v) list" where
  "map_put k v [] = [(k, v)]"
| "map_put k v ((j, w) # m) =
     (if k < j then (k, v) # (j, w) # m else if k = j then (k, v) # m else (j, w) # map_put k v m)"

definition map_insert :: "'k :: linorder \<Rightarrow> 'v \<Rightarrow> ('k \<times> 'v) list \<Rightarrow> ('k \<times> 'v) list" where
  "map_insert k v m = (if has_key k m then m else map_put k v m)"

definition section_at :: "string \<Rightarrow> cfg_sections \<Rightarrow> cfg_section" where
  "section_at k m = (case map_of m k of None \<Rightarrow> [] | Some sec \<Rightarrow> sec)"

record config =
  cf_sections :: cfg_sections
  cf_errors :: "string list"
  cf_format :: format

definition empty_config :: config where
  "empty_config = \<lparr>cf_sections = [], cf_errors = [], cf_format = default_format\<rparr>"

definition clear :: "config \<Rightarrow> config" where
  "clear c = c\<lparr>cf_sections := [], cf_errors := []\<rparr>"

section \<open>Reading and writing\<close>

text \<open>\<^verbatim>\<open>std::getline\<close> until the end of the text.\<close>

function getlines :: "string \<Rightarrow> string list" where
  "getlines s = (if s = [] then [] else takeWhile (\<lambda>c. c \<noteq> newline) s # getlines (tl (dropWhile (\<lambda>c. c \<noteq> newline) s)))"
  by pat_completeness auto
termination
proof (relation "measure length")
  fix s :: string
  assume "s \<noteq> []"
  then show "(tl (dropWhile (\<lambda>c. c \<noteq> newline) s), s) \<in> measure length"
    using length_dropWhile_le [of "\<lambda>c. c \<noteq> newline" s] by (cases s) auto
qed simp

declare getlines.simps [simp del]

definition parse_line :: "string \<Rightarrow> string \<times> config \<Rightarrow> string \<times> config" where
  "parse_line raw = (\<lambda>(section, c).
     let fm = cf_format c; line = rtrim (ltrim raw); pos = length (takeWhile (\<lambda>ch. ch \<noteq> fm_assign fm) line);
         error = (section, c\<lparr>cf_errors := cf_errors c @ [line]\<rparr>)
     in if line = [] then (section, c)
        else if hd line = fm_comment fm then (section, c)
        else if hd line = fm_section_start fm
        then (if last line = fm_section_end fm then (take (length line - 2) (drop 1 line), c) else error)
        else if pos \<noteq> 0 \<and> pos \<noteq> length line
        then (let variable = rtrim (take pos line); value = ltrim (drop (pos + 1) line); sec = section_at section (cf_sections c);
                  c' = c\<lparr>cf_sections := map_insert section [] (cf_sections c)\<rparr>
              in if \<not> has_key variable sec
                 then (section, c'\<lparr>cf_sections := map_put section (map_insert variable value sec) (cf_sections c')\<rparr>)
                 else (section, c'\<lparr>cf_errors := cf_errors c' @ [line]\<rparr>))
        else error)"

definition parse :: "string \<Rightarrow> config \<Rightarrow> config" where
  "parse txt c = snd (fold parse_line (getlines txt) ([], c))"

definition generate :: "config \<Rightarrow> string" where
  "generate c = concat (map (\<lambda>(name, sec).
     [fm_section_start (cf_format c)] @ name @ [fm_section_end (cf_format c), newline]
     @ concat (map (\<lambda>(k, v). k @ [fm_assign (cf_format c)] @ v @ [newline]) sec) @ [newline]) (cf_sections c))"

section \<open>Comments, interpolation and defaults\<close>

definition strip_trailing_comments :: "config \<Rightarrow> config" where
  "strip_trailing_comments c = c\<lparr>cf_sections := map (\<lambda>(name, sec).
     (name, map (\<lambda>(k, v). (k, rtrim (rtrim2 (\<lambda>ch. ch = fm_comment (cf_format c)) v))) sec)) (cf_sections c)\<rparr>"

definition default_section :: "cfg_section \<Rightarrow> config \<Rightarrow> config" where
  "default_section sec c = c\<lparr>cf_sections := map (\<lambda>(name, sec2). (name, fold (\<lambda>(k, v). map_insert k v) sec sec2)) (cf_sections c)\<rparr>"

type_synonym symbols = "(string \<times> string) list"

definition local_symbols :: "format \<Rightarrow> string \<Rightarrow> cfg_section \<Rightarrow> symbols" where
  "local_symbols fm sec_name sec = map (\<lambda>(k, v). (local_symbol fm k, global_symbol fm sec_name k)) sec"

definition global_symbols :: "format \<Rightarrow> cfg_sections \<Rightarrow> symbols" where
  "global_symbols fm secs = concat (map (\<lambda>(name, sec). map (\<lambda>(k, v). (global_symbol fm name k, v)) sec) secs)"

fun replace_values :: "string \<Rightarrow> string \<Rightarrow> cfg_section \<Rightarrow> (bool \<times> cfg_section) res" where
  "replace_values from to [] = Inr (False, [])"
| "replace_values from to ((k, v) # sec) =
     rbind (replace_str v from to) (\<lambda>(changed, v').
     rbind (replace_values from to sec) (\<lambda>(changed', sec'). Inr (changed \<or> changed', (k, v') # sec')))"

fun replace_symbols :: "symbols \<Rightarrow> cfg_section \<Rightarrow> (bool \<times> cfg_section) res" where
  "replace_symbols [] sec = Inr (False, sec)"
| "replace_symbols ((from, to) # syms) sec =
     rbind (replace_values from to sec) (\<lambda>(changed, sec1).
     rbind (replace_symbols syms sec1) (\<lambda>(changed', sec2). Inr (changed \<or> changed', sec2)))"

fun replace_sections :: "(string \<times> cfg_section \<Rightarrow> symbols) \<Rightarrow> cfg_sections \<Rightarrow> (bool \<times> cfg_sections) res" where
  "replace_sections syms [] = Inr (False, [])"
| "replace_sections syms ((name, sec) # secs) =
     rbind (replace_symbols (syms (name, sec)) sec) (\<lambda>(changed, sec').
     rbind (replace_sections syms secs) (\<lambda>(changed', secs'). Inr (changed \<or> changed', (name, sec') # secs')))"

text \<open>The passes with the global symbols: the symbols are those of the beginning of the pass, and after the first
  pass there are at most \<open>n\<close> more.\<close>

fun global_passes :: "nat \<Rightarrow> format \<Rightarrow> cfg_sections \<Rightarrow> cfg_sections res" where
  "global_passes 0 fm secs = rbind (replace_sections (\<lambda>_. global_symbols fm secs) secs) (\<lambda>(changed, secs'). Inr secs')"
| "global_passes (Suc n) fm secs = rbind (replace_sections (\<lambda>_. global_symbols fm secs) secs) (\<lambda>(changed, secs').
     if changed then global_passes n fm secs' else Inr secs')"

definition max_interpolation_depth :: nat where "max_interpolation_depth = 10"

definition interpolate :: "config \<Rightarrow> config res" where
  "interpolate c =
     rbind (replace_sections (\<lambda>(name, sec). local_symbols (cf_format c) name sec) (cf_sections c)) (\<lambda>(changed, secs).
     rbind (global_passes max_interpolation_depth (cf_format c) secs) (\<lambda>secs'. Inr (c\<lparr>cf_sections := secs'\<rparr>)))"

text \<open>The constructor.\<close>

definition new_config :: "string \<Rightarrow> config res" where
  "new_config txt = interpolate (strip_trailing_comments (parse txt empty_config))"

section \<open>Looking values up\<close>

definition config_find :: "string \<Rightarrow> string \<Rightarrow> config \<Rightarrow> string res" where
  "config_find sec_name key c =
     (case map_of (cf_sections c) sec_name of
        None \<Rightarrow> Inl Exception_Thrown
      | Some sec \<Rightarrow> (case map_of sec key of None \<Rightarrow> Inl Exception_Thrown | Some v \<Rightarrow> Inr v))"

text \<open>\<^verbatim>\<open>get_value\<close> for strings and tags, with \<open>id\<close> and the tag's constructor.\<close>

definition get_value :: "(string \<Rightarrow> 'a) \<Rightarrow> string \<Rightarrow> string \<Rightarrow> config \<Rightarrow> 'a res" where
  "get_value construct sec_name key c = rbind (config_find sec_name key c) (\<lambda>v. Inr (construct v))"

text \<open>Reading words from a stream.\<close>

function stream_words :: "string \<Rightarrow> string list" where
  "stream_words s = (let t = ltrim s in if t = [] then [] else takeWhile (\<lambda>c. \<not> is_space c) t # stream_words (dropWhile (\<lambda>c. \<not> is_space c) t))"
  by pat_completeness auto
termination
proof (relation "measure length")
  fix s t :: string
  assume t: "t = ltrim s" "t \<noteq> []"
  then have "\<not> is_space (hd t)" using hd_dropWhile [of is_space s] by (simp add: ltrim_def)
  then have "length (dropWhile (\<lambda>c. \<not> is_space c) t) < length t"
    using t(2) length_dropWhile_le [of "\<lambda>c. \<not> is_space c" "tl t"] by (cases t) auto
  also have "\<dots> \<le> length s" using t(1) length_dropWhile_le [of is_space s] by (simp add: ltrim_def)
  finally show "(dropWhile (\<lambda>c. \<not> is_space c) t, s) \<in> measure length" by simp
qed simp

declare stream_words.simps [simp del]

definition get_vector :: "(string \<Rightarrow> 'a) \<Rightarrow> string \<Rightarrow> string \<Rightarrow> config \<Rightarrow> 'a list res" where
  "get_vector construct sec_name key c = rbind (config_find sec_name key c) (\<lambda>v. Inr (map construct (stream_words v)))"

text \<open>\<^verbatim>\<open>std::stoul\<close>: it throws when there is no number and when the number is too large; a negative one wraps.\<close>

definition stoul :: "string \<Rightarrow> nat res" where
  "stoul str =
     (let s = ltrim str; negative = (s \<noteq> [] \<and> hd s = CHR ''-''); signed = (s \<noteq> [] \<and> hd s \<in> {CHR ''-'', CHR ''+''});
          digits = (if signed then tl s else s); n = nat (fst (scan_digits 0 digits))
      in if digits = [] \<or> digit_val (hd digits) = None \<or> n \<ge> 2 ^ 64 then Inl Exception_Thrown else Inr (if negative then (2 ^ 64 - n) mod 2 ^ 64 else n))"

text \<open>The address behind the last colon; the port is at most 65535.\<close>

definition extract_ip_and_port :: "string \<Rightarrow> (string \<times> 16 word) res" where
  "extract_ip_and_port v =
     (let port_str = rev (takeWhile (\<lambda>c. c \<noteq> CHR '':'') (rev v)); split = length v - length port_str - 1
      in if CHR '':'' \<notin> set v then Inr (v, 0)
         else if split = length v - 1 then Inr (take split v, 0)
         else rbind (stoul (drop (split + 1) v)) (\<lambda>port_num.
                Inr (take split v, if port_num > 65535 then 65535 else of_nat port_num)))"

definition get_address :: "string \<Rightarrow> string \<Rightarrow> config \<Rightarrow> (string \<times> 16 word) res" where
  "get_address sec_name key c = rbind (config_find sec_name key c) extract_ip_and_port"

definition get_addresses :: "string \<Rightarrow> string \<Rightarrow> config \<Rightarrow> (string \<times> 16 word) list res" where
  "get_addresses sec_name key c = rbind (config_find sec_name key c) (\<lambda>v.
     rfold (\<lambda>w addrs. rbind (extract_ip_and_port w) (\<lambda>a. Inr (addrs @ [a]))) (stream_words v) [])"

text \<open>\<^verbatim>\<open>ReduceGroupConfig\<close>: the tag of the group, the index of the own value tag and all value tags. When the own
  tag is not among them the index stays 0.\<close>

record reduce_group_config =
  rgc_group :: string
  rgc_index :: nat
  rgc_tags :: "string list"

definition get_reduce_group_config :: "string \<Rightarrow> config \<Rightarrow> reduce_group_config res" where
  "get_reduce_group_config sec_name c =
     rbind (config_find sec_name ''reduce_value_tag'' c) (\<lambda>own.
     rbind (config_find sec_name ''reduce_value_tags'' c) (\<lambda>all.
       Inr \<lparr>rgc_group = sec_name,
            rgc_index = fold (\<lambda>(i, w) index. if w = own then i else index) (enumerate 0 (stream_words all)) 0,
            rgc_tags = stream_words all\<rparr>))"

definition get_value_tag :: "reduce_group_config \<Rightarrow> string res" where
  "get_value_tag r = (if rgc_index r < length (rgc_tags r) then Inr (rgc_tags r ! rgc_index r) else Inl Undefined_Behaviour)"


section \<open>Writing and reading back\<close>

definition trimmed :: "string \<Rightarrow> bool" where
  "trimmed s \<longleftrightarrow> s = [] \<or> \<not> is_space (hd s) \<and> \<not> is_space (last s)"

definition key_ok :: "string \<Rightarrow> bool" where
  "key_ok k \<longleftrightarrow> k \<noteq> [] \<and> trimmed k \<and> newline \<notin> set k \<and> CHR ''='' \<notin> set k \<and> hd k \<noteq> CHR ''['' \<and> hd k \<noteq> CHR '';''"

definition value_ok :: "string \<Rightarrow> bool" where
  "value_ok v \<longleftrightarrow> trimmed v \<and> newline \<notin> set v"

definition section_ok :: "cfg_section \<Rightarrow> bool" where
  "section_ok sec \<longleftrightarrow> sec \<noteq> [] \<and> sorted_wrt (<) (keys sec) \<and> (\<forall>(k, v) \<in> set sec. key_ok k \<and> value_ok v)"

definition config_ok :: "config \<Rightarrow> bool" where
  "config_ok c \<longleftrightarrow> cf_format c = default_format \<and> cf_errors c = [] \<and> sorted_wrt (<) (keys (cf_sections c))
     \<and> (\<forall>(name, sec) \<in> set (cf_sections c). newline \<notin> set name \<and> section_ok sec)"

definition entry_line :: "string \<times> string \<Rightarrow> string" where
  "entry_line = (\<lambda>(k, v). k @ CHR ''='' # v)"

definition section_lines :: "string \<times> cfg_section \<Rightarrow> string list" where
  "section_lines = (\<lambda>(name, sec). (CHR ''['' # name @ [CHR '']'']) # map entry_line sec @ [[]])"

lemma while_sep: "c \<notin> set l \<Longrightarrow> takeWhile (\<lambda>x. x \<noteq> c) (l @ c # r) = l" "c \<notin> set l \<Longrightarrow> dropWhile (\<lambda>x. x \<noteq> c) (l @ c # r) = c # r"
  by (induction l) auto

lemma getlines_join:
  "\<forall>l \<in> set ls. newline \<notin> set l \<Longrightarrow> getlines (concat (map (\<lambda>l. l @ [newline]) ls)) = ls"
proof (induction ls)
  case (Cons l ls)
  let ?rest = "concat (map (\<lambda>l. l @ [newline]) ls)"
  have "takeWhile (\<lambda>c. c \<noteq> newline) (l @ newline # ?rest) = l" "dropWhile (\<lambda>c. c \<noteq> newline) (l @ newline # ?rest) = newline # ?rest"
    using Cons.prems by (simp_all add: while_sep)
  then show ?case using Cons by (subst getlines.simps) simp
qed (simp add: getlines.simps)

lemma generate_lines:
  assumes "cf_format c = default_format"
  shows "generate c = concat (map (\<lambda>l. l @ [newline]) (concat (map section_lines (cf_sections c))))"
proof -
  have e: "concat (map (\<lambda>(k, v). k @ CHR ''='' # v @ [newline]) sec) = concat (map ((\<lambda>l. l @ [newline]) \<circ> entry_line) sec)" for sec
    by (induction sec) (auto simp: entry_line_def)
  have "concat (map (\<lambda>(name, sec). [CHR ''[''] @ name @ [CHR '']'', newline]
      @ concat (map (\<lambda>(k, v). k @ [CHR ''=''] @ v @ [newline]) sec) @ [newline]) secs)
    = concat (map (\<lambda>l. l @ [newline]) (concat (map section_lines secs)))" for secs
    by (induction secs) (auto simp: section_lines_def e)
  then show ?thesis using assms by (simp add: generate_def default_format_def)
qed

lemma trim_trimmed: "trimmed s \<Longrightarrow> rtrim (ltrim s) = s" "trimmed s \<Longrightarrow> rtrim s = s" "trimmed s \<Longrightarrow> ltrim s = s"
proof -
  assume t: "trimmed s"
  show l: "ltrim s = s" using t by (cases s) (auto simp: trimmed_def ltrim_def)
  show r: "rtrim s = s" using t by (cases s rule: rev_cases) (auto simp: trimmed_def rtrim_def)
  show "rtrim (ltrim s) = s" using l r by simp
qed

lemma special_not_space: "\<not> is_space CHR ''[''" "\<not> is_space CHR '']''" "\<not> is_space CHR ''=''"
  by (simp_all add: is_space_def)

lemma parse_blank: "parse_line [] (cur, c) = (cur, c)"
  by (simp add: parse_line_def ltrim_def rtrim_def Let_def)

lemma parse_header:
  assumes "cf_format c = default_format"
  shows "parse_line (CHR ''['' # name @ [CHR '']'']) (cur, c) = (name, c)"
proof -
  have "trimmed (CHR ''['' # name @ [CHR '']''])" by (simp add: trimmed_def special_not_space)
  then show ?thesis using assms by (simp add: parse_line_def trim_trimmed(1) default_format_def Let_def)
qed

definition add_entry :: "string \<Rightarrow> string \<times> string \<Rightarrow> cfg_sections \<Rightarrow> cfg_sections" where
  "add_entry name = (\<lambda>(k, v) secs. map_put name (map_insert k v (section_at name secs)) (map_insert name [] secs))"

lemma parse_entry:
  assumes "cf_format c = default_format" "key_ok k" "value_ok v" "\<not> has_key k (section_at name (cf_sections c))"
  shows "parse_line (entry_line (k, v)) (name, c) = (name, c\<lparr>cf_sections := add_entry name (k, v) (cf_sections c)\<rparr>)"
proof -
  have k: "k \<noteq> []" "trimmed k" "CHR ''='' \<notin> set k" "hd k \<noteq> CHR ''[''" "hd k \<noteq> CHR '';''" and v: "trimmed v"
    using assms(2,3) by (auto simp: key_ok_def value_ok_def)
  have "trimmed (k @ CHR ''='' # v)" using k(1,2) v by (auto simp: trimmed_def special_not_space)
  moreover have "takeWhile (\<lambda>ch. ch \<noteq> CHR ''='') (k @ CHR ''='' # v) = k" using k(3) by (simp add: while_sep)
  moreover have "hd (k @ CHR ''='' # v) = hd k" using k(1) by simp
  ultimately show ?thesis using assms(1,4) k v
    by (simp add: parse_line_def entry_line_def trim_trimmed default_format_def add_entry_def Let_def)
qed

lemma map_put_last: "\<forall>j \<in> set (keys m). j < k \<Longrightarrow> map_put k v m = m @ [(k, v)]"
  "\<forall>j \<in> set (keys m). j < k \<Longrightarrow> map_put k v (m @ [(k, w)]) = m @ [(k, v)]"
  by (induction m) (auto simp: keys_def)

lemma key_fresh: "\<forall>j \<in> set (keys m). j < (k :: string) \<Longrightarrow> \<not> has_key k m"
  by (auto simp: has_key_iff keys_def)

lemma map_of_last:
  assumes "\<forall>j \<in> set (keys m). j < (k :: string)"
  shows "map_of (m @ [(k, v)]) k = Some v" "map_of m k = None"
  using key_fresh [OF assms] by (auto simp: has_key_def map_add_def split: option.split)

lemma add_entry_first:
  assumes "\<forall>j \<in> set (keys secs). j < name"
  shows "add_entry name (k, v) secs = secs @ [(name, [(k, v)])]"
  using assms key_fresh [OF assms]
  by (simp add: add_entry_def section_at_def map_of_last map_insert_def map_put_last has_key_def)

lemma add_entry_next:
  assumes "\<forall>j \<in> set (keys secs). j < name" "\<forall>j \<in> set (keys e). j < k"
  shows "add_entry name (k, v) (secs @ [(name, e)]) = secs @ [(name, e @ [(k, v)])]"
  using assms map_of_last(1) [OF assms(1), of e] map_of_last(2) [OF assms(1)] key_fresh [OF assms(2)]
  by (simp add: add_entry_def section_at_def map_insert_def map_put_last has_key_def)

lemma parse_entries:
  assumes "cf_format c = default_format" "\<forall>j \<in> set (keys secs). j < name"
    and "sorted_wrt (<) (keys (e @ es))" "\<forall>(k, v) \<in> set es. key_ok k \<and> value_ok v"
  shows "fold parse_line (map entry_line es) (name, c\<lparr>cf_sections := secs @ [(name, e)]\<rparr>)
    = (name, c\<lparr>cf_sections := secs @ [(name, e @ es)]\<rparr>)"
  using assms(3,4)
proof (induction es arbitrary: e)
  case (Cons p es)
  obtain k v where p: "p = (k, v)" by fastforce
  have e: "\<forall>j \<in> set (keys e). j < k" using Cons.prems(1) by (auto simp: p keys_def sorted_wrt_append)
  have "parse_line (entry_line (k, v)) (name, c\<lparr>cf_sections := secs @ [(name, e)]\<rparr>)
      = (name, c\<lparr>cf_sections := secs @ [(name, e @ [(k, v)])]\<rparr>)"
    using Cons.prems(2) assms(1) map_of_last(1) [OF assms(2), of e] key_fresh [OF e] add_entry_next [OF assms(2) e]
    by (subst parse_entry) (auto simp: p section_at_def)
  moreover have "sorted_wrt (<) (keys ((e @ [(k, v)]) @ es))" using Cons.prems(1) by (simp add: p)
  ultimately show ?case using Cons.IH [of "e @ [(k, v)]"] Cons.prems(2) by (simp add: p)
qed simp

lemma parse_section:
  assumes "cf_format c = default_format" "\<forall>j \<in> set (keys (cf_sections c)). j < name" "section_ok sec"
  shows "fold parse_line (section_lines (name, sec)) (cur, c) = (name, c\<lparr>cf_sections := cf_sections c @ [(name, sec)]\<rparr>)"
proof -
  obtain k v es where sec: "sec = (k, v) # es" using assms(3) by (cases sec) (auto simp: section_ok_def)
  have "parse_line (entry_line (k, v)) (name, c) = (name, c\<lparr>cf_sections := cf_sections c @ [(name, [(k, v)])]\<rparr>)"
    using assms sec add_entry_first [OF assms(2), of k v] map_of_last(2) [OF assms(2)]
    by (subst parse_entry) (auto simp: section_ok_def section_at_def has_key_def)
  then show ?thesis
    using parse_entries [OF assms(1,2), of "[(k, v)]" es] assms(1,3)
    by (simp add: section_lines_def sec parse_header parse_blank section_ok_def)
qed

lemma parse_sections:
  assumes "cf_format c = default_format" "sorted_wrt (<) (keys (cf_sections c @ secs))" "\<forall>(name, sec) \<in> set secs. section_ok sec"
  shows "snd (fold parse_line (concat (map section_lines secs)) (cur, c)) = c\<lparr>cf_sections := cf_sections c @ secs\<rparr>"
  using assms
proof (induction secs arbitrary: c cur)
  case (Cons p secs)
  obtain name sec where p: "p = (name, sec)" by fastforce
  have "\<forall>j \<in> set (keys (cf_sections c)). j < name" using Cons.prems(2) by (auto simp: p keys_def sorted_wrt_append)
  from parse_section [OF Cons.prems(1) this, of sec cur] Cons.prems(3)
  have "fold parse_line (section_lines p) (cur, c) = (name, c\<lparr>cf_sections := cf_sections c @ [(name, sec)]\<rparr>)"
    by (simp add: p)
  then show ?case using Cons.IH [of "c\<lparr>cf_sections := cf_sections c @ [(name, sec)]\<rparr>" name] Cons.prems by (simp add: p)
qed simp

lemma lines_without_newline:
  assumes "config_ok c"
  shows "\<forall>l \<in> set (concat (map section_lines (cf_sections c))). newline \<notin> set l"
  using assms
  by (fastforce simp: config_ok_def section_ok_def key_ok_def value_ok_def section_lines_def entry_line_def newline_def)

text \<open>Values without comments and symbols are left alone.\<close>

definition plain :: "config \<Rightarrow> bool" where
  "plain c \<longleftrightarrow> (\<forall>(name, sec) \<in> set (cf_sections c). \<forall>(k, v) \<in> set sec. CHR '';'' \<notin> set v \<and> CHR ''$'' \<notin> set v)"

lemma replace_loop_absent: "from \<noteq> [] \<Longrightarrow> hd from \<notin> set s \<Longrightarrow> replace_loop from to s = (False, s)" for "from" :: string
  by (induction "from" to s rule: replace_loop.induct) (auto simp: neq_Nil_conv)

lemma replace_values_absent:
  "syn \<noteq> [] \<Longrightarrow> \<forall>(k, v) \<in> set sec. hd syn \<notin> set v \<Longrightarrow> replace_values syn to sec = Inr (False, sec)"
  by (induction sec) (auto simp: replace_str_def replace_loop_absent)

lemma replace_symbols_absent:
  "\<forall>(syn, to) \<in> set syms. syn \<noteq> [] \<and> hd syn = ch \<Longrightarrow> \<forall>(k, v) \<in> set sec. ch \<notin> set v \<Longrightarrow> replace_symbols syms sec = Inr (False, sec)"
  by (induction syms) (auto simp: replace_values_absent)

lemma replace_sections_absent:
  assumes "\<And>p syn to. p \<in> set secs \<Longrightarrow> (syn, to) \<in> set (syms p) \<Longrightarrow> syn \<noteq> [] \<and> hd syn = ch"
    and "\<forall>(name, sec) \<in> set secs. \<forall>(k, v) \<in> set sec. ch \<notin> set v"
  shows "replace_sections syms secs = Inr (False, secs)"
  using assms
proof (induction secs)
  case (Cons p secs)
  obtain name sec where p: "p = (name, sec)" by fastforce
  have "replace_symbols (syms p) sec = Inr (False, sec)"
    using Cons.prems by (intro replace_symbols_absent [where ch = ch]) (auto simp: p)
  moreover have "replace_sections syms secs = Inr (False, secs)"
    using Cons.prems by (intro Cons.IH) auto
  ultimately show ?case by (simp add: p)
qed simp

lemma interpolate_plain:
  assumes "plain c" "cf_format c = default_format"
  shows "interpolate c = Inr c"
proof -
  have v: "\<forall>(name, sec) \<in> set (cf_sections c). \<forall>(k, v) \<in> set sec. CHR ''$'' \<notin> set v" using assms(1) by (auto simp: plain_def)
  have sym: "local_symbol default_format s \<noteq> [] \<and> hd (local_symbol default_format s) = CHR ''$''" for s
    by (simp add: local_symbol_def default_format_def)
  have "replace_sections (\<lambda>(name, sec). local_symbols default_format name sec) (cf_sections c) = Inr (False, cf_sections c)"
    using v sym by (intro replace_sections_absent [where ch = "CHR ''$''"]) (auto simp: local_symbols_def)
  moreover have "replace_sections (\<lambda>_. global_symbols default_format (cf_sections c)) (cf_sections c) = Inr (False, cf_sections c)"
    using v sym by (intro replace_sections_absent [where ch = "CHR ''$''"]) (auto simp: global_symbols_def global_symbol_def)
  ultimately show ?thesis using assms(2) by (simp add: interpolate_def max_interpolation_depth_def numeral_eq_Suc)
qed

lemma strip_plain:
  assumes "plain c" "config_ok c"
  shows "strip_trailing_comments c = c"
proof -
  have "map (\<lambda>(k, v). (k, rtrim (rtrim2 (\<lambda>ch. ch = CHR '';'') v))) sec = sec" if "(name, sec) \<in> set (cf_sections c)" for name sec
  proof (rule map_idI)
    fix p
    assume "p \<in> set sec"
    moreover obtain k v where p: "p = (k, v)" by fastforce
    ultimately have v: "CHR '';'' \<notin> set v" "trimmed v"
      using that assms by (fastforce simp: plain_def config_ok_def section_ok_def value_ok_def)+
    then have "rtrim2 (\<lambda>ch. ch = CHR '';'') v = v" by (auto simp: rtrim2_def takeWhile_eq_all_conv)
    then show "(case p of (k, v) \<Rightarrow> (k, rtrim (rtrim2 (\<lambda>ch. ch = CHR '';'') v))) = p" unfolding p using trim_trimmed(2) [OF v(2)] by simp
  qed
  then have "map (\<lambda>(name, sec). (name, map (\<lambda>(k, v). (k, rtrim (rtrim2 (\<lambda>ch. ch = CHR '';'') v))) sec)) (cf_sections c) = cf_sections c"
    by (intro map_idI) auto
  moreover have "fm_comment (cf_format c) = CHR '';''" using assms(2) by (simp add: config_ok_def default_format_def)
  ultimately show ?thesis by (simp add: strip_trailing_comments_def)
qed

text \<open>C34: What \<^verbatim>\<open>generate\<close> writes is read back as the same configuration without errors, when the sections are not
  empty, the names and values can be told apart and nothing begins or ends with white space. A configuration
  without comments and symbols in its values also passes the whole constructor unchanged.\<close>

theorem config_round_trip:
  assumes "config_ok c"
  shows "parse (generate c) empty_config = c \<and> (plain c \<longrightarrow> new_config (generate c) = Inr c)"
proof -
  have c: "cf_format c = default_format" "cf_errors c = []" using assms by (auto simp: config_ok_def)
  have "getlines (generate c) = concat (map section_lines (cf_sections c))"
    using getlines_join [OF lines_without_newline [OF assms]] generate_lines [OF c(1)] by simp
  moreover have "snd (fold parse_line (concat (map section_lines (cf_sections c))) ([], empty_config))
      = empty_config\<lparr>cf_sections := cf_sections c\<rparr>"
    using parse_sections [of empty_config "cf_sections c" "[]"] assms by (auto simp: empty_config_def config_ok_def)
  ultimately have p: "parse (generate c) empty_config = c" using c by (simp add: parse_def empty_config_def)
  then show ?thesis using strip_plain [OF _ assms] interpolate_plain [OF _ c(1)] by (simp add: new_config_def)
qed

definition sample_config :: config where
  "sample_config = \<lparr>cf_sections = [(''a'', [(''k'', ''1 2''), (''l'', [])]), (''b'', [(''k'', ''x=y'')])],
     cf_errors = [], cf_format = default_format\<rparr>"

lemma config_round_trip_witness: "new_config (generate sample_config) = Inr sample_config"
proof -
  have "config_ok sample_config"
    by (auto simp: config_ok_def section_ok_def key_ok_def value_ok_def trimmed_def sample_config_def keys_def newline_def
        is_space_def less_char_def)
  moreover have "plain sample_config" by (auto simp: plain_def sample_config_def)
  ultimately show ?thesis using config_round_trip by blast
qed

end
