(* ===== verification/Sky_Streams.thy ===== *)
theory Sky_Streams
  imports Sky_Config Complex_Main
begin

text \<open>
  What the library reads with the stream operators: the values of a configuration that are numbers or truth values
  (\<^verbatim>\<open>helpers/skynet_config.hpp\<close>) and the matrices and vectors of \<^verbatim>\<open>skywing_mid/data_input.hpp\<close>. The operators of the
  standard library are written out as readers, with real numbers for \<^verbatim>\<open>double\<close>; that what is printed is read back is a
  locale, which every reader is shown to be an instance of.
\<close>

section \<open>Readers\<close>

text \<open>What \<^verbatim>\<open>operator>>\<close> makes of the text behind white space: the value and the text that is left, unless it fails.\<close>

type_synonym 'a reader = "string \<Rightarrow> ('a \<times> string) option"

definition split_sign :: "string \<Rightarrow> bool \<times> string" where
  "split_sign s = (s \<noteq> [] \<and> hd s = CHR ''-'', if s \<noteq> [] \<and> hd s \<in> {CHR ''-'', CHR ''+''} then tl s else s)"

definition starts_digit :: "string \<Rightarrow> bool" where
  "starts_digit s \<longleftrightarrow> s \<noteq> [] \<and> digit_val (hd s) \<noteq> None"

text \<open>A whole number with the greatest magnitudes that a negative and a positive one can have.\<close>

definition read_number :: "int \<Rightarrow> int \<Rightarrow> int reader" where
  "read_number most_negative most_positive s =
     (let (negative, digits) = split_sign s; (n, rest) = scan_digits 0 digits
      in if \<not> starts_digit digits then None
         else if n > (if negative then most_negative else most_positive) then None
         else Some (if negative then - n else n, rest))"

definition read_int :: "32 word reader" where
  "read_int s = map_option (apfst word_of_int) (read_number (2 ^ 31) (2 ^ 31 - 1) s)"

text \<open>A negative number of an unsigned type wraps.\<close>

definition read_uint16 :: "16 word reader" where
  "read_uint16 s = map_option (apfst word_of_int) (read_number (2 ^ 16 - 1) (2 ^ 16 - 1) s)"

text \<open>With \<^verbatim>\<open>boolalpha\<close>.\<close>

definition read_bool :: "bool reader" where
  "read_bool s =
     (if take 4 s = ''true'' then Some (True, drop 4 s) else if take 5 s = ''false'' then Some (False, drop 5 s) else None)"

text \<open>A decimal number: digits before or after a point and an exponent, which must have digits when there is an \<open>e\<close>.\<close>

definition read_double :: "real reader" where
  "read_double s =
     (let (negative, s1) = split_sign s;
          (whole, s2) = scan_digits 0 s1;
          s3 = (if s2 \<noteq> [] \<and> hd s2 = CHR ''.'' then tl s2 else s2);
          (mantissa, s4) = (if s2 \<noteq> [] \<and> hd s2 = CHR ''.'' then scan_digits whole s3 else (whole, s2));
          value = (if negative then - 1 else 1) * of_int mantissa / 10 ^ (length s3 - length s4)
      in if \<not> (starts_digit s1 \<or> starts_digit s3) then None
         else if s4 \<noteq> [] \<and> hd s4 \<in> {CHR ''e'', CHR ''E''}
         then (let (minus, s5) = split_sign (tl s4); (ex, s6) = scan_digits 0 s5
               in if starts_digit s5 then Some (value * 10 powi (if minus then - ex else ex), s6) else None)
         else Some (value, s4))"

section \<open>What is printed is read back\<close>

definition ends_word :: "string \<Rightarrow> bool" where
  "ends_word s \<longleftrightarrow> s = [] \<or> is_space (hd s)"

locale stream_reader =
  fixes read :: "'a reader" and print :: "'a \<Rightarrow> string" and exact :: "'a \<Rightarrow> bool"
  assumes printed: "exact v \<Longrightarrow> ends_word rest \<Longrightarrow> read (print v @ rest) = Some (v, rest)"
    and one_word: "exact v \<Longrightarrow> \<forall>c \<in> set (print v). \<not> is_space c"
    and not_empty: "exact v \<Longrightarrow> print v \<noteq> []"
begin

lemma ltrim_printed: "exact v \<Longrightarrow> ltrim (print v @ rest) = print v @ rest"
  using one_word [of v] not_empty [of v] by (cases "print v") (auto simp: ltrim_def)

lemma stream_words_printed:
  assumes "exact v"
  shows "stream_words (print v) = [print v]" "is_space c \<Longrightarrow> stream_words (print v @ c # s) = print v # stream_words s"
proof -
  have s: "dropWhile (\<lambda>c. \<not> is_space c) (print v @ r) = dropWhile (\<lambda>c. \<not> is_space c) r"
    "takeWhile (\<lambda>c. \<not> is_space c) (print v @ r) = print v @ takeWhile (\<lambda>c. \<not> is_space c) r" for r
    using one_word [OF assms] by simp_all
  have w: "stream_words (print v @ r) = (print v @ takeWhile (\<lambda>c. \<not> is_space c) r) # stream_words (dropWhile (\<lambda>c. \<not> is_space c) r)" for r
    using ltrim_printed [OF assms, of r] not_empty [OF assms] by (subst stream_words.simps) (simp add: s Let_def)
  have e: "stream_words [] = []" by (subst stream_words.simps) (simp add: ltrim_def)
  show "stream_words (print v) = [print v]" using w [of "[]"] e by simp
  show "stream_words (print v @ c # s) = print v # stream_words s" if c: "is_space c"
  proof -
    have "stream_words (c # s) = stream_words s"
      using c by (subst (1 2) stream_words.simps) (simp add: ltrim_def Let_def)
    then show ?thesis using w [of "c # s"] c by simp
  qed
qed

end

lemma to_dec_digits: "\<forall>c \<in> set (to_dec n). digit_val c \<noteq> None"
proof (induction n rule: to_dec.induct)
  case (1 n)
  then show ?case by (subst to_dec.simps) (auto simp: char_of_digit)
qed

lemma ends_word_no_digit: "ends_word rest \<Longrightarrow> scan_digits acc rest = (acc, rest)"
  using digit_not_special [of "hd rest"] by (cases rest) (auto simp: ends_word_def split: option.split)

lemma scan_to_dec: "ends_word rest \<Longrightarrow> scan_digits 0 (to_dec n @ rest) = (int n, rest)"
  using scan_digits_to_dec [of n] ends_word_no_digit [of rest] by (metis add_0 mult_zero_left)

text \<open>A whole number with its sign.\<close>

definition print_int :: "int \<Rightarrow> string" where
  "print_int i = (if i < 0 then CHR ''-'' # to_dec (nat (- i)) else to_dec (nat i))"

lemma split_sign_digits: "starts_digit s \<Longrightarrow> split_sign s = (False, s)"
  using digit_not_special [of "hd s"] by (auto simp: split_sign_def starts_digit_def)

lemma starts_digit_to_dec: "starts_digit (to_dec n @ rest)"
  using to_dec_hd_digit [of n] by (simp add: starts_digit_def)

lemma read_number_printed:
  assumes "ends_word rest" "- most_negative \<le> i" "i \<le> most_positive"
  shows "read_number most_negative most_positive (print_int i @ rest) = Some (i, rest)"
proof (cases "i < 0")
  case True
  then have "split_sign (print_int i @ rest) = (True, to_dec (nat (- i)) @ rest)"
    by (simp add: print_int_def split_sign_def)
  then show ?thesis using True assms starts_digit_to_dec by (simp add: read_number_def scan_to_dec)
next
  case False
  then have "split_sign (print_int i @ rest) = (False, to_dec (nat i) @ rest)"
    by (simp add: print_int_def split_sign_digits starts_digit_to_dec)
  then show ?thesis using False assms starts_digit_to_dec by (simp add: read_number_def scan_to_dec)
qed

lemma print_int_word: "\<forall>c \<in> set (print_int i). \<not> is_space c" "print_int i \<noteq> []"
  using to_dec_digits digit_not_special to_dec_hd_digit by (auto simp: print_int_def is_space_def)

interpretation int_reader: stream_reader read_int "\<lambda>w. print_int (sint w)" "\<lambda>w. True"
proof (unfold_locales, goal_cases)
  case (1 v rest)
  have "- (2 ^ 31) \<le> sint v" "sint v \<le> 2 ^ 31 - 1" using sint_ge [of v] sint_lt [of v] by simp_all
  then show ?case using 1 by (simp add: read_int_def read_number_printed)
qed (use print_int_word in blast)+

interpretation uint16_reader: stream_reader read_uint16 "\<lambda>w. print_int (uint w)" "\<lambda>w. True"
proof (unfold_locales, goal_cases)
  case (1 v rest)
  have "uint v \<le> 2 ^ 16 - 1" "- (2 ^ 16 - 1) \<le> uint v" using uint_lt2p [of v] uint_ge_0 [of v] by (simp_all add: order_trans [of _ 0])
  then show ?case using read_number_printed [OF 1(2), of "2 ^ 16 - 1" "uint v" "2 ^ 16 - 1"] by (simp add: read_uint16_def)
qed (use print_int_word in blast)+

definition print_bool :: "bool \<Rightarrow> string" where
  "print_bool b = (if b then ''true'' else ''false'')"

interpretation bool_reader: stream_reader read_bool print_bool "\<lambda>b. True"
  by unfold_locales (auto simp: print_bool_def read_bool_def is_space_def)

text \<open>Real numbers with \<open>k\<close> digits behind the point.\<close>

fun digits_of :: "nat \<Rightarrow> nat \<Rightarrow> string" where
  "digits_of 0 n = []"
| "digits_of (Suc k) n = digits_of k (n div 10) @ [char_of (48 + n mod 10)]"

definition print_fixed :: "nat \<Rightarrow> real \<Rightarrow> string" where
  "print_fixed k x =
     (let n = nat \<lfloor>\<bar>x\<bar> * 10 ^ k\<rfloor>
      in (if x < 0 then ''-'' else []) @ to_dec (n div 10 ^ k) @ CHR ''.'' # digits_of k (n mod 10 ^ k))"

definition fixed_point :: "nat \<Rightarrow> real \<Rightarrow> bool" where
  "fixed_point k x \<longleftrightarrow> x * 10 ^ k \<in> \<int>"

lemma scan_digits_of:
  "scan_digits acc (digits_of k n @ rest) = scan_digits (acc * 10 ^ k + int (n mod 10 ^ k)) rest"
proof (induction k arbitrary: n rest)
  case (Suc k)
  have "n mod 10 ^ Suc k = n div 10 mod 10 ^ k * 10 + n mod 10"
    by (metis mod_mult2_eq mult.commute power_Suc add.commute)
  then have e: "(acc * 10 ^ k + int (n div 10 mod 10 ^ k)) * 10 + int (n mod 10) = acc * 10 ^ Suc k + int (n mod 10 ^ Suc k)"
    by (simp add: algebra_simps)
  show ?case unfolding e [symmetric] by (simp add: Suc.IH char_of_digit)
qed simp

lemma digits_of_digits: "\<forall>c \<in> set (digits_of k n). digit_val c \<noteq> None" "length (digits_of k n) = k"
  by (induction k arbitrary: n) (auto simp: char_of_digit)

lemma scan_point: "scan_digits acc (CHR ''.'' # s) = (acc, CHR ''.'' # s)"
  by (simp add: digit_val_def)

lemma ends_word_no_exponent: "ends_word rest \<Longrightarrow> rest = [] \<or> hd rest \<notin> {CHR ''e'', CHR ''E''}"
  by (auto simp: ends_word_def is_space_def)

lemma read_double_digits:
  assumes "ends_word rest" "negative \<longleftrightarrow> sg = ''-''" "sg \<in> {[], ''-''}"
  shows "read_double (sg @ to_dec (n div 10 ^ k) @ CHR ''.'' # digits_of k (n mod 10 ^ k) @ rest)
    = Some ((if negative then - 1 else 1) * real n / 10 ^ k, rest)"
proof -
  let ?s3 = "digits_of k (n mod 10 ^ k) @ rest" let ?s1 = "to_dec (n div 10 ^ k) @ CHR ''.'' # ?s3"
  have sign: "split_sign (sg @ ?s1) = (negative, ?s1)"
  proof (cases "sg = []")
    case True
    then show ?thesis using assms(2) split_sign_digits [OF starts_digit_to_dec] by simp
  next
    case False
    then show ?thesis using assms(2,3) by (simp add: split_sign_def)
  qed
  have whole: "scan_digits 0 ?s1 = (int (n div 10 ^ k), CHR ''.'' # ?s3)"
    using scan_digits_to_dec [of "n div 10 ^ k"] scan_point by (metis add_0 mult_zero_left)
  have "int (n div 10 ^ k) * 10 ^ k + int (n mod 10 ^ k) = int n"
    using div_mult_mod_eq [of n "10 ^ k"] by (metis of_nat_add of_nat_mult of_nat_numeral of_nat_power)
  then have fraction: "scan_digits (int (n div 10 ^ k)) ?s3 = (int n, rest)"
    using ends_word_no_digit [OF assms(1)] by (simp add: scan_digits_of)
  show ?thesis using ends_word_no_exponent [OF assms(1)] starts_digit_to_dec [of "n div 10 ^ k" "CHR ''.'' # ?s3"]
    by (auto simp: read_double_def sign whole fraction digits_of_digits)
qed

interpretation double_reader: stream_reader read_double "print_fixed k" "fixed_point k" for k
proof (unfold_locales, goal_cases)
  case (1 v rest)
  let ?n = "nat \<lfloor>\<bar>v\<bar> * 10 ^ k\<rfloor>"
  obtain i where i: "v * 10 ^ k = of_int i" using 1(1) by (auto simp: fixed_point_def elim: Ints_cases)
  then have "\<bar>v\<bar> * 10 ^ k = of_int \<bar>i\<bar>" by (metis abs_mult abs_of_pos of_int_abs zero_less_numeral zero_less_power)
  then have n: "real ?n = \<bar>v\<bar> * 10 ^ k" by simp
  have "(if v < 0 then - 1 else 1) * real ?n / 10 ^ k = v" unfolding n by (auto simp: field_simps)
  then show ?case using read_double_digits [OF 1(2), of "v < 0" "if v < 0 then ''-'' else []" ?n k]
    by (auto simp: print_fixed_def Let_def)
next
  case (2 v)
  then show ?case using to_dec_digits digits_of_digits(1) digit_not_special
    by (auto simp: print_fixed_def Let_def is_space_def [of "CHR ''-''"] is_space_def [of "CHR ''.''"])
next
  case (3 v)
  then show ?case by (simp add: print_fixed_def Let_def)
qed

section \<open>Values of a configuration\<close>

text \<open>\<^verbatim>\<open>extract\<close>: nothing may be left but white space.\<close>

definition extract_value :: "'a reader \<Rightarrow> string \<Rightarrow> 'a option" where
  "extract_value read value =
     (case read (ltrim value) of
        None \<Rightarrow> None
      | Some (result, rest) \<Rightarrow> if ltrim rest = [] then Some result else None)"

text \<open>\<^verbatim>\<open>extract_vector\<close> reads as long as it can; \<open>None\<close> when that is for ever.\<close>

partial_function (option) extract_loop :: "'a reader \<Rightarrow> string \<Rightarrow> 'a list \<Rightarrow> 'a list option" where
  "extract_loop read s dst =
     (case read (ltrim s) of
        None \<Rightarrow> Some dst
      | Some (result, rest) \<Rightarrow> extract_loop read rest (dst @ [result]))"

definition extract_vector :: "'a reader \<Rightarrow> string \<Rightarrow> 'a list \<Rightarrow> (bool \<times> 'a list) option" where
  "extract_vector read value dst = map_option (\<lambda>dst'. (dst' \<noteq> [], dst')) (extract_loop read value dst)"

definition get_read_value :: "'a reader \<Rightarrow> string \<Rightarrow> string \<Rightarrow> config \<Rightarrow> 'a res" where
  "get_read_value read sec_name key c = rbind (config_find sec_name key c) (\<lambda>v.
     case extract_value read v of Some r \<Rightarrow> Inr r | None \<Rightarrow> Inl Exception_Thrown)"

definition get_read_vector :: "'a reader \<Rightarrow> string \<Rightarrow> string \<Rightarrow> config \<Rightarrow> 'a list res" where
  "get_read_vector read sec_name key c = rbind (config_find sec_name key c) (\<lambda>v.
     rfold (\<lambda>val_str ret_vec. case extract_value read val_str of Some r \<Rightarrow> Inr (ret_vec @ [r]) | None \<Rightarrow> Inl Exception_Thrown)
       (stream_words v) [])"

fun spaced :: "string list \<Rightarrow> string" where
  "spaced [] = []"
| "spaced [w] = w"
| "spaced (w # ws) = w @ CHR '' '' # spaced ws"

context stream_reader
begin

lemma extract_printed: "exact v \<Longrightarrow> extract_value read (print v) = Some v"
  using printed [of v "[]"] ltrim_printed [of v "[]"] by (simp add: extract_value_def ends_word_def ltrim_def)

lemma words_printed: "\<forall>v \<in> set vs. exact v \<Longrightarrow> stream_words (spaced (map print vs)) = map print vs"
proof (induction vs)
  case Nil
  then show ?case by (subst stream_words.simps) (simp add: ltrim_def)
next
  case (Cons v vs)
  then show ?case using stream_words_printed [of v] by (cases vs) (simp_all add: is_space_def)
qed

lemma get_read_value_printed:
  "config_find sec_name key c = Inr (print v) \<Longrightarrow> exact v \<Longrightarrow> get_read_value read sec_name key c = Inr v"
  by (simp add: get_read_value_def extract_printed)

lemma get_read_vector_printed:
  assumes "config_find sec_name key c = Inr (spaced (map print vs))" "\<forall>v \<in> set vs. exact v"
  shows "get_read_vector read sec_name key c = Inr vs"
proof -
  have "rfold (\<lambda>val_str ret_vec. case extract_value read val_str of Some r \<Rightarrow> Inr (ret_vec @ [r]) | None \<Rightarrow> Inl Exception_Thrown)
      (map print vs) acc = Inr (acc @ vs)" for acc
    using assms(2) by (induction vs arbitrary: acc) (simp_all add: extract_printed)
  then show ?thesis using assms by (simp add: get_read_vector_def words_printed)
qed

end

end
