(* ===== verification/Sky_Data_Input.thy ===== *)
theory Sky_Data_Input
  imports Sky_Streams
begin

text \<open>
  \<^verbatim>\<open>skywing_mid/data_input.hpp\<close>: matrices and vectors from files in the format of matrix market. The files are an
  argument of the model, and so is the conversion of \<^verbatim>\<open>double\<close> to the type of the entries.
\<close>

section \<open>Reading from a stream\<close>

text \<open>The state of a stream: whether no operation has failed, and the text that is left. A failed operator leaves the
  variable alone when the stream had failed or was at its end, and stores \<open>on_fail\<close> when there was no value.\<close>

type_synonym stream = "bool \<times> string"

definition stream_in :: "'a reader \<Rightarrow> (string \<Rightarrow> 'a) \<Rightarrow> 'a \<Rightarrow> stream \<Rightarrow> 'a \<times> stream" where
  "stream_in read on_fail x = (\<lambda>(good, s).
     if \<not> good then (x, (False, s))
     else let t = ltrim s in
       if t = [] then (x, (False, []))
       else (case read t of Some (v, rest) \<Rightarrow> (v, (True, rest)) | None \<Rightarrow> (on_fail t, (False, t))))"

definition int_on_fail :: "string \<Rightarrow> 32 word" where
  "int_on_fail s =
     (let (negative, digits) = split_sign s
      in if starts_digit digits then (if negative then word_of_int (- (2 ^ 31)) else word_of_int (2 ^ 31 - 1)) else 0)"

definition ignore :: "nat \<Rightarrow> string \<Rightarrow> string" where
  "ignore n s =
     (let line = takeWhile (\<lambda>c. c \<noteq> newline) (take n s)
      in drop (if length line < length (take n s) then Suc (length line) else length line) s)"

function skip_comments :: "string \<Rightarrow> string" where
  "skip_comments s = (if s \<noteq> [] \<and> hd s = CHR ''%'' then skip_comments (ignore 2048 s) else s)"
  by pat_completeness auto
termination
proof (relation "measure length")
  fix s :: string
  assume s: "s \<noteq> [] \<and> hd s = CHR ''%''"
  then have "takeWhile (\<lambda>c. c \<noteq> newline) (take 2048 s) \<noteq> []" by (cases s) (simp_all add: newline_def)
  then show "(ignore 2048 s, s) \<in> measure length" using s by (auto simp: ignore_def Let_def)
qed simp

declare skip_comments.simps [simp del]

definition read_sizes :: "string \<Rightarrow> int \<times> int \<times> stream" where
  "read_sizes txt =
     (let (rows, st1) = stream_in read_int int_on_fail 0 (True, skip_comments txt);
          (cols, st2) = stream_in read_int int_on_fail 0 st1
      in (sint rows, sint cols, st2))"

definition read_entry :: "real \<Rightarrow> stream \<Rightarrow> real \<times> stream" where
  "read_entry hold st = stream_in read_double (\<lambda>_. 0) hold st"

section \<open>Matrices and vectors\<close>

text \<open>A column, from the top; \<open>hold\<close> keeps its value from one entry to the next.\<close>

definition read_column :: "(real \<Rightarrow> 'a) \<Rightarrow> nat \<Rightarrow> nat \<Rightarrow> 'a list list \<times> stream \<Rightarrow> 'a list list \<times> stream" where
  "read_column of_double rows i = (\<lambda>(mat, st).
     let (mat', hold, st') = fold (\<lambda>j (mat, hold, st).
           let (hold', st') = read_entry hold st in (mat[j := (mat ! j)[i := of_double hold']], hold', st')) [0..<rows] (mat, 0, st)
     in (mat', st'))"

text \<open>\<^verbatim>\<open>resize\<close> throws for a negative size.\<close>

definition input_matrix_from_matrix_market :: "(real \<Rightarrow> 'a) \<Rightarrow> (string \<Rightarrow> string option) \<Rightarrow> string \<Rightarrow> string \<Rightarrow> 'a list list res" where
  "input_matrix_from_matrix_market of_double files directory matrix_name =
     (case files (directory @ ''/'' @ matrix_name) of
        None \<Rightarrow> Inl Assert_Failed
      | Some txt \<Rightarrow>
          (let (rows, cols, st) = read_sizes txt
           in if rows < 0 \<or> (cols < 0 \<and> 0 < rows) then Inl Exception_Thrown
              else Inr (fst (fold (read_column of_double (nat rows)) [0..<nat cols]
                (replicate (nat rows) (replicate (nat cols) (of_double 0)), st)))))"

definition input_vector_from_matrix_market :: "(real \<Rightarrow> 'a) \<Rightarrow> (string \<Rightarrow> string option) \<Rightarrow> string \<Rightarrow> string \<Rightarrow> 'a list res" where
  "input_vector_from_matrix_market of_double files directory vector_name =
     (case files (directory @ ''/'' @ vector_name) of
        None \<Rightarrow> Inl Assert_Failed
      | Some txt \<Rightarrow>
          (let (rows, cols, st) = read_sizes txt
           in Inr (if rows = 1 \<or> cols = 1
             then fst (fold (\<lambda>i (vec, st). let (hold, st') = read_entry 0 st in (vec @ [of_double hold], st'))
               [0..<nat (max rows cols)] ([], st))
             else [])))"

section \<open>What is in a file\<close>

text \<open>A file: lines of comments, the sizes, and one entry on each further line.\<close>

definition comment_line :: "string \<Rightarrow> bool" where
  "comment_line l \<longleftrightarrow> newline \<notin> set l \<and> length l < 2047"

definition entry_lines :: "nat \<Rightarrow> real list \<Rightarrow> string" where
  "entry_lines k es = concat (map (\<lambda>e. newline # print_fixed k e) es)"

definition market_text :: "string list \<Rightarrow> nat \<Rightarrow> nat \<Rightarrow> nat \<Rightarrow> real list \<Rightarrow> string" where
  "market_text comments k rows cols es =
     concat (map (\<lambda>l. CHR ''%'' # l @ [newline]) comments)
       @ print_int (int rows) @ CHR '' '' # print_int (int cols) @ entry_lines k es"

lemma newline_space: "is_space newline"
  by (simp add: is_space_def newline_def)

lemma ltrim_skip: "is_space c \<Longrightarrow> ltrim (c # s) = ltrim s"
  by (simp add: ltrim_def)

lemma skip_comment:
  assumes "comment_line l"
  shows "skip_comments (CHR ''%'' # l @ newline # s) = skip_comments s"
proof -
  have t: "take 2048 (CHR ''%'' # l @ newline # s) = CHR ''%'' # l @ newline # take (2046 - length l) s"
    using assms by (simp add: comment_line_def take_Cons')
  have "takeWhile (\<lambda>c. c \<noteq> newline) (l @ newline # u) = l" for u
    by (subst takeWhile_append2) (use assms in \<open>auto simp: comment_line_def\<close>)
  moreover have "CHR ''%'' \<noteq> newline" by (simp add: newline_def)
  ultimately have w: "takeWhile (\<lambda>c. c \<noteq> newline) (CHR ''%'' # l @ newline # u) = CHR ''%'' # l" for u by simp
  then have "ignore 2048 (CHR ''%'' # l @ newline # s) = s" unfolding ignore_def t w Let_def by simp
  then show ?thesis by (subst skip_comments.simps) simp
qed

lemma skip_all_comments:
  "\<forall>l \<in> set comments. comment_line l \<Longrightarrow> s = [] \<or> hd s \<noteq> CHR ''%'' \<Longrightarrow>
    skip_comments (concat (map (\<lambda>l. CHR ''%'' # l @ [newline]) comments) @ s) = s"
  by (induction comments) (auto simp: skip_comment skip_comments.simps [of s])

context stream_reader
begin

lemma stream_in_printed:
  assumes "exact v" "ends_word rest"
  shows "stream_in read f x (True, print v @ rest) = (v, (True, rest))"
    "is_space c \<Longrightarrow> stream_in read f x (True, c # print v @ rest) = (v, (True, rest))"
  using assms printed ltrim_printed not_empty by (simp_all add: stream_in_def ltrim_skip)

end

lemma entry_lines_simps [simp]:
  "entry_lines k [] = []" "entry_lines k (e # es) = newline # print_fixed k e @ entry_lines k es"
  by (simp_all add: entry_lines_def)

lemma entry_lines_end: "ends_word (entry_lines k es)"
  by (cases es) (simp_all add: ends_word_def newline_space)

lemma read_sizes_text:
  assumes "\<forall>l \<in> set comments. comment_line l" "rows < 2 ^ 31" "cols < 2 ^ 31"
  shows "read_sizes (market_text comments k rows cols es) = (int rows, int cols, (True, entry_lines k es))"
proof -
  let ?w = "\<lambda>n. word_of_int (int n) :: 32 word"
  have w: "sint (?w n) = int n" if "n < 2 ^ 31" for n :: nat
  proof -
    have "int n < 2 ^ 31" using that by (metis of_nat_less_iff of_nat_numeral of_nat_power)
    then show ?thesis by (simp add: signed_of_nat signed_take_bit_int_eq_self)
  qed
  have hd: "hd (print_int (int rows) @ r) \<noteq> CHR ''%''" for r
    using to_dec_hd_digit [of rows] by (auto simp: print_int_def digit_val_def)
  have "skip_comments (market_text comments k rows cols es) = print_int (int rows) @ CHR '' '' # print_int (int cols) @ entry_lines k es"
    unfolding market_text_def by (rule skip_all_comments [OF assms(1)]) (rule disjI2 [OF hd])
  then show ?thesis
    using int_reader.stream_in_printed(1) [where v = "?w rows" and rest = "CHR '' '' # print_int (int cols) @ entry_lines k es"]
      int_reader.stream_in_printed(2) [where v = "?w cols" and rest = "entry_lines k es" and c = "CHR '' ''"] w assms(2,3) entry_lines_end
    by (simp add: read_sizes_def ends_word_def is_space_def)
qed

lemma read_entry_line:
  "fixed_point k e \<Longrightarrow> read_entry hold (True, newline # print_fixed k e @ entry_lines k es) = (e, (True, entry_lines k es))"
  unfolding read_entry_def by (rule double_reader.stream_in_printed(2)) (simp_all add: entry_lines_end newline_space)

definition set_column :: "(real \<Rightarrow> 'a) \<Rightarrow> nat \<Rightarrow> real list \<Rightarrow> 'a list list \<Rightarrow> 'a list list" where
  "set_column of_double i col mat =
     map (\<lambda>j. if j < length col then (mat ! j)[i := of_double (col ! j)] else mat ! j) [0..<length mat]"

text \<open>The first entries of a column, as far as they are in the file.\<close>

lemma column_prefix:
  assumes "length col \<le> length mat" "\<forall>e \<in> set col. fixed_point k e"
  shows "fold (\<lambda>j (mat, hold, st). let (hold', st') = read_entry hold st in (mat[j := (mat ! j)[i := of_double hold']], hold', st'))
      [0..<length col] (mat, 0, (True, entry_lines k (col @ es)))
    = (set_column of_double i col mat, if col = [] then 0 else last col, (True, entry_lines k es))"
  using assms
proof (induction col arbitrary: es rule: rev_induct)
  case Nil
  then show ?case by (simp add: set_column_def map_nth)
next
  case (snoc e col)
  have "(set_column of_double i col mat)[length col := (set_column of_double i col mat ! length col)[i := of_double e]]
      = set_column of_double i (col @ [e]) mat"
    using snoc(2) by (intro nth_equalityI) (auto simp: set_column_def nth_list_update nth_append less_Suc_eq)
  then show ?case using snoc(1) [of "e # es"] snoc(2,3) read_entry_line [of k e _ es] by (simp add: set_column_def)
qed

lemma read_column_text:
  assumes "length col = length mat" "\<forall>e \<in> set col. fixed_point k e"
  shows "read_column of_double (length mat) i (mat, (True, entry_lines k (col @ es))) = (set_column of_double i col mat, (True, entry_lines k es))"
  using column_prefix [of col mat k i of_double es] assms by (simp add: read_column_def)

text \<open>The last value goes on to the end of a column for which the file has not enough.\<close>

lemma column_cut_off:
  assumes "0 < length col" "length col \<le> length mat" "\<forall>e \<in> set col. fixed_point k e"
  shows "fst (read_column of_double (length mat) i (mat, (True, entry_lines k col)))
    = set_column of_double i (col @ replicate (length mat - length col) (last col)) mat"
proof -
  have ext: "(col @ replicate m (last col)) ! j = (if j < length col then col ! j else last col)" if "j < length col + m" for j m
    using that by (auto simp: nth_append)
  let ?step = "\<lambda>j (mat, hold, st). let (hold', st') = read_entry hold st in (mat[j := (mat ! j)[i := of_double hold']], hold', st')"
  have "\<exists>g. fold ?step [0..<length col + n] (mat, 0, (True, entry_lines k col))
      = (set_column of_double i (col @ replicate n (last col)) mat, last col, (g, []))" if "length col + n \<le> length mat" for n
    using that
  proof (induction n)
    case 0
    then show ?case using column_prefix [OF assms(2,3), of i of_double "[]"] assms(1) by (intro exI [of _ True]) simp
  next
    case (Suc n)
    then obtain g where g: "fold ?step [0..<length col + n] (mat, 0, (True, entry_lines k col))
      = (set_column of_double i (col @ replicate n (last col)) mat, last col, (g, []))" by auto
    have "(set_column of_double i (col @ replicate n (last col)) mat)
        [length col + n := (set_column of_double i (col @ replicate n (last col)) mat ! (length col + n))[i := of_double (last col)]]
      = set_column of_double i (col @ replicate (Suc n) (last col)) mat"
      using Suc.prems by (intro nth_equalityI) (auto simp: set_column_def nth_list_update ext less_Suc_eq simp del: replicate_Suc)
    then show ?case using g by (auto simp: read_entry_def stream_in_def ltrim_def)
  qed
  from this [of "length mat - length col"] show ?thesis using assms(2) by (auto simp: read_column_def)
qed

section \<open>Files are read\<close>

text \<open>The matrix whose first columns have been read.\<close>

definition partial_matrix :: "(real \<Rightarrow> 'a) \<Rightarrow> nat \<Rightarrow> real list list \<Rightarrow> nat \<Rightarrow> 'a list list" where
  "partial_matrix of_double rows columns n =
     map (\<lambda>j. map (\<lambda>c. if c < n then of_double (columns ! c ! j) else of_double 0) [0..<length columns]) [0..<rows]"

lemma columns_read:
  assumes "\<forall>col \<in> set columns. length col = rows \<and> (\<forall>e \<in> set col. fixed_point k e)" "n \<le> length columns"
  shows "fold (read_column of_double rows) [0..<n] (partial_matrix of_double rows columns 0, (True, entry_lines k (concat columns)))
    = (partial_matrix of_double rows columns n, (True, entry_lines k (concat (drop n columns))))"
  using assms(2)
proof (induction n)
  case (Suc n)
  let ?m = "partial_matrix of_double rows columns n"
  have c: "columns ! n \<in> set columns" "drop n columns = columns ! n # drop (Suc n) columns" using Suc.prems by (simp_all add: Cons_nth_drop_Suc)
  have l: "length (columns ! n) = rows" "length ?m = rows" using c(1) assms(1) by (simp_all add: partial_matrix_def)
  have "set_column of_double n (columns ! n) ?m = partial_matrix of_double rows columns (Suc n)"
    using l Suc.prems by (intro nth_equalityI) (auto simp: set_column_def partial_matrix_def nth_list_update less_Suc_eq intro!: nth_equalityI)
  then have "read_column of_double rows n (?m, (True, entry_lines k (columns ! n @ concat (drop (Suc n) columns))))
      = (partial_matrix of_double rows columns (Suc n), (True, entry_lines k (concat (drop (Suc n) columns))))"
    using read_column_text [of "columns ! n" ?m k of_double n "concat (drop (Suc n) columns)"] l c(1) assms(1) by simp
  then show ?case using Suc by (simp add: c(2))
qed simp

lemma entries_read:
  assumes "\<forall>e \<in> set es. fixed_point k e"
  shows "fold (\<lambda>i (vec, st). let (hold, st') = read_entry 0 st in (vec @ [of_double hold], st'))
      [0..<length es] (acc, (True, entry_lines k (es @ es'))) = (acc @ map of_double es, (True, entry_lines k es'))"
  using assms
proof (induction es arbitrary: es' rule: rev_induct)
  case (snoc e es)
  then show ?case using snoc(1) [of "e # es'"] by (simp add: read_entry_line)
qed simp

text \<open>A matrix that is written column by column, after any lines of comments that are not too long, is read as its rows, and a
  vector as its entries, for all numbers with a fixed number of digits behind the point; a file that cannot be
  opened ends the process.\<close>

theorem market_files_read:
  assumes "\<forall>l \<in> set comments. comment_line l" "rows < 2 ^ 31" "length columns < 2 ^ 31"
    "\<forall>col \<in> set columns. length col = rows \<and> (\<forall>e \<in> set col. fixed_point k e)"
    "files (directory @ ''/'' @ name) = Some (market_text comments k rows (length columns) (concat columns))"
  shows "input_matrix_from_matrix_market of_double files directory name
      = Inr (map (\<lambda>j. map (\<lambda>col. of_double (col ! j)) columns) [0..<rows])
    \<and> (length columns = 1 \<longrightarrow> 0 < rows \<longrightarrow> input_vector_from_matrix_market of_double files directory name = Inr (map of_double (hd columns)))
    \<and> (files (directory @ ''/'' @ other) = None \<longrightarrow> input_matrix_from_matrix_market of_double files directory other = Inl Assert_Failed)"
proof -
  have s: "read_sizes (market_text comments k rows (length columns) es) = (int rows, int (length columns), (True, entry_lines k es))" for es
    using read_sizes_text [OF assms(1-3)] .
  have f: "files (directory @ CHR ''/'' # name) = Some (market_text comments k rows (length columns) (concat columns))"
    using assms(5) by simp
  have z: "replicate rows (replicate (length columns) (of_double 0)) = partial_matrix of_double rows columns 0"
    by (simp add: partial_matrix_def map_replicate_const)
  have "partial_matrix of_double rows columns (length columns) = map (\<lambda>j. map (\<lambda>col. of_double (col ! j)) columns) [0..<rows]"
    by (auto simp: partial_matrix_def intro!: nth_equalityI)
  then have m: "input_matrix_from_matrix_market of_double files directory name = Inr (map (\<lambda>j. map (\<lambda>col. of_double (col ! j)) columns) [0..<rows])"
    using columns_read [OF assms(4) order_refl, of of_double] by (simp add: input_matrix_from_matrix_market_def f s z)
  have "input_vector_from_matrix_market of_double files directory name = Inr (map of_double (hd columns))" if one: "length columns = 1" "0 < rows"
  proof -
    obtain col where "columns = [col]" using one(1) by (cases columns) auto
    moreover from this have "length col = rows" "\<forall>e \<in> set col. fixed_point k e" using assms(4) by auto
    moreover have "max (int rows) 1 = int rows" using one(2) by simp
    ultimately show ?thesis using one s entries_read [of col k of_double "[]" "[]"]
      by (simp add: input_vector_from_matrix_market_def f)
  qed
  with m show ?thesis by (simp add: input_matrix_from_matrix_market_def)
qed

lemma market_files_read_witness:
  "input_vector_from_matrix_market id [''d/v'' \<mapsto> market_text [''% vector''] 1 2 1 [1 / 2, - 3]] ''d'' ''v'' = Inr [1 / 2, - 3]"
proof -
  have f: "fixed_point 1 (1 / 2)" "fixed_point 1 (- 3)" by (simp_all add: fixed_point_def)
  show ?thesis
    using market_files_read [where comments = "[''% vector'']" and rows = 2 and columns = "[[1 / 2, - 3]]" and k = 1 and of_double = id and directory = "''d''"
      and name = "''v''" and files = "[''d/v'' \<mapsto> market_text [''% vector''] 1 2 1 [1 / 2, - 3]]"] f
    by (simp add: comment_line_def newline_def)
qed

end
