(* ===== verification/Sky_Jacobi_Example.thy ===== *)
theory Sky_Jacobi_Example
  imports Sky_Jacobi_System Sky_Data_Input
begin

text \<open>
  \<^verbatim>\<open>examples/async_jacobi\<close> and \<^verbatim>\<open>examples/sync_jacobi\<close>: what \<^verbatim>\<open>main\<close> makes of its arguments and of the files of
  the partition, the machine that it sets up with them, and the errors that are reported in the end. The
  files are an argument of the model; the threads and the terminal are left out.
\<close>

section \<open>Arguments\<close>

text \<open>\<^verbatim>\<open>std::stoi\<close> throws when there is no number and when it is none of 32 bits.\<close>

definition stoi :: "string \<Rightarrow> int option" where
  "stoi s = (let (v, rest) = strtol s in if rest = s \<or> v < - (2 ^ 31) \<or> v > 2 ^ 31 - 1 then None else Some v)"

definition stoi_throws :: "string \<Rightarrow> int res" where
  "stoi_throws s = (case stoi s of None \<Rightarrow> Inl Exception_Thrown | Some v \<Rightarrow> Inr v)"

definition int_argument :: "string \<Rightarrow> int" where
  "int_argument s = (case stoi s of None \<Rightarrow> - 1 | Some v \<Rightarrow> v)"

datatype 'a main_result = Main_Returns int | Main_Runs 'a

text \<open>The checks at the beginning of \<^verbatim>\<open>main\<close>, which the two programs share: the number of the machine, the first
  port, the size of the network and the name of the matrix.\<close>

definition network_arguments :: "nat \<Rightarrow> string list \<Rightarrow> (int \<times> 16 word \<times> int \<times> string) main_result" where
  "network_arguments argc argv =
     (if length argv \<noteq> argc then Main_Returns 1
      else let machine_number = int_argument (argv ! 1); starting_port_number = word_of_int (int_argument (argv ! 2));
               size_of_network = int_argument (argv ! 3); matrix_name = argv ! 4
           in if machine_number < 0 \<or> machine_number \<ge> size_of_network then Main_Returns (- 1)
              else if size_of_network \<le> 0 then Main_Returns (- 1)
              else if matrix_name = [] then Main_Returns (- 1)
              else Main_Runs (machine_number, starting_port_number, size_of_network, matrix_name))"

definition obtain_machine_names :: "16 word \<Rightarrow> string list" where
  "obtain_machine_names size_of_network = map (\<lambda>i. ''node'' @ to_dec (i + 1)) [0..<unat size_of_network]"

definition set_port :: "16 word \<Rightarrow> 16 word \<Rightarrow> 16 word list" where
  "set_port starting_port_number size_of_network =
     map (\<lambda>i. starting_port_number + word_of_nat i) [0..<unat size_of_network]"

definition obtain_tag_ids :: "16 word \<Rightarrow> tag_id list" where
  "obtain_tag_ids size_of_network = map (\<lambda>i. ''tag'' @ to_dec i) [0..<unat size_of_network]"

section \<open>The machine\<close>

text \<open>What \<^verbatim>\<open>machine_task\<close> sets up before it runs the method: the manager, whom it connects to, and the processor.\<close>

record jacobi_task =
  jt_port :: "16 word"
  jt_name :: string
  jt_connect :: "(string \<times> 16 word) option"
  jt_tag :: tag_id
  jt_tags :: "tag_id list"
  jt_processor :: jacobi

definition start_jacobi_machine :: "nat \<Rightarrow> real list list \<Rightarrow> real list \<Rightarrow> nat list \<Rightarrow> 16 word list \<Rightarrow> string list \<Rightarrow> tag_id list
    \<Rightarrow> jacobi_task res" where
  "start_jacobi_machine machine_number A_partition b_partition row_indices ports machine_names tag_ids =
     rbind (vec_at ports machine_number) (\<lambda>port.
     rbind (vec_at machine_names machine_number) (\<lambda>name.
     rbind (if int machine_number \<noteq> int (length ports) - 1
            then rbind (vec_at ports (machine_number + 1)) (\<lambda>p. Inr (Some (''127.0.0.1'', p))) else Inr None) (\<lambda>server.
     rbind (vec_at tag_ids machine_number) (\<lambda>tag.
     rbind (new_jacobi A_partition b_partition row_indices) (\<lambda>J.
       Inr \<lparr>jt_port = port, jt_name = name, jt_connect = server, jt_tag = tag, jt_tags = tag_ids, jt_processor = J\<rparr>)))))"

text \<open>The name of a file of the partition. An entry of the vector of indices becomes a \<^verbatim>\<open>size_t\<close>, which is defined for
  those that are not negative.\<close>

definition partition_file :: "int \<Rightarrow> int \<Rightarrow> string \<Rightarrow> string \<Rightarrow> string" where
  "partition_file machine_number row_count what matrix_name =
     ''machine_'' @ print_int machine_number @ ''_row_count_'' @ print_int row_count @ what @ matrix_name"

definition to_index :: "real \<Rightarrow> nat" where
  "to_index d = nat \<lfloor>d\<rfloor>"

text \<open>The two programs; the result has the exact solutions, of the machine's components and of all, for the report.\<close>

definition async_jacobi_main :: "(string \<Rightarrow> string option) \<Rightarrow> string list \<Rightarrow> (jacobi_task \<times> real list \<times> real list) main_result res" where
  "async_jacobi_main files argv =
     (case network_arguments 9 argv of
        Main_Returns c \<Rightarrow> Inr (Main_Returns c)
      | Main_Runs (machine_number, starting_port_number, size_of_network, matrix_name) \<Rightarrow>
          rbind (stoi_throws (argv ! 5)) (\<lambda>overlapping. let directory = argv ! 6 in
          rbind (stoi_throws (argv ! 7)) (\<lambda>trial.
          let ports = set_port starting_port_number (word_of_int size_of_network);
              machine_names = obtain_machine_names (word_of_int size_of_network);
              tag_ids = obtain_tag_ids (word_of_int size_of_network);
              file = (\<lambda>what. partition_file machine_number overlapping what matrix_name)
          in rbind (input_vector_from_matrix_market to_index files directory (file ''_indices_'')) (\<lambda>row_indices.
             rbind (input_matrix_from_matrix_market id files directory (file ''_'')) (\<lambda>A_partition.
             rbind (input_vector_from_matrix_market id files directory (file ''_rhs_'')) (\<lambda>b_partition.
             rbind (input_vector_from_matrix_market id files directory (file ''_x_sol_'')) (\<lambda>x_partition_solution.
             rbind (input_vector_from_matrix_market id files ''../../../examples/async_jacobi/system'' (''x_sol_'' @ matrix_name)) (\<lambda>x_full_solution.
             rbind (start_jacobi_machine (nat machine_number) A_partition b_partition row_indices ports machine_names tag_ids) (\<lambda>task.
               Inr (Main_Runs (task, x_partition_solution, x_full_solution)))))))))))"

definition sync_jacobi_main :: "(string \<Rightarrow> string option) \<Rightarrow> string list \<Rightarrow> (jacobi_task \<times> real list \<times> real list) main_result res" where
  "sync_jacobi_main files argv =
     (case network_arguments 8 argv of
        Main_Returns c \<Rightarrow> Inr (Main_Returns c)
      | Main_Runs (machine_number, starting_port_number, size_of_network, matrix_name) \<Rightarrow>
          let directory = argv ! 5 in
          rbind (stoi_throws (argv ! 6)) (\<lambda>trial.
          let ports = set_port starting_port_number (word_of_int size_of_network);
              machine_names = obtain_machine_names (word_of_int size_of_network);
              tag_ids = obtain_tag_ids (word_of_int size_of_network);
              file = (\<lambda>what. partition_file machine_number 0 what matrix_name)
          in rbind (input_vector_from_matrix_market to_index files directory (file ''_indices_'')) (\<lambda>row_indices.
             rbind (input_matrix_from_matrix_market id files directory (file ''_'')) (\<lambda>A_partition.
             rbind (input_vector_from_matrix_market id files directory (file ''_rhs_'')) (\<lambda>b_partition.
             rbind (input_vector_from_matrix_market id files directory (file ''_x_sol_'')) (\<lambda>x_partition_solution.
             rbind (input_vector_from_matrix_market id files ''../../../examples/sync_jacobi/system'' (''x_sol_'' @ matrix_name)) (\<lambda>x_full_solution.
             rbind (start_jacobi_machine (nat machine_number) A_partition b_partition row_indices ports machine_names tag_ids) (\<lambda>task.
               Inr (Main_Runs (task, x_partition_solution, x_full_solution))))))))))"

section \<open>The report\<close>

text \<open>The three functions of \<^verbatim>\<open>jacobi_data_output.hpp\<close>.\<close>

definition calculate_partial_residual :: "real list \<Rightarrow> real list \<Rightarrow> real list list \<Rightarrow> real res" where
  "calculate_partial_residual x_local_solution b_partition A_partition =
     rfold (\<lambda>i partial_residual.
       rbind (vec_at A_partition 0) (\<lambda>row0. rbind (vec_at A_partition i) (\<lambda>row.
       rbind (rfold (\<lambda>j hold. rbind (vec_at row j) (\<lambda>a. rbind (vec_at x_local_solution j) (\<lambda>x. Inr (a * x + hold))))
                [0..<length row0] 0) (\<lambda>hold.
       rbind (vec_at b_partition i) (\<lambda>b. Inr (partial_residual + (hold - b) ^ 2)))))
     ) [0..<length A_partition] 0"

definition calculate_partial_forward_error :: "nat list \<Rightarrow> real list \<Rightarrow> real list \<Rightarrow> real res" where
  "calculate_partial_forward_error row_indices x_partition_estimate x_local_solution =
     rfold (\<lambda>i err. rbind (vec_at x_partition_estimate i) (\<lambda>x. rbind (vec_at x_local_solution i) (\<lambda>y. Inr (err + (x - y) ^ 2))))
       [0..<length row_indices] 0"

definition calculate_local_forward_error :: "real list \<Rightarrow> real list \<Rightarrow> real res" where
  "calculate_local_forward_error x_estimate x_full_solution =
     rassert (length x_estimate = length x_full_solution)
       (rfold (\<lambda>i err. rbind (vec_at x_estimate i) (\<lambda>x. rbind (vec_at x_full_solution i) (\<lambda>y. Inr (err + (x - y) ^ 2))))
         [0..<length x_estimate] 0)"

text \<open>The end of \<^verbatim>\<open>machine_task\<close>: the residual and the two errors of the processor that the method has left.\<close>

definition jacobi_report :: "jacobi \<Rightarrow> real list \<Rightarrow> real list \<Rightarrow> (real \<times> real \<times> real) res" where
  "jacobi_report J x_partition_solution x_full_solution =
     rbind (return_partition_solution J) (\<lambda>x_partition_estimate.
     rbind (calculate_partial_residual (ja_x J) (ja_b J) (ja_A J)) (\<lambda>partial_residual.
     rbind (calculate_partial_forward_error (ja_rows J) x_partition_estimate x_partition_solution) (\<lambda>partial_forward_error.
     rbind (calculate_local_forward_error (ja_x J) x_full_solution) (\<lambda>forward_error.
       Inr (partial_residual, partial_forward_error, forward_error)))))"

lemma sum_loop:
  assumes "\<And>i s. i < n \<Longrightarrow> step i s = Inr (s + f i)"
  shows "rfold step [0..<n] s = Inr (s + (\<Sum>i < n. f i) :: real)"
  using assms
proof (induction n)
  case (Suc n)
  then show ?case by (simp add: rfold_append add.assoc)
qed simp

lemma residual_sum:
  assumes "jacobi_ok J"
  shows "calculate_partial_residual (ja_x J) (ja_b J) (ja_A J) = Inr (\<Sum>i < length (ja_rows J). (row_sum J i (ja_x J) - ja_b J ! i) ^ 2)"
proof -
  have l: "length (ja_A J) = length (ja_rows J)" "length (ja_b J) = length (ja_rows J)" "\<forall>row \<in> set (ja_A J). length row = length (ja_x J)"
    using assms by (auto simp: jacobi_ok_def)
  have r: "length (ja_A J ! i) = length (ja_x J)" if "i < length (ja_rows J)" for i using l that by simp
  have inner: "rfold (\<lambda>j hold. rbind (vec_at (ja_A J ! i) j) (\<lambda>a. rbind (vec_at (ja_x J) j) (\<lambda>x. Inr (a * x + hold))))
      [0..<length (ja_A J ! 0)] 0 = Inr (row_sum J i (ja_x J))" if i: "i < length (ja_rows J)" for i
  proof -
    have "length (ja_A J ! 0) = length (ja_x J)" using r i by (cases "length (ja_rows J)") auto
    then show ?thesis
      using sum_loop [of "length (ja_x J)" "\<lambda>j hold. rbind (vec_at (ja_A J ! i) j) (\<lambda>a. rbind (vec_at (ja_x J) j) (\<lambda>x. Inr (a * x + hold)))"
        "\<lambda>j. ja_A J ! i ! j * ja_x J ! j" 0] r [OF i] by (simp add: vec_at_def row_sum_def)
  qed
  have "vec_at (ja_A J) i = Inr (ja_A J ! i)" "vec_at (ja_b J) i = Inr (ja_b J ! i)" "vec_at (ja_A J) 0 = Inr (ja_A J ! 0)"
    if "i < length (ja_rows J)" for i
    using l(1,2) that by (cases "length (ja_rows J)"; simp add: vec_at_def)+
  then show ?thesis unfolding calculate_partial_residual_def l(1)
    by (subst sum_loop [where f = "\<lambda>i. (row_sum J i (ja_x J) - ja_b J ! i) ^ 2"]) (simp_all add: inner)
qed

lemma partition_solution:
  assumes "jacobi_ok J"
  shows "return_partition_solution J = Inr (map (\<lambda>r. ja_x J ! r) (ja_rows J))"
proof -
  have "n \<le> length (ja_rows J) \<Longrightarrow> rfold (\<lambda>i ys. rbind (vec_at (ja_rows J) i) (\<lambda>r. rbind (vec_at (ja_x J) r) (\<lambda>x. Inr (ys @ [x])))) [0..<n] []
      = Inr (map (\<lambda>r. ja_x J ! r) (take n (ja_rows J)))" for n
    using assms by (induction n) (auto simp: rfold_append vec_at_def jacobi_ok_def take_Suc_conv_app_nth)
  then show ?thesis by (simp add: return_partition_solution_def)
qed

text \<open>C27: The report of a machine is defined and says what it claims: its residual is 0 exactly when another
  computation would change nothing, the full error is 0 exactly when the estimate is the solution, and the error
  of the machine's own components is a part of the full error.\<close>

theorem jacobi_report_meaning:
  assumes "jacobi_ok J" "length x_full = length (ja_x J)" "x_part = map (\<lambda>r. x_full ! r) (ja_rows J)"
  shows "\<exists>residual part_err full_err. jacobi_report J x_part x_full = Inr (residual, part_err, full_err)
    \<and> 0 \<le> residual \<and> (residual = 0 \<longleftrightarrow> jacobi_computation J = Inr J)
    \<and> (full_err = 0 \<longleftrightarrow> ja_x J = x_full) \<and> 0 \<le> part_err \<and> part_err \<le> full_err"
proof -
  let ?n = "length (ja_rows J)" and ?x = "ja_x J"
  let ?res = "\<Sum>i < ?n. (row_sum J i ?x - ja_b J ! i) ^ 2"
  let ?part = "\<Sum>i < ?n. (?x ! (ja_rows J ! i) - x_full ! (ja_rows J ! i)) ^ 2"
  let ?full = "\<Sum>j < length ?x. (?x ! j - x_full ! j) ^ 2"
  have "calculate_partial_forward_error (ja_rows J) (map (\<lambda>r. ?x ! r) (ja_rows J)) x_part = Inr ?part"
    unfolding calculate_partial_forward_error_def
    by (subst sum_loop [where f = "\<lambda>i. (?x ! (ja_rows J ! i) - x_full ! (ja_rows J ! i)) ^ 2"]) (auto simp: vec_at_def assms(3))
  moreover have "calculate_local_forward_error ?x x_full = Inr ?full"
    unfolding calculate_local_forward_error_def
    by (subst sum_loop [where f = "\<lambda>j. (?x ! j - x_full ! j) ^ 2"]) (use assms(2) in \<open>auto simp: vec_at_def\<close>)
  ultimately have "jacobi_report J x_part x_full = Inr (?res, ?part, ?full)"
    using residual_sum [OF assms(1)] partition_solution [OF assms(1)] by (simp add: jacobi_report_def)
  moreover have "?res = 0 \<longleftrightarrow> jacobi_computation J = Inr J"
    unfolding computation_same [OF assms(1)] by (subst sum_nonneg_eq_0_iff) auto
  moreover have "?full = 0 \<longleftrightarrow> ?x = x_full"
    by (subst sum_nonneg_eq_0_iff) (simp_all add: list_eq_iff_nth_eq assms(2) Ball_def)
  moreover have "?part \<le> ?full"
  proof -
    have rows: "distinct (ja_rows J)" "set (ja_rows J) \<subseteq> {..<length ?x}" using assms(1) by (auto simp: jacobi_ok_def set_conv_nth)
    have "?part = sum_list (map (\<lambda>r. (?x ! r - x_full ! r) ^ 2) (ja_rows J))"
      by (simp add: sum_list_sum_nth atLeast0LessThan)
    also have "\<dots> = (\<Sum>r \<in> set (ja_rows J). (?x ! r - x_full ! r) ^ 2)" using rows(1) by (simp add: sum_list_distinct_conv_sum_set)
    also have "\<dots> \<le> ?full" using rows(2) by (intro sum_mono2) auto
    finally show ?thesis .
  qed
  ultimately show ?thesis by (intro exI conjI) (auto intro: sum_nonneg)
qed

lemma jacobi_report_meaning_witness:
  "\<exists>residual part_err full_err. jacobi_report \<lparr>ja_A = [[2, 1]], ja_b = [5], ja_rows = [0], ja_x = [2, 1]\<rparr> [2] [2, 1]
      = Inr (residual, part_err, full_err) \<and> full_err = 0"
  using jacobi_report_meaning [of "\<lparr>ja_A = [[2, 1]], ja_b = [5], ja_rows = [0], ja_x = [2, 1]\<rparr>" "[2, 1]" "[2]"]
  by (auto simp: jacobi_ok_def)

section \<open>From the command line to the machine\<close>

lemma to_dec_not_empty: "to_dec n \<noteq> []"
  by (subst to_dec.simps) simp

lemma stoi_to_dec: "n < 2 ^ 31 \<Longrightarrow> stoi (to_dec n) = Some (int n)"
  using strtol_to_dec [of n] to_dec_not_empty [of n] by (simp add: stoi_def long_max_def)

text \<open>A file with a vector, and one with a matrix of \<open>c\<close> columns, given by its rows.\<close>

definition holds_vector :: "(string \<Rightarrow> string option) \<Rightarrow> nat \<Rightarrow> string \<Rightarrow> string \<Rightarrow> real list \<Rightarrow> bool" where
  "holds_vector files k directory name v \<longleftrightarrow> 0 < length v \<and> length v < 2 ^ 31 \<and> (\<forall>e \<in> set v. fixed_point k e)
     \<and> (\<exists>comments. (\<forall>l \<in> set comments. comment_line l)
          \<and> files (directory @ ''/'' @ name) = Some (market_text comments k (length v) 1 v))"

definition holds_matrix :: "(string \<Rightarrow> string option) \<Rightarrow> nat \<Rightarrow> string \<Rightarrow> string \<Rightarrow> nat \<Rightarrow> real list list \<Rightarrow> bool" where
  "holds_matrix files k directory name c A \<longleftrightarrow> length A < 2 ^ 31 \<and> c < 2 ^ 31
     \<and> (\<forall>row \<in> set A. length row = c \<and> (\<forall>e \<in> set row. fixed_point k e))
     \<and> (\<exists>comments. (\<forall>l \<in> set comments. comment_line l) \<and> files (directory @ ''/'' @ name)
          = Some (market_text comments k (length A) c (concat (map (\<lambda>i. map (\<lambda>row. row ! i) A) [0..<c]))))"

lemma vector_read:
  assumes "holds_vector files k directory name v"
  shows "input_vector_from_matrix_market of_double files directory name = Inr (map of_double v)"
proof -
  from assms obtain comments where r: "0 < length v" "length v < 2 ^ 31" "\<forall>e \<in> set v. fixed_point k e"
    "\<forall>l \<in> set comments. comment_line l" "files (directory @ ''/'' @ name) = Some (market_text comments k (length v) 1 v)"
    unfolding holds_vector_def by blast
  then have c: "\<forall>col \<in> set [v]. length col = length v \<and> (\<forall>e \<in> set col. fixed_point k e)"
    "files (directory @ ''/'' @ name) = Some (market_text comments k (length v) (length [v]) (concat [v]))" by simp_all
  have "length [v] < 2 ^ 31" by simp
  then show ?thesis
    using market_files_read [where comments = comments and rows = "length v" and columns = "[v]" and files = files and directory = directory
      and name = name and k = k and of_double = of_double, OF r(4,2) _ c] r(1) by simp
qed

lemma matrix_read:
  assumes "holds_matrix files k directory name c A"
  shows "input_matrix_from_matrix_market id files directory name = Inr A"
proof -
  let ?cols = "map (\<lambda>i. map (\<lambda>row. row ! i) A) [0..<c]"
  from assms obtain comments where r: "length A < 2 ^ 31" "c < 2 ^ 31"
    "\<forall>row \<in> set A. length row = c \<and> (\<forall>e \<in> set row. fixed_point k e)" "\<forall>l \<in> set comments. comment_line l"
    "files (directory @ ''/'' @ name) = Some (market_text comments k (length A) c (concat ?cols))"
    unfolding holds_matrix_def by blast
  then have c: "length ?cols < 2 ^ 31"
    "files (directory @ ''/'' @ name) = Some (market_text comments k (length A) (length ?cols) (concat ?cols))" by simp_all
  have f: "\<forall>col \<in> set ?cols. length col = length A \<and> (\<forall>e \<in> set col. fixed_point k e)" using r(3) by auto
  have "map (\<lambda>j. map (\<lambda>col. id (col ! j)) ?cols) [0..<length A] = A"
    using r(3) by (intro nth_equalityI) (auto intro!: nth_equalityI)
  then show ?thesis
    using market_files_read [where comments = comments and rows = "length A" and columns = ?cols and files = files and directory = directory
      and name = name and k = k and of_double = id, OF r(4,1) c(1) f c(2)] by simp
qed

text \<open>The files of one machine, and its command line.\<close>

definition holds_partition :: "(string \<Rightarrow> string option) \<Rightarrow> nat \<Rightarrow> string \<Rightarrow> string \<Rightarrow> nat \<Rightarrow> nat \<Rightarrow> nat list \<Rightarrow> real list list
    \<Rightarrow> real list \<Rightarrow> real list \<Rightarrow> real list \<Rightarrow> bool" where
  "holds_partition files k directory matrix_name m overlapping rows A b x_part x_full \<longleftrightarrow>
     (let file = (\<lambda>what. partition_file (int m) (int overlapping) what matrix_name)
      in holds_vector files k directory (file ''_indices_'') (map of_nat rows) \<and> holds_matrix files k directory (file ''_'') (length x_full) A
       \<and> holds_vector files k directory (file ''_rhs_'') b \<and> holds_vector files k directory (file ''_x_sol_'') x_part
       \<and> holds_vector files k ''../../../examples/async_jacobi/system'' (''x_sol_'' @ matrix_name) x_full)"

text \<open>C23: The program started as machine \<open>m\<close> of \<open>n\<close> works on exactly the partition that its files hold, listens on the
  \<open>m\<close>th port, publishes under the tag of its own number and connects to the next machine's port, the last one to
  none: for all numbers on the command line and all entries with a fixed number of digits.\<close>

theorem async_jacobi_main_starts:
  assumes "m < n" "n < 2 ^ 16" "start < 2 ^ 31" "overlapping < 2 ^ 31" "trial < 2 ^ 31" "matrix_name \<noteq> []"
    and "holds_partition files k directory matrix_name m overlapping rows A b x_part x_full" "new_jacobi A b rows = Inr J"
  shows "async_jacobi_main files
      [program, to_dec m, to_dec start, to_dec n, matrix_name, to_dec overlapping, directory, to_dec trial, save_directory]
    = Inr (Main_Runs (\<lparr>jt_port = word_of_nat (start + m), jt_name = ''node'' @ to_dec (m + 1),
        jt_connect = (if m + 1 < n then Some (''127.0.0.1'', word_of_nat (start + (m + 1))) else None),
        jt_tag = ''tag'' @ to_dec m, jt_tags = map (\<lambda>i. ''tag'' @ to_dec i) [0..<n], jt_processor = J\<rparr>, x_part, x_full))"
proof -
  have u: "unat (word_of_nat n :: 16 word) = n" using assms(2) by (simp add: unat_of_nat)
  have i: "int_argument (to_dec m) = int m" "int_argument (to_dec start) = int start" "int_argument (to_dec n) = int n"
    "stoi_throws (to_dec overlapping) = Inr (int overlapping)" "stoi_throws (to_dec trial) = Inr (int trial)"
    using assms(1-5) by (simp_all add: int_argument_def stoi_throws_def stoi_to_dec)
  have to_index: "map to_index (map of_nat rows) = rows" by (simp add: to_index_def o_def)
  let ?file = "\<lambda>what. partition_file (int m) (int overlapping) what matrix_name"
  have f: "holds_vector files k directory (?file ''_indices_'') (map of_nat rows)" "holds_matrix files k directory (?file ''_'') (length x_full) A"
    "holds_vector files k directory (?file ''_rhs_'') b" "holds_vector files k directory (?file ''_x_sol_'') x_part"
    "holds_vector files k ''../../../examples/async_jacobi/system'' (''x_sol_'' @ matrix_name) x_full"
    using assms(7) by (auto simp: holds_partition_def Let_def)
  have r: "input_vector_from_matrix_market to_index files directory (?file ''_indices_'') = Inr rows"
    "input_matrix_from_matrix_market id files directory (?file ''_'') = Inr A"
    "input_vector_from_matrix_market id files directory (?file ''_rhs_'') = Inr b"
    "input_vector_from_matrix_market id files directory (?file ''_x_sol_'') = Inr x_part"
    "input_vector_from_matrix_market id files ''../../../examples/async_jacobi/system'' (''x_sol_'' @ matrix_name) = Inr x_full"
    using vector_read [OF f(1), of to_index] matrix_read [OF f(2)] vector_read [OF f(3), of id] vector_read [OF f(4), of id]
      vector_read [OF f(5), of id] unfolding to_index by simp_all
  have a: "network_arguments 9 [program, to_dec m, to_dec start, to_dec n, matrix_name, to_dec overlapping, directory, to_dec trial, save_directory]
      = Main_Runs (int m, word_of_nat start, int n, matrix_name)"
    using assms(1,6) i by (simp add: network_arguments_def)
  have p: "set_port (word_of_nat start) (word_of_nat n) = map (\<lambda>i. word_of_nat (start + i)) [0..<n]"
    by (simp add: set_port_def u)
  have c: "int m \<noteq> int n - 1 \<longleftrightarrow> m + 1 < n" using assms(1) by auto
  have "start_jacobi_machine m A b rows (set_port (word_of_nat start) (word_of_nat n)) (obtain_machine_names (word_of_nat n)) (obtain_tag_ids (word_of_nat n))
      = Inr \<lparr>jt_port = word_of_nat (start + m), jt_name = ''node'' @ to_dec (m + 1),
        jt_connect = (if m + 1 < n then Some (''127.0.0.1'', word_of_nat (start + (m + 1))) else None),
        jt_tag = ''tag'' @ to_dec m, jt_tags = map (\<lambda>i. ''tag'' @ to_dec i) [0..<n], jt_processor = J\<rparr>"
    using assms(1,8) c by (simp add: start_jacobi_machine_def p obtain_machine_names_def obtain_tag_ids_def u vec_at_def del: of_nat_add)
  then show ?thesis using i r by (simp add: async_jacobi_main_def a)
qed

text \<open>The files of the first of two machines.\<close>

definition first_files :: "string \<Rightarrow> string option" where
  "first_files = [''d/machine_0_row_count_0_indices_M'' \<mapsto> market_text [] 0 1 1 [0], ''d/machine_0_row_count_0_M'' \<mapsto> market_text [] 0 1 2 [2, 1],
     ''d/machine_0_row_count_0_rhs_M'' \<mapsto> market_text [] 0 1 1 [3], ''d/machine_0_row_count_0_x_sol_M'' \<mapsto> market_text [] 0 1 1 [1],
     ''../../../examples/async_jacobi/system/x_sol_M'' \<mapsto> market_text [] 0 2 1 [1, 1]]"

lemma first_files_hold: "holds_partition first_files 0 ''d'' ''M'' 0 0 [0] [[2, 1]] [3] [1] [1, 1]"
proof -
  have f: "fixed_point 0 0" "fixed_point 0 1" "fixed_point 0 2" "fixed_point 0 3" by (simp_all add: fixed_point_def)
  have "to_dec 0 = ''0''" by code_simp
  then have p: "partition_file 0 0 what ''M'' = ''machine_0_row_count_0'' @ what @ ''M''" for what
    by (simp add: partition_file_def print_int_def)
  have c: "\<exists>comments. (\<forall>l \<in> set comments. comment_line l) \<and> Some (market_text [] 0 r c es) = Some (market_text comments 0 r c es)" for r c es
    by (intro exI [of _ "[]"]) simp
  show ?thesis
    using f c [of 1 1] c [of 1 2 "[2, 1]"] c [of 2 1]
    by (simp add: holds_partition_def holds_vector_def holds_matrix_def p first_files_def upt_rec numeral_2_eq_2 [symmetric])
qed

lemma async_jacobi_main_starts_witness:
  "async_jacobi_main first_files [''jacobi'', to_dec 0, to_dec 20000, to_dec 2, ''M'', to_dec 0, ''d'', to_dec 1, ''save'']
    = Inr (Main_Runs (\<lparr>jt_port = 20000, jt_name = ''node'' @ to_dec 1, jt_connect = Some (''127.0.0.1'', 20001),
        jt_tag = ''tag'' @ to_dec 0, jt_tags = [''tag'' @ to_dec 0, ''tag'' @ to_dec 1], jt_processor = two_rows 0\<rparr>, [1], [1, 1]))"
proof -
  have "new_jacobi [[2, 1]] [3] [0] = Inr (two_rows 0)" using two_news(1) by (simp add: two_rows_def)
  from async_jacobi_main_starts [OF _ _ _ _ _ _ first_files_hold this, of 2 20000 1 "''jacobi''" "''save''"]
  show ?thesis by (simp add: upt_rec)
qed

definition good_numbers :: "string list \<Rightarrow> int \<Rightarrow> int \<Rightarrow> bool" where
  "good_numbers argv m n \<longleftrightarrow> stoi (argv ! 1) = Some m \<and> stoi (argv ! 3) = Some n \<and> 0 \<le> m \<and> m < n"

lemma network_arguments_runs:
  "network_arguments argc argv = Main_Runs (m, port, n, name) \<longleftrightarrow> length argv = argc \<and> good_numbers argv m n
     \<and> port = word_of_int (int_argument (argv ! 2)) \<and> name = argv ! 4 \<and> name \<noteq> []"
  by (auto simp: network_arguments_def Let_def good_numbers_def int_argument_def split: option.splits if_splits)

lemma network_arguments_returns:
  "network_arguments argc argv = Main_Returns c \<longleftrightarrow>
     (if length argv = argc then c = - 1 \<and> \<not> ((\<exists>m n. good_numbers argv m n) \<and> argv ! 4 \<noteq> []) else c = 1)"
  by (auto simp: network_arguments_def Let_def good_numbers_def int_argument_def split: option.splits if_splits)

text \<open>The programs refuse bad command lines: with a wrong number of arguments they end with 1, and with a number of the
  machine that is no number of a network, or no matrix, with -1. A machine that is started has a number below the
  size of the network, and also below what 16 bits keep of it, since it finds its port among as many.\<close>

theorem jacobi_main_refuses:
  "(length argv \<noteq> 9 \<longrightarrow> async_jacobi_main files argv = Inr (Main_Returns 1))
   \<and> (length argv \<noteq> 8 \<longrightarrow> sync_jacobi_main files argv = Inr (Main_Returns 1))
   \<and> (length argv = 9 \<and> \<not> ((\<exists>m n. good_numbers argv m n) \<and> argv ! 4 \<noteq> [])
        \<longrightarrow> async_jacobi_main files argv = Inr (Main_Returns (- 1)))
   \<and> (async_jacobi_main files argv = Inr (Main_Runs r) \<longrightarrow> (\<exists>m n. good_numbers argv m n \<and> m < n mod 2 ^ 16))"
proof (intro conjI impI)
  assume "async_jacobi_main files argv = Inr (Main_Runs r)"
  then obtain m port n name where a: "network_arguments 9 argv = Main_Runs (m, port, n, name)"
    and r: "\<exists>A b rows names tags t. start_jacobi_machine (nat m) A b rows (set_port port (word_of_int n)) names tags = Inr t"
    by (auto simp: async_jacobi_main_def Let_def res_iffs split: main_result.splits) blast
  from a have g: "good_numbers argv m n" by (simp add: network_arguments_runs)
  from r have "nat m < unat (word_of_int n :: 16 word)"
    by (auto simp: start_jacobi_machine_def vec_at_def set_port_def res_iffs split: if_splits)
  also have "unat (word_of_int n :: 16 word) = nat (n mod 2 ^ 16)" by (simp add: unat_eq_nat_uint uint_word_of_int_eq take_bit_eq_mod)
  finally have "m < n mod 2 ^ 16" using g by (simp add: good_numbers_def)
  with g show "\<exists>m n. good_numbers argv m n \<and> m < n mod 2 ^ 16" by blast
qed (simp_all add: async_jacobi_main_def sync_jacobi_main_def network_arguments_returns [THEN iffD2])

lemma jacobi_main_refuses_witness:
  "async_jacobi_main first_files [''jacobi'', ''0''] = Inr (Main_Returns 1) \<and> sync_jacobi_main first_files [] = Inr (Main_Returns 1)"
  using jacobi_main_refuses [of "[''jacobi'', ''0'']" first_files] jacobi_main_refuses [of "[]" first_files] by simp

end
