(* ===== verification/Sky_Associative.thy ===== *)
theory Sky_Associative
  imports Sky_Processors Sky_Pubsub_Converter
begin

text \<open>
  \<^verbatim>\<open>skywing_mid/associative_vector.hpp\<close> and \<^verbatim>\<open>power_method_processor.hpp\<close>: vectors that are indexed by keys, and the
  power method on a matrix of which every machine has one such vector as a column. The elements are those of any
  field for \<^verbatim>\<open>double\<close>. The container is a list of its entries; a new entry is put at the end, while an
  \<^verbatim>\<open>unordered_map\<close> may put it anywhere.
\<close>

section \<open>Vectors\<close>

record ('k, 'v) assoc_vec =
  av_default :: 'v
  av_data :: "('k \<times> 'v) list"

text \<open>The constructors, with a default value, with keys, with entries, and from a vector of the other kind. Whether a
  vector is open is an argument of the template, here one of the operations that ask for it.\<close>

definition av_new :: "'v \<Rightarrow> ('k, 'v) assoc_vec" where
  "av_new d = \<lparr>av_default = d, av_data = []\<rparr>"

definition av_of_keys :: "'k list \<Rightarrow> 'v \<Rightarrow> ('k, 'v) assoc_vec" where
  "av_of_keys ks d = \<lparr>av_default = d, av_data = fold (\<lambda>k m. AList.update k d m) ks []\<rparr>"

definition av_of_map :: "('k \<times> 'v) list \<Rightarrow> 'v \<Rightarrow> ('k, 'v) assoc_vec" where
  "av_of_map m d = \<lparr>av_default = d, av_data = m\<rparr>"

definition av_other_kind :: "('k, 'v) assoc_vec \<Rightarrow> ('k, 'v) assoc_vec" where
  "av_other_kind other = \<lparr>av_default = av_default other, av_data = av_data other\<rparr>"

definition av_contains :: "'k \<Rightarrow> ('k, 'v) assoc_vec \<Rightarrow> bool" where
  "av_contains ind a = has_key ind (av_data a)"

definition av_at :: "'k \<Rightarrow> ('k, 'v) assoc_vec \<Rightarrow> 'v res" where
  "av_at ind a = (case map_of (av_data a) ind of None \<Rightarrow> Inl Exception_Thrown | Some v \<Rightarrow> Inr v)"

definition av_set :: "'k \<Rightarrow> 'v \<Rightarrow> ('k, 'v) assoc_vec \<Rightarrow> ('k, 'v) assoc_vec" where
  "av_set ind v a = a\<lparr>av_data := AList.update ind v (av_data a)\<rparr>"

text \<open>\<^verbatim>\<open>operator[]\<close>: the value that the reference refers to, and the vector, which it may extend.\<close>

definition av_index :: "bool \<Rightarrow> 'k \<Rightarrow> ('k, 'v) assoc_vec \<Rightarrow> ('v \<times> ('k, 'v) assoc_vec) res" where
  "av_index isOpen ind a =
     (if isOpen then
        let a' = (if \<not> av_contains ind a then av_set ind (av_default a) a else a)
        in rbind (av_at ind a') (\<lambda>v. Inr (v, a'))
      else if \<not> av_contains ind a then Inl Exception_Thrown
      else rbind (av_at ind a) (\<lambda>v. Inr (v, a)))"

definition get_keys :: "('k, 'v) assoc_vec \<Rightarrow> 'k list" where
  "get_keys a = map fst (av_data a)"

definition av_size :: "('k, 'v) assoc_vec \<Rightarrow> nat" where
  "av_size a = length (av_data a)"

definition av_dot :: "('k, 'v) assoc_vec \<Rightarrow> ('k, 'v :: semiring_0) assoc_vec \<Rightarrow> 'v res" where
  "av_dot a b = rfold (\<lambda>(ind, v) result.
     if av_contains ind a then rbind (av_at ind a) (\<lambda>x. Inr (result + x * v)) else Inr result) (av_data b) 0"

text \<open>The loop body of \<^verbatim>\<open>operator+=\<close> and \<^verbatim>\<open>operator-=\<close>.\<close>

definition av_assign_one :: "('v \<Rightarrow> 'v \<Rightarrow> 'v) \<Rightarrow> bool \<Rightarrow> ('k, 'v) assoc_vec \<Rightarrow> 'k \<times> 'v \<Rightarrow> ('k, 'v) assoc_vec \<Rightarrow> ('k, 'v) assoc_vec res" where
  "av_assign_one f isOpen b = (\<lambda>(ind, _) a.
     let a' = (if isOpen \<and> \<not> av_contains ind a then av_set ind (av_default a) a else a)
     in if av_contains ind a' then rbind (av_at ind a') (\<lambda>x. rbind (av_at ind b) (\<lambda>y. Inr (av_set ind (f x y) a')))
        else Inr a')"

definition av_plus_assign :: "bool \<Rightarrow> ('k, 'v :: plus) assoc_vec \<Rightarrow> ('k, 'v) assoc_vec \<Rightarrow> ('k, 'v) assoc_vec res" where
  "av_plus_assign isOpen b = rfold (av_assign_one (+) isOpen b) (av_data b)"

definition av_minus_assign :: "bool \<Rightarrow> ('k, 'v :: minus) assoc_vec \<Rightarrow> ('k, 'v) assoc_vec \<Rightarrow> ('k, 'v) assoc_vec res" where
  "av_minus_assign isOpen b = rfold (av_assign_one (-) isOpen b) (av_data b)"

definition av_times_assign :: "'v \<Rightarrow> ('k, 'v :: times) assoc_vec \<Rightarrow> ('k, 'v) assoc_vec" where
  "av_times_assign f a = a\<lparr>av_data := map (\<lambda>(k, v). (k, v * f)) (av_data a)\<rparr>"

definition av_divide_assign :: "'v \<Rightarrow> ('k, 'v :: divide) assoc_vec \<Rightarrow> ('k, 'v) assoc_vec" where
  "av_divide_assign f a = a\<lparr>av_data := map (\<lambda>(k, v). (k, v div f)) (av_data a)\<rparr>"

text \<open>The binary operators work on an open copy, also for closed vectors.\<close>

definition av_plus :: "('k, 'v :: plus) assoc_vec \<Rightarrow> ('k, 'v) assoc_vec \<Rightarrow> ('k, 'v) assoc_vec res" where
  "av_plus a b = rbind (av_plus_assign True b (av_other_kind a)) (\<lambda>c. Inr (av_other_kind c))"

definition av_minus :: "('k, 'v :: minus) assoc_vec \<Rightarrow> ('k, 'v) assoc_vec \<Rightarrow> ('k, 'v) assoc_vec res" where
  "av_minus a b = rbind (av_minus_assign True b (av_other_kind a)) (\<lambda>c. Inr (av_other_kind c))"

definition av_uminus :: "('k, 'v :: {uminus, zero}) assoc_vec \<Rightarrow> ('k, 'v) assoc_vec" where
  "av_uminus a = av_of_map (map (\<lambda>(k, v). (k, - v)) (av_data a)) 0"

definition av_times :: "'v \<Rightarrow> ('k, 'v :: times) assoc_vec \<Rightarrow> ('k, 'v) assoc_vec" where
  "av_times f b = av_times_assign f b"

definition av_divide :: "('k, 'v :: divide) assoc_vec \<Rightarrow> 'v \<Rightarrow> ('k, 'v) assoc_vec" where
  "av_divide b f = av_divide_assign f b"

section \<open>What the operators compute\<close>

lemma map_of_update: "map_of (AList.update k v m) = (map_of m)(k \<mapsto> v)"
  by (simp add: update_conv')

lemma av_at_Some: "map_of (av_data a) k = Some v \<Longrightarrow> av_at k a = Inr v"
  by (simp add: av_at_def)

lemma av_contains_iff: "av_contains k a \<longleftrightarrow> map_of (av_data a) k \<noteq> None"
  by (simp add: av_contains_def has_key_def)

text \<open>What one operand has at a key that the other has as well, or that an open vector takes over.\<close>

definition combined :: "('v \<Rightarrow> 'v \<Rightarrow> 'v) \<Rightarrow> bool \<Rightarrow> ('k, 'v) assoc_vec \<Rightarrow> ('k, 'v) assoc_vec \<Rightarrow> 'k \<Rightarrow> 'v option" where
  "combined f isOpen a b k =
     (case (map_of (av_data a) k, map_of (av_data b) k) of
        (x, None) \<Rightarrow> x
      | (Some x, Some y) \<Rightarrow> Some (f x y)
      | (None, Some y) \<Rightarrow> if isOpen then Some (f (av_default a) y) else None)"

lemma combined_cong:
  "map_of (av_data a) k = map_of (av_data a') k \<Longrightarrow> av_default a = av_default a' \<Longrightarrow> combined f isOpen a b k = combined f isOpen a' b k"
  by (simp add: combined_def split: option.split)

lemma combined_left: "k \<notin> fst ` set (av_data b) \<Longrightarrow> combined f isOpen a b k = map_of (av_data a) k"
  by (cases "map_of (av_data a) k") (simp_all add: combined_def map_of_eq_None_iff [THEN iffD2])

lemma av_assign_one_at:
  assumes "map_of (av_data b) k = Some y"
  shows "\<exists>c. av_assign_one f isOpen b (k, z) a = Inr c \<and> av_default c = av_default a
    \<and> map_of (av_data c) = (map_of (av_data a))(k := combined f isOpen a b k)
    \<and> (distinct (get_keys a) \<longrightarrow> distinct (get_keys c))"
  using assms
  by (cases "map_of (av_data a) k")
    (auto simp: av_assign_one_def Let_def av_contains_iff av_set_def av_at_def map_of_update combined_def get_keys_def distinct_update)

lemma av_assign_all:
  assumes "distinct (map fst m)" "\<forall>(k, y) \<in> set m. map_of (av_data b) k = Some y"
  shows "\<exists>c. rfold (av_assign_one f isOpen b) m a = Inr c \<and> av_default c = av_default a
    \<and> map_of (av_data c) = (\<lambda>k. if k \<in> fst ` set m then combined f isOpen a b k else map_of (av_data a) k)
    \<and> (distinct (get_keys a) \<longrightarrow> distinct (get_keys c))"
  using assms
proof (induction m arbitrary: a)
  case (Cons p m)
  obtain k y where p: "p = (k, y)" by fastforce
  then have y: "map_of (av_data b) k = Some y" using Cons.prems(2) by simp
  obtain u where u: "av_assign_one f isOpen b p a = Inr u" "av_default u = av_default a"
    "map_of (av_data u) = (map_of (av_data a))(k := combined f isOpen a b k)"
    "distinct (get_keys a) \<longrightarrow> distinct (get_keys u)"
    using av_assign_one_at [OF y, of f isOpen y a] p by auto
  obtain c where c: "rfold (av_assign_one f isOpen b) m u = Inr c" "av_default c = av_default u"
    "map_of (av_data c) = (\<lambda>k. if k \<in> fst ` set m then combined f isOpen u b k else map_of (av_data u) k)"
    "distinct (get_keys u) \<longrightarrow> distinct (get_keys c)"
    using Cons.IH [of u] Cons.prems by auto
  have "k \<notin> fst ` set m" using Cons.prems(1) p by simp
  have "map_of (av_data c) j = (if j \<in> fst ` set (p # m) then combined f isOpen a b j else map_of (av_data a) j)" for j
  proof (cases "j = k")
    case True
    then show ?thesis using \<open>k \<notin> fst ` set m\<close> by (simp add: c(3) u(3) p)
  next
    case False
    then show ?thesis using combined_cong [of u j a f isOpen b] u(2,3) by (simp add: c(3) p)
  qed
  then show ?case using u c p by auto
qed simp

lemma av_assign:
  assumes "distinct (get_keys b)"
  shows "\<exists>c. rfold (av_assign_one f isOpen b) (av_data b) a = Inr c \<and> av_default c = av_default a
    \<and> map_of (av_data c) = combined f isOpen a b \<and> (distinct (get_keys a) \<longrightarrow> distinct (get_keys c))"
proof -
  have "combined f isOpen a b = (\<lambda>k. if k \<in> fst ` set (av_data b) then combined f isOpen a b k else map_of (av_data a) k)"
    by (simp add: fun_eq_iff combined_left)
  then show ?thesis using av_assign_all [of "av_data b" b f isOpen a] assms
    by (auto simp: get_keys_def map_of_is_SomeI)
qed

lemma combined_other_kind: "combined f isOpen (av_other_kind a) b = combined f isOpen a b"
  by (rule ext, rule combined_cong) (simp_all add: av_other_kind_def)

lemma av_plus_combined:
  assumes "distinct (get_keys b)"
  shows "\<exists>c. av_plus a b = Inr c \<and> av_default c = av_default a \<and> map_of (av_data c) = combined (+) True a b"
  using av_assign [OF assms, of "(+)" True "av_other_kind a"] unfolding av_plus_def av_plus_assign_def combined_other_kind
  by (auto simp: av_other_kind_def)

text \<open>Adding and subtracting work entry by entry: a key of both operands gets the sum or the difference of the entries, a key of
  the left one keeps its entry, and a key of the right one alone is combined with the default value of the left,
  by the assigning operators only when the vector is open, by the others always.\<close>

theorem assoc_vector_sum:
  assumes "distinct (get_keys b)"
  shows "(\<exists>c. av_plus a b = Inr c \<and> av_default c = av_default a \<and> map_of (av_data c) = combined (+) True a b)
    \<and> (\<exists>c. av_minus a b = Inr c \<and> av_default c = av_default a \<and> map_of (av_data c) = combined (-) True a b)
    \<and> (\<exists>c. av_plus_assign isOpen b a = Inr c \<and> av_default c = av_default a \<and> map_of (av_data c) = combined (+) isOpen a b)
    \<and> (\<exists>c. av_minus_assign isOpen b a = Inr c \<and> av_default c = av_default a \<and> map_of (av_data c) = combined (-) isOpen a b)"
proof -
  have "\<exists>c. av_minus a b = Inr c \<and> av_default c = av_default a \<and> map_of (av_data c) = combined (-) True a b"
    using av_assign [OF assms, of "(-)" True "av_other_kind a"] unfolding av_minus_def av_minus_assign_def combined_other_kind
    by (auto simp: av_other_kind_def)
  then show ?thesis using av_plus_combined [OF assms, of a] av_assign [OF assms, of "(+)" isOpen a] av_assign [OF assms, of "(-)" isOpen a]
    unfolding av_plus_assign_def av_minus_assign_def by blast
qed

lemma assoc_vector_sum_witness:
  "\<exists>c. av_plus_assign False \<lparr>av_default = 0, av_data = [(''a'', 1), (''c'', 4)]\<rparr> \<lparr>av_default = 0, av_data = [(''a'', 2), (''b'', 3)]\<rparr> = Inr c
    \<and> map_of (av_data c) ''a'' = Some (3 :: int) \<and> map_of (av_data c) ''b'' = Some 3 \<and> map_of (av_data c) ''c'' = None"
  using assoc_vector_sum [of "\<lparr>av_default = 0 :: int, av_data = [(''a'', 1), (''c'', 4)]\<rparr>"
      "\<lparr>av_default = 0, av_data = [(''a'', 2), (''b'', 3)]\<rparr>" False]
  by (auto simp: get_keys_def combined_def)

section \<open>The converter\<close>

text \<open>\<^verbatim>\<open>PubSubConverter<AssociativeVector>\<close>: the default value and the map, for keys and elements of types that have
  converters themselves.\<close>

definition av_convert :: "ps_type \<Rightarrow> ps_type \<Rightarrow> (ps_value, ps_value) assoc_vec \<Rightarrow> publish_value list" where
  "av_convert tk tv a = conv tv (av_default a) @ conv (PT_Map tk tv) (PV_Map (av_data a))"

definition av_deconvert :: "ps_type \<Rightarrow> ps_type \<Rightarrow> publish_value list \<Rightarrow> (ps_value, ps_value) assoc_vec res" where
  "av_deconvert tk tv ps =
     rbind (deconv tv (take (length (pst tv)) ps)) (\<lambda>default_value.
     rbind (deconv (PT_Map tk tv) (drop (length (pst tv)) ps)) (\<lambda>data. Inr (av_of_map (entries data) default_value)))"

interpretation assoc: converter "av_convert tk tv" "av_deconvert tk tv"
  "\<lambda>a. can_send tv (av_default a) \<and> can_send (PT_Map tk tv) (PV_Map (av_data a))" for tk tv
proof unfold_locales
  fix a :: "(ps_value, ps_value) assoc_vec"
  assume a: "can_send tv (av_default a) \<and> can_send (PT_Map tk tv) (PV_Map (av_data a))"
  then have "length (conv tv (av_default a)) = length (pst tv)" by (intro length_conv) (auto simp: can_send_def)
  moreover note pubsub.round_trip [OF conjunct1 [OF a]] pubsub.round_trip [OF conjunct2 [OF a]]
  ultimately show "av_deconvert tk tv (av_convert tk tv a) = Inr a"
    by (simp add: av_deconvert_def av_convert_def av_of_map_def)
qed

lemma assoc_vectors_received:
  "\<forall>a \<in> set as. can_send tv (av_default a) \<and> can_send (PT_Map tk tv) (PV_Map (av_data a))
    \<Longrightarrow> rseq (map (av_deconvert tk tv) (map (av_convert tk tv) as)) = Inr as"
  by (rule assoc.received)

section \<open>The power method\<close>

text \<open>The sum is that of a Push Flow mean and a count. The constructor of the count draws a number, an
  argument of the model.\<close>

type_synonym norm_value = "real push_flow_value \<times> quacc_value"

type_synonym 'k power_value = "('k, real) assoc_vec \<times> norm_value"

record 'k power =
  pm_index :: 'k
  pm_element :: real
  pm_eigenvalue :: real
  pm_column :: "('k, real) assoc_vec"
  pm_sqnorm :: "real push_flow \<times> quacc"

definition new_power :: "real \<Rightarrow> ('k, real) assoc_vec \<Rightarrow> 'k \<Rightarrow> 'k power" where
  "new_power drawn my_column my_index =
     \<lparr>pm_index = my_index, pm_element = 1, pm_eigenvalue = 1, pm_column = my_column,
      pm_sqnorm = (new_push_flow (1 * 1) 1, new_quacc drawn 1)\<rparr>"

definition pm_get_init_publish_values :: "'k power \<Rightarrow> 'k power_value" where
  "pm_get_init_publish_values p =
     (av_times (pm_element p) (pm_column p),
      (pf_get_init_publish_values (fst (pm_sqnorm p)), qu_get_init_publish_values (snd (pm_sqnorm p))))"

text \<open>\<^verbatim>\<open>sum\<close> of the handler for vectors.\<close>

definition av_sum :: "('b, ('k, 'v :: plus) assoc_vec) handler \<Rightarrow> ('k, 'v) assoc_vec res" where
  "av_sum h = rbind (f_accumulate_impl (\<lambda>v. Inr (nd_transformer h v)) (\<lambda>x y. rbind x (\<lambda>a. rbind y (av_plus a))) h) (\<lambda>r. r)"

definition pm_process_update :: "('b, 'k power_value) handler \<Rightarrow> tag_id \<Rightarrow> 'k power \<Rightarrow> 'k power res" where
  "pm_process_update h my_tag p =
     rbind (sum_process_update pf_process_update qu_process_update (get_sub_handler snd h) my_tag (pm_sqnorm p)) (\<lambda>sum_proc.
     let sqnorm = sum_get_value pf_get_value sum_proc;
         eigenvalue = (if sqnorm > 0 then sqrt (sum_get_value pf_get_value sum_proc) else pm_eigenvalue p)
     in rbind (av_sum (get_sub_handler fst h)) (\<lambda>Ax.
        rbind (av_at (pm_index p) Ax) (\<lambda>my_Ax.
        let element = (if \<bar>eigenvalue\<bar> > 1 / 100 then 3 / 4 * pm_element p + 1 / 4 * (my_Ax / eigenvalue) else pm_element p)
        in Inr (p\<lparr>pm_eigenvalue := eigenvalue, pm_element := element,
                  pm_sqnorm := (pf_set_value (my_Ax * my_Ax) (fst sum_proc), snd sum_proc)\<rparr>))))"

definition pm_prepare_for_publication :: "'k power \<Rightarrow> 'k power_value \<times> 'k power" where
  "pm_prepare_for_publication p =
     (let (v, sum_proc) = sum_prepare_for_publication pf_prepare_for_publication qu_prepare_for_publication (pm_sqnorm p)
      in ((av_times (pm_element p) (pm_column p), v), p\<lparr>pm_sqnorm := sum_proc\<rparr>))"

text \<open>An entry of a vector, zero where it has none.\<close>

definition av_entry :: "'k \<Rightarrow> ('k, 'v :: zero) assoc_vec \<Rightarrow> 'v" where
  "av_entry k a = (case map_of (av_data a) k of None \<Rightarrow> 0 | Some v \<Rightarrow> v)"

lemma combined_entry:
  assumes "av_default a = (0 :: 'v :: comm_monoid_add)"
  shows "combined (+) True a b k = (if av_contains k a \<or> av_contains k b then Some (av_entry k a + av_entry k b) else None)"
  using assms by (auto simp: combined_def av_contains_iff av_entry_def split: option.splits)

lemma av_sum_fold:
  fixes a :: "('k, 'v :: comm_monoid_add) assoc_vec"
  assumes "av_default a = 0" "\<forall>b \<in> set bs. distinct (get_keys b)"
  shows "\<exists>c. foldl (\<lambda>x y. rbind x (\<lambda>a. rbind y (av_plus a))) (Inr a) (map Inr bs) = Inr c
    \<and> (\<forall>k. map_of (av_data c) k = (if \<exists>v \<in> set (a # bs). av_contains k v then Some (sum_list (map (av_entry k) (a # bs))) else None))"
  using assms
proof (induction bs arbitrary: a)
  case Nil
  then show ?case by (auto simp: av_contains_iff av_entry_def split: option.split)
next
  case (Cons b bs)
  obtain u where u: "av_plus a b = Inr u" "av_default u = av_default a" "map_of (av_data u) = combined (+) True a b"
    using av_plus_combined [of b a] Cons.prems(2) by auto
  have e: "av_contains k u = (av_contains k a \<or> av_contains k b)" "av_entry k u = av_entry k a + av_entry k b" for k
    using combined_entry [OF Cons.prems(1), of b k]
    by (auto simp: av_contains_iff [of k u] av_entry_def [of k u] u(3)) (auto simp: av_contains_iff av_entry_def)
  obtain c where c: "foldl (\<lambda>x y. rbind x (\<lambda>a. rbind y (av_plus a))) (Inr u) (map Inr bs) = Inr c"
    "\<And>k. map_of (av_data c) k = (if \<exists>v \<in> set (u # bs). av_contains k v then Some (sum_list (map (av_entry k) (u # bs))) else None)"
    using Cons.IH [of u] Cons.prems u(2) by auto
  then show ?case using u(1) by (simp add: e add.assoc)
qed

text \<open>The vectors that the neighbours have sent.\<close>

definition columns :: "('b, 'k power_value) handler \<Rightarrow> ('k, real) assoc_vec list" where
  "columns h = map (\<lambda>(tag, v). fst (nd_transformer h v)) (present h)"

lemma av_sum_columns:
  assumes "av_sum (get_sub_handler fst h) = Inr c" "\<forall>v \<in> set (columns h). av_default v = 0 \<and> distinct (get_keys v)" "av_at k c = Inr y"
  shows "y = sum_list (map (av_entry k) (columns h))"
proof -
  let ?g = "\<lambda>v. fst (nd_transformer h v)"
  have p: "present (get_sub_handler fst h) = present h" by (simp add: present_def get_sub_handler_def)
  have m: "map ((\<lambda>v. Inr (nd_transformer (get_sub_handler fst h) v)) \<circ> snd) (present h) = map Inr (columns h)"
    by (simp add: columns_def get_sub_handler_def case_prod_unfold)
  obtain a as where a: "columns h = a # as"
    using assms(1) by (cases "columns h") (auto simp: av_sum_def f_accumulate_present p m)
  then have "foldl (\<lambda>x y. rbind x (\<lambda>a. rbind y (av_plus a))) (Inr a) (map Inr as) = Inr c"
    using assms(1) by (simp add: av_sum_def f_accumulate_present p m)
  then have "map_of (av_data c) k = (if \<exists>v \<in> set (a # as). av_contains k v then Some (sum_list (map (av_entry k) (a # as))) else None)"
    using av_sum_fold [of a as] assms(2) a by auto
  then show ?thesis using assms(3) a by (auto simp: av_at_def split: option.splits if_split_asm)
qed

text \<open>C21: A step of the power method keeps a positive estimate of the eigenvalue positive, and the square of the sum of the
  entries that the neighbours sent goes into the norm. Where the new estimate is at most \<open>1 / 100\<close>, the element of the machine
  stays as it is. Where it is above, the element stays exactly when the sum is the estimate times the element, so that
  there the fixed points of all machines are eigenvectors; and where the sum is the opposite of that, the element is halved:
  an eigenvector of the opposite eigenvalue is no fixed point.\<close>

theorem power_method_step:
  assumes "pm_process_update h my_tag p = Inr p'" "0 < pm_eigenvalue p"
    and "\<forall>v \<in> set (columns h). av_default v = 0 \<and> distinct (get_keys v)"
  defines "my_Ax \<equiv> sum_list (map (av_entry (pm_index p)) (columns h))"
  shows "0 < pm_eigenvalue p' \<and> pf_val (fst (pm_sqnorm p')) = my_Ax * my_Ax
    \<and> (pm_eigenvalue p' \<le> 1 / 100 \<longrightarrow> pm_element p' = pm_element p)
    \<and> (1 / 100 < pm_eigenvalue p' \<longrightarrow>
         (pm_element p' = pm_element p \<longleftrightarrow> my_Ax = pm_eigenvalue p' * pm_element p)
         \<and> (my_Ax = - pm_eigenvalue p' * pm_element p \<longrightarrow> pm_element p' = pm_element p / 2))"
proof -
  obtain sum_proc c y where r: "av_sum (get_sub_handler fst h) = Inr c" "av_at (pm_index p) c = Inr y"
    and p': "p' = (let sqnorm = sum_get_value pf_get_value sum_proc;
         eigenvalue = (if sqnorm > 0 then sqrt (sum_get_value pf_get_value sum_proc) else pm_eigenvalue p);
         element = (if \<bar>eigenvalue\<bar> > 1 / 100 then 3 / 4 * pm_element p + 1 / 4 * (y / eigenvalue) else pm_element p)
        in p\<lparr>pm_eigenvalue := eigenvalue, pm_element := element,
                  pm_sqnorm := (pf_set_value (y * y) (fst sum_proc), snd sum_proc)\<rparr>)"
    using assms(1) unfolding pm_process_update_def Let_def rbind_eq_Inr_iff sum.inject by metis
  have y: "y = my_Ax" unfolding my_Ax_def using av_sum_columns [OF r(1) assms(3) r(2)] .
  have e: "0 < pm_eigenvalue p'" using assms(2) by (simp add: p' Let_def)
  have "3 / 4 * x + 1 / 4 * (y / l) = x \<longleftrightarrow> y = l * x" if "0 < l" for x l :: real
    using that by (simp add: field_simps)
  moreover have "3 / 4 * x + 1 / 4 * (- l * x / l) = x / 2" if "0 < l" for x l :: real
    using that by (simp add: field_simps)
  moreover have "pm_element p' = (if 1 / 100 < pm_eigenvalue p' then 3 / 4 * pm_element p + 1 / 4 * (y / pm_eigenvalue p') else pm_element p)"
    using e by (simp add: p' Let_def)
  moreover have "pf_val (fst (pm_sqnorm p')) = y * y" by (simp add: p' Let_def pf_set_value_def)
  ultimately show ?thesis using e unfolding y by auto
qed

text \<open>One neighbour, whose column has \<open>- 1\<close> in the row of the machine.\<close>

definition power_handler :: "(string power_value, string power_value) handler" where
  "power_handler = \<lparr>nd_transformer = (\<lambda>v. v), nd_tags = [''n''],
     nd_values = [(''n'', (\<lparr>av_default = 0, av_data = [(''r'', - 1)]\<rparr>, (([], []), (0, ([], [])))))], nd_updated = [0]\<rparr>"

lemma power_method_step_witness:
  "\<exists>p'. pm_process_update power_handler ''me'' (new_power 0 (av_new 0) ''r'') = Inr p' \<and> pm_element p' = 1 / 2 \<and> pm_eigenvalue p' = 1"
proof -
  let ?p = "new_power 0 (av_new 0) ''r''"
  have f: "columns power_handler = [\<lparr>av_default = 0, av_data = [(''r'', - 1)]\<rparr>]"
    by (simp add: columns_def present_def power_handler_def has_key_def)
  have s: "\<exists>q. sum_process_update pf_process_update qu_process_update (get_sub_handler snd power_handler) ''me'' (pm_sqnorm ?p) = Inr q
      \<and> sum_get_value pf_get_value q = 1"
    by (simp add: sum_process_update_def power_handler_def get_sub_handler_def pf_process_update_def qu_process_update_def
        get_updated_tags_def deref_tag_def get_data_unsafe_def value_at_def pf_update_one_def pf_current_def new_power_def
        new_push_flow_def new_quacc_def entry_def ip_process_update_def f_accumulate_def f_accumulate_impl_def accumulate_def
        has_key_def min_op_min sum_get_value_def pf_get_value_def get_count_def get_raw_count_def Let_def)
  have a: "av_sum (get_sub_handler fst power_handler) = Inr \<lparr>av_default = 0, av_data = [(''r'', - 1)]\<rparr>"
    by (simp add: av_sum_def power_handler_def get_sub_handler_def f_accumulate_impl_def accumulate_def value_at_def has_key_def)
  obtain p' where p: "pm_process_update power_handler ''me'' ?p = Inr p'" "pm_eigenvalue p' = 1"
    using s a by (auto simp: pm_process_update_def Let_def av_at_def new_power_def)
  have "av_entry ''r'' \<lparr>av_default = 0, av_data = [(''r'', - 1)]\<rparr> = - (1 :: real)" by (simp add: av_entry_def)
  with power_method_step [OF p(1)] have "pm_element p' = 1 / 2"
    by (simp add: f p(2) get_keys_def) (simp add: new_power_def)
  with p show ?thesis by blast
qed

end
