(* ===== verification/Sky_Examples.thy ===== *)
theory Sky_Examples
  imports Sky_Jacobi_Example Sky_Associative Sky_Reduce_System "HOL-Library.Signed_Division"
begin

text \<open>
  What the smaller example programs compute themselves: the checks of \<^verbatim>\<open>hello_world\<close> and \<^verbatim>\<open>lc_hello_world\<close> of the
  values that a reduction brings, and the ring of \<^verbatim>\<open>mean_or_sum\<close>, \<^verbatim>\<open>collective_count\<close> and \<^verbatim>\<open>power_method\<close> with
  the matrix of the latter. Random numbers are arguments; the terminal is left out.
\<close>

section \<open>Hello world\<close>

definition node_names :: "string list" where
  "node_names = [''node1'', ''node2'', ''node3'', ''node4'', ''node5'']"

definition node_ports :: "16 word list" where
  "node_ports = [10000, 11000, 12000, 13000, 14000]"

definition hello_main :: "string list \<Rightarrow> nat main_result" where
  "hello_main argv =
     (if length argv \<noteq> 2 then Main_Returns 1
      else let machine_number = int_argument (argv ! 1)
           in if machine_number < 0 \<or> machine_number \<ge> int (length node_ports) then Main_Returns (- 1)
              else Main_Runs (nat machine_number))"

text \<open>The bounds that the sum of \<open>n\<close> numbers from 50 to 150 is checked against; the conversion to \<^verbatim>\<open>int\<close> keeps 32 bits.\<close>

definition min_value :: "nat \<Rightarrow> int" where "min_value n = sint (word_of_nat (50 * n) :: 32 word)"

definition max_value :: "nat \<Rightarrow> int" where "max_value n = sint (word_of_nat (150 * n) :: 32 word)"

text \<open>What a machine does with the result of one reduction: \<open>False\<close> when it gives up since the group has broken.\<close>

definition hello_result :: "nat \<Rightarrow> 32 word option \<Rightarrow> bool res" where
  "hello_result n result_opt =
     (case result_opt of
        None \<Rightarrow> Inr False
      | Some result \<Rightarrow>
          if sint result \<ge> min_value n \<and> sint result \<le> max_value n then Inr True else Inl (Exit_Process 1))"

text \<open>The loop over the results that come; it ends only with a broken group, and \<^verbatim>\<open>lc_hello_world\<close> after 100 results.
  The result is whether the loop has not been left.\<close>

fun hello_loop :: "nat \<Rightarrow> 32 word option list \<Rightarrow> bool res" where
  "hello_loop n [] = Inr True"
| "hello_loop n (r # rs) = rbind (hello_result n r) (\<lambda>go_on. if go_on then hello_loop n rs else Inr False)"

fun lc_hello_loop :: "nat \<Rightarrow> nat \<Rightarrow> 32 word option list \<Rightarrow> bool res" where
  "lc_hello_loop 0 num_total_agents rs = Inr False"
| "lc_hello_loop (Suc i) num_total_agents [] = Inr True"
| "lc_hello_loop (Suc i) num_total_agents (r # rs) =
     rbind (hello_result num_total_agents r) (\<lambda>go_on. if go_on then lc_hello_loop i num_total_agents rs else Inr False)"

lemma foldr1_plus: "xs \<noteq> [] \<Longrightarrow> foldr1 (+) xs = sum_list (xs :: 'a :: comm_monoid_add list)"
proof (induction xs)
  case (Cons x xs)
  then show ?case by (cases "xs = []") (simp_all add: foldr1_Cons)
qed simp

lemma tree_sum: "0 < n \<Longrightarrow> tree_reduce (+) v n 0 = (\<Sum>i < n. v i :: 'a :: comm_monoid_add)"
proof -
  assume n: "0 < n"
  have "tree_reduce (+) v n 0 = sum_list (map v (in_order n 0))"
    using tree_reduce_in_order [of "(+)" 0 n v] n in_order_Nil [of n 0] foldr1_plus [of "map v (in_order n 0)"]
    by (simp add: add.assoc)
  also have "\<dots> = (\<Sum>i \<in> set (in_order n 0). v i)" by (simp add: sum_list_distinct_conv_sum_set distinct_in_order)
  also have "set (in_order n 0) = {..<n}" using in_order_ge in_order_all by blast
  finally show ?thesis .
qed

text \<open>Sums of small numbers do not wrap.\<close>

lemma word_sum_range:
  fixes v :: "nat \<Rightarrow> 32 word"
  assumes "\<forall>i < n. 50 \<le> sint (v i) \<and> sint (v i) \<le> 150" "150 * n < 2 ^ 31"
  shows "sint (\<Sum>i < n. v i) = (\<Sum>i < n. sint (v i)) \<and> 50 * int n \<le> (\<Sum>i < n. sint (v i)) \<and> (\<Sum>i < n. sint (v i)) \<le> 150 * int n"
  using assms
proof (induction n)
  case (Suc n)
  then have IH: "sint (\<Sum>i < n. v i) = (\<Sum>i < n. sint (v i))" "50 * int n \<le> (\<Sum>i < n. sint (v i))" "(\<Sum>i < n. sint (v i)) \<le> 150 * int n"
    by auto
  have n: "50 \<le> sint (v n)" "sint (v n) \<le> 150" using Suc.prems by auto
  have "150 * int (Suc n) < 2 ^ 31" using Suc.prems(2) by simp
  then have "- (2 ^ 31) \<le> sint (\<Sum>i < n. v i) + sint (v n)" "sint (\<Sum>i < n. v i) + sint (v n) < 2 ^ 31" using IH n by auto
  then have "sint ((\<Sum>i < n. v i) + v n) = sint (\<Sum>i < n. v i) + sint (v n)"
    by (simp add: sint_word_ariths signed_take_bit_int_eq_self_iff)
  then show ?case using IH n by simp
qed simp

text \<open>C35: The check of the result never fails: the sum of numbers from 50 to 150 over any number of machines, as long as
  three digits each fit into 31 bits, is in the range that is computed for it, so that the process does not
  exit, and the loops end only when a group breaks or after their 100 rounds.\<close>

theorem hello_sum_in_range:
  assumes "0 < n" "150 * n < 2 ^ 31"
    and "\<forall>r \<in> set rs. r \<noteq> None \<longrightarrow> (\<exists>v. (\<forall>i < n. 50 \<le> sint (v i) \<and> sint (v i) \<le> 150) \<and> r = Some (tree_reduce (+) v n 0))"
  shows "hello_loop n rs = Inr (None \<notin> set rs) \<and> lc_hello_loop rounds n rs = Inr (length rs < rounds \<and> None \<notin> set rs)"
proof -
  have b: "min_value n = 50 * int n" "max_value n = 150 * int n"
  proof -
    have "50 * int n < 2 ^ 31" "150 * int n < 2 ^ 31" using assms(2) by simp_all
    then show "min_value n = 50 * int n" "max_value n = 150 * int n"
      by (simp_all add: min_value_def max_value_def signed_of_nat signed_take_bit_int_eq_self del: of_nat_mult)
  qed
  have ok: "hello_result n r = Inr (r \<noteq> None)"
    if "r \<noteq> None \<longrightarrow> (\<exists>v. (\<forall>i < n. 50 \<le> sint (v i) \<and> sint (v i) \<le> 150) \<and> r = Some (tree_reduce (+) v n 0))" for r
  proof (cases r)
    case (Some w)
    with that obtain v where v: "\<forall>i < n. 50 \<le> sint (v i) \<and> sint (v i) \<le> 150" "w = (\<Sum>i < n. v i)"
      using tree_sum [OF assms(1)] by auto
    then show ?thesis using word_sum_range [OF v(1) assms(2)] Some by (simp add: hello_result_def b)
  qed (simp add: hello_result_def)
  have "hello_loop n rs = Inr (None \<notin> set rs)" using assms(3)
  proof (induction rs)
    case (Cons r rs)
    then show ?case using ok [of r] by (cases r) auto
  qed simp
  moreover have "lc_hello_loop rounds n rs = Inr (length rs < rounds \<and> None \<notin> set rs)" using assms(3)
  proof (induction rounds arbitrary: rs)
    case (Suc i)
    show ?case
    proof (cases rs)
      case (Cons r rs')
      then show ?thesis using Suc ok [of r] by (cases r) auto
    qed simp
  qed simp
  ultimately show ?thesis by blast
qed

lemma hello_sum_in_range_witness:
  "hello_loop 2 [Some (tree_reduce (+) (\<lambda>i. 100) 2 0), None] = Inr False"
proof -
  let ?r = "Some (tree_reduce (+) (\<lambda>i. 100 :: 32 word) 2 0)"
  have "\<forall>i < (2 :: nat). 50 \<le> sint (100 :: 32 word) \<and> sint (100 :: 32 word) \<le> 150" by simp
  then have "\<forall>r \<in> set [?r, None]. r \<noteq> None \<longrightarrow>
      (\<exists>v. (\<forall>i < 2. 50 \<le> sint (v i) \<and> sint (v i) \<le> 150) \<and> r = Some (tree_reduce (+) v 2 0))" by force
  then have "hello_loop 2 [?r, None] = Inr (None \<notin> set [?r, None])" by (intro hello_sum_in_range [THEN conjunct1]) simp_all
  then show ?thesis by simp
qed

section \<open>The ring\<close>

text \<open>The lambda \<^verbatim>\<open>wrap_ind\<close>: \<^verbatim>\<open>%\<close> rounds towards 0. Sizes are small enough for twice the size to be an \<^verbatim>\<open>int\<close>.\<close>

definition wrap_ind :: "int \<Rightarrow> int \<Rightarrow> int" where
  "wrap_ind size_of_system ind = ((ind smod size_of_system) + size_of_system) smod size_of_system"

definition ps_tag_ids :: "int \<Rightarrow> tag_id list" where
  "ps_tag_ids size_of_system = map (\<lambda>i. ''push_sum_tag'' @ to_dec i) [0..<nat size_of_system]"

text \<open>The tags that \<^verbatim>\<open>mean_or_sum\<close> and \<^verbatim>\<open>collective_count\<close> subscribe to.\<close>

definition ring_tags :: "tag_id list \<Rightarrow> int \<Rightarrow> int \<Rightarrow> tag_id list res" where
  "ring_tags tagIDs size_of_system i =
     rbind (vec_at tagIDs (nat (wrap_ind size_of_system (i - 1)))) (\<lambda>before.
     rbind (vec_at tagIDs (nat i)) (\<lambda>own.
     rbind (vec_at tagIDs (nat (wrap_ind size_of_system (i + 1)))) (\<lambda>after. Inr [before, own, after])))"

text \<open>The same in \<^verbatim>\<open>power_method\<close>, where \<open>i\<close> and \<^verbatim>\<open>sos\<close> have no sign, and its column of the matrix.\<close>

definition power_tags :: "tag_id list \<Rightarrow> nat \<Rightarrow> nat \<Rightarrow> tag_id list res" where
  "power_tags tagIDs sos i =
     (if i = 0 then rbind (vec_at tagIDs i) (\<lambda>a. rbind (vec_at tagIDs (i + 1)) (\<lambda>b. rbind (vec_at tagIDs (sos - 1)) (\<lambda>c. Inr [a, b, c])))
      else if i = sos - 1
      then rbind (vec_at tagIDs 0) (\<lambda>a. rbind (vec_at tagIDs (i - 1)) (\<lambda>b. rbind (vec_at tagIDs i) (\<lambda>c. Inr [a, b, c])))
      else rbind (vec_at tagIDs (i - 1)) (\<lambda>a. rbind (vec_at tagIDs i) (\<lambda>b. rbind (vec_at tagIDs (i + 1)) (\<lambda>c. Inr [a, b, c]))))"

definition matrix_column :: "nat \<Rightarrow> nat \<Rightarrow> (32 word, real) assoc_vec" where
  "matrix_column size_of_system i =
     (if i = 0 then av_of_map [(word_of_nat i, 1 / 10), (word_of_nat (i + 1), 1)] 0
      else if i = size_of_system - 1 then av_of_map [(word_of_nat (i - 1), 1), (word_of_nat i, 1 / 10)] 0
      else av_of_map [(word_of_nat (i - 1), 1), (word_of_nat i, 1 / 10), (word_of_nat (i + 1), 1)] 0)"

definition obtain_exact_average :: "nat \<Rightarrow> real" where
  "obtain_exact_average size_of_system = fold (\<lambda>i average. average + (1 * of_nat i + 1)) [0..<size_of_system] 0 / of_nat size_of_system"

text \<open>The checks of \<^verbatim>\<open>main\<close>: the number of the machine, the first port, the size; an exception is not caught, and the size
  less one is computed for all of them.\<close>

definition ring_main :: "string list \<Rightarrow> (int \<times> 16 word \<times> int) main_result res" where
  "ring_main argv =
     (if length argv < 4 then Inr (Main_Returns 1)
      else rbind (stoi_throws (argv ! 1)) (\<lambda>machine_number. rbind (stoi_throws (argv ! 2)) (\<lambda>starting_port_number.
           rbind (stoi_throws (argv ! 3)) (\<lambda>size_of_system.
             if size_of_system = - (2 ^ 31) then Inl Undefined_Behaviour
             else if machine_number > size_of_system - 1 \<or> machine_number < 0 then Inr (Main_Returns (- 1))
             else if size_of_system \<le> 0 then Inr (Main_Returns (- 1))
             else Inr (Main_Runs (machine_number, word_of_int starting_port_number, size_of_system))))))"

lemma wrap_ind_mod: "0 < n \<Longrightarrow> wrap_ind n i = i mod n"
proof -
  assume n: "0 < n"
  then have "0 < i smod n + n" using smod_int_range [where a = i and b = n] by auto
  then have "wrap_ind n i = (i smod n + n) mod n" using n
    by (auto simp: wrap_ind_def signed_modulo_int_eq_modulo_int [of "i smod n + n"] sgn_if)
  also have "\<dots> = i mod n" by (simp add: signed_modulo_int_eq_modulo_int mod_diff_eq)
  finally show ?thesis .
qed

definition ps_tag :: "nat \<Rightarrow> tag_id" where
  "ps_tag i = ''push_sum_tag'' @ to_dec i"

definition ring_nbrs :: "nat \<Rightarrow> nat \<Rightarrow> nat list" where
  "ring_nbrs n i = [(i + (n - 1)) mod n, i, (i + 1) mod n]"

lemma inj_ps_tag: "inj ps_tag"
proof (rule injI)
  fix i j assume "ps_tag i = ps_tag j"
  then have "scan_digits 0 (to_dec i @ []) = scan_digits 0 (to_dec j @ [])" by (simp add: ps_tag_def)
  then show "i = j" using scan_to_dec [of "[]" i] scan_to_dec [of "[]" j] by (simp add: ends_word_def)
qed

lemma ring_tags_nbrs:
  assumes "i < n"
  shows "ring_tags (ps_tag_ids (int n)) (int n) (int i) = Inr (map ps_tag (ring_nbrs n i))"
proof -
  have "wrap_ind (int n) (int i - 1) = int ((i + (n - 1)) mod n)"
  proof -
    have "(int i - 1) mod int n = (int i - 1 + int n) mod int n" by simp
    also have "int i - 1 + int n = int (i + (n - 1))" using assms by auto
    finally show ?thesis using assms by (simp add: wrap_ind_mod zmod_int)
  qed
  moreover have "wrap_ind (int n) (int i + 1) = int ((i + 1) mod n)" using assms by (simp add: wrap_ind_mod zmod_int add.commute)
  ultimately show ?thesis using assms by (simp add: ring_tags_def ps_tag_ids_def vec_at_def ring_nbrs_def ps_tag_def)
qed

text \<open>Walking along the ring in either direction.\<close>

lemma ball_step: "j \<in> ball nbrs n k \<Longrightarrow> k \<in> set (nbrs i) \<Longrightarrow> j \<in> ball nbrs (Suc n) i"
  by auto

lemma ring_forwards: "i < n \<Longrightarrow> (i + k) mod n \<in> ball (ring_nbrs n) k i"
proof (induction k arbitrary: i)
  case (Suc k)
  have "(i + Suc k) mod n = ((i + 1) mod n + k) mod n" by (simp add: mod_simps)
  then have "(i + Suc k) mod n \<in> ball (ring_nbrs n) k ((i + 1) mod n)" using Suc.IH [of "(i + 1) mod n"] Suc.prems by simp
  then show ?case by (rule ball_step) (simp add: ring_nbrs_def)
qed simp

lemma ring_backwards: "i < n \<Longrightarrow> (i + k * (n - 1)) mod n \<in> ball (ring_nbrs n) k i"
proof (induction k arbitrary: i)
  case (Suc k)
  have "(i + Suc k * (n - 1)) mod n = ((i + (n - 1)) mod n + k * (n - 1)) mod n" by (simp add: mod_simps ac_simps)
  then have "(i + Suc k * (n - 1)) mod n \<in> ball (ring_nbrs n) k ((i + (n - 1)) mod n)"
    using Suc.IH [of "(i + (n - 1)) mod n"] Suc.prems by simp
  then show ?case by (rule ball_step) (simp add: ring_nbrs_def)
qed simp

lemma ball_mono: "m \<le> n \<Longrightarrow> ball nbrs m i \<subseteq> ball nbrs n i"
  by (induction n) (auto simp: le_Suc_eq)

lemma ball_within: "(\<And>i. i < N \<Longrightarrow> set (nbrs i) \<subseteq> {..<N}) \<Longrightarrow> i < N \<Longrightarrow> ball nbrs n i \<subseteq> {..<N}"
proof (induction n arbitrary: i)
  case (Suc n)
  have "ball nbrs n k \<subseteq> {..<N}" if "k = i \<or> k \<in> set (nbrs i)" for k
    using Suc.IH [OF Suc.prems(1), of k] Suc.prems that by blast
  then show ?case by auto
qed simp

lemma ring_ball:
  assumes "i < n"
  shows "ball (ring_nbrs n) (n div 2) i = {..<n}"
proof
  show "ball (ring_nbrs n) (n div 2) i \<subseteq> {..<n}" using assms by (intro ball_within) (auto simp: ring_nbrs_def)
  show "{..<n} \<subseteq> ball (ring_nbrs n) (n div 2) i"
  proof
    fix j assume "j \<in> {..<n}"
    then have j: "j < n" by simp
    define d where "d = (j + n - i) mod n"
    have d: "d < n" "(i + d) mod n = j" using assms j by (simp_all add: d_def mod_simps)
    show "j \<in> ball (ring_nbrs n) (n div 2) i"
    proof (cases "d \<le> n div 2")
      case True
      have "j \<in> ball (ring_nbrs n) d i" using ring_forwards [OF assms, of d] d(2) by simp
      then show ?thesis using ball_mono [OF True] by blast
    next
      case False
      then have le: "n - d \<le> n div 2" by linarith
      have "(n - d) * (n - 1) + (n - d) = (n - d) * (n - 1 + 1)" by (simp only: distrib_left mult_1_right)
      then have "i + (n - d) * (n - 1) + n = i + d + (n - d) * n" using d(1) by simp
      then have "(i + (n - d) * (n - 1) + n) mod n = (i + d + (n - d) * n) mod n" by (rule arg_cong)
      then have "(i + (n - d) * (n - 1)) mod n = (i + d) mod n" by simp
      then have "j \<in> ball (ring_nbrs n) (n - d) i" using ring_backwards [OF assms, of "n - d"] d(2) by simp
      then show ?thesis using ball_mono [OF le] by blast
    qed
  qed
qed

text \<open>On the ring of the examples every machine hears of every other: the tags that it subscribes to are those of the
  machines before and after it and its own, and when all machines exchange maxima round by round, after half as
  many rounds as there are machines each has the greatest starting value of all.\<close>

theorem ring_gossip_complete:
  fixes v :: "nat \<Rightarrow> nat \<Rightarrow> 'a :: linorder"
  assumes "i < n"
    and "\<And>r k. k < n \<Longrightarrow> ip_process_update max_op (gossip_handler ps_tag (v r) (ring_nbrs n k)) (v r k) = Inr (v (Suc r) k)"
  shows "ring_tags (ps_tag_ids (int n)) (int n) (int i) = Inr (map ps_tag (ring_nbrs n i))
    \<and> v (n div 2) i = Max (v 0 ` {..<n})"
proof -
  have "ring_nbrs n k \<noteq> [] \<and> set (ring_nbrs n k) \<subseteq> {..<n}" if "k < n" for k using that by (auto simp: ring_nbrs_def)
  moreover have "inj_on ps_tag {..<n}" using inj_ps_tag by (rule inj_on_subset) simp
  ultimately have "v (n div 2) i = Max (v 0 ` ball (ring_nbrs n) (n div 2) i)"
    using gossip_ball [where N = n and nbrs = "ring_nbrs n" and tag = ps_tag and v = v and n = "n div 2" and i = i] assms by blast
  then show ?thesis using ring_tags_nbrs [OF assms(1)] ring_ball [OF assms(1)] by simp
qed

text \<open>Three machines with the values 1, 2 and 0.\<close>

definition three_values :: "nat \<Rightarrow> nat \<Rightarrow> nat" where
  "three_values r i = (if r = 0 then (i + 1) mod 3 else 2)"

lemma ring_gossip_complete_witness: "three_values 1 2 = Max (three_values 0 ` {..<3})"
proof -
  have "ip_process_update max_op (gossip_handler ps_tag (three_values r) (ring_nbrs 3 k)) (three_values r k) = Inr (three_values (Suc r) k)"
    if "k < 3" for r k
  proof -
    have "inj_on ps_tag (set (ring_nbrs 3 k))" using inj_ps_tag by (rule inj_on_subset) simp
    moreover have "k = 0 \<or> k = 1 \<or> k = 2" using that by auto
    ultimately show ?thesis by (subst max_gossip_step) (auto simp: ring_nbrs_def three_values_def)
  qed
  from ring_gossip_complete [where v = three_values and n = 3 and i = 2, OF _ this] show ?thesis by simp
qed

lemma column_entry:
  assumes "i < n" "k < n" "2 \<le> n" "n < 2 ^ 32"
  shows "av_entry (word_of_nat i) (matrix_column n k) = (if i = k then 1 / 10 else if i = k + 1 \<or> k = i + 1 then 1 else 0)"
proof -
  have word: "(word_of_nat i = (word_of_nat j :: 32 word)) = (i = j)" if "j < n" for j
    using that assms by (simp add: word_of_nat_eq_iff take_bit_nat_eq_self)
  consider "k = 0" | "0 < k" "k = n - 1" | "0 < k" "k \<noteq> n - 1" by blast
  then show ?thesis
  proof cases
    case 1
    then show ?thesis using word [of 0] word [of 1] assms by (simp add: matrix_column_def av_entry_def av_of_map_def)
  next
    case 2
    then show ?thesis using word [of "k - 1"] word [of k] assms by (auto simp: matrix_column_def av_entry_def av_of_map_def)
  next
    case 3
    then have "k + 1 < n" "k - 1 < n" using assms by linarith+
    then have w: "(word_of_nat i = (word_of_nat (k - 1) :: 32 word)) = (i = k - 1)" "(word_of_nat i = (word_of_nat k :: 32 word)) = (i = k)"
      "(word_of_nat i = (word_of_nat (k + 1) :: 32 word)) = (i = k + 1)" using word assms by blast+
    have e: "av_entry w (av_of_map [(a, 1), (b, 1 / 10), (c, 1)] 0) = (if w = a then 1 else if w = b then 1 / 10 else if w = c then 1 else (0 :: real))"
      for w a b c :: "32 word" by (simp add: av_entry_def av_of_map_def)
    have "matrix_column n k = av_of_map [(word_of_nat (k - 1), 1), (word_of_nat k, 1 / 10), (word_of_nat (k + 1), 1)] 0"
      using 3 unfolding matrix_column_def by (metis less_not_refl)
    then have "av_entry (word_of_nat i) (matrix_column n k) = (if i = k - 1 then 1 else if i = k then 1 / 10 else if i = k + 1 then 1 else 0)"
      by (simp only: e w)
    then show ?thesis using 3 by auto
  qed
qed

lemma power_tags_list:
  assumes "i < n" "2 \<le> n"
  shows "power_tags (ps_tag_ids (int n)) n i = Inr (map ps_tag (if i = 0 then [0, 1, n - 1] else if i = n - 1 then [0, i - 1, i] else [i - 1, i, i + 1]))"
  using assms by (auto simp: power_tags_def ps_tag_ids_def vec_at_def ps_tag_def)

lemma ring_nbrs_cases:
  assumes "i < n" "2 \<le> n"
  shows "set (ring_nbrs n i) = set (if i = 0 then [0, 1, n - 1] else if i = n - 1 then [0, i - 1, i] else [i - 1, i, i + 1])"
proof -
  have "(i + (n - 1)) mod n = (if i = 0 then n - 1 else i - 1)"
  proof (cases "i = 0")
    case False
    then have "i + (n - 1) = i - 1 + n" using assms by simp
    then have "(i + (n - 1)) mod n = (i - 1) mod n" by (simp only: mod_add_self2)
    then show ?thesis using False assms by simp
  qed (use assms in simp)
  moreover have "(i + 1) mod n = (if i = n - 1 then 0 else i + 1)" using assms by auto
  ultimately show ?thesis using assms by (auto simp: ring_nbrs_def)
qed

text \<open>The power method subscribes to the same machines, in another order, and these are enough for its matrix: every
  column with an entry in a machine's row is that of a machine it hears of, the matrix is symmetric; but with two
  machines the other one's tag is there twice, so that its column counts twice.\<close>

theorem power_ring_covers:
  assumes "i < n" "2 \<le> n" "n < 2 ^ 32"
  shows "\<exists>tags. power_tags (ps_tag_ids (int n)) n i = Inr tags \<and> set tags = ps_tag ` set (ring_nbrs n i)
    \<and> (distinct tags \<longleftrightarrow> 3 \<le> n)
    \<and> (\<forall>k < n. av_entry (word_of_nat i) (matrix_column n k) \<noteq> 0 \<longrightarrow> ps_tag k \<in> set tags)
    \<and> (\<forall>k < n. av_entry (word_of_nat i) (matrix_column n k) = av_entry (word_of_nat k) (matrix_column n i))"
proof -
  let ?ks = "if i = 0 then [0, 1, n - 1] else if i = n - 1 then [0, i - 1, i] else [i - 1, i, i + 1]"
  have "set (map ps_tag ?ks) = ps_tag ` set (ring_nbrs n i)" using ring_nbrs_cases [OF assms(1,2)] by simp
  moreover have "distinct (map ps_tag ?ks) \<longleftrightarrow> distinct ?ks"
    using inj_on_subset [OF inj_ps_tag subset_UNIV] by (simp only: distinct_map simp_thms)
  moreover have "distinct ?ks \<longleftrightarrow> 3 \<le> n" using assms by auto
  moreover have "ps_tag k \<in> set (map ps_tag ?ks)"
    if "k < n" "av_entry (word_of_nat i) (matrix_column n k) \<noteq> 0" for k
  proof -
    have "i = k \<or> i = k + 1 \<or> k = i + 1" using that column_entry [OF assms(1) that(1) assms(2,3)] by (auto split: if_splits)
    then have "k \<in> set ?ks" using that(1) assms(1) by auto
    then show ?thesis by simp
  qed
  moreover have "\<forall>k < n. av_entry (word_of_nat i) (matrix_column n k) = av_entry (word_of_nat k) (matrix_column n i)"
    using column_entry assms by auto
  ultimately show ?thesis using power_tags_list [OF assms(1,2)] by (intro exI [of _ "map ps_tag ?ks"]) blast
qed

lemma power_ring_covers_witness:
  "\<exists>tags. power_tags (ps_tag_ids (int 2)) 2 0 = Inr tags \<and> \<not> distinct tags"
  using power_ring_covers [of 0 2] by auto

text \<open>What \<^verbatim>\<open>mean_or_sum\<close> calls the exact solution is the average of the starting values, while its processor is that
  of a sum.\<close>

lemma exact_average:
  assumes "0 < n"
  shows "obtain_exact_average n = (of_nat n + 1) / 2" "obtain_exact_average n * of_nat n = (\<Sum>i < n. of_nat (i + 1))"
proof -
  have f: "fold (\<lambda>i average. average + (1 * of_nat i + 1)) [0..<n] (0 :: real) = (\<Sum>i < n. of_nat (i + 1))" for n
    by (induction n) simp_all
  have s: "2 * (\<Sum>i < n. of_nat (i + 1)) = of_nat n * (of_nat n + 1 :: real)" for n
    by (induction n) (simp_all add: algebra_simps)
  show "obtain_exact_average n = (of_nat n + 1) / 2" using assms s [of n] unfolding obtain_exact_average_def f by (simp add: field_simps)
  show "obtain_exact_average n * of_nat n = (\<Sum>i < n. of_nat (i + 1))" using assms unfolding obtain_exact_average_def f by simp
qed

end
