(* ===== verification/Sky_Ring_Machines.thy ===== *)
theory Sky_Ring_Machines
  imports Sky_Examples
begin

text \<open>
  The programs \<^verbatim>\<open>mean_or_sum.cpp\<close>, \<^verbatim>\<open>collective_count.cpp\<close> and \<^verbatim>\<open>power_method.cpp\<close> from their command line to the machine that
  they set up: port, name and connection of its manager, its tags, the arguments of its processor and its time.
  What runs then is the asynchronous method of the library.
\<close>

record 'p ring_task =
  rt_port :: "16 word"
  rt_name :: string
  rt_connect :: "(string \<times> 16 word) option"
  rt_tag :: tag_id
  rt_subscribed :: "tag_id list"
  rt_seconds :: nat
  rt_processor :: 'p

text \<open>The manager of a machine, and whom it connects to; the last of the ports connects to none.\<close>

definition join_chain :: "nat \<Rightarrow> 16 word list \<Rightarrow> string list \<Rightarrow> (16 word \<times> string \<times> (string \<times> 16 word) option) res" where
  "join_chain machine_number ports machine_names =
     rbind (vec_at ports machine_number) (\<lambda>port.
     rbind (vec_at machine_names machine_number) (\<lambda>name.
     rbind (if int machine_number \<noteq> int (length ports) - 1
            then rbind (vec_at ports (machine_number + 1)) (\<lambda>p. Inr (Some (''127.0.0.1'', p))) else Inr None) (\<lambda>server.
       Inr (port, name, server))))"

definition ring_machine :: "nat \<Rightarrow> 16 word list \<Rightarrow> string list \<Rightarrow> tag_id \<Rightarrow> tag_id list res \<Rightarrow> nat \<Rightarrow> 'p \<Rightarrow> 'p ring_task res" where
  "ring_machine machine_number ports machine_names pubTagID tagIDs_for_sub seconds processor =
     rbind (join_chain machine_number ports machine_names) (\<lambda>(port, name, server).
     rbind tagIDs_for_sub (\<lambda>tags.
       Inr \<lparr>rt_port = port, rt_name = name, rt_connect = server, rt_tag = pubTagID, rt_subscribed = tags, rt_seconds = seconds,
            rt_processor = processor\<rparr>))"

text \<open>The functions \<^verbatim>\<open>machine_task\<close> of the three programs: the first starts with a value, the second with the number of its
  neighbours, the third with its column.\<close>

definition mean_or_sum_task :: "nat \<Rightarrow> int \<Rightarrow> real \<Rightarrow> 16 word list \<Rightarrow> string list \<Rightarrow> tag_id \<Rightarrow> tag_id list \<Rightarrow> real ring_task res" where
  "mean_or_sum_task machine_number size_of_system starting_value ports machine_names pubTagID tagIDs =
     ring_machine machine_number ports machine_names pubTagID (ring_tags tagIDs size_of_system (int machine_number)) 50 starting_value"

definition collective_count_task :: "nat \<Rightarrow> int \<Rightarrow> 16 word list \<Rightarrow> string list \<Rightarrow> tag_id \<Rightarrow> tag_id list \<Rightarrow> nat ring_task res" where
  "collective_count_task machine_number size_of_system ports machine_names pubTagID tagIDs =
     ring_machine machine_number ports machine_names pubTagID (ring_tags tagIDs size_of_system (int machine_number)) 15 2"

definition power_method_task :: "nat \<Rightarrow> nat \<Rightarrow> 16 word list \<Rightarrow> string list \<Rightarrow> tag_id \<Rightarrow> tag_id list \<Rightarrow> ((32 word, real) assoc_vec \<times> nat) ring_task res" where
  "power_method_task machine_number size_of_system ports machine_names pubTagID tagIDs =
     ring_machine machine_number ports machine_names pubTagID (power_tags tagIDs size_of_system machine_number) 180
       (matrix_column size_of_system machine_number, machine_number)"

text \<open>The functions \<^verbatim>\<open>main\<close>. The names and the ports are made for the last 16 bits of the size, the tags for all of it.\<close>

definition run_ring :: "string list \<Rightarrow> (nat \<Rightarrow> int \<Rightarrow> 16 word list \<Rightarrow> string list \<Rightarrow> tag_id list \<Rightarrow> 'p ring_task res) \<Rightarrow> 'p ring_task main_result res" where
  "run_ring argv machine_task =
     rbind (ring_main argv) (\<lambda>r. case r of
       Main_Returns c \<Rightarrow> Inr (Main_Returns c)
     | Main_Runs (machine_number, starting_port_number, size_of_system) \<Rightarrow>
         rbind (machine_task (nat machine_number) size_of_system (set_port starting_port_number (word_of_int size_of_system))
           (obtain_machine_names (word_of_int size_of_system)) (ps_tag_ids size_of_system)) (\<lambda>t. Inr (Main_Runs t)))"

definition mean_or_sum_main :: "string list \<Rightarrow> real ring_task main_result res" where
  "mean_or_sum_main argv = run_ring argv (\<lambda>machine_number size_of_system ports machine_names subTagIDs.
     mean_or_sum_task machine_number size_of_system ((of_nat machine_number + 1) * 1) ports machine_names
       (''push_sum_tag'' @ to_dec machine_number) subTagIDs)"

definition collective_count_main :: "string list \<Rightarrow> nat ring_task main_result res" where
  "collective_count_main argv = run_ring argv (\<lambda>machine_number size_of_system ports machine_names subTagIDs.
     rbind (vec_at subTagIDs machine_number) (\<lambda>pubTagID.
       collective_count_task machine_number size_of_system ports machine_names pubTagID subTagIDs))"

definition power_method_main :: "string list \<Rightarrow> ((32 word, real) assoc_vec \<times> nat) ring_task main_result res" where
  "power_method_main argv = run_ring argv (\<lambda>machine_number size_of_system ports machine_names subTagIDs.
     power_method_task machine_number (nat size_of_system) ports machine_names
       (''push_sum_tag'' @ to_dec machine_number) subTagIDs)"

section \<open>The machines together\<close>

text \<open>The machine that the programs are to set up as the \<open>i\<close>th of \<open>n\<close>.\<close>

definition chain_task :: "nat \<Rightarrow> nat \<Rightarrow> nat \<Rightarrow> nat list \<Rightarrow> nat \<Rightarrow> 'p \<Rightarrow> 'p ring_task" where
  "chain_task start n i neighbors seconds p =
     \<lparr>rt_port = word_of_nat (start + i), rt_name = ''node'' @ to_dec (i + 1),
      rt_connect = (if i + 1 < n then Some (''127.0.0.1'', word_of_nat (start + (i + 1))) else None),
      rt_tag = ps_tag i, rt_subscribed = map ps_tag neighbors, rt_seconds = seconds, rt_processor = p\<rparr>"

definition power_nbrs :: "nat \<Rightarrow> nat \<Rightarrow> nat list" where
  "power_nbrs n i = (if i = 0 then [0, 1, n - 1] else if i = n - 1 then [0, i - 1, i] else [i - 1, i, i + 1])"

lemma ring_main_runs:
  assumes "i < n" "n < 2 ^ 16" "start < 2 ^ 31"
  shows "ring_main (program # to_dec i # to_dec start # to_dec n # rest) = Inr (Main_Runs (int i, word_of_nat start, int n))"
  using assms by (simp add: ring_main_def stoi_throws_def stoi_to_dec)

lemma join_chain_runs:
  assumes "i < n" "n < 2 ^ 16"
  shows "join_chain i (set_port (word_of_nat start) (word_of_int (int n))) (obtain_machine_names (word_of_int (int n)))
    = Inr (word_of_nat (start + i), ''node'' @ to_dec (i + 1),
        if i + 1 < n then Some (''127.0.0.1'', word_of_nat (start + (i + 1))) else None)"
proof -
  have u: "unat (word_of_nat n :: 16 word) = n" using assms(2) by (simp add: unat_of_nat)
  have p: "set_port (word_of_nat start) (word_of_nat n) = map (\<lambda>i. word_of_nat (start + i)) [0..<n]"
    by (simp add: set_port_def u)
  have c: "int i \<noteq> int n - 1 \<longleftrightarrow> i + 1 < n" using assms(1) by auto
  show ?thesis using assms(1) c by (simp add: join_chain_def p obtain_machine_names_def u vec_at_def del: of_nat_add)
qed

lemma run_ring_runs:
  assumes "i < n" "n < 2 ^ 16" "start < 2 ^ 31"
  shows "run_ring (program # to_dec i # to_dec start # to_dec n # rest)
      (\<lambda>m size ports names ids. ring_machine m ports names (tag m) (tags m size ids) seconds (p m size))
    = rbind (tags i (int n) (ps_tag_ids (int n))) (\<lambda>ts. Inr (Main_Runs ((chain_task start n i [] seconds (p i (int n)))
        \<lparr>rt_tag := tag i, rt_subscribed := ts\<rparr>)))"
  using assms by (cases "tags i (int n) (ps_tag_ids (int n))")
    (simp_all add: run_ring_def ring_main_runs ring_machine_def join_chain_runs chain_task_def del: of_nat_add of_int_of_nat_eq)

lemma ring_nbrs_power: "i < n \<Longrightarrow> 2 \<le> n \<Longrightarrow> set (power_nbrs n i) = set (ring_nbrs n i)"
  using ring_nbrs_cases by (simp add: power_nbrs_def)

text \<open>C24: Started with the numbers \<open>0\<close> to \<open>n - 1\<close> and the same first port, the machines of each program make up one network:
  machine \<open>i\<close> listens on the \<open>i\<close>th port after the first and connects to the next machine, the last one to none; it
  publishes under its own tag and subscribes to its neighbours on the ring and to itself, in \<^verbatim>\<open>power_method\<close> in another
  order; and along these subscriptions a value comes from any machine to any other in half as many rounds as there
  are machines.\<close>

theorem ring_programs_start:
  assumes "i < n" "2 \<le> n" "n < 2 ^ 16" "start < 2 ^ 31"
  shows "mean_or_sum_main (program # to_dec i # to_dec start # to_dec n # rest)
      = Inr (Main_Runs (chain_task start n i (ring_nbrs n i) 50 (of_nat i + 1)))
    \<and> collective_count_main (program # to_dec i # to_dec start # to_dec n # rest)
      = Inr (Main_Runs (chain_task start n i (ring_nbrs n i) 15 2))
    \<and> power_method_main (program # to_dec i # to_dec start # to_dec n # rest)
      = Inr (Main_Runs (chain_task start n i (power_nbrs n i) 180 (matrix_column n i, i)))
    \<and> set (power_nbrs n i) = set (ring_nbrs n i) \<and> ball (ring_nbrs n) (n div 2) i = {..<n}"
proof (intro conjI)
  note run = run_ring_runs [OF assms(1,3,4), of program rest]
  have own: "vec_at (ps_tag_ids (int n)) i = Inr (ps_tag i)" using assms(1) by (simp add: vec_at_def ps_tag_ids_def ps_tag_def)
  show "mean_or_sum_main (program # to_dec i # to_dec start # to_dec n # rest)
      = Inr (Main_Runs (chain_task start n i (ring_nbrs n i) 50 (of_nat i + 1)))"
    unfolding mean_or_sum_main_def mean_or_sum_task_def run ring_tags_nbrs [OF assms(1)] by (simp add: chain_task_def ps_tag_def)
  show "power_method_main (program # to_dec i # to_dec start # to_dec n # rest)
      = Inr (Main_Runs (chain_task start n i (power_nbrs n i) 180 (matrix_column n i, i)))"
    unfolding power_method_main_def power_method_task_def run using power_tags_list [OF assms(1,2)]
    by (simp add: chain_task_def ps_tag_def power_nbrs_def)
  show "collective_count_main (program # to_dec i # to_dec start # to_dec n # rest)
      = Inr (Main_Runs (chain_task start n i (ring_nbrs n i) 15 2))"
    using own assms by (simp add: collective_count_main_def collective_count_task_def run_ring_def ring_main_runs ring_machine_def
      join_chain_runs ring_tags_nbrs chain_task_def del: of_nat_add of_int_of_nat_eq)
qed (rule ring_nbrs_power [OF assms(1,2)], rule ring_ball [OF assms(1)])

lemma ring_programs_start_witness:
  "mean_or_sum_main [''mean_or_sum'', to_dec 2, to_dec 20000, to_dec 3]
    = Inr (Main_Runs \<lparr>rt_port = 20002, rt_name = ''node'' @ to_dec 3, rt_connect = None, rt_tag = ps_tag 2,
        rt_subscribed = [ps_tag 1, ps_tag 2, ps_tag 0], rt_seconds = 50, rt_processor = 3\<rparr>)"
  using ring_programs_start [of 2 3 20000 "''mean_or_sum''" "[]"] by (simp add: chain_task_def ring_nbrs_def)

text \<open>What the programs refuse: too few arguments, numbers that cannot be read, and numbers out of range. The second test of
  the size is never reached, since the first refuses every number of a machine for it.\<close>

lemma ring_programs_refuse:
  "length argv < 4 \<Longrightarrow> run_ring argv task = Inr (Main_Returns 1)"
  "stoi a = None \<Longrightarrow> run_ring (program # a # rest @ [b, c]) task = Inl Exception_Thrown"
  "stoi (argv ! 1) = Some m \<Longrightarrow> stoi (argv ! 2) = Some port \<Longrightarrow> stoi (argv ! 3) = Some n \<Longrightarrow> 4 \<le> length argv \<Longrightarrow> m < 0 \<or> n \<le> m
    \<Longrightarrow> n \<noteq> - (2 ^ 31) \<Longrightarrow> run_ring argv task = Inr (Main_Returns (- 1))"
  by (auto simp: run_ring_def ring_main_def stoi_throws_def)

end
