(* ===== verification/Sky_Setup.thy ===== *)
theory Sky_Setup
  imports Sky_Config Sky_Waiter
begin

text \<open>
  How a program sets up a machine: \<^verbatim>\<open>skywing_core/basic_manager_config.cpp\<close> reads what a manager is made of
  from a text, and \<^verbatim>\<open>skywing_mid/helpers/skynet_helper.hpp\<close> waits for the neighbours with a time limit.
\<close>

section \<open>The configuration of a manager\<close>

record manager_info =
  mi_name :: string
  mi_connect :: "string list"
  mi_heartbeat :: "32 word"
  mi_port :: "16 word"

text \<open>\<^verbatim>\<open>parse_integer_line\<close> for an unsigned type with values up to \<open>upper_end\<close>: the lines that are left, of which it
  takes the first. \<^verbatim>\<open>strtoll\<close> of 64 bits is \<^verbatim>\<open>strtol\<close>; an empty line is a 0 for it, with nothing left.\<close>

definition parse_integer_line :: "int \<Rightarrow> string list \<Rightarrow> (int \<times> string list) option" where
  "parse_integer_line upper_end ls =
     (case ls of
        [] \<Rightarrow> None
      | num_line # rest \<Rightarrow>
          (let (v, left_over) = strtol num_line
           in if left_over \<noteq> [] \<or> v < 0 \<or> v > upper_end then None else Some (v, rest)))"

definition read_manager_config :: "string \<Rightarrow> manager_info option" where
  "read_manager_config txt =
     (case getlines txt of
        [] \<Rightarrow> None
      | name # ls \<Rightarrow>
          Option.bind (parse_integer_line (2 ^ 16 - 1) ls) (\<lambda>(port, ls1).
          Option.bind (parse_integer_line (2 ^ 32 - 1) ls1) (\<lambda>(heartbeat, ls2).
            Some \<lparr>mi_name = name, mi_connect = filter (\<lambda>l. l \<noteq> []) ls2, mi_heartbeat = word_of_int heartbeat,
                  mi_port = word_of_int port\<rparr>)))"

text \<open>\<^verbatim>\<open>operator>>\<close> keeps the old information when the text cannot be read.\<close>

definition extract_manager_info :: "string \<Rightarrow> manager_info \<Rightarrow> manager_info" where
  "extract_manager_info txt info = (case read_manager_config txt of Some new_info \<Rightarrow> new_info | None \<Rightarrow> info)"

text \<open>The text in the format that the documentation describes.\<close>

definition manager_config_text :: "manager_info \<Rightarrow> string" where
  "manager_config_text info = concat (map (\<lambda>l. l @ [newline])
     (mi_name info # to_dec (unat (mi_port info)) # to_dec (unat (mi_heartbeat info)) # mi_connect info))"

lemma to_dec_no_newline: "newline \<notin> set (to_dec n)"
proof (induction n rule: to_dec.induct)
  case (1 n)
  have d: "newline \<noteq> char_of (48 + d)" if "d < 10" for d :: nat
  proof
    assume "newline = char_of (48 + d)"
    then have "(of_char (char_of (48 + d)) :: nat) = of_char newline" by simp
    then show False using that by (simp add: newline_def)
  qed
  then show ?case using 1 d [of n] d [of "n mod 10"] by (subst to_dec.simps) auto
qed

lemma parse_integer_to_dec:
  assumes "int n \<le> upper_end" "upper_end < 2 ^ 63"
  shows "parse_integer_line upper_end (to_dec n # ls) = Some (int n, ls)"
  using assms strtol_to_dec [of n] by (simp add: parse_integer_line_def long_max_def)

lemma parse_integer_length: "parse_integer_line upper_end ls = Some (v, rest) \<Longrightarrow> length ls = Suc (length rest)"
  by (auto simp: parse_integer_line_def Let_def split: list.splits prod.splits if_splits)

text \<open>The information about a manager is read back from its text, for every port and every interval; a text that breaks off
  before the interval or has no number where one belongs leaves the old information in place.\<close>

theorem manager_config_round_trip:
  assumes "\<forall>l \<in> set (mi_name info # mi_connect info). newline \<notin> set l" "[] \<notin> set (mi_connect info)"
  shows "read_manager_config (manager_config_text info) = Some info \<and> extract_manager_info (manager_config_text info) old = info
    \<and> (length (getlines txt) < 3 \<longrightarrow> extract_manager_info txt old = old)"
proof -
  have "getlines (manager_config_text info) = mi_name info # to_dec (unat (mi_port info)) # to_dec (unat (mi_heartbeat info)) # mi_connect info"
    unfolding manager_config_text_def using assms(1) to_dec_no_newline by (intro getlines_join) auto
  moreover have "int (unat (mi_port info)) \<le> 2 ^ 16 - 1" "int (unat (mi_heartbeat info)) \<le> 2 ^ 32 - 1"
    using unsigned_less [of "mi_port info", where 'a = int] unsigned_less [of "mi_heartbeat info", where 'a = int] by simp_all
  moreover have "filter (\<lambda>l. l \<noteq> []) (mi_connect info) = mi_connect info" using assms(2) by (intro filter_True) auto
  ultimately have r: "read_manager_config (manager_config_text info) = Some info"
    by (simp add: read_manager_config_def parse_integer_to_dec)
  have "read_manager_config txt = None" if "length (getlines txt) < 3"
  proof (rule ccontr)
    assume "read_manager_config txt \<noteq> None"
    then obtain name ls port ls1 heartbeat ls2 where "getlines txt = name # ls" "parse_integer_line (2 ^ 16 - 1) ls = Some (port, ls1)"
      "parse_integer_line (2 ^ 32 - 1) ls1 = Some (heartbeat, ls2)"
      unfolding read_manager_config_def by (auto split: list.splits simp: Option.bind_eq_Some_conv)
    then show False using that by (auto dest!: parse_integer_length)
  qed
  with r show ?thesis by (simp add: extract_manager_info_def)
qed

lemma manager_config_round_trip_witness:
  "read_manager_config (manager_config_text \<lparr>mi_name = ''m1'', mi_connect = [''10.0.0.2:7'', ''host:80''], mi_heartbeat = 5000, mi_port = 65535\<rparr>)
     = Some \<lparr>mi_name = ''m1'', mi_connect = [''10.0.0.2:7'', ''host:80''], mi_heartbeat = 5000, mi_port = 65535\<rparr>"
  using manager_config_round_trip [of "\<lparr>mi_name = ''m1'', mi_connect = [''10.0.0.2:7'', ''host:80''], mi_heartbeat = 5000, mi_port = 65535\<rparr>"]
  by (simp add: newline_def)

section \<open>Waiting with a time limit\<close>

text \<open>\<^verbatim>\<open>connect_to_neighbors\<close> and \<^verbatim>\<open>wait_for_data\<close> test, look at the clock, sleep and test again. A test of the model may
  change the state and takes its time; \<open>pause\<close> is what happens while the thread sleeps. A loop that never ends
  is \<open>None\<close>.\<close>

definition loop_delay :: nat where "loop_delay = 10"

partial_function (option) retry :: "(nat \<Rightarrow> nat \<times> 's \<Rightarrow> nat \<times> 's) \<Rightarrow> (nat \<times> 's \<Rightarrow> bool \<times> nat \<times> 's) \<Rightarrow> nat \<Rightarrow> nat \<times> 's
    \<Rightarrow> (nat \<times> 's) res option" where
  "retry sleep test time_limit c =
     (if fst (test c) then Some (Inr (snd (test c)))
      else if fst (snd (test c)) > time_limit then Some (Inl (Exit_Process (- 1)))
      else retry sleep test time_limit (sleep loop_delay (snd (test c))))"

fun connect_all :: "(nat \<Rightarrow> nat \<times> 's \<Rightarrow> nat \<times> 's) \<Rightarrow> (addr_port \<Rightarrow> nat \<times> 's \<Rightarrow> bool \<times> nat \<times> 's) \<Rightarrow> nat \<Rightarrow> addr_port list \<Rightarrow> nat \<times> 's
    \<Rightarrow> (nat \<times> 's) res option" where
  "connect_all sleep connect time_limit [] c = Some (Inr c)"
| "connect_all sleep connect time_limit (addr # addrs) c =
     Option.bind (retry sleep (connect addr) time_limit c) (\<lambda>r.
       case r of Inl e \<Rightarrow> Some (Inl e) | Inr c' \<Rightarrow> connect_all sleep connect time_limit addrs c')"

definition connect_to_neighbors :: "(nat \<Rightarrow> nat \<times> 's \<Rightarrow> nat \<times> 's) \<Rightarrow> (addr_port \<Rightarrow> nat \<times> 's \<Rightarrow> bool \<times> nat \<times> 's) \<Rightarrow> addr_port list \<Rightarrow> nat
    \<Rightarrow> nat \<times> 's \<Rightarrow> (nat \<times> 's) res option" where
  "connect_to_neighbors sleep connect neighbor_addresses timeout c = connect_all sleep connect (fst c + timeout) neighbor_addresses c"

definition subscribe_to_tag :: "(nat \<times> 's \<Rightarrow> nat \<times> 's) \<Rightarrow> ('s, 'a) waiter \<Rightarrow> nat \<Rightarrow> nat \<times> 's \<Rightarrow> (nat \<times> 's) res option" where
  "subscribe_to_tag wake waiter timeout c =
     Option.bind (waiter_wait_for wake waiter timeout c) (\<lambda>(okay, c'). Some (if \<not> okay then Inl (Exit_Process (- 1)) else Inr c'))"

definition wait_for_data :: "(nat \<Rightarrow> nat \<times> 's \<Rightarrow> nat \<times> 's) \<Rightarrow> ('s \<Rightarrow> bool) \<Rightarrow> nat \<Rightarrow> nat \<times> 's \<Rightarrow> (nat \<times> 's) res option" where
  "wait_for_data sleep has_data timeout c = retry sleep (\<lambda>c. (has_data (snd c), c)) (fst c + timeout) c"

text \<open>A sleep takes its time, and no test puts the clock back.\<close>

definition sleeps :: "(nat \<Rightarrow> nat \<times> 's \<Rightarrow> nat \<times> 's) \<Rightarrow> bool" where
  "sleeps sleep \<longleftrightarrow> (\<forall>ms c. fst c + ms \<le> fst (sleep ms c))"

definition keeps_clock :: "(nat \<times> 's \<Rightarrow> bool \<times> nat \<times> 's) \<Rightarrow> bool" where
  "keeps_clock test \<longleftrightarrow> (\<forall>c. fst c \<le> fst (snd (test c)))"

lemma retry_ends:
  assumes "sleeps sleep" "keeps_clock test"
  shows "(\<exists>c1. retry sleep test time_limit c = Some (Inr (snd (test c1))) \<and> fst (test c1) \<and> fst c \<le> fst c1)
    \<or> (retry sleep test time_limit c = Some (Inl (Exit_Process (- 1)))
       \<and> (\<exists>c1. \<not> fst (test c1) \<and> time_limit < fst (snd (test c1))))"
proof (induction "Suc time_limit - fst c" arbitrary: c rule: less_induct)
  case less
  have k: "fst c \<le> fst (snd (test c))" using assms(2) unfolding keeps_clock_def by blast
  consider "fst (test c)" | "\<not> fst (test c)" "fst (snd (test c)) > time_limit" | "\<not> fst (test c)" "\<not> fst (snd (test c)) > time_limit" by blast
  then show ?case
  proof cases
    case 1
    then have "retry sleep test time_limit c = Some (Inr (snd (test c)))" by (subst retry.simps) simp
    with 1 show ?thesis by blast
  next
    case 2
    then have "retry sleep test time_limit c = Some (Inl (Exit_Process (- 1)))" by (subst retry.simps) simp
    with 2 show ?thesis by blast
  next
    case 3
    let ?d = "sleep loop_delay (snd (test c))"
    have "fst (snd (test c)) + loop_delay \<le> fst ?d" using assms(1) unfolding sleeps_def by blast
    then have d: "fst c < fst ?d" "Suc time_limit - fst ?d < Suc time_limit - fst c" using k 3(2) by (simp_all add: loop_delay_def)
    have r: "retry sleep test time_limit c = retry sleep test time_limit ?d" using 3 by (subst retry.simps) simp
    show ?thesis using less [OF d(2)] d(1) unfolding r by (meson less_imp_le order_trans)
  qed
qed

lemma connect_all_ends:
  assumes "sleeps sleep" "\<And>addr. keeps_clock (connect addr)"
  shows "(\<exists>c'. connect_all sleep connect time_limit addrs c = Some (Inr c')) \<or>
      connect_all sleep connect time_limit addrs c = Some (Inl (Exit_Process (- 1)))"
proof (induction addrs arbitrary: c)
  case (Cons addr addrs)
  from retry_ends [OF assms(1) assms(2) [of addr], of time_limit c] show ?case
  proof (elim disjE exE conjE)
    fix c1
    assume "retry sleep (connect addr) time_limit c = Some (Inr (snd (connect addr c1)))"
    then show ?thesis using Cons.IH [of "snd (connect addr c1)"] by simp
  qed simp
qed simp

text \<open>The helpers never wait for ever: connecting to a list of neighbours ends with success or with the end of the process, and so
  does waiting for data, which is there in the first case, and, when time goes on between the notifications,
  waiting for a subscription.\<close>

theorem helpers_end:
  assumes "sleeps sleep" "\<And>addr. keeps_clock (connect addr)" "clock_advances wake"
  shows "((\<exists>c'. connect_to_neighbors sleep connect addrs timeout c = Some (Inr c')) \<or>
      connect_to_neighbors sleep connect addrs timeout c = Some (Inl (Exit_Process (- 1))))
    \<and> ((\<exists>c'. wait_for_data sleep has_data timeout c = Some (Inr c') \<and> has_data (snd c')) \<or>
      wait_for_data sleep has_data timeout c = Some (Inl (Exit_Process (- 1))))
    \<and> ((\<exists>c'. subscribe_to_tag wake waiter timeout c = Some (Inr c') \<and> waiter_is_ready waiter (snd c')) \<or>
      subscribe_to_tag wake waiter timeout c = Some (Inl (Exit_Process (- 1))))"
proof -
  have "keeps_clock (\<lambda>c. (has_data (snd c), c))" by (simp add: keeps_clock_def)
  from retry_ends [OF assms(1) this, of "fst c + timeout" c]
  have w: "(\<exists>c'. wait_for_data sleep has_data timeout c = Some (Inr c') \<and> has_data (snd c')) \<or>
      wait_for_data sleep has_data timeout c = Some (Inl (Exit_Process (- 1)))" unfolding wait_for_data_def by auto
  obtain b c' n where b: "waiter_wait_until wake waiter (fst c + timeout) c = Some (b, c')" "b = waiter_is_ready waiter (snd c')"
    using waiter_wait_until_ends [OF assms(3), of waiter "fst c + timeout" c] by blast
  have "(\<exists>c'. subscribe_to_tag wake waiter timeout c = Some (Inr c') \<and> waiter_is_ready waiter (snd c')) \<or>
      subscribe_to_tag wake waiter timeout c = Some (Inl (Exit_Process (- 1)))"
    using b by (cases "wt_instant waiter"; cases c') (auto simp: subscribe_to_tag_def waiter_wait_for_def waiter_is_ready_def)
  with w connect_all_ends [where sleep = sleep and connect = connect, OF assms(1,2)] show ?thesis by (simp add: connect_to_neighbors_def)
qed

text \<open>A neighbour that answers from the time 25 on.\<close>

lemma helpers_end_witness:
  "\<exists>c'. connect_to_neighbors (\<lambda>ms (t, s). (t + ms, s)) (\<lambda>addr (t, s). (t \<ge> 25, t, s)) [(''10.0.0.2'', 80)] 20 (0, ()) = Some (Inr c')"
proof -
  have s: "sleeps (\<lambda>ms (t, s :: unit). (t + ms, s))" "\<And>addr. keeps_clock (\<lambda>(t, s :: unit). (t \<ge> 25, t, s))"
    "clock_advances (\<lambda>(t, s :: unit). (t + 1, s))" by (auto simp: sleeps_def keeps_clock_def clock_advances_def)
  have "connect_to_neighbors (\<lambda>ms (t, s). (t + ms, s)) (\<lambda>addr (t, s). (t \<ge> 25, t, s)) [(''10.0.0.2'', 80)] 20 (0, ())
      \<noteq> Some (Inl (Exit_Process (- 1)))"
    by (simp add: connect_to_neighbors_def retry.simps loop_delay_def)
  then show ?thesis
    using helpers_end [OF s(1), of "\<lambda>addr (t, s). (t \<ge> 25, t, s)", OF s(2,3), of "[(''10.0.0.2'', 80)]" 20 "(0, ())"] by auto
qed

end
