(* ===== verification/Sky_Averaging.thy ===== *)
theory Sky_Averaging
  imports Sky_Setup Sky_Jacobi_Example
begin

text \<open>
  \<^verbatim>\<open>examples/asynchronous_iterative\<close>: the file with the configurations of all machines, also in the form of
  \<^verbatim>\<open>examples/lc_hello_world\<close>, the connections that a machine makes, and the loop in which the machines average their
  values until they have done so a fixed number of times. Random numbers, the clock and what other threads do to
  the job while the loop sleeps are arguments.
\<close>

section \<open>The configurations\<close>

record machine_config =
  mc_name :: string
  mc_address :: string
  mc_produced :: "tag_id list"
  mc_subscribed :: "tag_id list"
  mc_connect :: "string list"
  mc_port :: "16 word"

text \<open>\<^verbatim>\<open>std::getline\<close>: a stream that has failed leaves the variable alone, one without text fails and empties it.\<close>

definition get_line :: "string \<Rightarrow> stream \<Rightarrow> string \<times> stream" where
  "get_line old = (\<lambda>(good, s).
     if \<not> good then (old, (False, s))
     else if s = [] then ([], (False, []))
     else (takeWhile (\<lambda>c. c \<noteq> newline) s, (True, tl (dropWhile (\<lambda>c. c \<noteq> newline) s))))"

lemma rest_shorter [simp]: "s \<noteq> [] \<Longrightarrow> length (dropWhile P s) - Suc 0 < length s"
  using length_dropWhile_le [of P s] by (cases s) (auto simp: less_Suc_eq_le)

text \<open>\<^verbatim>\<open>read_until_dash\<close> and \<^verbatim>\<open>readUntilDash\<close> append the lines to what the vector has.\<close>

function read_until_dash :: "stream \<Rightarrow> string list \<Rightarrow> string list \<times> stream" where
  "read_until_dash (good, s) read_into =
     (if \<not> good then (read_into, (False, s))
      else if s = [] then (read_into, (False, []))
      else let temp = takeWhile (\<lambda>c. c \<noteq> newline) s; rest = tl (dropWhile (\<lambda>c. c \<noteq> newline) s)
           in if temp = [] then read_until_dash (True, rest) read_into
              else if hd temp = CHR ''-'' then (read_into, (True, rest))
              else read_until_dash (True, rest) (read_into @ [temp]))"
  by pat_completeness auto

termination by (relation "measure (\<lambda>((good, s), _). length s)") auto

declare read_until_dash.simps [simp del]

text \<open>\<^verbatim>\<open>std::ws\<close>.\<close>

definition skip_space :: "stream \<Rightarrow> stream" where
  "skip_space = (\<lambda>(good, s). (good, if good then ltrim s else s))"

definition uint16_on_fail :: "string \<Rightarrow> 16 word" where
  "uint16_on_fail s = (let (negative, digits) = split_sign s in if starts_digit digits then - 1 else 0)"

definition extract_config :: "machine_config \<Rightarrow> stream \<Rightarrow> machine_config \<times> stream" where
  "extract_config config st =
     (let (name, st1) = get_line (mc_name config) st;
          (address, st2) = get_line (mc_address config) st1;
          (port, st3) = stream_in read_uint16 uint16_on_fail (mc_port config) st2;
          (produced, st4) = read_until_dash (skip_space st3) (mc_produced config);
          (subscribed, st5) = read_until_dash st4 (mc_subscribed config);
          (connected, st6) = read_until_dash st5 (mc_connect config)
      in (\<lparr>mc_name = name, mc_address = address, mc_produced = produced, mc_subscribed = subscribed, mc_connect = connected,
           mc_port = port\<rparr>, st6))"

text \<open>The form of \<^verbatim>\<open>lc_hello_world\<close> has no tags, and stops after the name when the file has ended.\<close>

definition extract_lc_config :: "machine_config \<Rightarrow> stream \<Rightarrow> machine_config \<times> stream" where
  "extract_lc_config config st =
     (let (name, st1) = get_line (mc_name config) st
      in if \<not> fst st1 then (config\<lparr>mc_name := name\<rparr>, st1)
         else let (address, st2) = get_line (mc_address config) st1;
                  (port, st3) = stream_in read_uint16 uint16_on_fail (mc_port config) st2;
                  (connected, st4) = read_until_dash (skip_space st3) (mc_connect config)
              in (config\<lparr>mc_name := name, mc_address := address, mc_connect := connected, mc_port := port\<rparr>, st4))"

text \<open>A configuration that has been moved from: its containers are empty.\<close>

definition moved_config :: "machine_config \<Rightarrow> machine_config" where
  "moved_config config = \<lparr>mc_name = [], mc_address = [], mc_produced = [], mc_subscribed = [], mc_connect = [], mc_port = mc_port config\<rparr>"

text \<open>The loop that reads the file. Each turn that goes on has taken some of the text, as is shown below; the test of
  the length makes the recursion one that ends.\<close>

function read_configs :: "(machine_config \<Rightarrow> stream \<Rightarrow> machine_config \<times> stream) \<Rightarrow> machine_config \<Rightarrow> stream
    \<Rightarrow> (string \<times> machine_config) list \<Rightarrow> (string \<times> machine_config) list" where
  "read_configs extract_one temp st to_ret =
     (let (temp', st') = extract_one temp st
      in if fst st' \<and> length (snd st') < length (snd st)
         then read_configs extract_one (moved_config temp') st' (AList.update (mc_name temp') temp' to_ret)
         else to_ret)"
  by pat_completeness auto
termination by (relation "measure (\<lambda>(_, _, st, _). length (snd st))") auto

declare read_configs.simps [simp del]

definition blank_config :: "16 word \<Rightarrow> machine_config" where
  "blank_config port = \<lparr>mc_name = [], mc_address = [], mc_produced = [], mc_subscribed = [], mc_connect = [], mc_port = port\<rparr>"

definition configurations :: "string \<Rightarrow> (string \<times> machine_config) list" where
  "configurations txt = read_configs extract_config (blank_config 0) (True, txt) []"

definition lc_configurations :: "string \<Rightarrow> (string \<times> machine_config) list" where
  "lc_configurations txt = read_configs extract_lc_config (blank_config 0) (True, txt) []"

text \<open>\<^verbatim>\<open>main\<close> looks up its machine in the file.\<close>

definition averaging_main :: "(string \<Rightarrow> string option) \<Rightarrow> string list \<Rightarrow> (machine_config \<times> (string \<times> machine_config) list) main_result" where
  "averaging_main files argv =
     (if length argv \<noteq> 3 then Main_Returns 1
      else case files (argv ! 1) of
             None \<Rightarrow> Main_Returns 1
           | Some txt \<Rightarrow>
               (case map_of (configurations txt) (argv ! 2) of
                  None \<Rightarrow> Main_Returns 1
                | Some config \<Rightarrow> Main_Runs (config, configurations txt)))"

text \<open>In \<^verbatim>\<open>lc_hello_world\<close> the name comes from the numbers of the agent on its node and of the node, without signs; its
  tag is looked up among as many as there are agents.\<close>

definition agent_number :: "int \<Rightarrow> int \<Rightarrow> int \<Rightarrow> 32 word" where
  "agent_number slurm_nodeid slurm_localid agents_per_node =
     word_of_int agents_per_node * word_of_int slurm_nodeid + word_of_int slurm_localid"

definition lc_main :: "(string \<Rightarrow> string option) \<Rightarrow> string list \<Rightarrow> (machine_config \<times> (string \<times> machine_config) list \<times> 32 word \<times> 32 word) main_result res" where
  "lc_main files argv =
     (if length argv \<noteq> 6 then Inr (Main_Returns 1)
      else rbind (stoi_throws (argv ! 2)) (\<lambda>slurm_nodeid. rbind (stoi_throws (argv ! 3)) (\<lambda>slurm_localid.
           rbind (stoi_throws (argv ! 4)) (\<lambda>agents_per_node.
           let agent_id = agent_number slurm_nodeid slurm_localid agents_per_node; agent_name = ''agent'' @ to_dec (unat agent_id) in
           rbind (stoi_throws (argv ! 5)) (\<lambda>num_total_agents.
           case files (argv ! 1) of
             None \<Rightarrow> Inr (Main_Returns 1)
           | Some txt \<Rightarrow>
               (case map_of (lc_configurations txt) agent_name of
                  None \<Rightarrow> Inr (Main_Returns 1)
                | Some config \<Rightarrow> Inr (Main_Runs (config, lc_configurations txt, agent_id, word_of_int num_total_agents))))))))"

definition lc_group_tags :: "32 word \<Rightarrow> 32 word \<Rightarrow> (tag_id \<times> tag_id list) res" where
  "lc_group_tags agent_id num_total_agents =
     (let reduce_group_tags = map (\<lambda>i. ''tag'' @ to_dec i) [0..<unat num_total_agents]
      in rbind (vec_at reduce_group_tags (unat agent_id)) (\<lambda>own. Inr (own, reduce_group_tags)))"

lemma read_until_dash_shorter: "length (snd (snd (read_until_dash (good, s) acc))) \<le> length s"
proof (induction "(good, s)" acc arbitrary: good s rule: read_until_dash.induct)
  case (1 good s acc)
  show ?case
  proof (cases "good \<and> s \<noteq> []")
    case True
    let ?temp = "takeWhile (\<lambda>c. c \<noteq> newline) s" and ?rest = "tl (dropWhile (\<lambda>c. c \<noteq> newline) s)"
    have le: "length ?rest \<le> length s" using rest_shorter [of s "\<lambda>c. c \<noteq> newline"] True by (simp add: less_imp_le)
    consider "?temp = []" | "?temp \<noteq> []" "hd ?temp = CHR ''-''" | "?temp \<noteq> []" "hd ?temp \<noteq> CHR ''-''" by blast
    then show ?thesis
    proof cases
      case 1
      have "length (snd (snd (read_until_dash (True, ?rest) acc))) \<le> length ?rest" using 1 True by (intro "1.hyps"(1)) auto
      then show ?thesis using 1 True le by (subst read_until_dash.simps) simp
    next
      case 2
      then show ?thesis using True le by (subst read_until_dash.simps) (simp add: Let_def)
    next
      case 3
      have "length (snd (snd (read_until_dash (True, ?rest) (acc @ [?temp])))) \<le> length ?rest" using 3 True by (intro "1.hyps"(2)) auto
      then show ?thesis using 3 True le by (subst read_until_dash.simps) (simp add: Let_def)
    qed
  qed (auto simp: read_until_dash.simps)
qed

lemma stream_in_shorter: 
  assumes "\<And>t v rest. read t = Some (v, rest) \<Longrightarrow> length rest \<le> length t"
  shows "length (snd (snd (stream_in read f x st))) \<le> length (snd st)"
proof -
  have "length (ltrim s) \<le> length s" for s by (simp add: ltrim_def length_dropWhile_le)
  then show ?thesis using assms
    by (fastforce simp: stream_in_def Let_def split: prod.splits option.splits intro: order_trans)
qed

lemma scan_digits_shorter: "length (snd (scan_digits acc s)) \<le> length s"
  by (induction acc s rule: scan_digits.induct) (auto split: option.split intro: order_trans)

lemma read_uint16_shorter: "read_uint16 t = Some (v, rest) \<Longrightarrow> length rest \<le> length t"
proof -
  assume "read_uint16 t = Some (v, rest)"
  then obtain neg digits n where d: "split_sign t = (neg, digits)" "scan_digits 0 digits = (n, rest)"
    by (auto simp: read_uint16_def read_number_def Let_def split: prod.splits if_splits)
  have "length digits \<le> length t" using d(1) by (auto simp: split_sign_def split: if_splits)
  then show ?thesis using scan_digits_shorter [of 0 digits] d(2) by simp
qed

lemma get_line_shorter:
  "length (snd (snd (get_line old st))) \<le> length (snd st)"
  "fst (snd (get_line old st)) \<Longrightarrow> length (snd (snd (get_line old st))) < length (snd st)"
  by (cases st; simp add: get_line_def less_imp_le split: if_splits)+

lemma port_shorter: "length (snd (snd (stream_in read_uint16 f x st))) \<le> length (snd st)"
  using read_uint16_shorter by (rule stream_in_shorter)

lemma skip_space_shorter: "length (snd (skip_space st)) \<le> length (snd st)"
  by (cases st) (simp add: skip_space_def ltrim_def length_dropWhile_le)

text \<open>A stream that has failed stays so.\<close>

lemma stays_failed:
  "\<not> fst st \<Longrightarrow> \<not> fst (snd (get_line old st))"
  "\<not> fst st \<Longrightarrow> \<not> fst (snd (read_until_dash st acc))"
  "\<not> fst st \<Longrightarrow> \<not> fst (snd (stream_in read f x st))"
  "\<not> fst st \<Longrightarrow> \<not> fst (skip_space st)"
  by (cases st; simp add: get_line_def read_until_dash.simps stream_in_def skip_space_def)+

text \<open>A configuration that has been read has taken some of the text, so that the test in \<open>read_configs\<close> is no other than
  that of the code.\<close>

lemma extract_config_shorter:
  assumes "fst (snd (extract_config config st))"
  shows "length (snd (snd (extract_config config st))) < length (snd st)"
proof -
  obtain name st1 where 1: "get_line (mc_name config) st = (name, st1)" by (metis surj_pair)
  obtain address st2 where 2: "get_line (mc_address config) st1 = (address, st2)" by (metis surj_pair)
  obtain port st3 where 3: "stream_in read_uint16 uint16_on_fail (mc_port config) st2 = (port, st3)" by (metis surj_pair)
  obtain produced st4 where 4: "read_until_dash (skip_space st3) (mc_produced config) = (produced, st4)" by (metis surj_pair)
  obtain subscribed st5 where 5: "read_until_dash st4 (mc_subscribed config) = (subscribed, st5)" by (metis surj_pair)
  obtain connected st6 where 6: "read_until_dash st5 (mc_connect config) = (connected, st6)" by (metis surj_pair)
  have e: "snd (extract_config config st) = st6" by (simp add: extract_config_def 1 2 3 4 5 6)
  have "fst st1"
  proof (rule ccontr)
    assume "\<not> fst st1"
    then have "\<not> fst st6" using stays_failed 2 3 4 5 6 by (metis snd_conv)
    then show False using assms e by simp
  qed
  then have "length (snd st1) < length (snd st)" using get_line_shorter(2) [of "mc_name config" st] 1 by simp
  moreover have "length (snd st2) \<le> length (snd st1)" using get_line_shorter(1) [of "mc_address config" st1] 2 by simp
  moreover have "length (snd st3) \<le> length (snd st2)" using port_shorter [of uint16_on_fail "mc_port config" st2] 3 by simp
  moreover have "length (snd st4) \<le> length (snd st3)" using read_until_dash_shorter [of _ "snd (skip_space st3)"] skip_space_shorter [of st3] 4
    by (metis order_trans prod.collapse snd_conv)
  moreover have "length (snd st5) \<le> length (snd st4)" using read_until_dash_shorter 5 by (metis prod.collapse snd_conv)
  moreover have "length (snd st6) \<le> length (snd st5)" using read_until_dash_shorter 6 by (metis prod.collapse snd_conv)
  ultimately show ?thesis using e by simp
qed

section \<open>What is written is read\<close>

text \<open>A line of a list, which must be one, have no newline and not begin with a dash.\<close>

definition list_line :: "string \<Rightarrow> bool" where
  "list_line l \<longleftrightarrow> l \<noteq> [] \<and> newline \<notin> set l \<and> hd l \<noteq> CHR ''-''"

definition dashed :: "string list \<Rightarrow> string" where
  "dashed ls = concat (map (\<lambda>l. l @ [newline]) ls) @ ''-'' @ [newline]"

definition config_text :: "machine_config \<Rightarrow> string" where
  "config_text c = mc_name c @ newline # mc_address c @ newline # print_int (uint (mc_port c)) @ newline #
     dashed (mc_produced c) @ dashed (mc_subscribed c) @ dashed (mc_connect c)"

definition lc_config_text :: "machine_config \<Rightarrow> string" where
  "lc_config_text c = mc_name c @ newline # mc_address c @ newline # print_int (uint (mc_port c)) @ newline # dashed (mc_connect c)"

text \<open>The first line after the port must not begin with white space, which is skipped there.\<close>

definition writable :: "machine_config \<Rightarrow> bool" where
  "writable c \<longleftrightarrow> newline \<notin> set (mc_name c @ mc_address c)
     \<and> (\<forall>l \<in> set (mc_produced c @ mc_subscribed c @ mc_connect c). list_line l)
     \<and> (\<forall>ls \<in> {mc_produced c, mc_connect c}. ls \<noteq> [] \<longrightarrow> \<not> is_space (hd (hd ls)))"

lemma get_line_text:
  "newline \<notin> set l \<Longrightarrow> get_line old (True, l @ newline # s) = (l, (True, s))"
  by (simp add: get_line_def while_sep)

lemma read_dashed:
  "\<forall>l \<in> set ls. list_line l \<Longrightarrow> read_until_dash (True, dashed ls @ s) acc = (acc @ ls, (True, s))"
proof (induction ls arbitrary: acc)
  case Nil
  have "takeWhile (\<lambda>c. c \<noteq> newline) (CHR ''-'' # newline # s) = ''-''" "tl (dropWhile (\<lambda>c. c \<noteq> newline) (CHR ''-'' # newline # s)) = s"
    by (simp_all add: newline_def)
  then show ?case by (subst read_until_dash.simps) (simp add: dashed_def Let_def)
next
  case (Cons l ls)
  have l: "l \<noteq> []" "newline \<notin> set l" "hd l \<noteq> CHR ''-''" using Cons.prems by (simp_all add: list_line_def)
  have d: "dashed (l # ls) @ s = l @ newline # (dashed ls @ s)" by (simp add: dashed_def)
  have "read_until_dash (True, l @ newline # (dashed ls @ s)) acc = read_until_dash (True, dashed ls @ s) (acc @ [l])"
    using l while_sep [of newline l "dashed ls @ s"] by (subst read_until_dash.simps) (simp add: Let_def)
  then show ?case unfolding d using Cons by simp
qed

lemma ltrim_dashed: "\<forall>l \<in> set ls. list_line l \<Longrightarrow> ls \<noteq> [] \<longrightarrow> \<not> is_space (hd (hd ls)) \<Longrightarrow> ltrim (dashed ls @ s) = dashed ls @ s"
proof -
  assume a: "\<forall>l \<in> set ls. list_line l" "ls \<noteq> [] \<longrightarrow> \<not> is_space (hd (hd ls))"
  have "\<not> is_space CHR ''-''" by (simp add: is_space_def)
  then show ?thesis using a by (cases ls) (auto simp: dashed_def ltrim_def list_line_def neq_Nil_conv)
qed

lemma port_read: "stream_in read_uint16 f x (True, print_int (uint w) @ newline # s) = (w, (True, newline # s))"
  by (rule uint16_reader.stream_in_printed) (simp_all add: ends_word_def newline_space)

lemma skip_space_dashed:
  assumes "\<forall>l \<in> set ls. list_line l" "ls \<noteq> [] \<longrightarrow> \<not> is_space (hd (hd ls))"
  shows "skip_space (True, newline # dashed ls @ s) = (True, dashed ls @ s)"
  using ltrim_dashed [OF assms] by (simp add: skip_space_def ltrim_skip newline_space)

text \<open>A list whose dash is missing reads to the end of the text, and the stream fails.\<close>

lemma read_undashed:
  "\<forall>l \<in> set ls. list_line l \<Longrightarrow> read_until_dash (True, concat (map (\<lambda>l. l @ [newline]) ls)) acc = (acc @ ls, (False, []))"
proof (induction ls arbitrary: acc)
  case Nil
  show ?case by (subst read_until_dash.simps) simp
next
  case (Cons l ls)
  let ?s = "concat (map (\<lambda>l. l @ [newline]) ls)"
  have l: "l \<noteq> []" "newline \<notin> set l" "hd l \<noteq> CHR ''-''" using Cons.prems by (simp_all add: list_line_def)
  have "read_until_dash (True, l @ newline # ?s) acc = read_until_dash (True, ?s) (acc @ [l])"
    using l while_sep [of newline l ?s] by (subst read_until_dash.simps) (simp add: Let_def)
  then show ?case using Cons by simp
qed

lemma take_two: "take (length (xs @ [a, b]) - 2) (xs @ [a, b]) = xs"
  by simp

lemma skip_space_lines:
  assumes "\<forall>l \<in> set ls. list_line l" "ls \<noteq> [] \<longrightarrow> \<not> is_space (hd (hd ls))"
  shows "skip_space (True, newline # concat (map (\<lambda>l. l @ [newline]) ls)) = (True, concat (map (\<lambda>l. l @ [newline]) ls))"
  using assms by (cases ls) (auto simp: skip_space_def ltrim_skip newline_space ltrim_def list_line_def neq_Nil_conv)

text \<open>A format of configurations: what it writes it reads into an emptied configuration, and neither the empty text nor one
  without its last line is a configuration.\<close>

locale config_format =
  fixes extract_one :: "machine_config \<Rightarrow> stream \<Rightarrow> machine_config \<times> stream" and print_one :: "machine_config \<Rightarrow> string"
    and ok :: "machine_config \<Rightarrow> bool"
  assumes reads: "ok c \<Longrightarrow> extract_one (blank_config port) (True, print_one c @ s) = (c, (True, s))"
    and at_end: "\<not> fst (snd (extract_one (blank_config port) (True, [])))"
    and cut_off: "ok c \<Longrightarrow> \<not> fst (snd (extract_one (blank_config port) (True, take (length (print_one c) - 2) (print_one c))))"
    and long: "2 \<le> length (print_one c)"
begin

lemma moved_blank: "moved_config c = blank_config (mc_port c)"
  by (simp add: moved_config_def blank_config_def)

lemma read_all:
  assumes "\<forall>c \<in> set cs. ok c" "\<And>port. \<not> fst (snd (extract_one (blank_config port) (True, s)))"
  shows "read_configs extract_one (blank_config port) (True, concat (map print_one cs) @ s) acc
    = fold (\<lambda>c. AList.update (mc_name c) c) cs acc"
  using assms(1)
proof (induction cs arbitrary: port acc)
  case Nil
  then show ?case using assms(2) [of port] by (subst read_configs.simps) (auto simp: Let_def split: prod.splits)
next
  case (Cons c cs)
  let ?s = "concat (map print_one cs) @ s"
  have "extract_one (blank_config port) (True, print_one c @ ?s) = (c, (True, ?s))" using Cons.prems by (intro reads) simp
  then have "read_configs extract_one (blank_config port) (True, print_one c @ ?s) acc
      = read_configs extract_one (blank_config (mc_port c)) (True, ?s) (AList.update (mc_name c) c acc)"
    using long [of c] by (subst read_configs.simps) (auto simp: moved_blank Let_def)
  then show ?case using Cons by simp
qed

lemma configs_round_trip:
  assumes "\<forall>c \<in> set cs. ok c"
  shows "read_configs extract_one (blank_config port) (True, concat (map print_one cs)) [] = fold (\<lambda>c. AList.update (mc_name c) c) cs []"
  using read_all [OF assms, of "[]" port "[]"] at_end by simp

lemma last_one_lost:
  assumes "\<forall>c \<in> set cs. ok c" "cs \<noteq> []"
  defines "txt \<equiv> concat (map print_one cs)"
  shows "read_configs extract_one (blank_config port) (True, take (length txt - 2) txt) []
    = fold (\<lambda>c. AList.update (mc_name c) c) (butlast cs) []"
proof -
  let ?c = "last cs"
  have t: "txt = concat (map print_one (butlast cs)) @ print_one ?c"
  proof -
    have "txt = concat (map print_one (butlast cs @ [last cs]))" using assms(2) by (simp only: txt_def append_butlast_last_id simp_thms)
    then show ?thesis by simp
  qed
  have "take (length txt - 2) txt = concat (map print_one (butlast cs)) @ take (length (print_one ?c) - 2) (print_one ?c)"
    using long [of ?c] unfolding t by simp
  moreover have "\<not> fst (snd (extract_one (blank_config port) (True, take (length (print_one ?c) - 2) (print_one ?c))))" for port
    using assms(1,2) by (intro cut_off) simp
  ultimately show ?thesis using read_all [of "butlast cs"] assms(1) by (simp add: in_set_butlastD)
qed

end

definition lc_writable :: "machine_config \<Rightarrow> bool" where
  "lc_writable c \<longleftrightarrow> writable c \<and> mc_produced c = [] \<and> mc_subscribed c = []"

interpretation full_format: config_format extract_config config_text writable
proof (unfold_locales, goal_cases)
  case (1 c port s)
  then show ?case
    by (cases c) (simp add: extract_config_def config_text_def writable_def get_line_text port_read skip_space_dashed read_dashed blank_config_def)
next
  case (2 port)
  then show ?case by (simp add: extract_config_def get_line_def stream_in_def skip_space_def read_until_dash.simps)
next
  case (3 c port)
  have "config_text c = (mc_name c @ newline # mc_address c @ newline # print_int (uint (mc_port c)) @ newline #
     dashed (mc_produced c) @ dashed (mc_subscribed c) @ concat (map (\<lambda>l. l @ [newline]) (mc_connect c))) @ [CHR ''-'', newline]"
    by (simp add: config_text_def dashed_def)
  then have "take (length (config_text c) - 2) (config_text c) = mc_name c @ newline # mc_address c @ newline # print_int (uint (mc_port c)) @ newline #
     dashed (mc_produced c) @ dashed (mc_subscribed c) @ concat (map (\<lambda>l. l @ [newline]) (mc_connect c))"
    by (simp only: take_two)
  then show ?case using 3
    by (simp add: extract_config_def writable_def get_line_text port_read skip_space_dashed read_dashed blank_config_def read_undashed)
next
  case (4 c)
  then show ?case by (simp add: config_text_def dashed_def)
qed

interpretation lc_format: config_format extract_lc_config lc_config_text lc_writable
proof (unfold_locales, goal_cases)
  case (1 c port s)
  then show ?case
    by (cases c) (simp add: extract_lc_config_def lc_config_text_def lc_writable_def writable_def get_line_text port_read
      skip_space_dashed read_dashed blank_config_def)
next
  case (2 port)
  then show ?case by (simp add: extract_lc_config_def get_line_def)
next
  case (3 c port)
  have "lc_config_text c = (mc_name c @ newline # mc_address c @ newline # print_int (uint (mc_port c)) @ newline #
     concat (map (\<lambda>l. l @ [newline]) (mc_connect c))) @ [CHR ''-'', newline]"
    by (simp add: lc_config_text_def dashed_def)
  then have "take (length (lc_config_text c) - 2) (lc_config_text c) = mc_name c @ newline # mc_address c @ newline # print_int (uint (mc_port c)) @ newline #
     concat (map (\<lambda>l. l @ [newline]) (mc_connect c))"
    by (simp only: take_two)
  then show ?case using 3
    by (simp add: extract_lc_config_def lc_writable_def writable_def get_line_text port_read skip_space_lines blank_config_def read_undashed)
next
  case (4 c)
  then show ?case by (simp add: lc_config_text_def dashed_def)
qed

text \<open>C25: The configurations of all machines are read back from their text, in both formats, the last one with a name
  standing for it; but a file that ends without the dashes of its last list loses its last machine without a word.\<close>

theorem machine_configs_round_trip:
  assumes "\<forall>c \<in> set cs. writable c"
  shows "configurations (concat (map config_text cs)) = fold (\<lambda>c. AList.update (mc_name c) c) cs []
    \<and> ((\<forall>c \<in> set cs. lc_writable c) \<longrightarrow> lc_configurations (concat (map lc_config_text cs)) = fold (\<lambda>c. AList.update (mc_name c) c) cs [])
    \<and> (cs \<noteq> [] \<longrightarrow> (let txt = concat (map config_text cs) in configurations (take (length txt - 2) txt))
          = fold (\<lambda>c. AList.update (mc_name c) c) (butlast cs) [])"
  using full_format.configs_round_trip [OF assms, of 0] lc_format.configs_round_trip [of cs 0] full_format.last_one_lost [OF assms, of 0]
  by (simp add: configurations_def lc_configurations_def Let_def)

lemma machine_configs_round_trip_witness:
  "configurations (config_text \<lparr>mc_name = ''machine1'', mc_address = ''127.0.0.1'', mc_produced = [''tag 1''], mc_subscribed = [''tag 2''],
      mc_connect = [''machine2''], mc_port = 10000\<rparr>)
    = [(''machine1'', \<lparr>mc_name = ''machine1'', mc_address = ''127.0.0.1'', mc_produced = [''tag 1''], mc_subscribed = [''tag 2''],
      mc_connect = [''machine2''], mc_port = 10000\<rparr>)]"
proof -
  let ?c = "\<lparr>mc_name = ''machine1'', mc_address = ''127.0.0.1'', mc_produced = [''tag 1''], mc_subscribed = [''tag 2''],
      mc_connect = [''machine2''], mc_port = 10000\<rparr>"
  have "\<forall>c \<in> set [?c]. writable c" by (simp add: writable_def list_line_def newline_def is_space_def)
  from machine_configs_round_trip [OF this] show ?thesis by simp
qed

section \<open>The connections\<close>

text \<open>A machine connects to those that its configuration names, each within 10 seconds, or gives up: then there is no
  clock and state any more. A name without a configuration is reported, and then its iterator is followed.\<close>

fun connect_machines :: "(nat \<Rightarrow> nat \<times> 's \<Rightarrow> nat \<times> 's) \<Rightarrow> (addr_port \<Rightarrow> nat \<times> 's \<Rightarrow> bool \<times> nat \<times> 's)
    \<Rightarrow> (string \<times> machine_config) list \<Rightarrow> string list \<Rightarrow> nat \<times> 's \<Rightarrow> (nat \<times> 's) option res option" where
  "connect_machines sleep connect machines [] c = Some (Inr (Some c))"
| "connect_machines sleep connect machines (name # names) c =
     (case map_of machines name of
        None \<Rightarrow> Some (Inl Undefined_Behaviour)
      | Some m \<Rightarrow>
          Option.bind (retry sleep (connect (''127.0.0.1'', mc_port m)) (fst c + 10000) c) (\<lambda>r.
            case r of Inl _ \<Rightarrow> Some (Inr None) | Inr c' \<Rightarrow> connect_machines sleep connect machines names c'))"

lemma connect_machines_end:
  assumes "sleeps sleep" "\<And>addr. keeps_clock (connect addr)" "set names \<subseteq> set (map fst machines)"
  shows "\<exists>r. connect_machines sleep connect machines names c = Some (Inr r)"
  using assms(3)
proof (induction names arbitrary: c)
  case (Cons name names)
  then obtain m where m: "map_of machines name = Some m" by (auto simp: map_of_eq_None_iff dest: weak_map_of_SomeI)
  from retry_ends [OF assms(1) assms(2) [of "(''127.0.0.1'', mc_port m)"], of "fst c + 10000" c] show ?case
  proof (elim disjE exE conjE)
    fix c1
    assume "retry sleep (connect (''127.0.0.1'', mc_port m)) (fst c + 10000) c = Some (Inr (snd (connect (''127.0.0.1'', mc_port m) c1)))"
    then show ?thesis using Cons m by auto
  qed (use m in simp)
qed simp

section \<open>The averaging loop\<close>

definition num_iters :: nat where "num_iters = 5000"

text \<open>The lambda of \<^verbatim>\<open>main\<close>: the new value, the counter, and whether to exit.\<close>

definition act_on :: "nat \<Rightarrow> real \<Rightarrow> real list \<Rightarrow> real \<times> nat \<times> bool" where
  "act_on iter self_value other_values =
     (fold (\<lambda>v sum. sum + v) other_values self_value / (of_nat (length other_values) + 1), iter + 1, iter + 1 > num_iters)"

record averager =
  ag_job :: job
  ag_neighbors :: "(tag_id \<times> real) list"
  ag_own :: real
  ag_iter :: nat
  ag_sent :: "(version_id \<times> publish_value list) list"

text \<open>Taking one neighbour's value; an empty optional must not be followed.\<close>

definition take_value :: "(publish_value list \<Rightarrow> real) \<Rightarrow> tag_id \<Rightarrow> job \<times> (tag_id \<times> real) list \<Rightarrow> (job \<times> (tag_id \<times> real) list) res" where
  "take_value of_values tag = (\<lambda>(j, vals).
     rbind (job_has_data tag j) (\<lambda>b.
       if \<not> b then Inr (j, vals)
       else rbind (get_waiter tag j) (\<lambda>_.
            rbind (value_waiter_get tag j) (\<lambda>(value_opt, j').
              case value_opt of
                None \<Rightarrow> Inl Undefined_Behaviour
              | Some v \<Rightarrow> Inr (j', AList.update tag (of_values v) vals)))))"

definition publish_own :: "(real \<Rightarrow> publish_value list) \<Rightarrow> tag_id \<Rightarrow> averager \<Rightarrow> averager res" where
  "publish_own to_values tag st =
     rbind (publish_impl tag (ag_job st)) (\<lambda>(n, j).
       Inr (st\<lparr>ag_job := j, ag_sent := ag_sent st @ [(n, to_values (ag_own st))]\<rparr>))"

definition averaging_round :: "(publish_value list \<Rightarrow> real) \<Rightarrow> (real \<Rightarrow> publish_value list) \<Rightarrow> tag_id \<Rightarrow> tag_id list
    \<Rightarrow> averager \<Rightarrow> (bool \<times> averager) res" where
  "averaging_round of_values to_values tag subscribed st =
     rbind (rfold (take_value of_values) subscribed (ag_job st, ag_neighbors st)) (\<lambda>(j, vals).
       let st1 = st\<lparr>ag_job := j, ag_neighbors := vals\<rparr>
       in if vals = [] then Inr (\<not> (\<exists>t \<in> set subscribed. tag_has_subscription t j), st1)
          else let (own, iter, should_exit) = act_on (ag_iter st1) (ag_own st1) (map snd vals)
               in rbind (publish_own to_values tag (st1\<lparr>ag_own := own, ag_iter := iter\<rparr>)) (\<lambda>st2. Inr (should_exit, st2)))"

fun averaging_loop :: "nat \<Rightarrow> (publish_value list \<Rightarrow> real) \<Rightarrow> (real \<Rightarrow> publish_value list) \<Rightarrow> (nat \<Rightarrow> job \<Rightarrow> job) \<Rightarrow> tag_id \<Rightarrow> tag_id list
    \<Rightarrow> averager \<Rightarrow> averager res" where
  "averaging_loop 0 of_values to_values sleep tag subscribed st = Inl Runs_Forever"
| "averaging_loop (Suc n) of_values to_values sleep tag subscribed st =
     rbind (averaging_round of_values to_values tag subscribed st) (\<lambda>(should_exit, st').
       if should_exit then Inr st'
       else averaging_loop n of_values to_values sleep tag subscribed (st'\<lparr>ag_job := sleep n (ag_job st')\<rparr>))"

text \<open>The whole of it, once the machine is connected and subscribed.\<close>

definition run_averaging :: "nat \<Rightarrow> (publish_value list \<Rightarrow> real) \<Rightarrow> (real \<Rightarrow> publish_value list) \<Rightarrow> (nat \<Rightarrow> job \<Rightarrow> job) \<Rightarrow> machine_config
    \<Rightarrow> real \<Rightarrow> job \<Rightarrow> averager res" where
  "run_averaging n of_values to_values sleep config initial_value j =
     (case mc_produced config of
        [] \<Rightarrow> Inl (Exit_Process 1)
      | tag # _ \<Rightarrow>
          rbind (publish_own to_values tag \<lparr>ag_job = j, ag_neighbors = [], ag_own = initial_value, ag_iter = 0, ag_sent = []\<rparr>)
            (averaging_loop n of_values to_values sleep tag (mc_subscribed config)))"

text \<open>A job in which the machine's tag is declared and all values that wait are in a range.\<close>

definition calm_job :: "(publish_value list \<Rightarrow> real) \<Rightarrow> real \<Rightarrow> real \<Rightarrow> tag_id \<Rightarrow> job \<Rightarrow> bool" where
  "calm_job of_values lo hi tag j \<longleftrightarrow> job_inv j \<and> job_buffered j \<and> has_key tag (job_produced j)
     \<and> (\<forall>t v. waiting_value t j = Some v \<longrightarrow> lo \<le> of_values v \<and> of_values v \<le> hi)"

definition in_range :: "real \<Rightarrow> real \<Rightarrow> averager \<Rightarrow> bool" where
  "in_range lo hi st \<longleftrightarrow> lo \<le> ag_own st \<and> ag_own st \<le> hi \<and> (\<forall>v \<in> snd ` set (ag_neighbors st). lo \<le> v \<and> v \<le> hi)"

lemma take_value_gather:
  assumes "gather_one of_values (i, tag) (j, vals, u) = Inr (j', vals', u')"
  shows "take_value of_values tag (j, vals) = Inr (j', vals')"
proof -
  obtain b where b: "job_has_data tag j = Inr b" using assms by (cases "job_has_data tag j") (auto simp: gather_one_def)
  show ?thesis
  proof (cases b)
    case True
    obtain w where w: "get_waiter tag j = Inr w" using assms b True by (cases "get_waiter tag j") (auto simp: gather_one_def)
    obtain v j1 where "value_waiter_get tag j = Inr (v, j1)"
      using assms b w True by (cases "value_waiter_get tag j") (auto simp: gather_one_def)
    then show ?thesis using assms b w True by (cases v) (auto simp: gather_one_def take_value_def)
  qed (use assms b in \<open>auto simp: gather_one_def take_value_def\<close>)
qed

lemma take_value_produced:
  "take_value of_values tag (j, vals) = Inr (j', vals') \<Longrightarrow> job_produced j' = job_produced j"
  by (auto simp: take_value_def value_waiter_get_def set_tag_info_def rbind_eq_Inr_iff split: option.splits if_splits)

lemma take_value_calm:
  assumes "calm_job of_values lo hi p j" "\<forall>v \<in> snd ` set vals. lo \<le> v \<and> v \<le> hi"
  shows "\<exists>j' vals'. take_value of_values tag (j, vals) = Inr (j', vals') \<and> calm_job of_values lo hi p j'
    \<and> (\<forall>v \<in> snd ` set vals'. lo \<le> v \<and> v \<le> hi) \<and> (vals \<noteq> [] \<longrightarrow> vals' \<noteq> [])"
proof -
  have j: "job_inv j" "job_buffered j" "has_key p (job_produced j)"
    "\<And>t v. waiting_value t j = Some v \<Longrightarrow> lo \<le> of_values v \<and> of_values v \<le> hi" using assms(1) by (auto simp: calm_job_def)
  from gather_one_waiting [OF j(1,2), of of_values 0 tag vals "[]"] obtain j' where
    g: "gather_one of_values (0, tag) (j, vals, []) = Inr (case waiting_value tag j of
        None \<Rightarrow> (j, vals, [])
      | Some v \<Rightarrow> (j', AList.update tag (of_values v) vals, [] @ [0]))"
    "waiting_value tag j \<noteq> None \<longrightarrow> job_inv j' \<and> job_buffered j'
        \<and> (\<forall>k. waiting_value k j' = (if k = tag then None else waiting_value k j))" by blast
  show ?thesis
  proof (cases "waiting_value tag j")
    case None
    then have "take_value of_values tag (j, vals) = Inr (j, vals)" using g(1) by (auto intro: take_value_gather)
    then show ?thesis using assms by auto
  next
    case (Some v)
    then have t: "take_value of_values tag (j, vals) = Inr (j', AList.update tag (of_values v) vals)"
      using g(1) by (auto intro: take_value_gather)
    have "calm_job of_values lo hi p j'" using g(2) Some j take_value_produced [OF t] by (simp add: calm_job_def)
    moreover have "\<forall>w \<in> snd ` set (AList.update tag (of_values v) vals). lo \<le> w \<and> w \<le> hi"
    proof
      fix w assume w: "w \<in> snd ` set (AList.update tag (of_values v) vals)"
      have "snd ` set (AList.update tag (of_values v) vals) \<subseteq> insert (of_values v) (snd ` set vals)" by (induction vals) auto
      with w consider "w = of_values v" | "w \<in> snd ` set vals" by blast
      then show "lo \<le> w \<and> w \<le> hi" using j(4) [OF Some] assms(2) by cases auto
    qed
    moreover have "AList.update tag (of_values v) vals \<noteq> []" by (cases vals) auto
    ultimately show ?thesis using t by blast
  qed
qed

lemma take_all_calm:
  assumes "calm_job of_values lo hi p j" "\<forall>v \<in> snd ` set vals. lo \<le> v \<and> v \<le> hi"
  shows "\<exists>j' vals'. rfold (take_value of_values) tags (j, vals) = Inr (j', vals') \<and> calm_job of_values lo hi p j'
    \<and> (\<forall>v \<in> snd ` set vals'. lo \<le> v \<and> v \<le> hi) \<and> (vals \<noteq> [] \<longrightarrow> vals' \<noteq> [])"
  using assms
proof (induction tags arbitrary: j vals)
  case (Cons tag tags)
  from take_value_calm [OF Cons.prems, of tag] obtain j1 vals1 where
    1: "take_value of_values tag (j, vals) = Inr (j1, vals1)" "calm_job of_values lo hi p j1"
      "\<forall>v \<in> snd ` set vals1. lo \<le> v \<and> v \<le> hi" "vals \<noteq> [] \<longrightarrow> vals1 \<noteq> []" by blast
  from Cons.IH [OF 1(2,3)] obtain j2 vals2 where
    2: "rfold (take_value of_values) tags (j1, vals1) = Inr (j2, vals2)" "calm_job of_values lo hi p j2"
      "\<forall>v \<in> snd ` set vals2. lo \<le> v \<and> v \<le> hi" "vals1 \<noteq> [] \<longrightarrow> vals2 \<noteq> []" by blast
  have "rfold (take_value of_values) (tag # tags) (j, vals) = Inr (j2, vals2)" using 1(1) 2(1) by simp
  then show ?case using 1(4) 2(2-4) by blast
qed simp

lemma average_in_range:
  assumes "lo \<le> own" "own \<le> hi" "\<forall>v \<in> set vs. lo \<le> v \<and> v \<le> hi"
  shows "lo \<le> fst (act_on iter own vs) \<and> fst (act_on iter own vs) \<le> hi"
proof -
  have f: "lo * (of_nat (length vs) + 1) \<le> fold (\<lambda>v sum. sum + v) vs own \<and> fold (\<lambda>v sum. sum + v) vs own \<le> hi * (of_nat (length vs) + 1)"
    using assms
  proof (induction vs rule: rev_induct)
    case (snoc v vs)
    then have "lo * (of_nat (length vs) + 1) \<le> fold (\<lambda>v sum. sum + v) vs own" "fold (\<lambda>v sum. sum + v) vs own \<le> hi * (of_nat (length vs) + 1)"
      "lo \<le> v" "v \<le> hi" by auto
    then show ?case by (simp add: algebra_simps)
  qed simp
  have "0 < (of_nat (length vs) + 1 :: real)" by simp
  with f show ?thesis by (simp add: act_on_def pos_le_divide_eq pos_divide_le_eq)
qed

lemma publish_calm:
  assumes "calm_job of_values lo hi tag (ag_job st)"
  shows "\<exists>n j. publish_own to_values tag st = Inr (st\<lparr>ag_job := j, ag_sent := ag_sent st @ [(n, to_values (ag_own st))]\<rparr>)
    \<and> calm_job of_values lo hi tag j"
proof -
  have "has_key tag (job_produced (ag_job st))" using assms by (simp add: calm_job_def)
  from publish_impl_next [OF this] obtain j where j: "publish_impl tag (ag_job st) = Inr (next_version tag (ag_job st), j)" by blast
  then have b: "job_bufs j = job_bufs (ag_job st)" "job_produced j = job_produced (ag_job st)" using publish_impl_bufs by blast+
  have "calm_job of_values lo hi tag j"
    using assms by (simp add: calm_job_def job_inv_def job_buffered_def waiting_value_def b)
  then show ?thesis using j by (auto simp: publish_own_def)
qed

text \<open>One round of a machine that has heard of a neighbour.\<close>

lemma round_calm:
  assumes "calm_job of_values lo hi tag (ag_job st)" "in_range lo hi st" "ag_neighbors st \<noteq> []"
  shows "\<exists>st' n. averaging_round of_values to_values tag subscribed st = Inr (ag_iter st + 1 > num_iters, st')
    \<and> calm_job of_values lo hi tag (ag_job st') \<and> in_range lo hi st' \<and> ag_neighbors st' \<noteq> []
    \<and> ag_iter st' = ag_iter st + 1 \<and> ag_sent st' = ag_sent st @ [(n, to_values (ag_own st'))]"
proof -
  have r: "\<forall>v \<in> snd ` set (ag_neighbors st). lo \<le> v \<and> v \<le> hi" "lo \<le> ag_own st" "ag_own st \<le> hi"
    using assms(2) by (simp_all add: in_range_def)
  from take_all_calm [OF assms(1) r(1), of subscribed] assms(3) obtain j vals where
    t: "rfold (take_value of_values) subscribed (ag_job st, ag_neighbors st) = Inr (j, vals)" "calm_job of_values lo hi tag j"
      "\<forall>v \<in> snd ` set vals. lo \<le> v \<and> v \<le> hi" "vals \<noteq> []" by blast
  obtain own where own: "act_on (ag_iter st) (ag_own st) (map snd vals) = (own, ag_iter st + 1, ag_iter st + 1 > num_iters)"
    by (simp add: act_on_def)
  have o: "lo \<le> own" "own \<le> hi" using average_in_range [OF r(2,3), of "map snd vals" "ag_iter st"] t(3) own by auto
  let ?st = "st\<lparr>ag_job := j, ag_neighbors := vals, ag_own := own, ag_iter := ag_iter st + 1\<rparr>"
  have "calm_job of_values lo hi tag (ag_job ?st)" using t(2) by simp
  from publish_calm [OF this, of to_values] obtain n j' where
    p: "publish_own to_values tag ?st = Inr (?st\<lparr>ag_job := j', ag_sent := ag_sent st @ [(n, to_values own)]\<rparr>)" "calm_job of_values lo hi tag j'"
    by auto
  have "averaging_round of_values to_values tag subscribed st
      = Inr (ag_iter st + 1 > num_iters, ?st\<lparr>ag_job := j', ag_sent := ag_sent st @ [(n, to_values own)]\<rparr>)"
    using t(1,4) own p(1) by (simp add: averaging_round_def)
  moreover have "in_range lo hi (?st\<lparr>ag_job := j', ag_sent := ag_sent st @ [(n, to_values own)]\<rparr>)" using o t(3) by (simp add: in_range_def)
  ultimately show ?thesis using p(2) t(4) by (intro exI conjI) auto
qed

text \<open>C22: The averaging ends: once a machine has heard of a neighbour it averages until its 5001st time, publishes after
  each, and stops, whatever arrives meanwhile; and when what arrives is in a range that its own value is in,
  so are its final value and all that it has published.\<close>

theorem averaging_ends:
  assumes "calm_job of_values lo hi tag (ag_job st)" "in_range lo hi st" "ag_neighbors st \<noteq> []" "ag_iter st \<le> num_iters"
    and "\<And>n j. calm_job of_values lo hi tag j \<Longrightarrow> calm_job of_values lo hi tag (sleep n j)"
    and "num_iters - ag_iter st < fuel"
  shows "\<exists>st' sent. averaging_loop fuel of_values to_values sleep tag subscribed st = Inr st'
    \<and> ag_iter st' = num_iters + 1 \<and> in_range lo hi st'
    \<and> ag_sent st' = ag_sent st @ sent \<and> length sent = num_iters + 1 - ag_iter st
    \<and> (\<forall>msg \<in> set sent. \<exists>x. lo \<le> x \<and> x \<le> hi \<and> snd msg = to_values x)"
  using assms(1-4,6)
proof (induction fuel arbitrary: st)
  case (Suc fuel)
  from round_calm [OF Suc.prems(1-3), of to_values subscribed] obtain st1 n where
    1: "averaging_round of_values to_values tag subscribed st = Inr (ag_iter st + 1 > num_iters, st1)"
      "calm_job of_values lo hi tag (ag_job st1)" "in_range lo hi st1" "ag_neighbors st1 \<noteq> []" "ag_iter st1 = ag_iter st + 1"
      "ag_sent st1 = ag_sent st @ [(n, to_values (ag_own st1))]" by blast
  have own: "lo \<le> ag_own st1" "ag_own st1 \<le> hi" using 1(3) by (simp_all add: in_range_def)
  show ?case
  proof (cases "ag_iter st + 1 > num_iters")
    case True
    then have "averaging_loop (Suc fuel) of_values to_values sleep tag subscribed st = Inr st1" using 1(1) by simp
    moreover have "ag_iter st = num_iters" using True Suc.prems(4) by simp
    ultimately show ?thesis using 1 own by (intro exI [of _ st1] exI [of _ "[(n, to_values (ag_own st1))]"]) auto
  next
    case False
    let ?st = "st1\<lparr>ag_job := sleep fuel (ag_job st1)\<rparr>"
    have "calm_job of_values lo hi tag (ag_job ?st)" using assms(5) 1(2) by simp
    moreover have "in_range lo hi ?st" using 1(3) by (simp add: in_range_def)
    moreover have "num_iters - ag_iter ?st < fuel" using False Suc.prems(5) 1(5) by simp
    ultimately obtain st' sent where
      2: "averaging_loop fuel of_values to_values sleep tag subscribed ?st = Inr st'" "ag_iter st' = num_iters + 1" "in_range lo hi st'"
        "ag_sent st' = ag_sent ?st @ sent" "length sent = num_iters + 1 - ag_iter ?st"
        "\<forall>msg \<in> set sent. \<exists>x. lo \<le> x \<and> x \<le> hi \<and> snd msg = to_values x"
      using Suc.IH [of ?st] 1(4,5) False Suc.prems(5) by auto
    have "averaging_loop (Suc fuel) of_values to_values sleep tag subscribed st = Inr st'" using 1(1) 2(1) False by simp
    then show ?thesis using 2 1 own False
      by (intro exI [of _ st'] exI [of _ "(n, to_values (ag_own st1)) # sent"]) auto
  qed
qed simp

lemma sample_job_calm: "calm_job of_values lo hi ''pb'' sample_job"
proof -
  have "waiting_value t sample_job = None" for t
    by (simp add: waiting_value_def sample_job_def sample_info_def new_discard_buffer_def db_has_data_def)
  then show ?thesis using sample_job_inv by (simp add: calm_job_def) (simp add: sample_job_def has_key_def)
qed

lemma averaging_ends_witness:
  "\<exists>st'. averaging_loop 5001 (\<lambda>v. 2) (\<lambda>x. [V_double 0]) (\<lambda>n j. j) ''pb'' [''pa'']
      \<lparr>ag_job = sample_job, ag_neighbors = [(''pa'', 2)], ag_own = 0, ag_iter = 0, ag_sent = []\<rparr> = Inr st'
    \<and> in_range 0 4 st' \<and> length (ag_sent st') = 5001"
proof -
  let ?st = "\<lparr>ag_job = sample_job, ag_neighbors = [(''pa'', 2)], ag_own = 0, ag_iter = 0, ag_sent = []\<rparr>"
  have "in_range 0 4 ?st" by (simp add: in_range_def)
  from averaging_ends [where st = ?st and of_values = "\<lambda>v. 2" and lo = 0 and hi = 4 and tag = "''pb''" and sleep = "\<lambda>n j. j" and fuel = 5001
      and subscribed = "[''pa'']" and to_values = "\<lambda>x. [V_double 0]", OF _ this] sample_job_calm
  show ?thesis by (auto simp: num_iters_def)
qed

end
