(* ===== verification/Spec2Isabelle.thy ===== *)
theory Spec2Isabelle
  imports Sky_Message_Loop Sky_Admm_Group Sky_Big_Float Sky_Policies Sky_Handles Sky_Admm_Threads Sky_Ring_Machines Sky_Averaging
begin

text \<open>
  Skywing: a verification development.

  Skywing (\<^verbatim>\<open>src/skywing\<close>) runs collective computations on machines that find one another and send values to one
  another under tags. The core (\<^verbatim>\<open>skywing_core\<close>) has for each machine a \<^verbatim>\<open>Manager\<close>, which talks to its neighbours
  over sockets, and jobs, which publish and subscribe to tags and take part in reduce groups. The layer above
  (\<^verbatim>\<open>skywing_mid\<close>) iterates: a method gathers what the neighbours have published, lets a processor update its
  state and publishes again. Here the whole program is modelled from the bytes of a socket to the processors, in
  definitions that follow the code function by function, with the theorems that make the parts correct and that
  join them.

  \<^bold>\<open>How the code is modelled.\<close> An operation that can call \<^verbatim>\<open>exit\<close>, fail an assertion, throw, have undefined behaviour
  or run for ever has a result of type \<open>'a res\<close>, whose left side says which (\<open>Sky_Prelude\<close>). The state of an object is
  a record, which an operation takes and gives back; the hash containers are association lists, so that their
  order is that of the list and every theorem holds for every order that insertion can produce. Machine integers are
  words where they can wrap. Mutexes and condition variables of the core are not there: an operation that takes the
  lock is one step, and the runs of a component interleave its steps in any order; a wait takes the steps of the
  other threads as a function. Only the threads of the ADMM example, which have a barrier of their own, are followed
  access by access. \<^verbatim>\<open>double\<close> is the type of the real numbers, or any field. What is not under \<^verbatim>\<open>src/\<close>, the code
  that Cap'n Proto generates, the operating system, the clock and random numbers, is an argument of the
  definitions; the hypotheses about it are that parsing a message gives what was serialized and that time goes on.

  \<^bold>\<open>The theories\<close>, in the order of their imports.

  \<^item> \<open>Sky_Prelude\<close>: results, folds over fallible operations, association lists, and the locale \<open>invariant_run\<close>: what holds at
    the start and is kept by every step holds in every run. It is interpreted for jobs, reduce groups and managers.
  \<^item> \<open>Sky_Types\<close> (\<^verbatim>\<open>types.hpp\<close>, \<^verbatim>\<open>type_list.hpp\<close>): identifiers, the 25 published types, tags and their markers. \<open>Sky_Algorithms\<close>
    (\<^verbatim>\<open>algorithms.hpp\<close>): \<^verbatim>\<open>split\<close> with its inverse, concatenation and merging.
  \<^item> \<open>Sky_Network\<close> (\<^verbatim>\<open>network_conv.cpp\<close>, \<^verbatim>\<open>socket_communicator.cpp\<close>): sizes in network order, addresses, non-blocking connections
    and \<^verbatim>\<open>read_chunked\<close>, with the theorem on what it reads and, among its lemmas, that it loses messages of
    certain lengths. \<open>Sky_Handles\<close>: the system calls around a handle and who owns it through moves and assignments.
  \<^item> \<open>Sky_Messages\<close> (\<^verbatim>\<open>capn_proto_wrapper\<close>, \<^verbatim>\<open>publish_value_handler.hpp\<close>, \<^verbatim>\<open>message_creators.cpp\<close>): the twelve messages, how they are
    built and dispatched, and the conversion of published values both ways.
  \<^item> \<open>Sky_Tag_Buffer\<close> (\<^verbatim>\<open>tag_buffer.hpp\<close>): the buffer of the latest version, which meets the interface \<open>version_buffer\<close>, and the
    buffer of all versions, a queue.
  \<^item> \<open>Sky_Job\<close> (\<^verbatim>\<open>job.cpp\<close>, \<^verbatim>\<open>job.hpp\<close>): subscriptions, arriving data, waiters, published versions and the places in a reduce
    tree; the invariant of a job, what each branch of \<^verbatim>\<open>process_data\<close> does, and that runs have no undefined
    behaviour as long as nothing is rebuilt.
  \<^item> \<open>Sky_Reduce_Group\<close> (\<^verbatim>\<open>reduce_group.hpp\<close>, \<^verbatim>\<open>reduce_group.cpp\<close>): the part of a group on one machine: rounds of a reduction in any
    order of arrival, disconnections and rebuilding; \<open>tree_reduce\<close>, the value of a whole tree.
  \<^item> \<open>Sky_External_Manager\<close> (\<^verbatim>\<open>internal::ExternalManager\<close> of \<^verbatim>\<open>manager.cpp\<close>): what a manager keeps of one machine, its sorted list
    of neighbours, the backoff of requests and the reading of framed messages.
  \<^item> \<open>Sky_Manager\<close> (\<^verbatim>\<open>manager.cpp\<close>, \<^verbatim>\<open>manager.hpp\<close>, \<^verbatim>\<open>manager_waiter_callables.cpp\<close>): every operation of the manager, the handlers of all
    messages, pending connections and the pass of the main loop. \<open>Sky_Manager_Runs\<close> proves the invariant of the
    manager for every operation; \<open>Sky_Manager_Props\<close> draws the facts about runs from it; \<open>Sky_Publishers\<close> follows a
    search for publishers, a connection and a published value from one machine to the other; \<open>Sky_Message_Loop\<close> shows that
    the loop over a socket's messages and the handlers it calls come to an end.
  \<^item> \<open>Sky_Reduce_System\<close>: all members of a group and the messages between them as a step relation, with a record of what the
    groups have asked their managers to send. The values that the members have sent and stored (\<open>values_of\<close>) refine the
    evaluation of the tree (\<open>tree_step\<close>), and every run comes to an end.
  \<^item> \<open>Sky_Waiter\<close> (\<^verbatim>\<open>waiter.hpp\<close>): waiters, vectors of waiters, continuations.
  \<^item> \<open>Sky_Pubsub_Converter\<close> (\<^verbatim>\<open>pubsub_converter.hpp\<close>): the conversion of tuples, maps and vectors to native values; the
    interface \<open>converter\<close>, which associative vectors and big numbers meet too.
  \<^item> \<open>Sky_Neighbor_Data\<close> (\<^verbatim>\<open>neighbor_data_handler.hpp\<close>), \<open>Sky_Iterative\<close> (\<^verbatim>\<open>iterative_method.hpp\<close> and the loops of \<^verbatim>\<open>asynchronous_iterative.hpp\<close>
    and \<^verbatim>\<open>synchronous_iterative.hpp\<close>), \<open>Sky_Policies\<close> (\<^verbatim>\<open>publish_policies.hpp\<close>, \<^verbatim>\<open>iterative_helpers.hpp\<close>, the constructors and
    builders): the frame of an iterative method and how its components get their own values.
  \<^item> \<open>Sky_Mean_Processors\<close> (\<^verbatim>\<open>push_sum_processor.hpp\<close>, \<^verbatim>\<open>push_flow_processor.hpp\<close>), \<open>Sky_Processors\<close> (\<^verbatim>\<open>idempotent_processor.hpp\<close>,
    \<^verbatim>\<open>quacc_processor.hpp\<close>, \<^verbatim>\<open>sum_processor.hpp\<close>, \<^verbatim>\<open>jacobi_processor.hpp\<close>), \<open>Sky_Associative\<close> (\<^verbatim>\<open>associative_vector.hpp\<close>,
    \<^verbatim>\<open>power_method_processor.hpp\<close>): the numerical methods, with what they conserve, what they reach and what their fixed
    points are. \<open>Sky_Big_Float\<close> (\<^verbatim>\<open>big_float.hpp\<close>): big numbers, whose order is that of their
    values and whose arithmetic is compared with the exact one; the normal ones are a type of the class \<open>linorder\<close>, which
    the processors of minima and maxima ask for.
  \<^item> \<open>Sky_Config\<close> (\<^verbatim>\<open>helpers/skynet_config.hpp\<close>), \<open>Sky_Setup\<close> (\<^verbatim>\<open>basic_manager_config.cpp\<close>, \<^verbatim>\<open>helpers/skynet_helper.hpp\<close>): configuration
    files and the helpers that wait. \<open>Sky_Streams\<close> writes \<^verbatim>\<open>operator>>\<close> out for numbers and truth values, each a model
    of the interface \<open>stream_reader\<close>; the values of a configuration and the matrix files of \<open>Sky_Data_Input\<close>
    (\<^verbatim>\<open>data_input.hpp\<close>) rest on it.
  \<^item> \<open>Sky_Admm\<close> (\<^verbatim>\<open>examples/admm/admm.cpp\<close>): a program on top of a reduce group. What it asks of its average is the locale
    \<open>averaging\<close>, which the reduction and the shared arrays of the local run both provide with real numbers. \<open>Sky_Admm_Group\<close>
    has the reduction in a run of the reduce group, on the bits of a \<^verbatim>\<open>double\<close> and for any addition of two of them: there the
    two ways agree up to the order of the summation. \<open>Sky_Admm_Threads\<close> has the threads of
    that local run step by step: they are free of races, compute the same iterations and come to an end.
  \<^item> \<open>Sky_Jacobi_System\<close>: all machines of a Jacobi iteration and the messages in flight between them, as a step relation
    over the operations of \<open>Sky_Neighbor_Data\<close> and \<open>Sky_Processors\<close>: no step fails, and when every machine has
    computed with newer values the error has gone down by a factor. \<open>Sky_Jacobi_Example\<close>
    (\<^verbatim>\<open>examples/async_jacobi/async_jacobi.cpp\<close>, \<^verbatim>\<open>examples/sync_jacobi/sync_jacobi.cpp\<close>): the programs that start it, with
    their arguments, their files and the report at their end.
  \<^item> \<open>Sky_Examples\<close> (\<^verbatim>\<open>hello_world.cpp\<close>, \<^verbatim>\<open>lc_hello_world.cpp\<close>, \<^verbatim>\<open>mean_or_sum.cpp\<close>, \<^verbatim>\<open>collective_count.cpp\<close>, \<^verbatim>\<open>power_method.cpp\<close>):
    the sums that the first two check, and the rings of machines that the others build; \<open>Sky_Ring_Machines\<close> follows these from
    the command line. \<open>Sky_Averaging\<close>
    (\<^verbatim>\<open>examples/asynchronous_iterative\<close>): the files of machines in both formats, which are models of the interface
    \<open>config_format\<close>, and the loop that averages.

  \<^bold>\<open>What the theorems show.\<close> The properties are numbered \<open>C1\<close>, \<open>C2\<close> and so on where they are proved, the most important
  first. The first group is about the core as a system: no pointer of a manager dangles, a published value reaches
  the job that waits for it, knowledge about publishers spreads, dead neighbours leave nothing behind, and a
  reduction, interleaved in any way, computes the tree and completes. The second group is about the single parts: the
  invariants and the branches of jobs, groups and buffers, and the round trips of messages, values, converters and
  files. The third is about the numerical methods: among them, that the machines of a Jacobi iteration, which send and
  receive in any order, are safe and converge (\<open>jacobi_machines_safe\<close>, \<open>jacobi_converges\<close>), and that five threads behind a hand-made
  barrier compute the iterations of the program in step (\<open>local_threads_refine\<close>). Some theorems state what the code does where it is not what a
  comment says, such as the test of the stopping criterion (\<open>async_stop_inverted\<close>) or the move assignment that
  leaks a handle (\<open>handles_owned\<close>).

  \<^bold>\<open>Bounds.\<close> The loop over the messages of a socket has as much fuel as bytes have arrived, plus one, and
  \<open>message_loop_ends\<close> shows that more makes no difference, since every message takes bytes from the socket. A free port
  is looked for among all 65536, and the same theorem shows that one is found while fewer connections and tags are pending. The loops of the iterative methods are followed for a number of rounds, which is
  a parameter of every statement. Interpolation makes at most eleven passes, as the code does. The hill climb makes
  at most a thousand rounds and the loop of the averaging example at most 5001, as the code does; the loops that may not end, waiting and the iterations of ADMM,
  are \<open>partial_function (option)\<close>.

  \<^bold>\<open>Not modelled.\<close> Logging, the locks, the headers for portability, tests, scripts, the examples of big
  numbers and of HELICS, and what the other examples print. Of modelled files: rounding and the range of \<^verbatim>\<open>double\<close>
  in the numerical methods; the converter of \<^verbatim>\<open>char*\<close>, which hands out a pointer
  into its argument; the output operators; the members that cannot be instantiated (\<^verbatim>\<open>rebuild_dead_tags_range\<close> and
  \<^verbatim>\<open>drop_dead_tags\<close> of a range, \<^verbatim>\<open>f_sum\<close> and the weighted sums of the data handler); the accessors of \<^verbatim>\<open>manager.hpp\<close> that
  only pass a call on; interleavings of the threads of the core finer than one operation. A connection attempt whose own wait never ends
  is outside the model of the helpers.
\<close>

end
